(* ===== verification/Prelude.thy ===== *)
theory Prelude
  imports Main "HOL-Library.Word" "HOL-Library.Monad_Syntax"
begin

unbundle bit_operations_syntax

text \<open>
  The vocabulary the component theories share: the machine integers of the C sources, the
  \<^verbatim>\<open>errno\<close> values the code returns (as the negative \<^verbatim>\<open>int\<close> results of C), bounds-checked
  reads of a byte buffer, the C string helpers the sources call, and the lemmas about them
  that the component proofs use.
\<close>

section \<open>Machine integers and error codes\<close>

type_synonym u8 = "8 word"
type_synonym u16 = "16 word"
type_synonym u32 = "32 word"
type_synonym u64 = "64 word"

text \<open>A C buffer: the bytes it holds, in order.\<close>

type_synonym bytes = "u8 list"

text \<open>
  Functions of the sources return \<^verbatim>\<open>0\<close> or a negated \<^verbatim>\<open>errno\<close>; the model returns the same
  \<^typ>\<open>int\<close>. The values are those of \<^verbatim>\<open>include/linux/errno.h\<close>.
\<close>

abbreviation (input) ENOENT :: int where "ENOENT \<equiv> 2"
abbreviation (input) EIO :: int where "EIO \<equiv> 5"
abbreviation (input) EAGAIN :: int where "EAGAIN \<equiv> 11"
abbreviation (input) ENOMEM :: int where "ENOMEM \<equiv> 12"
abbreviation (input) EACCES :: int where "EACCES \<equiv> 13"
abbreviation (input) EBUSY :: int where "EBUSY \<equiv> 16"
abbreviation (input) EEXIST :: int where "EEXIST \<equiv> 17"
abbreviation (input) ENODEV :: int where "ENODEV \<equiv> 19"
abbreviation (input) EINVAL :: int where "EINVAL \<equiv> 22"
abbreviation (input) ENFILE :: int where "ENFILE \<equiv> 23"
abbreviation (input) EFBIG :: int where "EFBIG \<equiv> 27"
abbreviation (input) ENOSPC :: int where "ENOSPC \<equiv> 28"
abbreviation (input) EROFS :: int where "EROFS \<equiv> 30"
abbreviation (input) ENAMETOOLONG :: int where "ENAMETOOLONG \<equiv> 36"
abbreviation (input) EBADMSG :: int where "EBADMSG \<equiv> 74"
abbreviation (input) EOPNOTSUPP :: int where "EOPNOTSUPP \<equiv> 95"
abbreviation (input) EUCLEAN :: int where "EUCLEAN \<equiv> 117"
abbreviation (input) ENOTSUPP :: int where "ENOTSUPP \<equiv> 524"

named_theorems buf_simps "reads and slices of byte buffers"

section \<open>Bounds-checked buffer access\<close>

text \<open>
  A read outside the buffer is undefined behaviour in C. The model makes it the value
  \<^term>\<open>None\<close>, so that a theorem which says that a routine returns \<^term>\<open>Some\<close> result also says
  that it stays inside the buffer.
\<close>

definition rd :: "'a list \<Rightarrow> nat \<Rightarrow> 'a option" where
  "rd m p = (if p < length m then Some (m ! p) else None)"

definition rd_slice :: "'a list \<Rightarrow> nat \<Rightarrow> nat \<Rightarrow> 'a list option" where
  "rd_slice m p n = (if p + n \<le> length m then Some (take n (drop p m)) else None)"

text \<open>Overwrite the bytes of a buffer from an offset on; the length never changes.\<close>

definition overwrite :: "nat \<Rightarrow> 'a list \<Rightarrow> 'a list \<Rightarrow> 'a list" where
  "overwrite p xs m = take p m @ take (length m - p) xs @ drop (p + length xs) m"

definition wr :: "'a list \<Rightarrow> nat \<Rightarrow> 'a \<Rightarrow> 'a list option" where
  "wr m p v = (if p < length m then Some (m[p := v]) else None)"

definition wr_slice :: "'a list \<Rightarrow> nat \<Rightarrow> 'a list \<Rightarrow> 'a list option" where
  "wr_slice m p xs = (if p + length xs \<le> length m then Some (overwrite p xs m) else None)"

lemma rd_in [buf_simps]: "p < length m \<Longrightarrow> rd m p = Some (m ! p)"
  by (simp add: rd_def)

lemma rd_eq_None [buf_simps]: "rd m p = None \<longleftrightarrow> length m \<le> p"
  by (auto simp: rd_def)

lemma rd_SomeD: "rd m p = Some b \<Longrightarrow> p < length m \<and> m ! p = b"
  by (simp add: rd_def split: if_splits)

lemma rd_slice_in [buf_simps]: "p + n \<le> length m \<Longrightarrow> rd_slice m p n = Some (take n (drop p m))"
  by (simp add: rd_slice_def)

lemma rd_slice_length: "rd_slice m p n = Some xs \<Longrightarrow> length xs = n"
  by (auto simp: rd_slice_def split: if_splits)

lemma length_overwrite [simp]: "length (overwrite p xs m) = length m"
  by (simp add: overwrite_def)

lemma nth_overwrite:
  assumes "i < length m"
  shows "overwrite p xs m ! i = (if p \<le> i \<and> i < p + length xs then xs ! (i - p) else m ! i)"
  using assms by (auto simp: overwrite_def nth_append min_def)

lemma take_drop_overwrite:
  assumes "p + length xs \<le> length m"
  shows "take (length xs) (drop p (overwrite p xs m)) = xs"
  using assms by (simp add: overwrite_def min_def)

lemma slice_eq_nth:
  "p + n \<le> length m \<Longrightarrow> (take n (drop p m) = xs) =
     (length xs = n \<and> (\<forall>i<n. m ! (p + i) = xs ! i))"
  by (auto simp: list_eq_iff_nth_eq)

section \<open>C strings\<close>

text \<open>
  A C string is a \<^typ>\<open>string\<close> without NUL; \<^verbatim>\<open>strcmp\<close> and \<^verbatim>\<open>strncmp\<close> are used by the sources
  as equality tests only. \<open>strchr\<close> and \<open>strstr\<close> return the suffix that starts at the match.
\<close>

definition strncmp_eq :: "string \<Rightarrow> string \<Rightarrow> nat \<Rightarrow> bool" where
  "strncmp_eq a b n = (take n a = take n b)"

fun strchr :: "string \<Rightarrow> char \<Rightarrow> string option" where
  "strchr [] c = None"
| "strchr (x # xs) c = (if x = c then Some (x # xs) else strchr xs c)"

text \<open>
  Copying into a buffer of \<open>n\<close> bytes: \<^verbatim>\<open>strlcpy\<close> keeps at most \<open>n - 1\<close> characters.
\<close>

definition strlcpy :: "nat \<Rightarrow> string \<Rightarrow> string" where
  "strlcpy n s = take (n - 1) s"

section \<open>Words\<close>

lemma unat_u8_less: "unat (b :: u8) < 256"
  by (rule less_le_trans [OF unsigned_less]) simp

lemma unat_of_nat_small: "n < 2 ^ LENGTH('a::len) \<Longrightarrow> unat (of_nat n :: 'a word) = n"
  by (simp add: unsigned_of_nat take_bit_nat_eq_self_iff)

lemma word_eq_of_nat: "unat w = n \<Longrightarrow> w = of_nat n"
  by auto

end
