(* ===== verification/Mtd.thy ===== *)
theory Mtd
  imports Prelude
begin

text \<open>
  The MTD layer the recovery code sits on: the bounds-checking entry points of
  \<^verbatim>\<open>drivers/mtd/mtdcore.c\<close> and the address translation of \<^verbatim>\<open>drivers/mtd/mtdpart.c\<close>. A device is a
  record with the fields of \<^verbatim>\<open>struct mtd_info\<close> the code reads and its driver methods; a method is a
  function on the state \<open>'d\<close> behind the driver (the flash chip and its driver) and may fail. Byte
  offsets (\<^verbatim>\<open>loff_t\<close>) are integers, lengths are natural numbers.
\<close>

section \<open>The device record\<close>

text \<open>
  A read returns its code and the bytes it stored (their number is \<^verbatim>\<open>retlen\<close>); a write returns its
  code and \<^verbatim>\<open>retlen\<close>. A method the driver does not provide (a NULL pointer) is \<^term>\<open>None\<close>; \<^verbatim>\<open>_erase\<close>
  is never NULL. \<open>mtd_offset\<close> is the position of a partition in its parent, \<open>0\<close> for a master.
\<close>

record 'd mtd_info =
  mtd_name :: string
  mtd_dev_name :: "string option"
  mtd_is_partition :: bool
  mtd_size :: nat
  mtd_erasesize :: nat
  mtd_writesize :: nat
  mtd_oobsize :: nat
  mtd_writeable :: bool
  mtd_offset :: nat
  mtd_ecc_strength :: nat
  mtd_bitflip_threshold :: int
  drv_erase :: "int \<Rightarrow> nat \<Rightarrow> 'd \<Rightarrow> int \<times> 'd"
  drv_read :: "(int \<Rightarrow> nat \<Rightarrow> 'd \<Rightarrow> (int \<times> bytes) \<times> 'd) option"
  drv_read_oob :: "(int \<Rightarrow> nat \<Rightarrow> 'd \<Rightarrow> (int \<times> bytes) \<times> 'd) option"
  drv_write :: "(int \<Rightarrow> bytes \<Rightarrow> 'd \<Rightarrow> (int \<times> nat) \<times> 'd) option"
  drv_write_oob :: "(int \<Rightarrow> bytes \<Rightarrow> 'd \<Rightarrow> (int \<times> nat) \<times> 'd) option"
  drv_unlock :: "(int \<Rightarrow> nat \<Rightarrow> 'd \<Rightarrow> int \<times> 'd) option"
  drv_block_isbad :: "(int \<Rightarrow> 'd \<Rightarrow> int \<times> 'd) option"
  drv_block_markbad :: "(int \<Rightarrow> 'd \<Rightarrow> int \<times> 'd) option"

section \<open>mtdcore.c\<close>

definition mtd_erase :: "'d mtd_info \<Rightarrow> int \<Rightarrow> nat \<Rightarrow> 'd \<Rightarrow> int \<times> 'd" where
  "mtd_erase mtd addr len d =
    (if addr < 0 \<or> addr > int (mtd_size mtd) \<or> int len > int (mtd_size mtd) - addr then (-EINVAL, d)
     else if \<not> mtd_writeable mtd then (-EROFS, d)
     else if len = 0 then (0, d)
     else drv_erase mtd addr len d)"

text \<open>
  In \<^verbatim>\<open>mtd_erase\<close> the address is unsigned, so that a negative one is beyond every size: the model
  makes that case explicit.
\<close>

definition mtd_read :: "'d mtd_info \<Rightarrow> int \<Rightarrow> nat \<Rightarrow> 'd \<Rightarrow> (int \<times> bytes) \<times> 'd" where
  "mtd_read mtd from len d =
    (if from < 0 \<or> from > int (mtd_size mtd) \<or> int len > int (mtd_size mtd) - from
     then ((-EINVAL, []), d)
     else if len = 0 then ((0, []), d)
     else
       let finish = (\<lambda>((ret_code, buf), d).
             if ret_code < 0 then ((ret_code, buf), d)
             else if mtd_ecc_strength mtd = 0 then ((0, buf), d)
             else ((if ret_code \<ge> mtd_bitflip_threshold mtd then -EUCLEAN else 0, buf), d)) in
       case drv_read mtd of
         Some rdf \<Rightarrow> finish (rdf from len d)
       | None \<Rightarrow>
           (case drv_read_oob mtd of
              Some rdf \<Rightarrow> finish (rdf from len d)
            | None \<Rightarrow> ((-ENOTSUPP, []), d)))"

definition mtd_write :: "'d mtd_info \<Rightarrow> int \<Rightarrow> bytes \<Rightarrow> 'd \<Rightarrow> (int \<times> nat) \<times> 'd" where
  "mtd_write mtd to buf d =
    (if to < 0 \<or> to > int (mtd_size mtd) \<or> int (length buf) > int (mtd_size mtd) - to
     then ((-EINVAL, 0), d)
     else if (drv_write mtd = None \<and> drv_write_oob mtd = None) \<or> \<not> mtd_writeable mtd
     then ((-EROFS, 0), d)
     else if length buf = 0 then ((0, 0), d)
     else
       case drv_write mtd of
         Some wrf \<Rightarrow> wrf to buf d
       | None \<Rightarrow>
           (case drv_write_oob mtd of
              Some wrf \<Rightarrow> wrf to buf d
            | None \<Rightarrow> ((-EROFS, 0), d)))"

definition mtd_unlock :: "'d mtd_info \<Rightarrow> int \<Rightarrow> nat \<Rightarrow> 'd \<Rightarrow> int \<times> 'd" where
  "mtd_unlock mtd ofs len d =
    (case drv_unlock mtd of
       None \<Rightarrow> (-EOPNOTSUPP, d)
     | Some unlock \<Rightarrow>
         if ofs < 0 \<or> ofs > int (mtd_size mtd) \<or> int len > int (mtd_size mtd) - ofs then (-EINVAL, d)
         else if len = 0 then (0, d)
         else unlock ofs len d)"

definition mtd_block_isbad :: "'d mtd_info \<Rightarrow> int \<Rightarrow> 'd \<Rightarrow> int \<times> 'd" where
  "mtd_block_isbad mtd ofs d =
    (if ofs < 0 \<or> ofs > int (mtd_size mtd) then (-EINVAL, d)
     else case drv_block_isbad mtd of None \<Rightarrow> (0, d) | Some isbad \<Rightarrow> isbad ofs d)"

definition mtd_block_markbad :: "'d mtd_info \<Rightarrow> int \<Rightarrow> 'd \<Rightarrow> int \<times> 'd" where
  "mtd_block_markbad mtd ofs d =
    (case drv_block_markbad mtd of
       None \<Rightarrow> (-EOPNOTSUPP, d)
     | Some markbad \<Rightarrow>
         if ofs < 0 \<or> ofs > int (mtd_size mtd) then (-EINVAL, d)
         else if \<not> mtd_writeable mtd then (-EROFS, d)
         else markbad ofs d)"

text \<open>
  Looking a device up by name. \<open>of_dev\<close> tells whether a path names the device behind a master
  (the device-model lookup of the first test). The last device that matches wins.
\<close>

definition mtd_device_matches_name ::
    "('d mtd_info \<Rightarrow> string \<Rightarrow> bool) \<Rightarrow> 'd mtd_info \<Rightarrow> string \<Rightarrow> bool" where
  "mtd_device_matches_name of_dev mtd name =
    ((\<not> mtd_is_partition mtd \<and> name \<noteq> [] \<and> hd name = CHR ''/'' \<and> of_dev mtd name) \<or>
     name = mtd_name mtd \<or>
     (mtd_is_partition mtd \<and> mtd_dev_name mtd = Some name))"

definition get_mtd_device_nm ::
    "('d mtd_info \<Rightarrow> string \<Rightarrow> bool) \<Rightarrow> 'd mtd_info list \<Rightarrow> string \<Rightarrow> int + 'd mtd_info" where
  "get_mtd_device_nm of_dev table name =
    (case filter (\<lambda>m. mtd_device_matches_name of_dev m name) table of
       [] \<Rightarrow> Inl (-ENODEV)
     | ms \<Rightarrow> Inr (last ms))"

section \<open>mtdpart.c\<close>

text \<open>The methods of a partition at offset \<open>ofs\<close> with size \<open>sz\<close> of the device \<open>p\<close>.\<close>

definition part_erase :: "'d mtd_info \<Rightarrow> nat \<Rightarrow> int \<Rightarrow> nat \<Rightarrow> 'd \<Rightarrow> int \<times> 'd" where
  "part_erase p ofs addr len d = drv_erase p (addr + int ofs) len d"

definition part_read ::
    "(int \<Rightarrow> nat \<Rightarrow> 'd \<Rightarrow> (int \<times> bytes) \<times> 'd) \<Rightarrow> nat \<Rightarrow> int \<Rightarrow> nat \<Rightarrow> 'd \<Rightarrow> (int \<times> bytes) \<times> 'd" where
  "part_read parent_read ofs from len d = parent_read (from + int ofs) len d"

definition part_read_oob ::
    "(int \<Rightarrow> nat \<Rightarrow> 'd \<Rightarrow> (int \<times> bytes) \<times> 'd) \<Rightarrow> nat \<Rightarrow> nat \<Rightarrow> int \<Rightarrow> nat \<Rightarrow> 'd \<Rightarrow> (int \<times> bytes) \<times> 'd" where
  "part_read_oob parent_read_oob ofs sz from len d =
    (if from \<ge> int sz then ((-EINVAL, []), d)
     else if from + int len > int sz then ((-EINVAL, []), d)
     else parent_read_oob (from + int ofs) len d)"

definition part_write ::
    "(int \<Rightarrow> bytes \<Rightarrow> 'd \<Rightarrow> (int \<times> nat) \<times> 'd) \<Rightarrow> nat \<Rightarrow> int \<Rightarrow> bytes \<Rightarrow> 'd \<Rightarrow> (int \<times> nat) \<times> 'd" where
  "part_write parent_write ofs to buf d = parent_write (to + int ofs) buf d"

definition part_write_oob ::
    "(int \<Rightarrow> bytes \<Rightarrow> 'd \<Rightarrow> (int \<times> nat) \<times> 'd) \<Rightarrow> nat \<Rightarrow> nat \<Rightarrow> int \<Rightarrow> bytes \<Rightarrow> 'd \<Rightarrow> (int \<times> nat) \<times> 'd" where
  "part_write_oob parent_write_oob ofs sz to buf d =
    (if to \<ge> int sz then ((-EINVAL, 0), d)
     else if to + int (length buf) > int sz then ((-EINVAL, 0), d)
     else parent_write_oob (to + int ofs) buf d)"

definition part_unlock ::
    "(int \<Rightarrow> nat \<Rightarrow> 'd \<Rightarrow> int \<times> 'd) \<Rightarrow> nat \<Rightarrow> int \<Rightarrow> nat \<Rightarrow> 'd \<Rightarrow> int \<times> 'd" where
  "part_unlock parent_unlock ofs a len d = parent_unlock (a + int ofs) len d"

definition part_block_isbad :: "(int \<Rightarrow> 'd \<Rightarrow> int \<times> 'd) \<Rightarrow> nat \<Rightarrow> int \<Rightarrow> 'd \<Rightarrow> int \<times> 'd" where
  "part_block_isbad parent_isbad ofs a d = parent_isbad (a + int ofs) d"

definition part_block_markbad :: "(int \<Rightarrow> 'd \<Rightarrow> int \<times> 'd) \<Rightarrow> nat \<Rightarrow> int \<Rightarrow> 'd \<Rightarrow> int \<times> 'd" where
  "part_block_markbad parent_markbad ofs a d = parent_markbad (a + int ofs) d"

text \<open>
  The offset of a partition description: a position, or one of the special values of
  \<^verbatim>\<open>include/linux/mtd/partitions.h\<close>.
\<close>

datatype part_offset = At nat | MTDPART_OFS_APPEND | MTDPART_OFS_NXTBLK | MTDPART_OFS_RETAIN

text \<open>
  \<^verbatim>\<open>allocate_partition\<close>, for devices with a single erase size as NAND has. The result of the first
  step is the offset and the size, and whether the partition is live; a partition that is not is
  registered without erase size and without ECC parameters. \<open>rdonly\<close> says that the description
  masks \<^verbatim>\<open>MTD_WRITEABLE\<close>; a size of 0 is \<^verbatim>\<open>MTDPART_SIZ_FULL\<close>. Differences of 64-bit sizes wrap.
\<close>

definition sub64 :: "nat \<Rightarrow> nat \<Rightarrow> nat" where
  "sub64 a b = (a + 2 ^ 64 - b) mod 2 ^ 64"

definition part_extent :: "'d mtd_info \<Rightarrow> part_offset \<Rightarrow> nat \<Rightarrow> nat \<Rightarrow> bool \<times> nat \<times> nat" where
  "part_extent p po psize cur_offset =
    (let ofs = (case po of
                  At n \<Rightarrow> n
                | MTDPART_OFS_APPEND \<Rightarrow> cur_offset
                | MTDPART_OFS_NXTBLK \<Rightarrow>
                    if cur_offset mod mtd_erasesize p \<noteq> 0
                    then (cur_offset div mtd_erasesize p + 1) * mtd_erasesize p else cur_offset
                | MTDPART_OFS_RETAIN \<Rightarrow> cur_offset) in
     if po = MTDPART_OFS_RETAIN \<and> sub64 (mtd_size p) ofs < psize then (False, ofs, psize)
     else
       let sz = (if po = MTDPART_OFS_RETAIN then sub64 (sub64 (mtd_size p) ofs) psize else psize);
           sz = (if sz = 0 then sub64 (mtd_size p) ofs else sz) in
       if ofs \<ge> mtd_size p then (False, 0, 0)
       else if ofs + sz > mtd_size p then (True, ofs, mtd_size p - ofs)
       else (True, ofs, sz))"

definition allocate_partition ::
    "'d mtd_info \<Rightarrow> string \<Rightarrow> part_offset \<Rightarrow> nat \<Rightarrow> bool \<Rightarrow> nat \<Rightarrow> 'd mtd_info" where
  "allocate_partition p name po psize rdonly cur_offset =
    (let (live, ofs, sz) = part_extent p po psize cur_offset;
         es = (if live then mtd_erasesize p else 0);
         wrt = (mtd_writeable p \<and> \<not> rdonly);
         wrt = (if live \<and> (ofs mod es \<noteq> 0 \<or> sz mod es \<noteq> 0) then False else wrt) in
     \<lparr>mtd_name = name, mtd_dev_name = None, mtd_is_partition = True, mtd_size = sz,
      mtd_erasesize = es, mtd_writesize = mtd_writesize p, mtd_oobsize = mtd_oobsize p,
      mtd_writeable = wrt, mtd_offset = ofs,
      mtd_ecc_strength = (if live then mtd_ecc_strength p else 0),
      mtd_bitflip_threshold = (if live then mtd_bitflip_threshold p else 0),
      drv_erase = part_erase p ofs,
      drv_read = map_option (\<lambda>f. part_read f ofs) (drv_read p),
      drv_read_oob = map_option (\<lambda>f. part_read_oob f ofs sz) (drv_read_oob p),
      drv_write = map_option (\<lambda>f. part_write f ofs) (drv_write p),
      drv_write_oob = map_option (\<lambda>f. part_write_oob f ofs sz) (drv_write_oob p),
      drv_unlock = map_option (\<lambda>f. part_unlock f ofs) (drv_unlock p),
      drv_block_isbad = map_option (\<lambda>f. part_block_isbad f ofs) (drv_block_isbad p),
      drv_block_markbad = map_option (\<lambda>f. part_block_markbad f ofs) (drv_block_markbad p)\<rparr>)"

section \<open>The driver contract\<close>

text \<open>
  What the code relies on of a flash driver, relative to a view \<open>content\<close> of the flash: the byte a
  correct read of an address of the chip returns. Every method only touches the range it is
  given (marking a block bad, that block); a read changes nothing, and returns the bytes of its
  range when it does not fail; a successful erase leaves \<open>0xff\<close>. Nothing is assumed of what a
  failing method leaves in its range, nor of what a write programs: the code reads back.
\<close>

definition same_outside :: "(int \<Rightarrow> u8) \<Rightarrow> (int \<Rightarrow> u8) \<Rightarrow> int \<Rightarrow> int \<Rightarrow> bool" where
  "same_outside c c' a b \<longleftrightarrow> (\<forall>x. x < a \<or> b \<le> x \<longrightarrow> c' x = c x)"

definition view :: "('d \<Rightarrow> int \<Rightarrow> u8) \<Rightarrow> 'd \<Rightarrow> int \<Rightarrow> nat \<Rightarrow> bytes" where
  "view content d a n = map (\<lambda>i. content d (a + int i)) [0..<n]"

definition reads_ok :: "('d \<Rightarrow> int \<Rightarrow> u8) \<Rightarrow> int \<Rightarrow> (int \<Rightarrow> nat \<Rightarrow> 'd \<Rightarrow> (int \<times> bytes) \<times> 'd) option \<Rightarrow> bool" where
  "reads_ok content base f \<longleftrightarrow>
    (\<forall>g a n d ret buf d'. f = Some g \<longrightarrow> g a n d = ((ret, buf), d') \<longrightarrow>
       content d' = content d \<and> (0 \<le> ret \<or> ret = -EUCLEAN \<longrightarrow> length buf \<le> n \<longrightarrow>
         buf = take (length buf) (view content d (base + a) n)))"

definition writes_ok :: "('d \<Rightarrow> int \<Rightarrow> u8) \<Rightarrow> int \<Rightarrow> (int \<Rightarrow> bytes \<Rightarrow> 'd \<Rightarrow> (int \<times> nat) \<times> 'd) option \<Rightarrow> bool" where
  "writes_ok content base f \<longleftrightarrow>
    (\<forall>g a buf d r d'. f = Some g \<longrightarrow> g a buf d = (r, d') \<longrightarrow>
       same_outside (content d) (content d') (base + a) (base + a + int (length buf)))"

definition quiet_ok :: "('d \<Rightarrow> int \<Rightarrow> u8) \<Rightarrow> ('a \<Rightarrow> 'd \<Rightarrow> int \<times> 'd) option \<Rightarrow> bool" where
  "quiet_ok content f \<longleftrightarrow> (\<forall>g a d ret d'. f = Some g \<longrightarrow> g a d = (ret, d') \<longrightarrow> content d' = content d)"

definition driver_ok :: "('d \<Rightarrow> int \<Rightarrow> u8) \<Rightarrow> 'd mtd_info \<Rightarrow> bool" where
  "driver_ok content m \<longleftrightarrow>
    (\<forall>a n d ret d'. drv_erase m a n d = (ret, d') \<longrightarrow>
       same_outside (content d) (content d') (int (mtd_offset m) + a) (int (mtd_offset m) + a + int n) \<and>
       (ret = 0 \<longrightarrow> (\<forall>x. int (mtd_offset m) + a \<le> x \<and> x < int (mtd_offset m) + a + int n \<longrightarrow> content d' x = 0xff))) \<and>
    reads_ok content (int (mtd_offset m)) (drv_read m) \<and>
    reads_ok content (int (mtd_offset m)) (drv_read_oob m) \<and>
    writes_ok content (int (mtd_offset m)) (drv_write m) \<and>
    writes_ok content (int (mtd_offset m)) (drv_write_oob m) \<and>
    quiet_ok content (map_option (\<lambda>f (a, n). f a n) (drv_unlock m)) \<and>
    quiet_ok content (drv_block_isbad m) \<and>
    (\<forall>f a d ret d'. drv_block_markbad m = Some f \<longrightarrow> f a d = (ret, d') \<longrightarrow>
       same_outside (content d) (content d') (int (mtd_offset m) + a) (int (mtd_offset m) + a + int (mtd_erasesize m)))"

section \<open>The flash interface\<close>

lemma same_outside_refl [simp]: "same_outside c c a b"
  by (simp add: same_outside_def)

lemma same_outside_trans:
  "same_outside c1 c2 a b \<Longrightarrow> same_outside c2 c3 a b \<Longrightarrow> same_outside c1 c3 a b"
  by (simp add: same_outside_def)

lemma same_outside_mono:
  "same_outside c c' a b \<Longrightarrow> a' \<le> a \<Longrightarrow> b \<le> b' \<Longrightarrow> same_outside c c' a' b'"
  by (simp add: same_outside_def)

lemma length_view [simp]: "length (view content d a n) = n"
  by (simp add: view_def)

lemma view_cong: "\<forall>x. a \<le> x \<and> x < a + int n \<longrightarrow> content d' x = content d x \<Longrightarrow>
    view content d' a n = view content d a n"
  by (simp add: view_def)

lemma view_append: "view content d a (m + n) = view content d a m @ view content d (a + int m) n"
  by (rule nth_equalityI) (auto simp: view_def nth_append)

lemma view_same_outside:
  assumes "same_outside (content d) (content d') a b" "x + int n \<le> a \<or> b \<le> x"
  shows "view content d' x n = view content d x n"
  using assms by (intro view_cong) (auto simp: same_outside_def)

text \<open>
  The contract between the recovery code and the MTD layer. \<open>ok\<close> selects the devices for which it
  holds; \<open>base\<close> is the position of a device on the chip and \<open>blk\<close> its erase block size.
\<close>

locale flash_store =
  fixes ok :: "'m \<Rightarrow> bool" and base :: "'m \<Rightarrow> int" and blk :: "'m \<Rightarrow> nat"
    and content :: "'d \<Rightarrow> int \<Rightarrow> u8"
    and erase :: "'m \<Rightarrow> int \<Rightarrow> nat \<Rightarrow> 'd \<Rightarrow> int \<times> 'd"
    and readf :: "'m \<Rightarrow> int \<Rightarrow> nat \<Rightarrow> 'd \<Rightarrow> (int \<times> bytes) \<times> 'd"
    and writef :: "'m \<Rightarrow> int \<Rightarrow> bytes \<Rightarrow> 'd \<Rightarrow> (int \<times> nat) \<times> 'd"
    and unlock :: "'m \<Rightarrow> int \<Rightarrow> nat \<Rightarrow> 'd \<Rightarrow> int \<times> 'd"
    and isbad :: "'m \<Rightarrow> int \<Rightarrow> 'd \<Rightarrow> int \<times> 'd"
    and markbad :: "'m \<Rightarrow> int \<Rightarrow> 'd \<Rightarrow> int \<times> 'd"
  assumes erase_frame: "ok m \<Longrightarrow> erase m a n d = (ret, d') \<Longrightarrow>
        same_outside (content d) (content d') (base m + a) (base m + a + int n)"
    and erase_ff: "ok m \<Longrightarrow> erase m a n d = (0, d') \<Longrightarrow> base m + a \<le> x \<Longrightarrow> x < base m + a + int n \<Longrightarrow>
        content d' x = 0xff"
    and read_same: "ok m \<Longrightarrow> readf m a n d = (r, d') \<Longrightarrow> content d' = content d"
    and read_data: "ok m \<Longrightarrow> readf m a n d = ((ret, buf), d') \<Longrightarrow> ret = 0 \<or> ret = -EUCLEAN \<Longrightarrow>
        length buf = n \<Longrightarrow> buf = view content d (base m + a) n"
    and write_frame: "ok m \<Longrightarrow> writef m a buf d = (wres, d') \<Longrightarrow>
        same_outside (content d) (content d') (base m + a) (base m + a + int (length buf))"
    and unlock_same: "ok m \<Longrightarrow> unlock m a n d = (ret, d') \<Longrightarrow> content d' = content d"
    and isbad_same: "ok m \<Longrightarrow> isbad m a d = (ret, d') \<Longrightarrow> content d' = content d"
    and markbad_frame: "ok m \<Longrightarrow> markbad m a d = (ret, d') \<Longrightarrow>
        same_outside (content d) (content d') (base m + a) (base m + a + int (blk m))"
begin

text \<open>Data that was written and read back is on the flash, and nothing outside its range changed.\<close>

lemma write_read_back:
  assumes "ok m" "writef m a src d = (wres, d1)" "readf m a (length src) d1 = ((ret, buf), d2)"
    and "ret = 0 \<or> ret = -EUCLEAN" "buf = src"
  shows "view content d2 (base m + a) (length src) = src \<and>
    same_outside (content d) (content d2) (base m + a) (base m + a + int (length src))"
proof -
  have c: "content d2 = content d1" using read_same assms(1,3) by blast
  have "view content d1 (base m + a) (length src) = src"
    using read_data assms by metis
  with c write_frame [OF assms(1,2)] show ?thesis by (simp add: view_def)
qed

text \<open>A refused or failed operation on a block never reaches beyond the block.\<close>

lemma write_markbad_frame:
  assumes "ok m" "writef m a src d = (wres, d1)" "markbad m a d1 = (ret, d2)" "length src \<le> blk m"
  shows "same_outside (content d) (content d2) (base m + a) (base m + a + int (blk m))"
  using same_outside_mono [OF write_frame [OF assms(1,2)]] markbad_frame [OF assms(1,3)] assms(4)
  by (meson add_left_mono of_nat_mono order_refl same_outside_trans)

end

text \<open>The mtdcore entry points meet the contract for every device whose driver meets its own.\<close>

interpretation mtdcore: flash_store "driver_ok content" "\<lambda>m. int (mtd_offset m)" mtd_erasesize content
  mtd_erase mtd_read mtd_write mtd_unlock mtd_block_isbad mtd_block_markbad
  for content :: "'d \<Rightarrow> int \<Rightarrow> u8"
proof
  fix m :: "'d mtd_info" and a n d ret d' x
  assume ok: "driver_ok content m"
  { assume "mtd_erase m a n d = (ret, d')"
    then show "same_outside (content d) (content d') (int (mtd_offset m) + a) (int (mtd_offset m) + a + int n)"
      using ok by (auto simp: mtd_erase_def driver_ok_def split: if_splits) }
  { assume e: "mtd_erase m a n d = (0, d')" and x: "int (mtd_offset m) + a \<le> x" "x < int (mtd_offset m) + a + int n"
    then have "drv_erase m a n d = (0, d')" by (auto simp: mtd_erase_def split: if_splits)
    then show "content d' x = 0xff" using ok x unfolding driver_ok_def by blast }
next
  fix m :: "'d mtd_info" and a n d r d'
  assume ok: "driver_ok content m" and "mtd_read m a n d = (r, d')"
  then show "content d' = content d"
    by (cases r) (auto simp: mtd_read_def driver_ok_def reads_ok_def Let_def
        split: if_splits option.splits prod.splits)
next
  fix m :: "'d mtd_info" and a n d ret buf d'
  assume ok: "driver_ok content m" and r: "mtd_read m a n d = ((ret, buf), d')"
    and z: "ret = 0 \<or> ret = - EUCLEAN" and l: "length buf = n"
  show "buf = view content d (int (mtd_offset m) + a) n"
  proof (cases "n = 0")
    case True
    then show ?thesis using l by (simp add: view_def)
  next
    case False
    then obtain f ret0 where f: "drv_read m = Some f \<or> drv_read_oob m = Some f"
      and e: "f a n d = ((ret0, buf), d')" and z0: "0 \<le> ret0 \<or> ret0 = -EUCLEAN"
      using r z that by (cases "drv_read m"; cases "drv_read_oob m")
        (auto simp: mtd_read_def Let_def not_less split: if_splits prod.splits)
    have "reads_ok content (int (mtd_offset m)) (drv_read m)" "reads_ok content (int (mtd_offset m)) (drv_read_oob m)"
      using ok by (simp_all add: driver_ok_def)
    then have "buf = take (length buf) (view content d (int (mtd_offset m) + a) n)"
      using f e z0 l unfolding reads_ok_def by (metis order_refl)
    then show ?thesis using l by simp
  qed
next
  fix m :: "'d mtd_info" and a buf d wres d'
  assume "driver_ok content m" and "mtd_write m a buf d = (wres, d')"
  then show "same_outside (content d) (content d') (int (mtd_offset m) + a) (int (mtd_offset m) + a + int (length buf))"
    by (cases wres) (auto simp: mtd_write_def driver_ok_def writes_ok_def split: if_splits option.splits)
next
  fix m :: "'d mtd_info" and a n d ret d'
  assume "driver_ok content m" and "mtd_unlock m a n d = (ret, d')"
  then show "content d' = content d"
    by (auto simp: mtd_unlock_def driver_ok_def quiet_ok_def split: if_splits option.splits)
next
  fix m :: "'d mtd_info" and a d ret d'
  assume "driver_ok content m" and "mtd_block_isbad m a d = (ret, d')"
  then show "content d' = content d"
    by (auto simp: mtd_block_isbad_def driver_ok_def quiet_ok_def split: if_splits option.splits)
next
  fix m :: "'d mtd_info" and a d ret d'
  assume "driver_ok content m" and "mtd_block_markbad m a d = (ret, d')"
  then show "same_outside (content d) (content d') (int (mtd_offset m) + a) (int (mtd_offset m) + a + int (mtd_erasesize m))"
    by (auto simp: mtd_block_markbad_def driver_ok_def split: if_splits option.splits)
qed

section \<open>Partitions\<close>

lemma part_extent_live:
  "part_extent p po psize cur = (True, ofs, sz) \<Longrightarrow> ofs < mtd_size p \<and> ofs + sz \<le> mtd_size p"
  by (auto simp: part_extent_def Let_def split: if_splits)

text \<open>Whatever range they are given, erase and write stay inside their device.\<close>

lemma erase_inside:
  assumes "driver_ok content m" "mtd_erase m a n d = (ret, d')"
  shows "same_outside (content d) (content d') (int (mtd_offset m)) (int (mtd_offset m) + int (mtd_size m))"
proof (cases "0 \<le> a \<and> a + int n \<le> int (mtd_size m)")
  case True
  then show ?thesis using mtdcore.erase_frame [OF assms] by (auto intro: same_outside_mono)
next
  case False
  then have "d' = d" using assms(2) by (auto simp: mtd_erase_def split: if_splits)
  then show ?thesis by simp
qed

lemma write_inside:
  assumes "driver_ok content m" "mtd_write m a buf d = (r, d')"
  shows "same_outside (content d) (content d') (int (mtd_offset m)) (int (mtd_offset m) + int (mtd_size m))"
proof (cases "0 \<le> a \<and> a + int (length buf) \<le> int (mtd_size m)")
  case True
  then show ?thesis using mtdcore.write_frame [OF assms] by (auto intro: same_outside_mono)
next
  case False
  then have "d' = d" using assms(2) by (auto simp: mtd_write_def split: if_splits)
  then show ?thesis by simp
qed

text \<open>The methods of a partition are those of its chip at an offset.\<close>

lemma partition_contract:
  assumes "driver_ok content master" and "mtd_offset master = 0"
    and "part_extent master po psize cur = (True, ofs, sz)"
    and "m = allocate_partition master name po psize rdonly cur"
  shows "driver_ok content m" "mtd_offset m = ofs" "mtd_size m = sz"
proof -
  have m: "mtd_offset m = ofs" "mtd_size m = sz" "mtd_erasesize m = mtd_erasesize master"
    "drv_erase m = part_erase master ofs" "drv_read m = map_option (\<lambda>f. part_read f ofs) (drv_read master)"
    "drv_read_oob m = map_option (\<lambda>f. part_read_oob f ofs sz) (drv_read_oob master)"
    "drv_write m = map_option (\<lambda>f. part_write f ofs) (drv_write master)"
    "drv_write_oob m = map_option (\<lambda>f. part_write_oob f ofs sz) (drv_write_oob master)"
    "drv_unlock m = map_option (\<lambda>f. part_unlock f ofs) (drv_unlock master)"
    "drv_block_isbad m = map_option (\<lambda>f. part_block_isbad f ofs) (drv_block_isbad master)"
    "drv_block_markbad m = map_option (\<lambda>f. part_block_markbad f ofs) (drv_block_markbad master)"
    using assms(3,4) by (simp_all add: allocate_partition_def Let_def)
  show "mtd_offset m = ofs" "mtd_size m = sz" by (fact m)+
  show "driver_ok content m"
    unfolding driver_ok_def m
  proof (intro conjI)
    show "reads_ok content (int ofs) (map_option (\<lambda>f. part_read f ofs) (drv_read master))"
      "reads_ok content (int ofs) (map_option (\<lambda>f. part_read_oob f ofs sz) (drv_read_oob master))"
      using assms(1,2)
      by (auto simp: driver_ok_def reads_ok_def part_read_def part_read_oob_def add.commute [of "int ofs"] split: if_splits)
    show "writes_ok content (int ofs) (map_option (\<lambda>f. part_write f ofs) (drv_write master))"
      "writes_ok content (int ofs) (map_option (\<lambda>f. part_write_oob f ofs sz) (drv_write_oob master))"
      using assms(1,2)
      by (auto simp: driver_ok_def writes_ok_def part_write_def part_write_oob_def add.commute [of "int ofs"] split: if_splits)
  qed (use assms(1,2) in \<open>auto simp: driver_ok_def quiet_ok_def part_erase_def part_unlock_def
      part_block_isbad_def part_block_markbad_def add.commute [of "int ofs"]\<close>)
qed


text \<open>
  A flash chip with two-byte erase blocks whose drivers never fail, for the concrete instances
  below: its state is the contents, and programming stores the bytes.
\<close>

definition ram_chip :: "(int \<Rightarrow> u8) mtd_info" where
  "ram_chip =
    \<lparr>mtd_name = ''nand0'', mtd_dev_name = None, mtd_is_partition = False, mtd_size = 16,
     mtd_erasesize = 2, mtd_writesize = 1, mtd_oobsize = 0, mtd_writeable = True, mtd_offset = 0,
     mtd_ecc_strength = 0, mtd_bitflip_threshold = 1,
     drv_erase = (\<lambda>a n d. (0, \<lambda>x. if a \<le> x \<and> x < a + int n then 0xff else d x)),
     drv_read = Some (\<lambda>a n d. ((0, view (\<lambda>d. d) d a n), d)), drv_read_oob = None,
     drv_write = Some (\<lambda>a buf d. ((0, length buf),
        \<lambda>x. if a \<le> x \<and> x < a + int (length buf) then buf ! nat (x - a) else d x)),
     drv_write_oob = None, drv_unlock = None, drv_block_isbad = Some (\<lambda>a d. (0, d)),
     drv_block_markbad = Some (\<lambda>a d. (0, d))\<rparr>"

lemma ram_chip_ok: "driver_ok (\<lambda>d. d) ram_chip"
  by (auto simp: driver_ok_def ram_chip_def reads_ok_def writes_ok_def quiet_ok_def same_outside_def)


end
