(* ===== verification/World.thy ===== *)
theory World
  imports Mtd
begin

text \<open>
  The state the recovery server works on: the file-scope variables of
  \<^verbatim>\<open>net/lwip/httpd_recovery.c\<close>, the upload buffer in RAM, the environment, the flash behind the MTD
  drivers, the attached UBI device, and an open-ended rest (the network stack, the LEDs) that the
  runtime service works on.
\<close>

section \<open>Upload targets\<close>

datatype upload_target = TARGET_FIRMWARE | TARGET_UBOOT | TARGET_UENV | TARGET_DSD

definition RECOVERY_RAW_PART_SIZE :: nat where "RECOVERY_RAW_PART_SIZE = 2 * 1024 * 1024"
definition RECOVERY_UBOOT_SIZE :: nat where "RECOVERY_UBOOT_SIZE = 2 * 1024 * 1024"
definition RECOVERY_MIN_FIRMWARE_SIZE :: nat where "RECOVERY_MIN_FIRMWARE_SIZE = 1 * 1024 * 1024"
definition RECOVERY_FACTORY_SIZE :: nat where "RECOVERY_FACTORY_SIZE = 1 * 1024 * 1024"
definition RECOVERY_UBI_WRITE_CHUNK :: nat where "RECOVERY_UBI_WRITE_CHUNK = 1024 * 1024"

definition recovery_target_exact_size :: "upload_target \<Rightarrow> nat" where
  "recovery_target_exact_size tgt =
    (case tgt of
       TARGET_UBOOT \<Rightarrow> RECOVERY_UBOOT_SIZE
     | TARGET_UENV \<Rightarrow> RECOVERY_RAW_PART_SIZE
     | TARGET_DSD \<Rightarrow> RECOVERY_RAW_PART_SIZE
     | TARGET_FIRMWARE \<Rightarrow> 0)"

definition recovery_upload_target_name :: "upload_target \<Rightarrow> string" where
  "recovery_upload_target_name tgt =
    (case tgt of
       TARGET_FIRMWARE \<Rightarrow> ''firmware''
     | TARGET_UBOOT \<Rightarrow> ''U-Boot''
     | TARGET_UENV \<Rightarrow> ''uenv''
     | TARGET_DSD \<Rightarrow> ''dsd'')"

section \<open>UBI descriptions\<close>

datatype vol_type = UBI_DYNAMIC_VOLUME | UBI_STATIC_VOLUME

text \<open>
  \<^verbatim>\<open>struct ubi_volume\<close>; \<open>eba_tbl_live\<close> says that the pointer to the mapping table is valid,
  \<open>upd_buf\<close> is the update buffer.
\<close>

record ubi_volume =
  vol_id :: nat
  ref_count :: int
  readers :: int
  writers :: int
  exclusive :: bool
  reserved_pebs :: int
  vol_type :: vol_type
  usable_leb_size :: nat
  used_ebs :: nat
  last_eb_bytes :: nat
  used_bytes :: nat
  alignment :: nat
  data_pad :: nat
  vol_name :: string
  upd_ebs :: nat
  upd_bytes :: nat
  upd_received :: nat
  upd_buf :: "bytes option"
  eba_tbl_live :: bool
  checked :: bool
  corrupted :: bool
  upd_marker :: bool
  updating :: bool

text \<open>\<open>volumes\<close> holds the user volumes, one entry per slot of the volume table.\<close>

record ubi_device =
  ubi_mtd_name :: string
  leb_size :: nat
  min_io_size :: nat
  avail_pebs :: int
  rsvd_pebs :: int
  beb_rsvd_pebs :: int
  beb_rsvd_level :: int
  volumes :: "ubi_volume option list"
  vol_count :: int
  ro_mode :: bool

section \<open>The recovery state\<close>

record ('d, 'x) world =
  recv_base :: u64
  recv_off :: u32
  recv_total :: u32
  upload_start_ms :: u64
  post_ok :: bool
  flash_request :: bool
  reboot_post_pending :: bool
  reboot_request :: bool
  prog_total :: u32
  prog_done :: u32
  prog_erase_total :: u32
  prog_erase_done :: u32
  prog_write_total :: u32
  prog_write_done :: u32
  prog_phase :: int
  prog_erase_volume_base :: u64
  prog_erase_volume_bytes :: u64
  prog_status_leds :: bool
  recovery_httpd_started :: bool
  recovery_ubi_attach_error :: int
  current_target :: upload_target
  layout_version :: "string option"
  layout_part :: "string option"
  current_ubi_layout :: bool
  lan_activity_ms :: u64
  ram :: "u64 \<Rightarrow> u8"
  env :: "string \<Rightarrow> string option"
  dev :: 'd
  ubi :: "ubi_device option"
  usecount :: "string \<Rightarrow> int"
  ext :: 'x

text \<open>The state at start-up: zeroed variables, no UBI device attached.\<close>

definition initial_world :: "(string \<Rightarrow> string option) \<Rightarrow> (u64 \<Rightarrow> u8) \<Rightarrow> 'd \<Rightarrow> 'x \<Rightarrow> ('d, 'x) world" where
  "initial_world e m d x =
    \<lparr>recv_base = 0, recv_off = 0, recv_total = 0, upload_start_ms = 0, post_ok = False,
     flash_request = False, reboot_post_pending = False, reboot_request = False, prog_total = 0,
     prog_done = 0, prog_erase_total = 0, prog_erase_done = 0, prog_write_total = 0,
     prog_write_done = 0, prog_phase = 0, prog_erase_volume_base = 0, prog_erase_volume_bytes = 0,
     prog_status_leds = False, recovery_httpd_started = False, recovery_ubi_attach_error = 0,
     current_target = TARGET_FIRMWARE, layout_version = None, layout_part = None,
     current_ubi_layout = True, lan_activity_ms = 0, ram = m, env = e, dev = d, ubi = None,
     usecount = (\<lambda>_. 0), ext = x\<rparr>"

text \<open>The image an upload has left in RAM.\<close>

definition upload_image :: "('d, 'x, 'z) world_scheme \<Rightarrow> bytes" where
  "upload_image w = map (\<lambda>i. ram w (recv_base w + of_nat i)) [0..<unat (recv_off w)]"

end
