(* ===== verification/Ubi.thy ===== *)
theory Ubi
  imports World
begin

text \<open>
  UBI volume management: creating, removing and resizing volumes (\<^verbatim>\<open>drivers/mtd/ubi/vmt.c\<close>), opening
  and closing them (\<^verbatim>\<open>kapi.c\<close>), checking (\<^verbatim>\<open>misc.c\<close>) and updating them (\<^verbatim>\<open>upd.c\<close>). The layers below,
  the volume table on the media, the eraseblock association and the wear-levelling work, act on
  the flash state \<open>'d\<close> and are an argument of the model.
\<close>

section \<open>The layers below\<close>

record vtbl_record =
  vt_reserved_pebs :: int
  vt_alignment :: nat
  vt_data_pad :: nat
  vt_vol_type :: vol_type
  vt_name :: string

text \<open>What a change of a volume table record does to the record.\<close>

datatype vtbl_change = VtblSet vtbl_record | VtblDelete | VtblResize int | VtblMarker bool

text \<open>
  \<open>low_unmap\<close> is \<^verbatim>\<open>ubi_eba_unmap_leb\<close>, \<open>low_write\<close> and \<open>low_write_st\<close> are \<^verbatim>\<open>ubi_eba_write_leb\<close> at offset
  0 and \<^verbatim>\<open>ubi_eba_write_leb_st\<close>, \<open>low_read\<close> is \<^verbatim>\<open>ubi_eba_read_leb\<close> with CRC check, \<open>low_attach\<close> is
  \<^verbatim>\<open>ubi_dev_scan\<close>; \<open>low_alloc\<close> says which memory allocations succeed.
\<close>

record 'd ubi_low =
  low_change_vtbl :: "nat \<Rightarrow> vtbl_change \<Rightarrow> 'd \<Rightarrow> int \<times> 'd"
  low_unmap :: "nat \<Rightarrow> nat \<Rightarrow> 'd \<Rightarrow> int \<times> 'd"
  low_write :: "nat \<Rightarrow> nat \<Rightarrow> bytes \<Rightarrow> 'd \<Rightarrow> int \<times> 'd"
  low_write_st :: "nat \<Rightarrow> nat \<Rightarrow> bytes \<Rightarrow> nat \<Rightarrow> 'd \<Rightarrow> int \<times> 'd"
  low_read :: "nat \<Rightarrow> nat \<Rightarrow> nat \<Rightarrow> 'd \<Rightarrow> int \<times> 'd"
  low_wl_flush :: "'d \<Rightarrow> int \<times> 'd"
  low_attach :: "string \<Rightarrow> 'd \<Rightarrow> (int + ubi_device) \<times> 'd"
  low_alloc :: "nat \<Rightarrow> bool"

section \<open>Volume table slots\<close>

definition UBI_VOL_NAME_MAX :: nat where "UBI_VOL_NAME_MAX = 127"

fun first_free :: "'a option list \<Rightarrow> nat \<Rightarrow> nat option" where
  "first_free [] i = None"
| "first_free (None # vs) i = Some i"
| "first_free (Some v # vs) i = first_free vs (Suc i)"

fun find_volume :: "string \<Rightarrow> ubi_volume option list \<Rightarrow> nat \<Rightarrow> nat option" where
  "find_volume name [] i = None"
| "find_volume name (v # vs) i =
    (case v of
       Some vol \<Rightarrow> if vol_name vol = name then Some i else find_volume name vs (Suc i)
     | None \<Rightarrow> find_volume name vs (Suc i))"

section \<open>vmt.c\<close>

record ubi_mkvol_req =
  req_vol_id :: "nat option"
  req_alignment :: nat
  req_bytes :: nat
  req_vol_type :: vol_type
  req_name :: string

definition zero_volume :: ubi_volume where
  "zero_volume =
    \<lparr>vol_id = 0, ref_count = 0, readers = 0, writers = 0, exclusive = False, reserved_pebs = 0,
     vol_type = UBI_DYNAMIC_VOLUME, usable_leb_size = 0, used_ebs = 0, last_eb_bytes = 0,
     used_bytes = 0, alignment = 0, data_pad = 0, vol_name = [], upd_ebs = 0, upd_bytes = 0,
     upd_received = 0, upd_buf = None, eba_tbl_live = False, checked = False, corrupted = False,
     upd_marker = False, updating = False\<rparr>"

text \<open>The size fields of a volume that holds \<open>n\<close> bytes of data, as a static volume has them.\<close>

definition set_data_size :: "nat \<Rightarrow> ubi_volume \<Rightarrow> ubi_volume" where
  "set_data_size n vol =
    (let q = n div usable_leb_size vol; r = n mod usable_leb_size vol in
     if r \<noteq> 0 then vol\<lparr>used_bytes := n, used_ebs := q + 1, last_eb_bytes := r\<rparr>
     else vol\<lparr>used_bytes := n, used_ebs := q, last_eb_bytes := usable_leb_size vol\<rparr>)"

definition set_dynamic_size :: "ubi_volume \<Rightarrow> ubi_volume" where
  "set_dynamic_size vol =
    vol\<lparr>used_ebs := nat (reserved_pebs vol), last_eb_bytes := usable_leb_size vol,
        used_bytes := nat (reserved_pebs vol) * usable_leb_size vol\<rparr>"

definition ubi_create_volume ::
    "'d ubi_low \<Rightarrow> ubi_mkvol_req \<Rightarrow> ubi_device \<Rightarrow> 'd \<Rightarrow> int \<times> ubi_device \<times> 'd" where
  "ubi_create_volume low req u d =
    (if ro_mode u then (-EROFS, u, d)
     else if \<not> low_alloc low 0 then (-ENOMEM, u, d)
     else
       case (case req_vol_id req of None \<Rightarrow> first_free (volumes u) 0 | Some i \<Rightarrow> Some i) of
         None \<Rightarrow> (-ENFILE, u, d)
       | Some i \<Rightarrow>
           if volumes u ! i \<noteq> None then (-EEXIST, u, d)
           else if find_volume (req_name req) (volumes u) 0 \<noteq> None then (-EEXIST, u, d)
           else
             let usable = leb_size u - leb_size u mod req_alignment req;
                 pebs = int ((req_bytes req + usable - 1) div usable) in
             if pebs > avail_pebs u then (-ENOSPC, u, d)
             else
               let u1 = u\<lparr>avail_pebs := avail_pebs u - pebs, rsvd_pebs := rsvd_pebs u + pebs\<rparr>;
                   undo = (\<lambda>u. u\<lparr>rsvd_pebs := rsvd_pebs u - pebs, avail_pebs := avail_pebs u + pebs\<rparr>);
                   (err, d) = low_wl_flush low d in
               if err \<noteq> 0 then (err, undo u1, d)
               else if \<not> low_alloc low 1 then (-ENOMEM, undo u1, d)
               else
                 let vol = zero_volume\<lparr>usable_leb_size := usable, reserved_pebs := pebs, vol_id := i,
                             alignment := req_alignment req,
                             data_pad := leb_size u mod req_alignment req,
                             vol_type := req_vol_type req, vol_name := req_name req,
                             eba_tbl_live := True\<rparr>;
                     vol = (if vol_type vol = UBI_DYNAMIC_VOLUME then set_dynamic_size vol
                            else set_data_size 0 vol);
                     rec = \<lparr>vt_reserved_pebs = pebs, vt_alignment = alignment vol,
                            vt_data_pad = data_pad vol, vt_vol_type = vol_type vol,
                            vt_name = vol_name vol\<rparr>;
                     (err, d) = low_change_vtbl low i (VtblSet rec) d in
                 if err \<noteq> 0 then (err, undo u1, d)
                 else (0, u1\<lparr>volumes := (volumes u1)[i := Some vol], vol_count := vol_count u1 + 1\<rparr>, d))"

definition ubi_update_reserved :: "ubi_device \<Rightarrow> ubi_device" where
  "ubi_update_reserved u =
    (let need = beb_rsvd_level u - beb_rsvd_pebs u in
     if need \<le> 0 \<or> avail_pebs u = 0 then u
     else
       let need = min need (avail_pebs u) in
       u\<lparr>avail_pebs := avail_pebs u - need, rsvd_pebs := rsvd_pebs u + need,
          beb_rsvd_pebs := beb_rsvd_pebs u + need\<rparr>)"

text \<open>
  Unmapping the logical eraseblocks \<open>ls\<close> of a volume; after each one the progress callback \<open>cb\<close> runs
  with the number of blocks done.
\<close>

fun unmap_lebs ::
    "'d ubi_low \<Rightarrow> (int \<Rightarrow> ('d, 'x) world \<Rightarrow> ('d, 'x) world) \<Rightarrow> nat \<Rightarrow> nat list \<Rightarrow> int \<Rightarrow> ('d, 'x) world \<Rightarrow>
      int \<times> ('d, 'x) world" where
  "unmap_lebs low cb vid [] k w = (0, w)"
| "unmap_lebs low cb vid (l # ls) k w =
    (case low_unmap low vid l (dev w) of
       (err, d) \<Rightarrow>
         if err \<noteq> 0 then (err, w\<lparr>dev := d\<rparr>)
         else unmap_lebs low cb vid ls (k + 1) (cb (k + 1) (w\<lparr>dev := d\<rparr>)))"

definition upd_ubi :: "(ubi_device \<Rightarrow> ubi_device) \<Rightarrow> ('d, 'x) world \<Rightarrow> ('d, 'x) world" where
  "upd_ubi f w = w\<lparr>ubi := map_option f (ubi w)\<rparr>"

text \<open>
  \<open>i\<close> is the slot of the volume the descriptor refers to. The callback gets the number of blocks
  done and their total, as \<^verbatim>\<open>ubi_report_progress\<close> passes them.
\<close>

definition ubi_remove_volume ::
    "'d ubi_low \<Rightarrow> (int \<Rightarrow> int \<Rightarrow> ('d, 'x) world \<Rightarrow> ('d, 'x) world) \<Rightarrow> nat \<Rightarrow> bool \<Rightarrow> ('d, 'x) world \<Rightarrow>
      int \<times> ('d, 'x) world" where
  "ubi_remove_volume low cb i no_vtbl w =
    (case ubi w of
       None \<Rightarrow> (-ENODEV, w)
     | Some u \<Rightarrow>
         (case volumes u ! i of
            None \<Rightarrow> (-ENODEV, w)
          | Some vol \<Rightarrow>
              if ro_mode u then (-EROFS, w)
              else if ref_count vol > 1 then (-EBUSY, w)
              else
                let restore = upd_ubi (\<lambda>u. u\<lparr>volumes := (volumes u)[i := Some vol]\<rparr>);
                    w = upd_ubi (\<lambda>u. u\<lparr>volumes := (volumes u)[i := None]\<rparr>) w;
                    (err, d) = (if no_vtbl then (0, dev w)
                                else low_change_vtbl low i VtblDelete (dev w));
                    w = w\<lparr>dev := d\<rparr> in
                if err \<noteq> 0 then (err, restore w)
                else
                  let w = cb 0 (reserved_pebs vol) w;
                      (err, w) = unmap_lebs low (\<lambda>k. cb k (reserved_pebs vol)) i
                                   [0..<nat (reserved_pebs vol)] 0 w in
                  if err \<noteq> 0 then (err, restore w)
                  else
                    (0, upd_ubi (\<lambda>u. (ubi_update_reserved
                           (u\<lparr>rsvd_pebs := rsvd_pebs u - reserved_pebs vol,
                              avail_pebs := avail_pebs u + reserved_pebs vol\<rparr>))
                           \<lparr>vol_count := vol_count u - 1\<rparr>) w)))"

text \<open>
  Resizing the volume in slot \<open>i\<close>. On the error path after the blocks were reserved the code frees
  \<^verbatim>\<open>new_mapping\<close>, to which \<^verbatim>\<open>vol->eba_tbl\<close> already points when the volume was to grow: the table of the
  volume is then no longer valid.
\<close>

definition ubi_resize_volume ::
    "'d ubi_low \<Rightarrow> (int \<Rightarrow> int \<Rightarrow> ('d, 'x) world \<Rightarrow> ('d, 'x) world) \<Rightarrow> nat \<Rightarrow> int \<Rightarrow> ('d, 'x) world \<Rightarrow>
      int \<times> ('d, 'x) world" where
  "ubi_resize_volume low cb i n w =
    (case ubi w of
       None \<Rightarrow> (-ENODEV, w)
     | Some u \<Rightarrow>
         (case volumes u ! i of
            None \<Rightarrow> (-ENODEV, w)
          | Some vol \<Rightarrow>
              if ro_mode u then (-EROFS, w)
              else if vol_type vol = UBI_STATIC_VOLUME \<and> n < int (used_ebs vol) then (-EINVAL, w)
              else if n = reserved_pebs vol then (0, w)
              else if \<not> low_alloc low 2 then (-ENOMEM, w)
              else if ref_count vol > 1 then (-EBUSY, w)
              else
                let pebs = n - reserved_pebs vol in
                if pebs > 0 \<and> pebs > avail_pebs u then (-ENOSPC, w)
                else
                  let w = (if pebs > 0 then
                             upd_ubi (\<lambda>u. u\<lparr>avail_pebs := avail_pebs u - pebs,
                                            rsvd_pebs := rsvd_pebs u + pebs\<rparr>) w
                           else w);
                      out_acc = (\<lambda>w. if pebs > 0 then
                          upd_ubi (\<lambda>u. u\<lparr>rsvd_pebs := rsvd_pebs u - pebs,
                                         avail_pebs := avail_pebs u + pebs,
                                         volumes := (volumes u)[i := Some (vol\<lparr>eba_tbl_live := False\<rparr>)]\<rparr>) w
                          else w);
                      (err, d) = low_change_vtbl low i (VtblResize n) (dev w);
                      w = w\<lparr>dev := d\<rparr> in
                  if err \<noteq> 0 then (err, out_acc w)
                  else
                    let (err, w) = (if pebs < 0 then
                            unmap_lebs low (\<lambda>k. cb k (- pebs)) i
                              (map (\<lambda>k. nat n + k) [0..<nat (- pebs)]) 0 (cb 0 (- pebs) w)
                          else (0, w)) in
                    if err \<noteq> 0 then (err, out_acc w)
                    else
                      let w = (if pebs < 0 then
                                 upd_ubi (\<lambda>u. ubi_update_reserved
                                    (u\<lparr>rsvd_pebs := rsvd_pebs u + pebs,
                                       avail_pebs := avail_pebs u - pebs\<rparr>)) w
                               else w);
                          vol = vol\<lparr>reserved_pebs := n\<rparr>;
                          vol = (if vol_type vol = UBI_DYNAMIC_VOLUME then set_dynamic_size vol else vol) in
                      (0, upd_ubi (\<lambda>u. u\<lparr>volumes := (volumes u)[i := Some vol]\<rparr>) w)))"

section \<open>misc.c and kapi.c\<close>

text \<open>\<^verbatim>\<open>mtd_is_eccerr\<close> is the error \<^verbatim>\<open>-EBADMSG\<close>.\<close>

fun check_lebs :: "'d ubi_low \<Rightarrow> ubi_volume \<Rightarrow> nat list \<Rightarrow> 'd \<Rightarrow> int \<times> 'd" where
  "check_lebs low vol [] d = (0, d)"
| "check_lebs low vol (l # ls) d =
    (case low_read low (vol_id vol) l
            (if l = used_ebs vol - 1 then last_eb_bytes vol else usable_leb_size vol) d of
       (err, d) \<Rightarrow> if err \<noteq> 0 then (if err = -EBADMSG then 1 else err, d) else check_lebs low vol ls d)"

definition ubi_check_volume :: "'d ubi_low \<Rightarrow> ubi_volume \<Rightarrow> 'd \<Rightarrow> int \<times> 'd" where
  "ubi_check_volume low vol d =
    (if vol_type vol \<noteq> UBI_STATIC_VOLUME then (0, d)
     else if \<not> low_alloc low 3 then (-ENOMEM, d)
     else check_lebs low vol [0..<used_ebs vol] d)"

datatype ubi_mode = UBI_READONLY | UBI_READWRITE | UBI_EXCLUSIVE

definition upd_volume :: "nat \<Rightarrow> (ubi_volume \<Rightarrow> ubi_volume) \<Rightarrow> ubi_device \<Rightarrow> ubi_device" where
  "upd_volume i f u = u\<lparr>volumes := (volumes u)[i := map_option f (volumes u ! i)]\<rparr>"

definition close_mode :: "ubi_mode \<Rightarrow> ubi_volume \<Rightarrow> ubi_volume" where
  "close_mode mode vol =
    (let vol = (case mode of
                  UBI_READONLY \<Rightarrow> vol\<lparr>readers := readers vol - 1\<rparr>
                | UBI_READWRITE \<Rightarrow> vol\<lparr>writers := writers vol - 1\<rparr>
                | UBI_EXCLUSIVE \<Rightarrow> vol\<lparr>exclusive := False\<rparr>) in
     vol\<lparr>ref_count := ref_count vol - 1\<rparr>)"

definition ubi_close_volume :: "nat \<Rightarrow> ubi_mode \<Rightarrow> ('d, 'x) world \<Rightarrow> ('d, 'x) world" where
  "ubi_close_volume i mode w = upd_ubi (upd_volume i (close_mode mode)) w"

definition open_mode :: "ubi_mode \<Rightarrow> ubi_volume \<Rightarrow> ubi_volume option" where
  "open_mode mode vol =
    (let vol' = vol\<lparr>ref_count := ref_count vol + 1\<rparr> in
     case mode of
       UBI_READONLY \<Rightarrow> if exclusive vol then None else Some (vol'\<lparr>readers := readers vol + 1\<rparr>)
     | UBI_READWRITE \<Rightarrow>
         if exclusive vol \<or> writers vol > 0 then None else Some (vol'\<lparr>writers := writers vol + 1\<rparr>)
     | UBI_EXCLUSIVE \<Rightarrow>
         if exclusive vol \<or> writers vol \<noteq> 0 \<or> readers vol \<noteq> 0 then None
         else Some (vol'\<lparr>exclusive := True\<rparr>))"

text \<open>A descriptor is the slot of the opened volume.\<close>

definition ubi_open_volume ::
    "'d ubi_low \<Rightarrow> nat \<Rightarrow> ubi_mode \<Rightarrow> ('d, 'x) world \<Rightarrow> (int + nat) \<times> ('d, 'x) world" where
  "ubi_open_volume low i mode w =
    (case ubi w of
       None \<Rightarrow> (Inl (-ENODEV), w)
     | Some u \<Rightarrow>
         if i \<ge> length (volumes u) then (Inl (-EINVAL), w)
         else if \<not> low_alloc low 4 then (Inl (-ENOMEM), w)
         else case volumes u ! i of
           None \<Rightarrow> (Inl (-ENODEV), w)
         | Some vol \<Rightarrow>
             (case open_mode mode vol of
                None \<Rightarrow> (Inl (-EBUSY), w)
              | Some vol \<Rightarrow>
                  let w = upd_ubi (upd_volume i (\<lambda>_. vol)) w in
                  if checked vol then (Inr i, w)
                  else
                    let (err, d) = ubi_check_volume low vol (dev w); w = w\<lparr>dev := d\<rparr> in
                    if err < 0 then (Inl err, ubi_close_volume i mode w)
                    else (Inr i, upd_ubi (upd_volume i
                             (\<lambda>v. v\<lparr>corrupted := (if err = 1 then True else corrupted v), checked := True\<rparr>)) w)))"

definition ubi_open_volume_nm ::
    "'d ubi_low \<Rightarrow> string \<Rightarrow> ubi_mode \<Rightarrow> ('d, 'x) world \<Rightarrow> (int + nat) \<times> ('d, 'x) world" where
  "ubi_open_volume_nm low name mode w =
    (if length name > UBI_VOL_NAME_MAX then (Inl (-EINVAL), w)
     else case ubi w of
       None \<Rightarrow> (Inl (-ENODEV), w)
     | Some u \<Rightarrow>
         (case find_volume name (volumes u) 0 of
            None \<Rightarrow> (Inl (-ENODEV), w)
          | Some i \<Rightarrow> ubi_open_volume low i mode w))"

section \<open>upd.c\<close>

definition set_update_marker :: "'d ubi_low \<Rightarrow> ubi_volume \<Rightarrow> 'd \<Rightarrow> int \<times> ubi_volume \<times> 'd" where
  "set_update_marker low vol d =
    (if upd_marker vol then (0, vol, d)
     else let (err, d) = low_change_vtbl low (vol_id vol) (VtblMarker True) d in
       (err, vol\<lparr>upd_marker := True\<rparr>, d))"

definition clear_update_marker :: "'d ubi_low \<Rightarrow> ubi_volume \<Rightarrow> nat \<Rightarrow> 'd \<Rightarrow> int \<times> ubi_volume \<times> 'd" where
  "clear_update_marker low vol n d =
    (let vol = (if vol_type vol = UBI_STATIC_VOLUME then set_data_size n (vol\<lparr>corrupted := False\<rparr>) else vol);
         (err, d) = low_change_vtbl low (vol_id vol) (VtblMarker False) d in
     (err, vol\<lparr>upd_marker := False\<rparr>, d))"

fun unmap_all :: "'d ubi_low \<Rightarrow> nat \<Rightarrow> nat list \<Rightarrow> 'd \<Rightarrow> int \<times> 'd" where
  "unmap_all low vid [] d = (0, d)"
| "unmap_all low vid (l # ls) d =
    (case low_unmap low vid l d of (err, d) \<Rightarrow> if err \<noteq> 0 then (err, d) else unmap_all low vid ls d)"

definition ubi_start_update ::
    "'d ubi_low \<Rightarrow> ubi_device \<Rightarrow> ubi_volume \<Rightarrow> nat \<Rightarrow> 'd \<Rightarrow> int \<times> ubi_volume \<times> 'd" where
  "ubi_start_update low u vol n d =
    (let vol = vol\<lparr>updating := True\<rparr> in
     if \<not> low_alloc low 5 then (-ENOMEM, vol\<lparr>upd_buf := None\<rparr>, d)
     else
       let vol = vol\<lparr>upd_buf := Some (replicate (leb_size u) 0)\<rparr>;
           (err, vol, d) = set_update_marker low vol d in
       if err \<noteq> 0 then (err, vol, d)
       else
         let (err, d) = unmap_all low (vol_id vol) [0..<nat (reserved_pebs vol)] d in
         if err \<noteq> 0 then (err, vol, d)
         else if n = 0 then
           let (err, d) = low_wl_flush low d in
           if err \<noteq> 0 then (err, vol, d)
           else
             let (err, vol, d) = clear_update_marker low vol 0 d in
             if err \<noteq> 0 then (err, vol, d)
             else (0, vol\<lparr>updating := False, upd_buf := None\<rparr>, d)
         else
           (0, vol\<lparr>upd_ebs := (n + usable_leb_size vol - 1) div usable_leb_size vol,
                   upd_bytes := n, upd_received := 0\<rparr>, d))"

definition align_up :: "nat \<Rightarrow> nat \<Rightarrow> nat" where
  "align_up n a = (n + a - 1) div a * a"

definition ubi_calc_data_len :: "ubi_device \<Rightarrow> bytes \<Rightarrow> nat" where
  "ubi_calc_data_len u buf =
    align_up (length (rev (dropWhile (\<lambda>b. b = 0xff) (rev buf)))) (min_io_size u)"

text \<open>\<open>data\<close> are the first \<^verbatim>\<open>len\<close> bytes of the update buffer; the code pads behind them.\<close>

definition write_leb ::
    "'d ubi_low \<Rightarrow> ubi_device \<Rightarrow> ubi_volume \<Rightarrow> nat \<Rightarrow> bytes \<Rightarrow> nat \<Rightarrow> 'd \<Rightarrow> int \<times> 'd" where
  "write_leb low u vol lnum data ebs d =
    (if vol_type vol = UBI_DYNAMIC_VOLUME then
       let l = align_up (length data) (min_io_size u);
           buf = data @ replicate (l - length data) 0xff;
           len = ubi_calc_data_len u buf in
       if len = 0 then (0, d) else low_write low (vol_id vol) lnum (take len buf) d
     else low_write_st low (vol_id vol) lnum data ebs d)"

text \<open>
  The loop over whole eraseblocks; \<open>fuel\<close> bounds the iterations, each of which consumes at least
  one byte. The result is the error, the bytes left in the update buffer from a block that is not
  complete, the new \<^verbatim>\<open>upd_received\<close>, and the flash state.
\<close>

fun update_lebs ::
    "nat \<Rightarrow> 'd ubi_low \<Rightarrow> ubi_device \<Rightarrow> ubi_volume \<Rightarrow> nat \<Rightarrow> bytes \<Rightarrow> 'd \<Rightarrow> int \<times> ubi_volume \<times> 'd" where
  "update_lebs 0 low u vol lnum buf d = (0, vol, d)"
| "update_lebs (Suc fuel) low u vol lnum buf d =
    (if buf = [] then (0, vol, d)
     else
       let len = min (usable_leb_size vol) (length buf);
           vol1 = vol\<lparr>upd_buf := map_option (overwrite 0 (take len buf)) (upd_buf vol)\<rparr>;
           (err, d) = (if len = usable_leb_size vol \<or> upd_received vol + len = upd_bytes vol
                       then write_leb low u vol1 lnum (take len buf) (upd_ebs vol) d else (0, d)) in
       if err \<noteq> 0 then (err, vol1, d)
       else update_lebs fuel low u (vol1\<lparr>upd_received := upd_received vol + len\<rparr>) (lnum + 1) (drop len buf) d)"

definition ubi_more_update_data ::
    "'d ubi_low \<Rightarrow> ubi_device \<Rightarrow> ubi_volume \<Rightarrow> bytes \<Rightarrow> 'd \<Rightarrow> int \<times> ubi_volume \<times> 'd" where
  "ubi_more_update_data low u vol buf d =
    (if ro_mode u then (-EROFS, vol, d)
     else
       let lnum = upd_received vol div usable_leb_size vol;
           offs = upd_received vol mod usable_leb_size vol;
           buf = (if upd_received vol + length buf > upd_bytes vol
                  then take (upd_bytes vol - upd_received vol) buf else buf);
           to_write = int (length buf);
           len = min (usable_leb_size vol - offs) (length buf);
           (err, vol1, lnum1, buf1, d) =
             (if offs \<noteq> 0 then
                let ub = map_option (overwrite offs (take len buf)) (upd_buf vol);
                    (err, d) = (if offs + len = usable_leb_size vol \<or> upd_received vol + len = upd_bytes vol
                                then (case ub of
                                        Some b \<Rightarrow> write_leb low u vol lnum (take (offs + len) b) (upd_ebs vol) d
                                      | None \<Rightarrow> (0, d))
                                else (0, d)) in
                (err, vol\<lparr>upd_buf := ub, upd_received := (if err \<noteq> 0 then upd_received vol else upd_received vol + len)\<rparr>,
                 lnum + 1, drop len buf, d)
              else (0, vol, lnum, buf, d)) in
       if err \<noteq> 0 then (err, vol1, d)
       else
         let (err, vol2, d) = update_lebs (length buf1) low u vol1 lnum1 buf1 d in
         if upd_received vol2 = upd_bytes vol2 then
           let (err, d) = low_wl_flush low d in
           if err \<noteq> 0 then (err, vol2, d)
           else
             let (err, vol3, d) = clear_update_marker low vol2 (upd_bytes vol2) d in
             if err \<noteq> 0 then (err, vol3, d)
             else (to_write, vol3\<lparr>updating := False, upd_buf := None\<rparr>, d)
         else (err, vol2, d))"

section \<open>Accounting of the physical eraseblocks\<close>

definition vol_pebs :: "ubi_volume option \<Rightarrow> int" where
  "vol_pebs v = (case v of None \<Rightarrow> 0 | Some vol \<Rightarrow> reserved_pebs vol)"

definition vol_names :: "ubi_volume option list \<Rightarrow> string list" where
  "vol_names vs = concat (map (\<lambda>v. case v of None \<Rightarrow> [] | Some vol \<Rightarrow> [vol_name vol]) vs)"

text \<open>
  The blocks reserved for something else than volumes and bad-block handling: the volume table,
  wear levelling and the rest of the fixed overhead.
\<close>

definition overhead_pebs :: "ubi_device \<Rightarrow> int" where
  "overhead_pebs u = rsvd_pebs u - beb_rsvd_pebs u - sum_list (map vol_pebs (volumes u))"

definition ubi_wf :: "ubi_device \<Rightarrow> bool" where
  "ubi_wf u \<longleftrightarrow> 0 \<le> avail_pebs u \<and> distinct (vol_names (volumes u)) \<and>
    (\<forall>i<length (volumes u). \<forall>vol. volumes u ! i = Some vol \<longrightarrow> vol_id vol = i \<and> 0 \<le> reserved_pebs vol)"

lemma sum_pebs_update:
  assumes "i < length vs"
  shows "sum_list (map vol_pebs (vs[i := v])) = sum_list (map vol_pebs vs) - vol_pebs (vs ! i) + vol_pebs v"
  using assms by (induction vs arbitrary: i) (auto split: nat.split)

lemma vol_names_append [simp]: "vol_names (xs @ ys) = vol_names xs @ vol_names ys"
  by (simp add: vol_names_def)

lemma vol_names_Cons [simp]:
  "vol_names (None # vs) = vol_names vs" "vol_names (Some v # vs) = vol_name v # vol_names vs" "vol_names [] = []"
  by (simp_all add: vol_names_def)

lemma first_free_Some:
  "first_free vs k = Some i \<Longrightarrow> \<exists>j<length vs. i = k + j \<and> vs ! j = None"
proof (induction vs k rule: first_free.induct)
  case (3 v vs k)
  then obtain j where "j < length vs" "i = Suc k + j" "vs ! j = None" by auto
  then show ?case by (intro exI [of _ "Suc j"]) simp
qed auto

lemma find_volume_None: "find_volume name vs k = None \<longleftrightarrow> name \<notin> set (vol_names vs)"
  by (induction vs arbitrary: k) (auto split: option.split)

lemma find_volume_Some:
  "find_volume name vs k = Some i \<Longrightarrow>
    \<exists>j vol. j < length vs \<and> i = k + j \<and> vs ! j = Some vol \<and> vol_name vol = name"
proof (induction vs arbitrary: k)
  case (Cons v vs)
  show ?case
  proof (cases "\<exists>vol. v = Some vol \<and> vol_name vol = name")
    case True
    then show ?thesis using Cons.prems by (intro exI [of _ 0]) auto
  next
    case False
    then have "find_volume name vs (Suc k) = Some i" using Cons.prems by (auto split: option.splits if_splits)
    from Cons.IH [OF this] obtain j vol where
      "j < length vs" "i = Suc k + j" "vs ! j = Some vol" "vol_name vol = name" by blast
    then show ?thesis by (intro exI [of _ "Suc j"]) simp
  qed
qed simp

lemma find_volume_put:
  "i < length vs \<Longrightarrow> vs ! i = None \<Longrightarrow> vol_name vol \<notin> set (vol_names vs) \<Longrightarrow>
    find_volume (vol_name vol) (vs[i := Some vol]) k = Some (k + i)"
proof (induction vs arbitrary: i k)
  case (Cons v vs)
  show ?case
  proof (cases i)
    case 0
    then show ?thesis using Cons.prems by simp
  next
    case (Suc j)
    then show ?thesis using Cons.prems Cons.IH [of j "Suc k"] by (cases v) auto
  qed
qed simp

lemma vol_names_put:
  assumes "i < length vs" "vs ! i = None" "vol_name vol \<notin> set (vol_names vs)" "distinct (vol_names vs)"
  shows "distinct (vol_names (vs[i := Some vol]))"
proof -
  have vs: "vs = take i vs @ None # drop (Suc i) vs" using assms(1,2) by (metis id_take_nth_drop)
  have n: "vol_names vs = vol_names (take i vs) @ vol_names (drop (Suc i) vs)"
    by (subst vs) simp
  show ?thesis using assms(1,3,4) unfolding n by (simp add: upd_conv_take_nth_drop)
qed

lemma vol_names_drop:
  assumes "i < length vs" "distinct (vol_names vs)"
  shows "distinct (vol_names (vs[i := None]))" "set (vol_names (vs[i := None])) \<subseteq> set (vol_names vs)"
proof -
  have n: "vol_names vs = vol_names (take i vs) @ vol_names [vs ! i] @ vol_names (drop (Suc i) vs)"
    by (metis assms(1) append_Cons append_Nil id_take_nth_drop vol_names_append)
  have e: "vol_names (vs[i := None]) = vol_names (take i vs) @ vol_names (drop (Suc i) vs)"
    using assms(1) by (simp add: upd_conv_take_nth_drop)
  show "distinct (vol_names (vs[i := None]))" "set (vol_names (vs[i := None])) \<subseteq> set (vol_names vs)"
    using assms(2) unfolding n e by auto
qed

lemma ceil_div_bounds:
  assumes "0 < (b::nat)"
  shows "n \<le> (n + b - 1) div b * b \<and> (n + b - 1) div b * b < n + b"
proof -
  have "(n + b - 1) div b * b + (n + b - 1) mod b = n + b - 1" by (rule div_mult_mod_eq)
  moreover have "(n + b - 1) mod b < b" using assms by simp
  ultimately show ?thesis using assms by linarith
qed

text \<open>The blocks a request needs.\<close>

definition req_pebs :: "ubi_device \<Rightarrow> ubi_mkvol_req \<Rightarrow> int" where
  "req_pebs u req =
    (let usable = leb_size u - leb_size u mod req_alignment req in
     int ((req_bytes req + usable - 1) div usable))"

lemma create_cases:
  assumes "ubi_create_volume low req u d = (ret, u', d')" "req_vol_id req = None"
  shows "ret \<noteq> 0 \<and> u' = u \<or>
    ret = 0 \<and> req_pebs u req \<le> avail_pebs u \<and> req_name req \<notin> set (vol_names (volumes u)) \<and>
    (\<exists>i vol. i < length (volumes u) \<and> volumes u ! i = None \<and>
       vol_id vol = i \<and> vol_name vol = req_name req \<and> reserved_pebs vol = req_pebs u req \<and>
       vol_type vol = req_vol_type req \<and> eba_tbl_live vol \<and>
       usable_leb_size vol = leb_size u - leb_size u mod req_alignment req \<and>
       u' = u\<lparr>avail_pebs := avail_pebs u - req_pebs u req, rsvd_pebs := rsvd_pebs u + req_pebs u req,
              volumes := (volumes u)[i := Some vol], vol_count := vol_count u + 1\<rparr>)"
proof -
  have undo: "u\<lparr>avail_pebs := avail_pebs u, rsvd_pebs := rsvd_pebs u\<rparr> = u" by simp
  show ?thesis
  proof (cases "ro_mode u \<or> \<not> low_alloc low 0 \<or> first_free (volumes u) 0 = None \<or>
      find_volume (req_name req) (volumes u) 0 \<noteq> None \<or> req_pebs u req > avail_pebs u")
    case True
    then show ?thesis
      using assms by (auto simp: ubi_create_volume_def req_pebs_def Let_def split: option.splits if_splits)
  next
    case False
    then obtain i where i: "first_free (volumes u) 0 = Some i" by auto
    then have il: "i < length (volumes u)" "volumes u ! i = None" using first_free_Some by fastforce+
    obtain e1 d1 where w: "low_wl_flush low d = (e1, d1)" by fastforce
    let ?p = "req_pebs u req" and ?us = "leb_size u - leb_size u mod req_alignment req"
    define vol where "vol = (let vol = zero_volume\<lparr>usable_leb_size := ?us, reserved_pebs := ?p, vol_id := i,
                             alignment := req_alignment req,
                             data_pad := leb_size u mod req_alignment req,
                             vol_type := req_vol_type req, vol_name := req_name req,
                             eba_tbl_live := True\<rparr> in
                     if vol_type vol = UBI_DYNAMIC_VOLUME then set_dynamic_size vol else set_data_size 0 vol)"
    have v: "vol_id vol = i" "vol_name vol = req_name req" "reserved_pebs vol = ?p"
      "vol_type vol = req_vol_type req" "eba_tbl_live vol" "usable_leb_size vol = ?us"
      by (simp_all add: vol_def Let_def set_dynamic_size_def set_data_size_def)
    define rec where "rec = \<lparr>vt_reserved_pebs = ?p, vt_alignment = alignment vol,
        vt_data_pad = data_pad vol, vt_vol_type = vol_type vol, vt_name = vol_name vol\<rparr>"
    obtain e2 d2 where c: "low_change_vtbl low i (VtblSet rec) d1 = (e2, d2)" by fastforce
    have eq: "ubi_create_volume low req u d =
        (if e1 \<noteq> 0 then (e1, u, d1) else if \<not> low_alloc low 1 then (-ENOMEM, u, d1)
         else if e2 \<noteq> 0 then (e2, u, d2)
         else (0, u\<lparr>avail_pebs := avail_pebs u - ?p, rsvd_pebs := rsvd_pebs u + ?p,
              volumes := (volumes u)[i := Some vol], vol_count := vol_count u + 1\<rparr>, d2))"
      using False i il w c assms(2)
      unfolding ubi_create_volume_def rec_def vol_def Let_def req_pebs_def
      by (simp add: Let_def)
    have nm: "req_name req \<notin> set (vol_names (volumes u))"
      using False find_volume_None by (metis)
    show ?thesis
    proof (cases "e1 = 0 \<and> low_alloc low 1 \<and> e2 = 0")
      case True
      then have "ret = 0" "u' = u\<lparr>avail_pebs := avail_pebs u - ?p, rsvd_pebs := rsvd_pebs u + ?p,
              volumes := (volumes u)[i := Some vol], vol_count := vol_count u + 1\<rparr>"
        using assms(1) eq by simp_all
      then show ?thesis using False nm il v by (intro disjI2) (auto intro!: exI [of _ i] exI [of _ vol])
    next
      case False
      then show ?thesis using assms(1) unfolding eq by (auto split: if_splits)
    qed
  qed
qed


text \<open>
  A small device and a media layer that never fails, for the concrete instances: its state maps
  volume and logical eraseblock numbers to their data.
\<close>

definition sample_ubi :: ubi_device where
  "sample_ubi =
    \<lparr>ubi_mtd_name = ''ubi'', leb_size = 4, min_io_size = 1, avail_pebs = 10, rsvd_pebs = 6,
     beb_rsvd_pebs = 2, beb_rsvd_level = 2, volumes = [None, None, None], vol_count = 0, ro_mode = False\<rparr>"

definition sample_low :: "(nat \<times> nat \<Rightarrow> bytes option) ubi_low" where
  "sample_low =
    \<lparr>low_change_vtbl = (\<lambda>i c d. (0, d)), low_unmap = (\<lambda>v l d. (0, d((v, l) := None))),
     low_write = (\<lambda>v l b d. (0, d((v, l) := Some b))), low_write_st = (\<lambda>v l b e d. (0, d((v, l) := Some b))),
     low_read = (\<lambda>v l n d. (0, d)), low_wl_flush = (\<lambda>d. (0, d)), low_attach = (\<lambda>s d. (Inr sample_ubi, d)),
     low_alloc = (\<lambda>_. True)\<rparr>"

lemma sample_ubi_wf: "ubi_wf sample_ubi"
  by (simp add: ubi_wf_def sample_ubi_def less_Suc_eq)


section \<open>Removing and resizing\<close>

lemma removed_name:
  assumes "i < length vs" "vs ! i = Some vol" "distinct (vol_names vs)"
  shows "vol_name vol \<notin> set (vol_names (vs[i := None]))"
proof -
  have vs: "vs = take i vs @ Some vol # drop (Suc i) vs" using assms(1,2) by (metis id_take_nth_drop)
  have n: "vol_names vs = vol_names (take i vs) @ vol_name vol # vol_names (drop (Suc i) vs)"
    by (subst vs) simp
  show ?thesis using assms(1,3) unfolding n by (simp add: upd_conv_take_nth_drop)
qed

lemma unmap_lebs_ubi:
  assumes "\<And>k w. ubi (cb k w) = ubi w"
  shows "unmap_lebs low cb vid ls k w = (err, w') \<Longrightarrow> ubi w' = ubi w"
proof (induction ls arbitrary: k w)
  case (Cons l ls)
  obtain e d where "low_unmap low vid l (dev w) = (e, d)" by fastforce
  then show ?case
    using Cons.prems Cons.IH [of "k + 1" "cb (k + 1) (w\<lparr>dev := d\<rparr>)"] assms [of "k + 1" "w\<lparr>dev := d\<rparr>"]
    by (cases "e = 0") auto
qed simp

lemma update_reserved_sums:
  "avail_pebs (ubi_update_reserved u) + rsvd_pebs (ubi_update_reserved u) = avail_pebs u + rsvd_pebs u"
  "rsvd_pebs (ubi_update_reserved u) - beb_rsvd_pebs (ubi_update_reserved u) = rsvd_pebs u - beb_rsvd_pebs u"
  "volumes (ubi_update_reserved u) = volumes u"
  "0 \<le> avail_pebs u \<Longrightarrow> 0 \<le> avail_pebs (ubi_update_reserved u)"
  by (auto simp: ubi_update_reserved_def Let_def)

text \<open>The device after a removal: \<open>u\<close> without the volume in slot \<open>i\<close>.\<close>

definition removed_device :: "nat \<Rightarrow> ubi_volume \<Rightarrow> ubi_device \<Rightarrow> ubi_device" where
  "removed_device i vol u =
    (ubi_update_reserved (u\<lparr>volumes := (volumes u)[i := None], rsvd_pebs := rsvd_pebs u - reserved_pebs vol,
       avail_pebs := avail_pebs u + reserved_pebs vol\<rparr>))\<lparr>vol_count := vol_count u - 1\<rparr>"

lemma removed_device_accounts:
  assumes "ubi_wf u" "i < length (volumes u)" "volumes u ! i = Some vol"
  shows "volumes (removed_device i vol u) = (volumes u)[i := None]" "ubi_wf (removed_device i vol u)"
    "avail_pebs (removed_device i vol u) + rsvd_pebs (removed_device i vol u) = avail_pebs u + rsvd_pebs u"
    "overhead_pebs (removed_device i vol u) = overhead_pebs u"
    "find_volume (vol_name vol) ((volumes u)[i := None]) 0 = None"
proof -
  let ?v = "u\<lparr>volumes := (volumes u)[i := None], rsvd_pebs := rsvd_pebs u - reserved_pebs vol, avail_pebs := avail_pebs u + reserved_pebs vol\<rparr>"
  have p: "0 \<le> reserved_pebs vol" "0 \<le> avail_pebs u" "distinct (vol_names (volumes u))"
    using assms by (auto simp: ubi_wf_def)
  have f: "volumes (removed_device i vol u) = (volumes u)[i := None]" "0 \<le> avail_pebs (removed_device i vol u)"
    "avail_pebs (removed_device i vol u) + rsvd_pebs (removed_device i vol u) = avail_pebs u + rsvd_pebs u"
    "rsvd_pebs (removed_device i vol u) - beb_rsvd_pebs (removed_device i vol u) = rsvd_pebs u - reserved_pebs vol - beb_rsvd_pebs u"
    using p(1,2) update_reserved_sums [of ?v] by (simp_all add: removed_device_def)
  show "volumes (removed_device i vol u) = (volumes u)[i := None]"
    "avail_pebs (removed_device i vol u) + rsvd_pebs (removed_device i vol u) = avail_pebs u + rsvd_pebs u" by (fact f)+
  show "ubi_wf (removed_device i vol u)"
    using assms(1) f(1,2) vol_names_drop(1) [OF assms(2) p(3)] by (auto simp: ubi_wf_def nth_list_update [OF assms(2)] split: if_splits)
  show "overhead_pebs (removed_device i vol u) = overhead_pebs u"
    using f(4) assms(2,3) by (simp add: overhead_pebs_def f(1) sum_pebs_update vol_pebs_def)
  show "find_volume (vol_name vol) ((volumes u)[i := None]) 0 = None"
    using removed_name assms(2,3) p(3) by (auto simp: find_volume_None)
qed

text \<open>
  C34: removing a volume keeps the device well formed and its eraseblock total; on success its name is
  gone from the table. When a step of the removal fails the volume is in the table again.
\<close>

theorem ubi_remove_volume_accounting:
  assumes "ubi w = Some u" and "ubi_wf u" and "i < length (volumes u)" and "volumes u ! i = Some vol"
    and "\<forall>k t w. ubi (cb k t w) = ubi w"
    and "ubi_remove_volume low cb i False w = (ret, w')"
  shows "(ret \<noteq> 0 \<longrightarrow> ubi w' = ubi w) \<and>
    (ret = 0 \<longrightarrow> (\<exists>u'. ubi w' = Some u' \<and> ubi_wf u' \<and> volumes u' = (volumes u)[i := None] \<and>
       find_volume (vol_name vol) (volumes u') 0 = None \<and>
       avail_pebs u' + rsvd_pebs u' = avail_pebs u + rsvd_pebs u \<and> overhead_pebs u' = overhead_pebs u))"
proof (cases "ro_mode u \<or> ref_count vol > 1")
  case True
  then show ?thesis using assms(1,4,6) by (cases "ro_mode u") (auto simp: ubi_remove_volume_def)
next
  case False
  let ?w0 = "upd_ubi (\<lambda>u. u\<lparr>volumes := (volumes u)[i := None]\<rparr>) w"
  let ?restore = "upd_ubi (\<lambda>u. u\<lparr>volumes := (volumes u)[i := Some vol]\<rparr>)"
  obtain e1 d1 where c: "low_change_vtbl low i VtblDelete (dev ?w0) = (e1, d1)" by fastforce
  let ?w1 = "cb 0 (reserved_pebs vol) (?w0\<lparr>dev := d1\<rparr>)"
  obtain e2 w2 where n: "unmap_lebs low (\<lambda>k. cb k (reserved_pebs vol)) i [0..<nat (reserved_pebs vol)] 0 ?w1 = (e2, w2)"
    by (rule prod.exhaust)
  have u0: "ubi ?w0 = Some (u\<lparr>volumes := (volumes u)[i := None]\<rparr>)" using assms(1) by (simp add: upd_ubi_def)
  have u2: "ubi w2 = ubi ?w0" using unmap_lebs_ubi [OF _ n] assms(5) by simp
  have restored: "u\<lparr>volumes := (volumes u)[i := Some vol]\<rparr> = u"
    using assms(4) by (metis list_update_id ubi_device.surjective ubi_device.update_convs(8))
  have "ubi_remove_volume low cb i False w = (if e1 \<noteq> 0 then (e1, ?restore (?w0\<lparr>dev := d1\<rparr>)) else if e2 \<noteq> 0 then (e2, ?restore w2)
       else (0, upd_ubi (\<lambda>u. (ubi_update_reserved (u\<lparr>rsvd_pebs := rsvd_pebs u - reserved_pebs vol,
                  avail_pebs := avail_pebs u + reserved_pebs vol\<rparr>))\<lparr>vol_count := vol_count u - 1\<rparr>) w2))"
    using False assms(1,4) c n by (simp add: ubi_remove_volume_def Let_def)
  note eq = trans [OF assms(6) [symmetric] this]
  show ?thesis
  proof (cases "e1 = 0 \<and> e2 = 0")
    case True
    then have "ret = 0" "ubi w' = Some (removed_device i vol u)"
      using eq u2 u0 by (auto simp: upd_ubi_def removed_device_def)
    then show ?thesis using removed_device_accounts [OF assms(2-4)] by simp
  next
    case False
    then have "ret \<noteq> 0" "ubi w' = ubi w" using eq assms(1) u0 u2 restored by (auto simp: upd_ubi_def split: if_splits)
    then show ?thesis by simp
  qed
qed

text \<open>A device with one volume of three blocks in its first slot.\<close>

definition sample_vol :: ubi_volume where
  "sample_vol = zero_volume\<lparr>usable_leb_size := 4, reserved_pebs := 3, vol_name := ''fit'',
     vol_type := UBI_STATIC_VOLUME, eba_tbl_live := True, checked := True\<rparr>"

definition sample_ubi1 :: ubi_device where
  "sample_ubi1 = sample_ubi\<lparr>volumes := [Some sample_vol, None, None], avail_pebs := 7, rsvd_pebs := 9, vol_count := 1\<rparr>"

lemma sample_ubi1_wf: "ubi_wf sample_ubi1"
  by (simp add: ubi_wf_def sample_ubi1_def sample_ubi_def sample_vol_def zero_volume_def less_Suc_eq nth_Cons
      split: nat.split)

theorem ubi_remove_volume_accounting_witness:
  "\<exists>w' u'. ubi_remove_volume sample_low (\<lambda>k t w. w) 0 False
      ((initial_world Map.empty (\<lambda>_. 0) Map.empty ())\<lparr>ubi := Some sample_ubi1\<rparr>) = (0, w') \<and>
    ubi w' = Some u' \<and> find_volume ''fit'' (volumes u') 0 = None \<and> avail_pebs u' + rsvd_pebs u' = 16"
proof -
  let ?w = "(initial_world Map.empty (\<lambda>_. 0) Map.empty ())\<lparr>ubi := Some sample_ubi1\<rparr>"
  obtain ret w' where e: "ubi_remove_volume sample_low (\<lambda>k t w. w) 0 False ?w = (ret, w')"
    by (cases "ubi_remove_volume sample_low (\<lambda>k t w. w) 0 False ?w")
  have n: "fst (unmap_lebs sample_low (\<lambda>k w. w) vid ls k w) = 0" for vid ls k and w :: "(nat \<times> nat \<Rightarrow> bytes option, unit) world"
    by (induction ls arbitrary: k w) (simp_all add: sample_low_def)
  have "fst (ubi_remove_volume sample_low (\<lambda>k t w. w) 0 False ?w) = 0"
    by (simp add: ubi_remove_volume_def sample_ubi1_def sample_ubi_def sample_vol_def zero_volume_def
        upd_ubi_def case_prod_beta n Let_def) (simp add: sample_low_def)
  then have "ret = 0" by (simp only: e fst_conv)
  then show ?thesis
    using ubi_remove_volume_accounting [OF _ sample_ubi1_wf _ _ _ e, of sample_vol] e
    by (auto simp: sample_ubi1_def sample_ubi_def sample_vol_def zero_volume_def)
qed



section \<open>Updating a static volume\<close>

text \<open>
  What an update relies on of the layers below, relative to a view \<open>leb\<close> of the data of the logical
  eraseblocks: a successful write of a block stores its data and a successful unmap removes it,
  each leaving every other block alone; flushing and volume table changes leave all blocks alone;
  error codes are negative.
\<close>

definition low_ok :: "('d \<Rightarrow> nat \<times> nat \<Rightarrow> bytes option) \<Rightarrow> 'd ubi_low \<Rightarrow> bool" where
  "low_ok leb low \<longleftrightarrow>
    (\<forall>v l b e d err d'. low_write_st low v l b e d = (err, d') \<longrightarrow>
       err \<le> 0 \<and> (err = 0 \<longrightarrow> leb d' = (leb d)((v, l) := Some b))) \<and>
    (\<forall>v l d d'. low_unmap low v l d = (0, d') \<longrightarrow> leb d' = (leb d)((v, l) := None)) \<and>
    (\<forall>d err d'. low_wl_flush low d = (err, d') \<longrightarrow> err \<le> 0 \<and> leb d' = leb d) \<and>
    (\<forall>i c d err d'. low_change_vtbl low i c d = (err, d') \<longrightarrow> err \<le> 0 \<and> leb d' = leb d)"

text \<open>Feeding the data of an update in chunks.\<close>

fun update_chunks ::
    "'d ubi_low \<Rightarrow> ubi_device \<Rightarrow> ubi_volume \<Rightarrow> bytes list \<Rightarrow> 'd \<Rightarrow> int \<times> ubi_volume \<times> 'd" where
  "update_chunks low u vol [] d = (0, vol, d)"
| "update_chunks low u vol (c # cs) d =
    (case ubi_more_update_data low u vol c d of
       (err, vol, d) \<Rightarrow> if err < 0 then (err, vol, d) else update_chunks low u vol cs d)"

text \<open>The blocks that are on the media once \<open>r\<close> of the \<open>n\<close> bytes have arrived, and their data.\<close>

definition lebs_done :: "nat \<Rightarrow> nat \<Rightarrow> nat \<Rightarrow> nat \<Rightarrow> bool" where
  "lebs_done us n r l \<longleftrightarrow> (l + 1) * us \<le> r \<or> r = n \<and> l * us < n"

definition leb_slice :: "nat \<Rightarrow> bytes \<Rightarrow> nat \<Rightarrow> bytes" where
  "leb_slice us img l = take us (drop (l * us) img)"

definition lebs_view :: "nat \<Rightarrow> nat \<Rightarrow> bytes \<Rightarrow> nat \<Rightarrow> (nat \<times> nat \<Rightarrow> bytes option) \<Rightarrow> nat \<times> nat \<Rightarrow> bytes option" where
  "lebs_view vid us img r m = (\<lambda>(v, l). if v = vid \<and> lebs_done us (length img) r l then Some (leb_slice us img l) else m (v, l))"

text \<open>The state of an update after \<open>r\<close> bytes of \<open>img\<close>; \<open>m\<close> is the view of the blocks at its start.\<close>

definition upd_state :: "('d \<Rightarrow> nat \<times> nat \<Rightarrow> bytes option) \<Rightarrow> (nat \<times> nat \<Rightarrow> bytes option) \<Rightarrow> bytes \<Rightarrow> nat \<Rightarrow> ubi_volume \<Rightarrow> 'd \<Rightarrow> bool" where
  "upd_state leb m img r vol d \<longleftrightarrow>
    vol_type vol = UBI_STATIC_VOLUME \<and> 0 < usable_leb_size vol \<and>
    upd_bytes vol = length img \<and> upd_received vol = r \<and> r \<le> length img \<and>
    leb d = lebs_view (vol_id vol) (usable_leb_size vol) img r m \<and>
    (r < length img \<longrightarrow> (\<exists>b. upd_buf vol = Some b \<and> usable_leb_size vol \<le> length b \<and>
       take (r mod usable_leb_size vol) b =
         take (r mod usable_leb_size vol) (drop (r div usable_leb_size vol * usable_leb_size vol) img)))"

lemma lebs_view_write:
  assumes "0 < us" "k * us \<le> r" "r \<le> r'" "r' = (k + 1) * us \<or> r' = length img" "r' \<le> (k + 1) * us"
    "r < (k + 1) * us" "r < r'" "r' \<le> length img"
  shows "(lebs_view vid us img r m)((vid, k) := Some (leb_slice us img k)) = lebs_view vid us img r' m"
proof (rule ext)
  fix x :: "nat \<times> nat"
  obtain v l where x: "x = (v, l)" by (cases x)
  have "lebs_done us (length img) r' l \<longleftrightarrow> l = k \<or> lebs_done us (length img) r l"
  proof (cases "l < k")
    case True
    then have "(l + 1) * us \<le> k * us" by (intro mult_le_mono1) simp
    then show ?thesis using assms by (auto simp: lebs_done_def)
  next
    case False
    show ?thesis
    proof (cases "l = k")
      case True
      then show ?thesis using assms by (auto simp: lebs_done_def)
    next
      case False
      with \<open>\<not> l < k\<close> have "k + 1 \<le> l" by simp
      then have "(k + 1) * us \<le> l * us" by (rule mult_le_mono1)
      moreover have "l * us < (l + 1) * us" using assms(1) by simp
      ultimately show ?thesis using assms False by (auto simp: lebs_done_def)
    qed
  qed
  then show "((lebs_view vid us img r m)((vid, k) := Some (leb_slice us img k))) x = lebs_view vid us img r' m x"
    by (auto simp: x lebs_view_def)
qed

lemma lebs_view_none:
  assumes "0 < us" "r \<le> r'" "r' < (r div us + 1) * us" "r' \<noteq> length img" "r \<noteq> length img"
  shows "lebs_view vid us img r' m = lebs_view vid us img r m"
proof -
  have "(l + 1) * us \<le> r' \<longleftrightarrow> (l + 1) * us \<le> r" for l
  proof
    assume "(l + 1) * us \<le> r'"
    then have "(l + 1) * us < (r div us + 1) * us" using assms(3) by (rule le_less_trans)
    then have "l + 1 < r div us + 1" using mult_less_cancel2 by blast
    then have "l + 1 \<le> r div us" by simp
    then have "(l + 1) * us \<le> r div us * us" by (rule mult_le_mono1)
    also have "\<dots> \<le> r" by simp
    finally show "(l + 1) * us \<le> r" .
  qed (use assms(2) in simp)
  then show ?thesis using assms(4,5) by (auto simp: lebs_view_def lebs_done_def fun_eq_iff)
qed

lemma low_okD:
  assumes "low_ok leb low"
  shows "low_write_st low v l b e d = (err, d') \<Longrightarrow> err \<le> 0"
    and "low_write_st low v l b e d = (0, d') \<Longrightarrow> leb d' = (leb d)((v, l) := Some b)"
    and "low_unmap low v l d = (0, d') \<Longrightarrow> leb d' = (leb d)((v, l) := None)"
    and "low_wl_flush low d = (err, d') \<Longrightarrow> err \<le> 0 \<and> leb d' = leb d"
    and "low_change_vtbl low i c d = (err, d') \<Longrightarrow> err \<le> 0 \<and> leb d' = leb d"
  using assms unfolding low_ok_def by blast+

text \<open>A write of the bytes of \<open>img\<close> that complete block \<open>r div us\<close>, or the image, moves the update on.\<close>

lemma upd_state_write:
  assumes low: "low_ok leb low" and st: "upd_state leb m img r vol d" and us: "us = usable_leb_size vol"
    and r': "r < r'" "r' \<le> length img" "r' = (r div us + 1) * us \<or> r' = length img" "r' \<le> (r div us + 1) * us"
    and w: "write_leb low u vol (r div us) (leb_slice us img (r div us)) e d = (0, d')"
    and b: "\<exists>c. b = Some c \<and> us \<le> length c"
  shows "upd_state leb m img r' (vol\<lparr>upd_buf := b, upd_received := r'\<rparr>) d'"
proof -
  have *: "vol_type vol = UBI_STATIC_VOLUME" "0 < us" "leb d = lebs_view (vol_id vol) us img r m" "upd_bytes vol = length img"
    using st us by (auto simp: upd_state_def)
  have "leb d' = (leb d)((vol_id vol, r div us) := Some (leb_slice us img (r div us)))"
    using w *(1) low_okD(2)[OF low] by (simp add: write_leb_def)
  also have "\<dots> = lebs_view (vol_id vol) us img r' m"
    unfolding *(3) using * r' by (intro lebs_view_write) (auto simp: dividend_less_div_times)
  finally have l: "leb d' = lebs_view (vol_id vol) us img r' m" .
  have "r' mod us = 0" if "r' < length img" using that r' by auto
  then show ?thesis using l * us r' b by (auto simp: upd_state_def)
qed

lemma upd_state_buffer:
  assumes st: "upd_state leb m img r vol d" and us: "us = usable_leb_size vol"
    and r': "r \<le> r'" "r' < length img" "r' < (r div us + 1) * us"
    and c: "b = Some c" "us \<le> length c" "take (r' mod us) c = take (r' mod us) (drop (r div us * us) img)"
  shows "upd_state leb m img r' (vol\<lparr>upd_buf := b, upd_received := r'\<rparr>) d"
proof -
  have *: "0 < us" "leb d = lebs_view (vol_id vol) us img r m"
    using st us by (auto simp: upd_state_def)
  have q: "r' div us = r div us"
  proof (rule div_nat_eqI)
    show "us * (r div us) \<le> r'" using r'(1) times_div_less_eq_dividend [of us r] by (rule le_trans [rotated])
    show "r' < us * Suc (r div us)" using r'(3) by (simp add: mult.commute)
  qed
  have "leb d = lebs_view (vol_id vol) us img r' m"
    unfolding *(2) using * r' by (intro lebs_view_none [symmetric]) auto
  then show ?thesis using st us r' c q by (auto simp: upd_state_def)
qed

lemma write_leb_upd_buf [simp]: "write_leb low u (vol\<lparr>upd_buf := b\<rparr>) = write_leb low u vol"
  by (intro ext) (simp add: write_leb_def Let_def)

lemma take_overwrite_0: "length xs \<le> length m \<Longrightarrow> take (length xs) (overwrite 0 xs m) = xs"
  using take_drop_overwrite [of 0 xs m] by simp

lemma update_lebs_ok:
  assumes low: "low_ok leb low"
  shows "upd_state leb m img r vol d \<Longrightarrow> r mod usable_leb_size vol = 0 \<Longrightarrow> l = r div usable_leb_size vol \<Longrightarrow>
    take (length buf) (drop r img) = buf \<Longrightarrow> length buf \<le> fuel \<Longrightarrow> \<exists>c. upd_buf vol = Some c \<and> usable_leb_size vol \<le> length c \<Longrightarrow>
    update_lebs fuel low u vol l buf d = (err, vol', d') \<Longrightarrow>
    err \<le> 0 \<and> (err = 0 \<longrightarrow> upd_state leb m img (r + length buf) vol' d') \<and> (\<exists>b k. vol' = vol\<lparr>upd_buf := b, upd_received := k\<rparr>) \<and>
      (err \<noteq> 0 \<longrightarrow> upd_received vol' < length img)"
proof (induction fuel arbitrary: r vol d l buf)
  case 0
  then have "buf = [] \<and> err = 0 \<and> vol' = vol \<and> d' = d" by simp
  then show ?case using "0.prems"(1) by (auto intro!: exI[of _ "upd_buf vol"] exI[of _ "upd_received vol"])
next
  case (Suc fuel)
  show ?case
  proof (cases "buf = []")
    case True
    then have "err = 0 \<and> vol' = vol \<and> d' = d" using Suc.prems(7) by simp
    then show ?thesis using True Suc.prems(1) by (auto intro!: exI[of _ "upd_buf vol"] exI[of _ "upd_received vol"])
  next
    case False
    define us where "us = usable_leb_size vol"
    define len where "len = min us (length buf)"
    obtain c where c: "upd_buf vol = Some c" "us \<le> length c" using Suc.prems(6) us_def by auto
    have st: "upd_bytes vol = length img" "upd_received vol = r" "0 < us" "r \<le> length img"
      using Suc.prems(1) by (auto simp: upd_state_def us_def)
    have len: "0 < len" "len \<le> us" "len \<le> length buf" using False st by (auto simp: len_def)
    have rlen: "r + length buf \<le> length img"
      using Suc.prems(4) False st(4) by (metis diff_add_inverse le_add_diff_inverse length_drop length_take min.absorb_iff2 nat_add_left_cancel_le)
    have bl: "take len buf = take len (drop r img)"
      using Suc.prems(4) len(3) by (metis min.absorb1 take_take)
    have rq: "r = r div us * us" using Suc.prems(2) us_def by (metis div_mult_mod_eq add.right_neutral)
    define b' where "b' = map_option (overwrite 0 (take len buf)) (upd_buf vol)"
    define vol1 where "vol1 = vol\<lparr>upd_buf := b'\<rparr>"
    define W where "W = (if len = us \<or> r + len = length img then write_leb low u vol1 l (take len buf) (upd_ebs vol) d else (0, d))"
    obtain e d1 where W': "W = (e, d1)" by (cases W)
    have eq: "update_lebs (Suc fuel) low u vol l buf d = (if e \<noteq> 0 then (e, vol1, d1)
       else update_lebs fuel low u (vol1\<lparr>upd_received := r + len\<rparr>) (l + 1) (drop len buf) d1)"
    proof -
      have "update_lebs (Suc fuel) low u vol l buf d = (case W of (e, d1) \<Rightarrow> if e \<noteq> 0 then (e, vol1, d1)
         else update_lebs fuel low u (vol1\<lparr>upd_received := r + len\<rparr>) (l + 1) (drop len buf) d1)"
        unfolding W_def vol1_def b'_def len_def us_def by (simp only: update_lebs.simps(2) False if_False st Let_def)
      then show ?thesis by (simp only: W' prod.case)
    qed
    have neg: "e \<le> 0"
      using W' low_okD(1)[OF low] Suc.prems(1) by (auto simp: W_def write_leb_def vol1_def upd_state_def split: if_splits)
    have b': "b' = Some (overwrite 0 (take len buf) c)" "us \<le> length (overwrite 0 (take len buf) c)"
      using c by (auto simp: b'_def)
    have v1: "usable_leb_size vol1 = us" "vol1\<lparr>upd_received := k\<rparr> = vol\<lparr>upd_buf := b', upd_received := k\<rparr>" for k by (simp_all add: vol1_def us_def)
    have nxt: "upd_state leb m img (r + len) (vol1\<lparr>upd_received := r + len\<rparr>) d1" if "e = 0"
    proof (cases "len = us \<or> r + len = length img")
      case True
      have "take len (drop r img) = leb_slice us img (r div us)"
        using True len rq unfolding leb_slice_def by (auto simp flip: rq)
      then have "write_leb low u vol l (leb_slice us img (r div us)) (upd_ebs vol) d = (0, d1)"
        using W' that True bl by (simp add: W_def vol1_def)
      then show ?thesis unfolding v1(2)
        using True len rq rlen b' Suc.prems(3) us_def
        by (intro upd_state_write [OF low Suc.prems(1) us_def, where u = u and e = "upd_ebs vol" ]) (auto simp: algebra_simps)
    next
      case False
      then have "len < us" "r + len < length img" "len = length buf" using len rlen by (auto simp: len_def)
      moreover have "(r + len) mod us = len" using Suc.prems(2) \<open>len < us\<close> us_def by (metis add_0 mod_add_left_eq mod_less)
      ultimately show ?thesis unfolding v1(2)
        using False W' that b' bl rq len c take_overwrite_0 [of "take len buf" c]
        by (intro upd_state_buffer [OF _ us_def _ _ _ b'(1,2)])
          (use Suc.prems(1) in \<open>auto simp: W_def algebra_simps\<close>)
    qed
    show ?thesis
    proof (cases "e = 0")
      case False
      then have "err = e \<and> vol' = vol1" using Suc.prems(7) eq by simp
      moreover have "r < length img" using rlen \<open>buf \<noteq> []\<close> by (cases buf) auto
      ultimately show ?thesis using False neg st(2) by (auto simp: vol1_def intro!: exI[of _ "upd_received vol"])
    next
      case True
      have rec: "update_lebs fuel low u (vol1\<lparr>upd_received := r + len\<rparr>) (l + 1) (drop len buf) d1 = (err, vol', d')"
        using Suc.prems(7) eq True by simp
      show ?thesis
      proof (cases "len = us")
        case True
        have "err \<le> 0 \<and> (err = 0 \<longrightarrow> upd_state leb m img (r + len + length (drop len buf)) vol' d') \<and>
           (\<exists>b k. vol' = (vol1\<lparr>upd_received := r + len\<rparr>)\<lparr>upd_buf := b, upd_received := k\<rparr>) \<and>
           (err \<noteq> 0 \<longrightarrow> upd_received vol' < length img)"
        proof (rule Suc.IH [OF nxt[OF \<open>e = 0\<close>] _ _ _ _ _ rec])
          show "(r + len) mod usable_leb_size (vol1\<lparr>upd_received := r + len\<rparr>) = 0"
            using Suc.prems(2) True us_def v1 by simp
          show "l + 1 = (r + len) div usable_leb_size (vol1\<lparr>upd_received := r + len\<rparr>)"
            using Suc.prems(3) True us_def v1 st(3) div_add_self2 [of us r] by simp
          show "take (length (drop len buf)) (drop (r + len) img) = drop len buf"
            using Suc.prems(4) by (metis add.commute drop_drop drop_take length_drop)
          show "length (drop len buf) \<le> fuel" using Suc.prems(5) len by simp
          show "\<exists>c. upd_buf (vol1\<lparr>upd_received := r + len\<rparr>) = Some c \<and> usable_leb_size (vol1\<lparr>upd_received := r + len\<rparr>) \<le> length c"
            using b' v1 by (simp add: vol1_def us_def)
        qed
        then show ?thesis using len by (auto simp: vol1_def)
      next
        case False
        then have "drop len buf = []" "length buf = len" using len by (auto simp: len_def)
        then have "err = 0 \<and> vol' = vol1\<lparr>upd_received := r + len\<rparr> \<and> d' = d1" using rec by (cases fuel) auto
        then show ?thesis using nxt[OF \<open>e = 0\<close>] \<open>length buf = len\<close> by (auto simp: vol1_def)
      qed
    qed
  qed
qed

text \<open>The first part of \<^verbatim>\<open>ubi_more_update_data\<close>: completing the block an earlier chunk began.\<close>

lemma upd_state_partial:
  assumes low: "low_ok leb low" and st: "upd_state leb m img r vol d" and us: "us = usable_leb_size vol"
    and o: "offs = r mod us" "offs \<noteq> 0" and r: "r < length img"
    and buf: "take (length buf) (drop r img) = buf" "buf \<noteq> []"
    and len: "len = min (us - offs) (length buf)"
    and ub: "ub = map_option (overwrite offs (take len buf)) (upd_buf vol)"
    and w: "(if offs + len = us \<or> r + len = length img
             then (case ub of Some b \<Rightarrow> write_leb low u vol (r div us) (take (offs + len) b) e d | None \<Rightarrow> (0, d))
             else (0, d)) = (err, d')"
  shows "err \<le> 0 \<and> (err = 0 \<longrightarrow> upd_state leb m img (r + len) (vol\<lparr>upd_buf := ub, upd_received := r + len\<rparr>) d') \<and>
    (\<exists>c. ub = Some c \<and> us \<le> length c)"
proof -
  have st': "0 < us" "vol_type vol = UBI_STATIC_VOLUME" using st us by (auto simp: upd_state_def)
  obtain c where c: "upd_buf vol = Some c" "us \<le> length c" "take offs c = take offs (drop (r div us * us) img)"
    using st us o r by (auto simp: upd_state_def)
  have offs: "offs < us" "r = r div us * us + offs" using st'(1) o by simp_all
  have l: "0 < len" "offs + len \<le> us" "len \<le> length buf" using len buf(2) offs(1) by auto
  have rlen: "r + length buf \<le> length img"
    using buf r by (metis diff_add_inverse le_add_diff_inverse length_drop length_take less_imp_le_nat min.absorb_iff2 nat_add_left_cancel_le)
  define c' where "c' = overwrite offs (take len buf) c"
  have c': "ub = Some c'" "length c' = length c" using ub c(1) by (auto simp: c'_def)
  have "take (offs + len) c' = take offs c @ take len buf"
  proof -
    have "len \<le> length c - offs" using l c(2) by simp
    then show ?thesis using l c(2) offs(1) by (simp add: c'_def overwrite_def min.absorb1 min.absorb2)
  qed
  also have "\<dots> = take offs (drop (r div us * us) img) @ take len (drop r img)"
    using c(3) buf(1) l(3) by (metis min.absorb1 take_take)
  also have "\<dots> = take (offs + len) (drop (r div us * us) img)"
    using offs(2) by (metis add.commute drop_drop take_add)
  finally have pre: "take (offs + len) c' = take (offs + len) (drop (r div us * us) img)" .
  have end': "(r div us + 1) * us = r + (us - offs)" using offs by (simp add: algebra_simps)
  show ?thesis
  proof (cases "offs + len = us \<or> r + len = length img")
    case True
    have "take (offs + len) c' = leb_slice us img (r div us)"
    proof (cases "offs + len = us")
      case False
      with True have "length (drop (r div us * us) img) = offs + len" using offs(2) by simp
      then show ?thesis unfolding pre leb_slice_def using l(2) by simp
    qed (use pre in \<open>simp add: leb_slice_def\<close>)
    then have w': "write_leb low u vol (r div us) (leb_slice us img (r div us)) e d = (err, d')"
      using w True c' by simp
    then have "err \<le> 0" using low_okD(1)[OF low] st'(2) by (auto simp: write_leb_def)
    moreover have "upd_state leb m img (r + len) (vol\<lparr>upd_buf := ub, upd_received := r + len\<rparr>) d'" if "err = 0"
      by (rule upd_state_write [OF low st us, where u = u and e = e])
        (use True l rlen w' that c' c(2) end' in auto)
    ultimately show ?thesis using c' c(2) by auto
  next
    case False
    have "(r + len) mod us = offs + len"
      using False l(2) o(1) by (metis le_neq_implies_less mod_add_left_eq mod_less)
    then have "upd_state leb m img (r + len) (vol\<lparr>upd_buf := ub, upd_received := r + len\<rparr>) d"
      by (intro upd_state_buffer [OF st us _ _ _ c'(1)])
        (use False l rlen c' c(2) end' pre in auto)
    then show ?thesis using w False c' c(2) by auto
  qed
qed

lemma ubi_more_update_data_ok:
  assumes low: "low_ok leb low" and st: "upd_state leb m img r vol d" and r: "r < length img"
    and buf: "take (length buf) (drop r img) = buf" "buf \<noteq> []"
    and run: "ubi_more_update_data low u vol buf d = (err, vol', d')" "0 \<le> err"
  shows "upd_state leb m img (r + length buf) vol' d' \<and>
    vol_id vol' = vol_id vol \<and> usable_leb_size vol' = usable_leb_size vol \<and>
    (r + length buf = length img \<longrightarrow>
      \<not> updating vol' \<and> \<not> upd_marker vol' \<and> \<not> corrupted vol' \<and> used_bytes vol' = length img \<and> upd_buf vol' = None)"
proof -
  define us where "us = usable_leb_size vol"
  define offs where "offs = r mod us"
  define len where "len = min (us - offs) (length buf)"
  have st': "0 < us" "upd_received vol = r" "upd_bytes vol = length img" "r \<le> length img"
    using st by (auto simp: upd_state_def us_def)
  have rlen: "r + length buf \<le> length img"
    using buf r by (metis diff_add_inverse le_add_diff_inverse length_drop length_take less_imp_le_nat min.absorb_iff2 nat_add_left_cancel_le)
  define ub where "ub = map_option (overwrite offs (take len buf)) (upd_buf vol)"
  define W where "W = (if offs + len = us \<or> r + len = length img
      then (case ub of Some b \<Rightarrow> write_leb low u vol (r div us) (take (offs + len) b) (upd_ebs vol) d | None \<Rightarrow> (0, d)) else (0, d))"
  define P where "P = (if offs \<noteq> 0 then (case W of (e, d) \<Rightarrow>
       (e, vol\<lparr>upd_buf := ub, upd_received := (if e \<noteq> 0 then r else r + len)\<rparr>, r div us + 1, drop len buf, d))
     else (0, vol, r div us, buf, d))"
  define F where "F = (\<lambda>(err, vol2, d). if upd_received vol2 = upd_bytes vol2 then
           let (err, d) = low_wl_flush low d in
           if err \<noteq> 0 then (err, vol2, d)
           else
             let (err, vol3, d) = clear_update_marker low vol2 (upd_bytes vol2) d in
             if err \<noteq> 0 then (err, vol3, d)
             else (int (length buf), vol3\<lparr>updating := False, upd_buf := None\<rparr>, d)
         else (err, vol2, d))"
  have eq: "ubi_more_update_data low u vol buf d = (if ro_mode u then (-EROFS, vol, d) else
     case P of (err, vol1, lnum1, buf1, d) \<Rightarrow> if err \<noteq> 0 then (err, vol1, d)
       else F (update_lebs (length buf1) low u vol1 lnum1 buf1 d))"
    using rlen unfolding ubi_more_update_data_def F_def P_def W_def ub_def len_def offs_def us_def
    by (simp only: st' Let_def not_less [symmetric] if_False case_prod_unfold fst_conv snd_conv split: if_split)
  have ro: "\<not> ro_mode u" using run eq by auto
  obtain vol1 l1 buf1 d1 where P: "P = (0, vol1, l1, buf1, d1)" and st1: "upd_state leb m img (r + (length buf - length buf1)) vol1 d1"
    and b1: "take (length buf1) (drop (r + (length buf - length buf1)) img) = buf1" "length buf1 \<le> length buf"
    and v1: "\<exists>b k. vol1 = vol\<lparr>upd_buf := b, upd_received := k\<rparr> \<and> (buf1 \<noteq> [] \<longrightarrow> (\<exists>c. b = Some c \<and> us \<le> length c) \<and> (r + (length buf - length buf1)) mod us = 0 \<and> l1 = (r + (length buf - length buf1)) div us)"
  proof (cases "offs = 0")
    case True
    have "\<exists>c. upd_buf vol = Some c \<and> us \<le> length c" using st r by (auto simp: upd_state_def us_def)
    with True st show ?thesis
      by (intro that [of vol "r div us" buf d]) (auto simp: P_def buf offs_def intro!: exI[of _ "upd_buf vol"] exI[of _ "upd_received vol"])
  next
    case False
    obtain e d1 where W: "W = (e, d1)" by (cases W)
    note p = upd_state_partial [OF low st us_def offs_def False r buf len_def ub_def W [unfolded W_def]]
    have "e = 0" using p run eq ro W False by (auto simp: P_def split: if_splits)
    have l: "len \<le> length buf" by (simp add: len_def)
    have "(r + len) mod us = 0 \<and> r div us + 1 = (r + len) div us" if "drop len buf \<noteq> []"
    proof -
      have "len = us - offs" using that by (auto simp: len_def)
      then have *: "r + len = (r div us + 1) * us"
        using div_mult_mod_eq [of r us] mod_less_divisor [OF st'(1), of r] unfolding offs_def add_mult_distrib by linarith
      show ?thesis unfolding * using st'(1) by simp
    qed
    moreover have "take (length (drop len buf)) (drop (r + len) img) = drop len buf"
      using buf(1) by (metis add.commute drop_drop drop_take length_drop)
    ultimately show ?thesis using p W False \<open>e = 0\<close> l
      by (intro that [of "vol\<lparr>upd_buf := ub, upd_received := r + len\<rparr>" "r div us + 1" "drop len buf" d1])
        (auto simp: P_def)
  qed
  obtain e2 vol2 d2 where U: "update_lebs (length buf1) low u vol1 l1 buf1 d1 = (e2, vol2, d2)" by (rule prod_cases3)
  have "e2 \<le> 0 \<and> (e2 = 0 \<longrightarrow> upd_state leb m img (r + length buf) vol2 d2) \<and> (\<exists>b k. vol2 = vol\<lparr>upd_buf := b, upd_received := k\<rparr>) \<and> (e2 \<noteq> 0 \<longrightarrow> upd_received vol2 < length img)"
  proof (cases "buf1 = []")
    case True
    then show ?thesis using U st1 v1 by auto
  next
    case False
    then show ?thesis
      using update_lebs_ok [OF low st1 _ _ b1(1) order_refl _ U] v1 b1(2) by (auto simp: us_def)
  qed
  then have e2: "e2 \<le> 0" "e2 = 0 \<Longrightarrow> upd_state leb m img (r + length buf) vol2 d2"
    and v2: "\<exists>b k. vol2 = vol\<lparr>upd_buf := b, upd_received := k\<rparr>" and lt: "e2 \<noteq> 0 \<Longrightarrow> upd_received vol2 < length img" by auto
  have F: "F (e2, vol2, d2) = (err, vol', d')" using run(1) eq ro P U by simp
  have u2: "upd_bytes vol2 = length img" using v2 st' by auto
  have "e2 = 0"
  proof (rule ccontr)
    assume "e2 \<noteq> 0"
    then have "err = e2" using F lt u2 by (simp add: F_def)
    then show False using \<open>e2 \<noteq> 0\<close> e2(1) run(2) by simp
  qed
  note st2 = e2(2) [OF this]
  show ?thesis
  proof (cases "r + length buf = length img")
    case True
    then have rc: "upd_received vol2 = upd_bytes vol2" using st2 by (simp add: upd_state_def)
    obtain e3 d3 where f: "low_wl_flush low d2 = (e3, d3)" by (cases "low_wl_flush low d2")
    obtain e4 vol3 d4 where c: "clear_update_marker low vol2 (upd_bytes vol2) d3 = (e4, vol3, d4)" by (rule prod_cases3)
    have neg: "e3 \<le> 0" "leb d3 = leb d2" using low_okD(4)[OF low f] by auto
    have c': "e4 \<le> 0 \<and> leb d4 = leb d3 \<and> vol3 = (set_data_size (upd_bytes vol2) (vol2\<lparr>corrupted := False\<rparr>))\<lparr>upd_marker := False\<rparr>"
      using c st2 low_okD(5)[OF low]
      by (auto simp: clear_update_marker_def upd_state_def Let_def split: prod.splits)
    have "e3 = 0 \<and> e4 = 0 \<and> vol' = vol3\<lparr>updating := False, upd_buf := None\<rparr> \<and> d' = d4"
      using F rc f c neg(1) c' run(2) by (auto simp: F_def split: if_splits)
    then show ?thesis using c' neg(2) st2 True v2 by (auto simp: upd_state_def set_data_size_def Let_def)
  next
    case False
    then have "upd_received vol2 \<noteq> upd_bytes vol2" using st2 by (simp add: upd_state_def)
    then show ?thesis using F st2 v2 False by (auto simp: F_def)
  qed
qed

lemma update_chunks_ok:
  assumes low: "low_ok leb low"
  shows "upd_state leb m img r vol d \<Longrightarrow> concat cs = drop r img \<Longrightarrow> [] \<notin> set cs \<Longrightarrow> cs \<noteq> [] \<Longrightarrow>
    update_chunks low u vol cs d = (err, vol', d') \<Longrightarrow> 0 \<le> err \<Longrightarrow>
    upd_state leb m img (length img) vol' d' \<and> vol_id vol' = vol_id vol \<and> usable_leb_size vol' = usable_leb_size vol \<and>
    \<not> updating vol' \<and> \<not> upd_marker vol' \<and> \<not> corrupted vol' \<and> used_bytes vol' = length img \<and> upd_buf vol' = None"
proof (induction cs arbitrary: r vol d)
  case Nil
  then show ?case by simp
next
  case (Cons c cs)
  have r: "r < length img" using Cons.prems(2,3) by (cases "r < length img") auto
  have len: "length c + length (concat cs) = length img - r" using Cons.prems(2) by (metis concat.simps(2) length_append length_drop)
  have img: "drop r img = c @ concat cs" using Cons.prems(2) by simp
  have c: "take (length c) (drop r img) = c" "c \<noteq> []" using img Cons.prems(3) by auto
  have "drop (length c) (drop r img) = concat cs" using img by simp
  then have c3: "concat cs = drop (r + length c) img" by (simp add: add.commute)
  obtain e v1 d1 where m: "ubi_more_update_data low u vol c d = (e, v1, d1)" by (rule prod_cases3)
  have e: "0 \<le> e" "update_chunks low u v1 cs d1 = (err, vol', d')"
    using Cons.prems(5,6) m by (auto split: if_splits)
  note ok = ubi_more_update_data_ok [OF low Cons.prems(1) r c(1,2) m e(1)]
  show ?case
  proof (cases "cs = []")
    case True
    then have "r + length c = length img" using len r by simp
    then show ?thesis using ok e(2) True by auto
  next
    case False
    then show ?thesis using Cons.IH [of "r + length c" v1 d1] ok c3 e Cons.prems(3,6) by simp
  qed
qed

lemma unmap_all_ok:
  assumes low: "low_ok leb low"
  shows "unmap_all low v ls d = (0, d') \<Longrightarrow> leb d' = (\<lambda>(v', l). if v' = v \<and> l \<in> set ls then None else leb d (v', l))"
  by (induction ls arbitrary: d) (auto split: prod.splits if_splits simp: low_okD(3)[OF low] fun_eq_iff)

lemma ubi_start_update_ok:
  assumes low: "low_ok leb low" and v: "vol_type vol = UBI_STATIC_VOLUME" "0 < usable_leb_size vol" "usable_leb_size vol \<le> leb_size u"
    and n: "img \<noteq> []" and run: "ubi_start_update low u vol (length img) d = (0, vol', d')"
  shows "upd_state leb (\<lambda>(v, l). if v = vol_id vol \<and> l < nat (reserved_pebs vol) then None else leb d (v, l)) img 0 vol' d' \<and>
    vol_id vol' = vol_id vol \<and> usable_leb_size vol' = usable_leb_size vol"
proof -
  define v1 where "v1 = vol\<lparr>updating := True, upd_buf := Some (replicate (leb_size u) 0)\<rparr>"
  obtain e v2 d2 where s: "set_update_marker low v1 d = (e, v2, d2)" by (rule prod_cases3)
  have v2: "v2 = v1\<lparr>upd_marker := upd_marker v2\<rparr> \<and> leb d2 = leb d"
    using s low_okD(5)[OF low] by (auto simp: set_update_marker_def v1_def split: if_splits prod.splits)
  obtain e3 d3 where un: "unmap_all low (vol_id v2) [0..<nat (reserved_pebs v2)] d2 = (e3, d3)"
    by (cases "unmap_all low (vol_id v2) [0..<nat (reserved_pebs v2)] d2")
  have r: "e = 0 \<and> e3 = 0 \<and> d' = d3 \<and> vol' = v2\<lparr>upd_ebs := (length img + usable_leb_size v2 - 1) div usable_leb_size v2,
                   upd_bytes := length img, upd_received := 0\<rparr>"
    using run s un n unfolding ubi_start_update_def v1_def by (auto simp: Let_def split: if_splits)
  have "lebs_view (vol_id vol) (usable_leb_size vol) img 0 m = m" for m
    using v n by (auto simp: lebs_view_def lebs_done_def fun_eq_iff)
  moreover have "vol_type v2 = vol_type vol" "vol_id v2 = vol_id vol" "usable_leb_size v2 = usable_leb_size vol" "reserved_pebs v2 = reserved_pebs vol" "upd_buf v2 = Some (replicate (leb_size u) 0)"
    by (subst conjunct1 [OF v2], simp add: v1_def)+
  ultimately show ?thesis using r unmap_all_ok [OF low] un v v2 by (auto simp: upd_state_def)
qed

text \<open>
  C24: updating a static volume with a non-empty image in any chunking, with no step failing, leaves the
  image cut into logical eraseblocks in the volume, every other reserved block of it unmapped and
  the blocks of other volumes untouched; the volume then has the length of the image, is no longer
  being updated and is neither marked as in update nor corrupted.
\<close>

theorem ubi_update_stores_image:
  assumes "low_ok leb low" and "vol_type vol = UBI_STATIC_VOLUME" and "0 < usable_leb_size vol"
    and "usable_leb_size vol \<le> leb_size u" and "concat chunks \<noteq> []" and "[] \<notin> set chunks"
    and "ubi_start_update low u vol (length (concat chunks)) d = (0, vol1, d1)"
    and "update_chunks low u vol1 chunks d1 = (err, vol2, d2)" and "0 \<le> err"
  shows "leb d2 = (\<lambda>(v, l).
      if v = vol_id vol \<and> l * usable_leb_size vol < length (concat chunks)
      then Some (take (usable_leb_size vol) (drop (l * usable_leb_size vol) (concat chunks)))
      else if v = vol_id vol \<and> l < nat (reserved_pebs vol) then None else leb d (v, l)) \<and>
    used_bytes vol2 = length (concat chunks) \<and> \<not> updating vol2 \<and> \<not> upd_marker vol2 \<and> \<not> corrupted vol2"
proof -
  have s: "upd_state leb (\<lambda>(v, l). if v = vol_id vol \<and> l < nat (reserved_pebs vol) then None else leb d (v, l)) (concat chunks) 0 vol1 d1"
    "vol_id vol1 = vol_id vol" "usable_leb_size vol1 = usable_leb_size vol"
    using ubi_start_update_ok [OF assms(1-5,7)] by auto
  have dn: "lebs_done us n n l \<longleftrightarrow> l * us < n" if "0 < us" for us n l
    using that by (auto simp: lebs_done_def)
  have "chunks \<noteq> []" using assms(5) by auto
  from update_chunks_ok [OF assms(1) s(1) _ assms(6) this assms(8,9)] s(2,3) show ?thesis
    using assms(3) by (auto simp: upd_state_def lebs_view_def leb_slice_def fun_eq_iff dn)
qed

lemma sample_low_ok: "low_ok (\<lambda>d. d) sample_low"
  by (simp add: low_ok_def sample_low_def)

theorem ubi_update_stores_image_witness:
  "\<exists>vol1 d1 vol2 d2. ubi_start_update sample_low sample_ubi1 sample_vol 6 Map.empty = (0, vol1, d1) \<and>
    update_chunks sample_low sample_ubi1 vol1 [[1, 2, 3], [4, 5, 6]] d1 = (0, vol2, d2) \<and>
    d2 (0, 0) = Some [1, 2, 3, 4] \<and> d2 (0, 1) = Some [5, 6] \<and> d2 (0, 2) = None \<and> used_bytes vol2 = 6"
proof -
  let ?c = "[[1, 2, 3], [4, 5, 6]] :: bytes list"
  obtain e1 vol1 d1 where s: "ubi_start_update sample_low sample_ubi1 sample_vol 6 Map.empty = (e1, vol1, d1)"
    by (rule prod_cases3)
  obtain e2 vol2 d2 where c: "update_chunks sample_low sample_ubi1 vol1 ?c d1 = (e2, vol2, d2)"
    by (rule prod_cases3)
  have n: "fst (unmap_all sample_low vid ls d) = 0" for vid ls d
    by (induction ls arbitrary: d) (simp_all add: sample_low_def)
  have r: "replicate 4 0 = ([0, 0, 0, 0] :: bytes)" by (simp add: numeral_eq_Suc)
  have f: "e1 = 0 \<and> vol1 = sample_vol\<lparr>updating := True, upd_buf := Some [0, 0, 0, 0], upd_marker := True,
      upd_ebs := 2, upd_bytes := 6, upd_received := 0\<rparr>"
  proof -
    have sl: "low_alloc sample_low k" "set_update_marker sample_low v d = (0, v\<lparr>upd_marker := True\<rparr>, d)" if "\<not> upd_marker v" for k v d
      using that by (simp_all add: sample_low_def set_update_marker_def)
    have v: "\<not> upd_marker (sample_vol\<lparr>updating := True, upd_buf := b\<rparr>)" "usable_leb_size sample_vol = 4" "leb_size sample_ubi1 = 4" for b
      by (simp_all add: sample_vol_def zero_volume_def sample_ubi1_def sample_ubi_def)
    have "low_alloc sample_low 5" by (simp add: sample_low_def)
    then show ?thesis using s unfolding ubi_start_update_def Let_def sl(2)[OF v(1)]
      by (auto simp: n v r case_prod_beta)
  qed
  have "fst (update_chunks sample_low sample_ubi1 vol1 ?c d1) = 0"
    unfolding conjunct2 [OF f]
    by (simp add: ubi_more_update_data_def sample_low_def sample_ubi1_def sample_ubi_def sample_vol_def zero_volume_def
        write_leb_def overwrite_def clear_update_marker_def set_data_size_def Let_def)
  then have "e2 = 0" by (simp only: c fst_conv)
  have s': "ubi_start_update sample_low sample_ubi1 sample_vol (length (concat ?c)) Map.empty = (0, vol1, d1)"
  proof -
    have "length (concat ?c) = 6" by simp
    then show ?thesis using s f by (simp only: )
  qed
  have "d2 = (\<lambda>(v, l). if v = vol_id sample_vol \<and> l * usable_leb_size sample_vol < length (concat ?c)
      then Some (take (usable_leb_size sample_vol) (drop (l * usable_leb_size sample_vol) (concat ?c)))
      else if v = vol_id sample_vol \<and> l < nat (reserved_pebs sample_vol) then None else Map.empty (v, l)) \<and>
    used_bytes vol2 = length (concat ?c) \<and> \<not> updating vol2 \<and> \<not> upd_marker vol2 \<and> \<not> corrupted vol2"
    by (rule ubi_update_stores_image [OF sample_low_ok _ _ _ _ _ s' c])
      (use \<open>e2 = 0\<close> in \<open>simp_all add: sample_vol_def zero_volume_def sample_ubi1_def sample_ubi_def\<close>)
  then show ?thesis using s c f \<open>e2 = 0\<close> by (auto simp: sample_vol_def zero_volume_def)
qed

end
