(* ===== verification/MtdFlash.thy ===== *)
theory MtdFlash
  imports World "HOL-Library.Sublist"
begin

text \<open>
  Erasing and writing a raw MTD region (\<^verbatim>\<open>net/lwip/httpd_recovery.c\<close>): region validation, the
  bad-block pre-check, the erase loop with its unlock retry, and the block-wise write with
  read-back. \<open>svc\<close> is \<^verbatim>\<open>recovery_service_runtime\<close>, which the loops call between blocks and which runs
  the network stack: it is an argument here, and the locale \<open>runtime\<close> states what the loops rely on.
\<close>

section \<open>Region checks\<close>

definition recovery_mtd_is_block_aligned :: "'d mtd_info \<Rightarrow> nat \<Rightarrow> bool" where
  "recovery_mtd_is_block_aligned mtd v = (mtd_erasesize mtd \<noteq> 0 \<and> v mod mtd_erasesize mtd = 0)"

definition recovery_mtd_validate_region :: "'d mtd_info option \<Rightarrow> int \<Rightarrow> nat \<Rightarrow> int" where
  "recovery_mtd_validate_region mtdp ofs len =
    (case mtdp of
       None \<Rightarrow> -EINVAL
     | Some mtd \<Rightarrow>
         if mtd_erasesize mtd = 0 then -EINVAL
         else if len = 0 then 0
         else if ofs < 0 \<or> ofs \<ge> int (mtd_size mtd) \<or> int len > int (mtd_size mtd) - ofs then -EINVAL
         else if \<not> recovery_mtd_is_block_aligned mtd (nat ofs) \<or>
                 \<not> recovery_mtd_is_block_aligned mtd len then -EINVAL
         else 0)"

text \<open>
  The values of the loop counter of \<^verbatim>\<open>for (addr = 0; addr < len; addr += erasesize)\<close>, for a non-zero
  \<^verbatim>\<open>erasesize\<close>.
\<close>

definition block_addrs :: "nat \<Rightarrow> nat \<Rightarrow> int list" where
  "block_addrs es len = map (\<lambda>k. int (k * es)) [0..<(len + es - 1) div es]"

fun scan_bad_blocks :: "'d mtd_info \<Rightarrow> int \<Rightarrow> int list \<Rightarrow> nat \<Rightarrow> 'd \<Rightarrow> (int + nat) \<times> 'd" where
  "scan_bad_blocks mtd ofs [] bad d = (Inr bad, d)"
| "scan_bad_blocks mtd ofs (addr # addrs) bad d =
    (let (ret, d) = mtd_block_isbad mtd (ofs + addr) d in
     if ret < 0 then (Inl ret, d)
     else scan_bad_blocks mtd ofs addrs (if ret > 0 then bad + 1 else bad) d)"

definition recovery_mtd_require_good_blocks :: "'d mtd_info \<Rightarrow> int \<Rightarrow> nat \<Rightarrow> 'd \<Rightarrow> int \<times> 'd" where
  "recovery_mtd_require_good_blocks mtd ofs len d =
    (let ret = recovery_mtd_validate_region (Some mtd) ofs len in
     if ret \<noteq> 0 then (ret, d)
     else case scan_bad_blocks mtd ofs (block_addrs (mtd_erasesize mtd) len) 0 d of
       (Inl ret, d) \<Rightarrow> (ret, d)
     | (Inr bad, d) \<Rightarrow> if bad = 0 then (0, d) else (-EIO, d))"

section \<open>Erasing\<close>

definition recovery_update_erase_progress :: "int \<Rightarrow> ('d, 'x) world \<Rightarrow> ('d, 'x) world" where
  "recovery_update_erase_progress dn w =
    (let w = w\<lparr>prog_erase_done := (if dn > int (unat (prog_erase_total w)) then prog_erase_total w
                                   else of_int dn)\<rparr> in
     w\<lparr>prog_done := prog_erase_done w + prog_write_done w\<rparr>)"

definition recovery_mtd_mark_bad :: "'d mtd_info \<Rightarrow> int \<Rightarrow> 'd \<Rightarrow> int \<times> 'd" where
  "recovery_mtd_mark_bad mtd addr d = mtd_block_markbad mtd addr d"

text \<open>The \<^verbatim>\<open>do ... while (++tries < 2)\<close> loop around \<^verbatim>\<open>mtd_erase\<close>; \<open>n\<close> is the number of tries left.\<close>

fun erase_tries :: "nat \<Rightarrow> 'd mtd_info \<Rightarrow> int \<Rightarrow> 'd \<Rightarrow> int \<times> 'd" where
  "erase_tries 0 mtd addr d = (0, d)"
| "erase_tries (Suc n) mtd addr d =
    (let (ret, d) = mtd_erase mtd addr (mtd_erasesize mtd) d in
     if ret = 0 then (ret, d)
     else if ret = -EROFS \<or> ret = -EACCES then
       let (_, d) = mtd_unlock mtd addr (mtd_erasesize mtd) d in
       if n = 0 then (ret, d) else erase_tries n mtd addr d
     else (ret, d))"

text \<open>
  One iteration of the erase loop, up to the call of the runtime service: a value other than 0
  leaves the function.
\<close>

definition erase_block :: "'d mtd_info \<Rightarrow> int \<Rightarrow> int \<Rightarrow> ('d, 'x) world \<Rightarrow> int \<times> ('d, 'x) world" where
  "erase_block mtd ofs addr w =
    (let (ret, d) = mtd_block_isbad mtd (ofs + addr) (dev w); w = w\<lparr>dev := d\<rparr> in
     if ret < 0 then (ret, w)
     else if ret > 0 then
       (0, recovery_update_erase_progress (addr + int (mtd_erasesize mtd)) w)
     else
       let (ret, d) = erase_tries 2 mtd (ofs + addr) (dev w); w = w\<lparr>dev := d\<rparr>;
           (mret, w) = (if ret \<noteq> 0 then
                          let (mret, d) = recovery_mtd_mark_bad mtd (ofs + addr) (dev w) in
                          (mret, w\<lparr>dev := d\<rparr>)
                        else (0, w)) in
       if mret \<noteq> 0 then (ret, w)
       else (0, recovery_update_erase_progress (addr + int (mtd_erasesize mtd)) w))"

fun erase_blocks ::
    "(('d, 'x) world \<Rightarrow> ('d, 'x) world) \<Rightarrow> 'd mtd_info \<Rightarrow> int \<Rightarrow> int list \<Rightarrow> ('d, 'x) world \<Rightarrow>
      int \<times> ('d, 'x) world" where
  "erase_blocks svc mtd ofs [] w = (0, w)"
| "erase_blocks svc mtd ofs (addr # addrs) w =
    (case erase_block mtd ofs addr w of
       (ret, w) \<Rightarrow> if ret \<noteq> 0 then (ret, w) else erase_blocks svc mtd ofs addrs (svc w))"

definition recovery_erase_mtd_region ::
    "(('d, 'x) world \<Rightarrow> ('d, 'x) world) \<Rightarrow> 'd mtd_info option \<Rightarrow> int \<Rightarrow> nat \<Rightarrow> ('d, 'x) world \<Rightarrow>
      int \<times> ('d, 'x) world" where
  "recovery_erase_mtd_region svc mtdp ofs len w =
    (case mtdp of
       None \<Rightarrow> (0, w)
     | Some mtd \<Rightarrow>
         if len = 0 then (0, w)
         else
           let ret = recovery_mtd_validate_region mtdp ofs len in
           if ret \<noteq> 0 then (ret, w)
           else
             let (_, d) = mtd_unlock mtd ofs len (dev w) in
             erase_blocks svc mtd ofs (block_addrs (mtd_erasesize mtd) len) (w\<lparr>dev := d\<rparr>))"

section \<open>Writing\<close>

definition recovery_mtd_verify_write :: "'d mtd_info \<Rightarrow> int \<Rightarrow> bytes \<Rightarrow> 'd \<Rightarrow> int \<times> 'd" where
  "recovery_mtd_verify_write mtd addr src d =
    (let ((ret, buf), d) = mtd_read mtd addr (length src) d in
     if (ret \<noteq> 0 \<and> ret \<noteq> -EUCLEAN) \<or> length buf \<noteq> length src then (if ret \<noteq> 0 then ret else -EIO, d)
     else if buf \<noteq> src then (-EIO, d)
     else (0, d))"

text \<open>
  One iteration of the write loop, up to the call of the runtime service with which every
  iteration that goes on ends: \<open>Inl ret\<close> leaves the loop, \<open>Inr written\<close> goes on.
\<close>

definition write_block ::
    "'d mtd_info \<Rightarrow> bool \<Rightarrow> bool \<Rightarrow> bytes \<Rightarrow> int \<Rightarrow> nat \<Rightarrow> ('d, 'x) world \<Rightarrow> (int + nat) \<times> ('d, 'x) world" where
  "write_block mtd verify strict img addr written w =
    (let chunk = min (mtd_erasesize mtd) (length img - written);
         src = take chunk (drop written img);
         (ret, d) = mtd_block_isbad mtd addr (dev w); w = w\<lparr>dev := d\<rparr> in
     if ret < 0 then (Inl ret, w)
     else if ret > 0 then (if strict then (Inl (-EIO), w) else (Inr written, w))
     else
       let ((ret, retlen), d) = mtd_write mtd addr src (dev w); w = w\<lparr>dev := d\<rparr> in
       if ret \<noteq> 0 \<or> retlen \<noteq> chunk then
         (if strict then (Inl (if ret = 0 then -EIO else ret), w)
          else
            let (mret, d) = recovery_mtd_mark_bad mtd addr (dev w); w = w\<lparr>dev := d\<rparr> in
            if mret \<noteq> 0 then (Inl (if ret = 0 then -EIO else ret), w) else (Inr written, w))
       else
         let (ret, d) = (if verify then recovery_mtd_verify_write mtd addr src (dev w) else (0, dev w));
             w = w\<lparr>dev := d\<rparr> in
         if ret \<noteq> 0 then
           (if strict then (Inl ret, w)
            else
              let (mret, d) = recovery_mtd_mark_bad mtd addr (dev w); w = w\<lparr>dev := d\<rparr> in
              if mret \<noteq> 0 then (Inl ret, w) else (Inr written, w))
         else
           let written = written + chunk;
               w = w\<lparr>prog_write_done := of_nat written\<rparr>;
               w = w\<lparr>prog_done := prog_erase_done w + prog_write_done w\<rparr> in
           (Inr written, w))"

text \<open>
  The write loop. \<open>addrs\<close> are the addresses still to visit, \<open>written\<close> the bytes written so far;
  the \<^verbatim>\<open>u32\<close> counter does not wrap because the image size is a \<^verbatim>\<open>u32\<close> itself. The check after the
  loop is the first equation.
\<close>

fun write_blocks ::
    "(('d, 'x) world \<Rightarrow> ('d, 'x) world) \<Rightarrow> 'd mtd_info \<Rightarrow> bool \<Rightarrow> bool \<Rightarrow> bytes \<Rightarrow> int list \<Rightarrow> nat \<Rightarrow>
      ('d, 'x) world \<Rightarrow> int \<times> ('d, 'x) world" where
  "write_blocks svc mtd verify strict img [] written w =
    (if written < length img then (-ENOSPC, w) else (0, w))"
| "write_blocks svc mtd verify strict img (addr # addrs) written w =
    (if \<not> written < length img then (0, w)
     else case write_block mtd verify strict img addr written w of
       (Inl ret, w) \<Rightarrow> (ret, w)
     | (Inr written, w) \<Rightarrow> write_blocks svc mtd verify strict img addrs written (svc w))"

text \<open>\<open>mem_ok\<close> says whether the allocation of the read-back buffer succeeds.\<close>

definition recovery_write_mtd_region ::
    "(('d, 'x) world \<Rightarrow> ('d, 'x) world) \<Rightarrow> bool \<Rightarrow> 'd mtd_info \<Rightarrow> int \<Rightarrow> nat \<Rightarrow> bytes \<Rightarrow> bool \<Rightarrow> bool \<Rightarrow>
      ('d, 'x) world \<Rightarrow> int \<times> ('d, 'x) world" where
  "recovery_write_mtd_region svc mem_ok mtd ofs region_len img verify strict w =
    (if length img = 0 then (0, w)
     else
       let ret = recovery_mtd_validate_region (Some mtd) ofs region_len in
       if ret \<noteq> 0 then (ret, w)
       else if verify \<and> \<not> mem_ok then (-ENOMEM, w)
       else write_blocks svc mtd verify strict img
              (map (\<lambda>a. ofs + a) (block_addrs (mtd_erasesize mtd) region_len)) 0 w)"

section \<open>What the loops rely on of the runtime service\<close>

text \<open>
  Everything the flash code reads later is unchanged by a call of the runtime service: the flash
  contents, the upload, the progress counters and the flags of the request.
\<close>

definition kept :: "('d \<Rightarrow> int \<Rightarrow> u8) \<Rightarrow> ('d, 'x) world \<Rightarrow> ('d, 'x) world \<Rightarrow> bool" where
  "kept content w w' \<longleftrightarrow>
    content (dev w') = content (dev w) \<and> ubi w' = ubi w \<and> env w' = env w \<and>
    upload_image w' = upload_image w \<and> recv_off w' = recv_off w \<and> current_target w' = current_target w \<and>
    prog_phase w' = prog_phase w \<and>
    prog_total w' = prog_total w \<and> prog_done w' = prog_done w \<and>
    prog_erase_total w' = prog_erase_total w \<and> prog_erase_done w' = prog_erase_done w \<and>
    prog_write_total w' = prog_write_total w \<and> prog_write_done w' = prog_write_done w \<and>
    recovery_ubi_attach_error w' = recovery_ubi_attach_error w \<and>
    layout_version w' = layout_version w \<and> layout_part w' = layout_part w \<and>
    current_ubi_layout w' = current_ubi_layout w"

lemma kept_refl [simp]: "kept content w w"
  by (simp add: kept_def)

text \<open>The parts of the state that no step of the loops changes.\<close>

definition loop_rel :: "('d, 'x) world \<Rightarrow> ('d, 'x) world \<Rightarrow> bool" where
  "loop_rel w w' \<longleftrightarrow> prog_phase w' = prog_phase w \<and> upload_image w' = upload_image w \<and>
     recv_off w' = recv_off w \<and> current_target w' = current_target w \<and>
     prog_total w' = prog_total w \<and> prog_erase_total w' = prog_erase_total w \<and>
     prog_write_total w' = prog_write_total w \<and> ubi w' = ubi w \<and> env w' = env w \<and>
     recovery_ubi_attach_error w' = recovery_ubi_attach_error w \<and>
     layout_version w' = layout_version w \<and> layout_part w' = layout_part w \<and>
     current_ubi_layout w' = current_ubi_layout w"

lemma loop_rel_refl [simp]: "loop_rel w w"
  by (simp add: loop_rel_def)

lemma loop_rel_trans: "loop_rel u v \<Longrightarrow> loop_rel v w \<Longrightarrow> loop_rel u w"
  by (simp add: loop_rel_def)

lemma upload_image_upd [simp]:
  "upload_image (w\<lparr>dev := d\<rparr>) = upload_image w"
  "upload_image (w\<lparr>prog_erase_done := n\<rparr>) = upload_image w"
  "upload_image (w\<lparr>prog_write_done := n\<rparr>) = upload_image w"
  "upload_image (w\<lparr>prog_done := n\<rparr>) = upload_image w"
  by (simp_all add: upload_image_def)

lemma erase_progress_rel: "loop_rel w (recovery_update_erase_progress n w)"
  by (simp add: loop_rel_def recovery_update_erase_progress_def Let_def)

locale runtime =
  fixes svc :: "('d, 'x) world \<Rightarrow> ('d, 'x) world" and content :: "'d \<Rightarrow> int \<Rightarrow> u8"
    and inv :: "('d, 'x) world \<Rightarrow> bool"
  assumes svc_kept: "inv w \<Longrightarrow> 0 < prog_phase w \<Longrightarrow> kept content w (svc w)"
    and svc_inv: "inv w \<Longrightarrow> 0 < prog_phase w \<Longrightarrow> inv (svc w)"
    and inv_dev: "inv w \<Longrightarrow> inv (w\<lparr>dev := d\<rparr>)"
    and inv_erase_done: "inv w \<Longrightarrow> inv (w\<lparr>prog_erase_done := n\<rparr>)"
    and inv_write_done: "inv w \<Longrightarrow> inv (w\<lparr>prog_write_done := n\<rparr>)"
    and inv_done: "inv w \<Longrightarrow> inv (w\<lparr>prog_done := n\<rparr>)"
begin

text \<open>What the loops preserve of the state: the invariant, and a positive phase.\<close>

definition run_ok :: "('d, 'x) world \<Rightarrow> bool" where
  "run_ok w \<longleftrightarrow> inv w \<and> 0 < prog_phase w"

lemma svc_run_ok: "run_ok w \<Longrightarrow> run_ok (svc w)"
  using svc_kept svc_inv by (auto simp: run_ok_def kept_def)

lemma svc_loop_rel: "run_ok w \<Longrightarrow> loop_rel w (svc w)"
  using svc_kept by (auto simp: run_ok_def kept_def loop_rel_def)

lemma svc_content: "run_ok w \<Longrightarrow> content (dev (svc w)) = content (dev w)"
  using svc_kept by (auto simp: run_ok_def kept_def)

lemma svc_progress: "run_ok w \<Longrightarrow> prog_done (svc w) = prog_done w \<and>
    prog_erase_done (svc w) = prog_erase_done w \<and> prog_write_done (svc w) = prog_write_done w"
  using svc_kept by (auto simp: run_ok_def kept_def)

lemma run_ok_dev: "run_ok w \<Longrightarrow> run_ok (w\<lparr>dev := d\<rparr>)"
  by (simp add: run_ok_def inv_dev)

lemma run_ok_erase_progress: "run_ok w \<Longrightarrow> run_ok (recovery_update_erase_progress n w)"
  by (simp add: run_ok_def recovery_update_erase_progress_def Let_def inv_done inv_erase_done)

lemma run_ok_write_progress:
  "run_ok w \<Longrightarrow> run_ok (w\<lparr>dev := d, prog_write_done := n, prog_done := k\<rparr>)"
  by (simp add: run_ok_def inv_dev inv_write_done inv_done)

end

section \<open>Region validation\<close>

lemma validate_region_0:
  assumes "recovery_mtd_validate_region (Some m) ofs len = 0"
  shows "mtd_erasesize m \<noteq> 0 \<and>
    (len \<noteq> 0 \<longrightarrow> 0 \<le> ofs \<and> ofs + int len \<le> int (mtd_size m) \<and> nat ofs mod mtd_erasesize m = 0 \<and>
      len mod mtd_erasesize m = 0)"
  using assms
  by (auto simp: recovery_mtd_validate_region_def recovery_mtd_is_block_aligned_def split: if_splits)

lemma block_addrs_aligned:
  assumes "es \<noteq> 0" "len mod es = 0"
  shows "block_addrs es len = map (\<lambda>k. int (k * es)) [0..<len div es]"
proof -
  obtain q where q: "len = es * q" using assms(2) by (auto simp: mod_eq_0_iff_dvd)
  have "es * q + es - 1 = (es - 1) + es * q" using assms(1) by simp
  then have "(es * q + es - 1) div es = ((es - 1) + es * q) div es" by (simp only:)
  also have "\<dots> = q" using assms(1) by (subst div_mult_self2) simp_all
  finally have "(es * q + es - 1) div es = q" .
  then show ?thesis using assms(1) by (simp only: block_addrs_def q) simp
qed

section \<open>The bad-block pre-check\<close>

lemma scan_bad_same:
  "driver_ok content m \<Longrightarrow> scan_bad_blocks m ofs addrs bad d = (r, d') \<Longrightarrow> content d' = content d"
proof (induction addrs arbitrary: bad d)
  case (Cons a as)
  obtain ret d1 where i: "mtd_block_isbad m (ofs + a) d = (ret, d1)" by fastforce
  have "content d1 = content d" using mtdcore.isbad_same [OF Cons.prems(1) i] .
  then show ?case using Cons i by (auto split: if_splits)
qed simp

text \<open>The scan result when the driver reports a fixed set of bad blocks.\<close>

definition reports :: "'d mtd_info \<Rightarrow> (int \<Rightarrow> bool) \<Rightarrow> bool" where
  "reports m isbad \<longleftrightarrow> (\<forall>a d. 0 \<le> a \<longrightarrow> a \<le> int (mtd_size m) \<longrightarrow>
    (\<exists>d'. mtd_block_isbad m a d = (if isbad a then 1 else 0, d')))"

lemma scan_bad_count:
  assumes "reports m isbad" "\<forall>a\<in>set addrs. 0 \<le> ofs + a \<and> ofs + a \<le> int (mtd_size m)"
  shows "fst (scan_bad_blocks m ofs addrs bad d) = Inr (bad + length (filter (\<lambda>a. isbad (ofs + a)) addrs))"
  using assms(2)
proof (induction addrs arbitrary: bad d)
  case (Cons a as)
  have "0 \<le> ofs + a" "ofs + a \<le> int (mtd_size m)" using Cons.prems by simp_all
  then obtain d' where "mtd_block_isbad m (ofs + a) d = (if isbad (ofs + a) then 1 else 0, d')"
    using assms(1) unfolding reports_def by blast
  moreover have "fst (scan_bad_blocks m ofs as b d') = Inr (b + length (filter (\<lambda>a. isbad (ofs + a)) as))" for b
    using Cons.IH [of b d'] Cons.prems by simp
  ultimately show ?case by (cases "isbad (ofs + a)") simp_all
qed simp

lemma region_addrs:
  assumes "recovery_mtd_validate_region (Some m) ofs len = 0"
  shows "\<forall>a\<in>set (block_addrs (mtd_erasesize m) len).
    0 \<le> ofs + a \<and> ofs + a + int (mtd_erasesize m) \<le> ofs + int len \<and> ofs + a \<le> int (mtd_size m) \<and> 0 \<le> a"
proof
  fix a assume a: "a \<in> set (block_addrs (mtd_erasesize m) len)"
  note v = validate_region_0 [OF assms]
  have "len \<noteq> 0"
  proof
    assume "len = 0"
    then show False using a v by (simp add: block_addrs_def)
  qed
  with v have v': "mtd_erasesize m \<noteq> 0" "0 \<le> ofs" "ofs + int len \<le> int (mtd_size m)" "len mod mtd_erasesize m = 0"
    by auto
  then obtain k where k: "a = int (k * mtd_erasesize m)" "k < len div mtd_erasesize m"
    using a by (auto simp: block_addrs_aligned)
  have "(k + 1) * mtd_erasesize m \<le> len div mtd_erasesize m * mtd_erasesize m"
    using k(2) by (intro mult_le_mono1) simp
  also have "\<dots> \<le> len" by simp
  finally have "int ((k + 1) * mtd_erasesize m) \<le> int len" by (simp only: of_nat_mono)
  then have "a + int (mtd_erasesize m) \<le> int len" by (simp add: k(1) algebra_simps)
  moreover have "0 \<le> a" by (simp add: k(1))
  ultimately show "0 \<le> ofs + a \<and> ofs + a + int (mtd_erasesize m) \<le> ofs + int len \<and>
      ofs + a \<le> int (mtd_size m) \<and> 0 \<le> a"
    using v'(2,3) by linarith
qed

text \<open>
  C6: the bad-block pre-check changes no byte of the flash, whatever it returns; on a device that
  reports a fixed set of bad blocks it refuses an invalid region with the error of the region
  check, a region with a bad block with -EIO, and accepts every other region.
\<close>

theorem require_good_blocks_spec:
  assumes "driver_ok content m" and "recovery_mtd_require_good_blocks m ofs len d = (ret, d')"
  shows "content d' = content d \<and>
    (reports m isbad \<longrightarrow>
       ret = (if recovery_mtd_validate_region (Some m) ofs len \<noteq> 0
              then recovery_mtd_validate_region (Some m) ofs len
              else if \<exists>a\<in>set (block_addrs (mtd_erasesize m) len). isbad (ofs + a) then -EIO else 0))"
proof -
  obtain r d1 where s: "scan_bad_blocks m ofs (block_addrs (mtd_erasesize m) len) 0 d = (r, d1)"
    by fastforce
  have c: "content d1 = content d" using scan_bad_same [OF assms(1) s] .
  have r: "r = Inr (length (filter (\<lambda>a. isbad (ofs + a)) (block_addrs (mtd_erasesize m) len)))"
    if "reports m isbad" "recovery_mtd_validate_region (Some m) ofs len = 0"
    using scan_bad_count [OF that(1), of "block_addrs (mtd_erasesize m) len" ofs 0 d] region_addrs [OF that(2)] s by (metis add_0 fst_conv)
  show ?thesis
  proof (cases "recovery_mtd_validate_region (Some m) ofs len = 0")
    case False
    then show ?thesis using assms(2) by (auto simp: recovery_mtd_require_good_blocks_def)
  next
    case True
    then show ?thesis
      using assms(2) s c r
      by (auto simp: recovery_mtd_require_good_blocks_def filter_empty_conv
          split: sum.splits if_splits)
  qed
qed

theorem require_good_blocks_spec_witness:
  "fst (recovery_mtd_require_good_blocks
      (ram_chip\<lparr>drv_block_isbad := Some (\<lambda>a d. (if a = 6 then 1 else 0, d))\<rparr>) 4 8 (\<lambda>_. 7)) = -EIO"
proof -
  let ?m = "ram_chip\<lparr>drv_block_isbad := Some (\<lambda>a d. (if a = 6 then 1 else 0, d))\<rparr>"
  have ok: "driver_ok (\<lambda>d. d) ?m"
    using ram_chip_ok by (auto simp: driver_ok_def quiet_ok_def)
  have v: "recovery_mtd_validate_region (Some ?m) 4 8 = 0"
    by (simp add: recovery_mtd_validate_region_def recovery_mtd_is_block_aligned_def ram_chip_def)
  obtain ret d' where e: "recovery_mtd_require_good_blocks
      (ram_chip\<lparr>drv_block_isbad := Some (\<lambda>a d. (if a = 6 then 1 else 0, d))\<rparr>) 4 8 (\<lambda>_. 7) = (ret, d')"
    by fastforce
  have rep: "reports ?m (\<lambda>a. a = 6)"
    by (auto simp: reports_def mtd_block_isbad_def ram_chip_def)
  have "\<exists>a\<in>set (block_addrs (mtd_erasesize ?m) 8). 4 + a = 6"
    by (rule bexI [of _ 2]) (simp_all add: block_addrs_def ram_chip_def upt_rec)
  then have "ret = -EIO"
    using require_good_blocks_spec [OF ok e, of "\<lambda>a. a = 6"] rep v by simp
  then show ?thesis by (simp add: e)
qed

section \<open>Frames\<close>

text \<open>The chip addresses of the blocks of \<open>m\<close> at the given offsets.\<close>

definition blocks_of :: "'d mtd_info \<Rightarrow> int set \<Rightarrow> int set" where
  "blocks_of m A = (\<Union>a\<in>A. {int (mtd_offset m) + a ..< int (mtd_offset m) + a + int (mtd_erasesize m)})"

definition frame :: "int set \<Rightarrow> (int \<Rightarrow> u8) \<Rightarrow> (int \<Rightarrow> u8) \<Rightarrow> bool" where
  "frame X c c' \<longleftrightarrow> (\<forall>x. x \<notin> X \<longrightarrow> c' x = c x)"

lemma frame_refl [simp]: "frame X c c"
  by (simp add: frame_def)

lemma frame_trans: "frame X c1 c2 \<Longrightarrow> frame Y c2 c3 \<Longrightarrow> frame (X \<union> Y) c1 c3"
  by (simp add: frame_def)

lemma frame_mono: "frame X c c' \<Longrightarrow> X \<subseteq> Y \<Longrightarrow> frame Y c c'"
  by (auto simp: frame_def)

lemma frame_same_outside: "same_outside c c' a b \<longleftrightarrow> frame {a..<b} c c'"
  by (auto simp: same_outside_def frame_def)

lemma frame_view:
  assumes "frame X (content d) (content d')" "{a..<a + int n} \<inter> X = {}"
  shows "view content d' a n = view content d a n"
  using assms by (intro view_cong) (auto simp: frame_def)

lemma blocks_of_insert: "blocks_of m (insert a A) = blocks_of m {a} \<union> blocks_of m A"
  by (simp add: blocks_of_def)

section \<open>One block\<close>

lemma erase_tries_frame:
  assumes "driver_ok content m"
  shows "erase_tries n m a d = (ret, d') \<Longrightarrow> frame (blocks_of m {a}) (content d) (content d')"
proof (induction n arbitrary: d)
  case (Suc n)
  obtain r1 d1 where e: "mtd_erase m a (mtd_erasesize m) d = (r1, d1)" by fastforce
  have f1: "frame (blocks_of m {a}) (content d) (content d1)"
    using mtdcore.erase_frame [OF assms e] by (simp add: frame_same_outside blocks_of_def)
  obtain r2 d2 where u: "mtd_unlock m a (mtd_erasesize m) d1 = (r2, d2)" by fastforce
  have c2: "content d2 = content d1" using mtdcore.unlock_same [OF assms u] .
  have "frame (blocks_of m {a}) (content d2) (content d')" if "erase_tries n m a d2 = (ret, d')"
    using Suc.IH [OF that] .
  then show ?case
    using Suc.prems e u f1 c2 frame_trans [OF f1, of "blocks_of m {a}" "content d'"]
    by (auto split: if_splits)
qed simp

lemma mark_bad_frame:
  "driver_ok content m \<Longrightarrow> recovery_mtd_mark_bad m a d = (ret, d') \<Longrightarrow>
    frame (blocks_of m {a}) (content d) (content d')"
  using mtdcore.markbad_frame by (fastforce simp: recovery_mtd_mark_bad_def frame_same_outside blocks_of_def)

lemma write_frame_block:
  assumes "driver_ok content m" "mtd_write m a src d = (r, d')" "length src \<le> mtd_erasesize m"
  shows "frame (blocks_of m {a}) (content d) (content d')"
proof (rule frame_mono)
  show "frame {int (mtd_offset m) + a..<int (mtd_offset m) + a + int (length src)} (content d) (content d')"
    using mtdcore.write_frame [OF assms(1,2)] by (simp add: frame_same_outside)
  show "{int (mtd_offset m) + a..<int (mtd_offset m) + a + int (length src)} \<subseteq> blocks_of m {a}"
    using assms(3) by (auto simp: blocks_of_def)
qed

lemma verify_write_ok:
  assumes "driver_ok content m" "recovery_mtd_verify_write m a src d = (ret, d')"
  shows "content d' = content d \<and> (ret = 0 \<longrightarrow> view content d (int (mtd_offset m) + a) (length src) = src)"
proof -
  obtain r buf d1 where e: "mtd_read m a (length src) d = ((r, buf), d1)" by (metis prod.collapse)
  have "content d1 = content d" using mtdcore.read_same [OF assms(1) e] .
  moreover have "d1 = d'" using assms(2) e by (auto simp: recovery_mtd_verify_write_def split: if_splits)
  moreover have "view content d (int (mtd_offset m) + a) (length src) = src" if "ret = 0"
    using assms(2) e that mtdcore.read_data [OF assms(1) e]
    by (auto simp: recovery_mtd_verify_write_def split: if_splits)
  ultimately show ?thesis by blast
qed

context runtime
begin

lemma erase_block_ok:
  assumes "driver_ok content m" "run_ok w" "erase_block m ofs a w = (ret, w')"
  shows "run_ok w' \<and> loop_rel w w' \<and> frame (blocks_of m {ofs + a}) (content (dev w)) (content (dev w')) \<and>
    (ret = 0 \<longrightarrow> prog_done w' = prog_erase_done w' + prog_write_done w' \<and> prog_write_done w' = prog_write_done w \<and>
       prog_erase_done w' = (if a + int (mtd_erasesize m) > int (unat (prog_erase_total w)) then prog_erase_total w
                             else of_int (a + int (mtd_erasesize m))))"
proof -
  let ?up = "recovery_update_erase_progress (a + int (mtd_erasesize m))"
  obtain r1 d1 where b: "mtd_block_isbad m (ofs + a) (dev w) = (r1, d1)" by fastforce
  have c1: "content d1 = content (dev w)" using mtdcore.isbad_same [OF assms(1) b] .
  obtain r2 d2 where e: "erase_tries 2 m (ofs + a) d1 = (r2, d2)" by fastforce
  note f2 = erase_tries_frame [OF assms(1) e]
  obtain r3 d3 where k: "recovery_mtd_mark_bad m (ofs + a) d2 = (r3, d3)" by fastforce
  note f3 = mark_bad_frame [OF assms(1) k]
  have f23: "frame (blocks_of m {ofs + a}) (content d1) (content d3)" using frame_trans [OF f2 f3] by simp
  have eq: "erase_block m ofs a w =
      (if r1 < 0 then (r1, w\<lparr>dev := d1\<rparr>) else if r1 > 0 then (0, ?up (w\<lparr>dev := d1\<rparr>))
       else if r2 \<noteq> 0 then (if r3 \<noteq> 0 then (r2, w\<lparr>dev := d3\<rparr>) else (0, ?up (w\<lparr>dev := d3\<rparr>)))
       else (0, ?up (w\<lparr>dev := d2\<rparr>)))"
    by (simp add: erase_block_def Let_def b e k)
  consider d r where "(ret, w') = (r, w\<lparr>dev := d\<rparr>)" "r \<noteq> 0" "d \<in> {d1, d3}"
    | d where "(ret, w') = (0, ?up (w\<lparr>dev := d\<rparr>))" "d \<in> {d1, d2, d3}"
    using assms(3) unfolding eq by (auto split: if_splits)
  then show ?thesis
  proof cases
    case 1
    then show ?thesis
      using c1 f23 run_ok_dev [OF assms(2)] by (auto simp: loop_rel_def)
  next
    case 2
    have "dev w' = d" using 2(1) by (simp add: recovery_update_erase_progress_def Let_def)
    then have f: "frame (blocks_of m {ofs + a}) (content (dev w)) (content (dev w'))"
      using 2(2) c1 f2 f23 by auto
    have r: "run_ok w'" using 2(1) run_ok_erase_progress run_ok_dev assms(2) by auto
    show ?thesis
      using 2(1) f r by (simp add: loop_rel_def recovery_update_erase_progress_def Let_def)
  qed
qed

lemma erase_blocks_ok:
  assumes "driver_ok content m"
  shows "run_ok w \<Longrightarrow> erase_blocks svc m ofs as w = (ret, w') \<Longrightarrow>
    run_ok w' \<and> loop_rel w w' \<and> frame (blocks_of m ((\<lambda>a. ofs + a) ` set as)) (content (dev w)) (content (dev w'))"
proof (induction as arbitrary: w)
  case (Cons a as)
  obtain r1 w1 where e: "erase_block m ofs a w = (r1, w1)" by (cases "erase_block m ofs a w")
  note o1 = erase_block_ok [OF assms Cons.prems(1) e]
  show ?case
  proof (cases "r1 = 0")
    case False
    then have "w' = w1" using Cons.prems(2) e by simp
    moreover have "blocks_of m {ofs + a} \<subseteq> blocks_of m ((\<lambda>a. ofs + a) ` set (a # as))"
      by (simp add: blocks_of_def)
    ultimately show ?thesis using o1 frame_mono [of "blocks_of m {ofs + a}"] by simp
  next
    case True
    have r: "run_ok (svc w1)" using o1 svc_run_ok by blast
    have "erase_blocks svc m ofs as (svc w1) = (ret, w')" using Cons.prems(2) e True by simp
    note ih = Cons.IH [OF r this]
    have c: "content (dev (svc w1)) = content (dev w1)" using o1 svc_content by blast
    have f1: "frame (blocks_of m {ofs + a}) (content (dev w)) (content (dev w1))" using o1 by simp
    have f2: "frame (blocks_of m ((\<lambda>a. ofs + a) ` set as)) (content (dev w1)) (content (dev w'))"
      using ih by (simp add: c)
    have "frame (blocks_of m {ofs + a} \<union> blocks_of m ((\<lambda>a. ofs + a) ` set as))
        (content (dev w)) (content (dev w'))"
      by (rule frame_trans [OF f1 f2])
    then have "frame (blocks_of m ((\<lambda>a. ofs + a) ` set (a # as))) (content (dev w)) (content (dev w'))"
      by (simp only: list.set image_insert blocks_of_insert [of m "ofs + a" "(\<lambda>a. ofs + a) ` set as"])
    moreover have "loop_rel w w'"
      using loop_rel_trans [OF loop_rel_trans [of w w1 "svc w1"]] o1 ih svc_loop_rel [of w1] by simp
    ultimately show ?thesis using ih by simp
  qed
qed simp

lemma write_block_ok:
  assumes "driver_ok content m" "run_ok w" "write_block m verify strict img a written w = (res, w')"
  shows "run_ok w' \<and> loop_rel w w' \<and> frame (blocks_of m {a}) (content (dev w)) (content (dev w')) \<and>
    (\<forall>r. res = Inl r \<longrightarrow> r \<noteq> 0) \<and>
    (\<forall>n. res = Inr n \<longrightarrow>
       \<not> strict \<and> n = written \<and> prog_write_done w' = prog_write_done w \<and> prog_done w' = prog_done w \<or>
       n = written + min (mtd_erasesize m) (length img - written) \<and> prog_write_done w' = of_nat n \<and>
       prog_done w' = prog_erase_done w + of_nat n \<and>
       (verify \<longrightarrow> view content (dev w') (int (mtd_offset m) + a) (n - written) =
          take (mtd_erasesize m) (drop written img))) \<and>
    prog_erase_done w' = prog_erase_done w"
proof -
  let ?chunk = "min (mtd_erasesize m) (length img - written)"
  let ?src = "take ?chunk (drop written img)"
  have src: "?src = take (mtd_erasesize m) (drop written img)" by (simp add: min_def)
  have ls: "length ?src = ?chunk" by simp
  obtain r1 d1 where b: "mtd_block_isbad m a (dev w) = (r1, d1)" by fastforce
  have c1: "content d1 = content (dev w)" using mtdcore.isbad_same [OF assms(1) b] .
  obtain r2 l2 d2 where e: "mtd_write m a ?src d1 = ((r2, l2), d2)" by (metis prod.collapse)
  have f2: "frame (blocks_of m {a}) (content d1) (content d2)"
    by (rule write_frame_block [OF assms(1) e]) simp
  obtain r3 d3 where k: "recovery_mtd_mark_bad m a d2 = (r3, d3)" by fastforce
  have f3: "frame (blocks_of m {a}) (content d1) (content d3)"
    using frame_trans [OF f2 mark_bad_frame [OF assms(1) k]] by simp
  obtain r4 d4 where v: "(if verify then recovery_mtd_verify_write m a ?src d2 else (0, d2)) = (r4, d4)" by fastforce
  have vw: "content d4 = content d2 \<and> (verify \<and> r4 = 0 \<longrightarrow> view content d2 (int (mtd_offset m) + a) ?chunk = ?src)"
    using v verify_write_ok [OF assms(1), of a ?src d2] ls by (auto split: if_splits)
  have v4: "view content d4 = view content d2" using vw by (auto simp: view_def fun_eq_iff)
  obtain r5 d5 where k5: "recovery_mtd_mark_bad m a d4 = (r5, d5)" by fastforce
  have f5: "frame (blocks_of m {a}) (content d1) (content d5)"
    using frame_trans [OF f2 mark_bad_frame [OF assms(1) k5, unfolded conjunct1 [OF vw]]] by simp
  have eq: "write_block m verify strict img a written w =
      (if r1 < 0 then (Inl r1, w\<lparr>dev := d1\<rparr>)
       else if r1 > 0 then (if strict then (Inl (-EIO), w\<lparr>dev := d1\<rparr>) else (Inr written, w\<lparr>dev := d1\<rparr>))
       else if r2 \<noteq> 0 \<or> l2 \<noteq> ?chunk then
         (if strict then (Inl (if r2 = 0 then -EIO else r2), w\<lparr>dev := d2\<rparr>)
          else if r3 \<noteq> 0 then (Inl (if r2 = 0 then -EIO else r2), w\<lparr>dev := d3\<rparr>) else (Inr written, w\<lparr>dev := d3\<rparr>))
       else if r4 \<noteq> 0 then
         (if strict then (Inl r4, w\<lparr>dev := d4\<rparr>)
          else if r5 \<noteq> 0 then (Inl r4, w\<lparr>dev := d5\<rparr>) else (Inr written, w\<lparr>dev := d5\<rparr>))
       else (Inr (written + ?chunk), w\<lparr>dev := d4, prog_write_done := of_nat (written + ?chunk),
               prog_done := prog_erase_done w + of_nat (written + ?chunk)\<rparr>))"
    using v by (simp add: write_block_def Let_def b e k k5 split: if_splits)
  have lr: "loop_rel w (w\<lparr>dev := d\<rparr>)" "loop_rel w (w\<lparr>dev := d, prog_write_done := n, prog_done := p\<rparr>)" for d n p
    by (simp_all add: loop_rel_def)
  have fr: "frame (blocks_of m {a}) (content (dev w)) (content d)" if "d \<in> {d1, d2, d3, d4, d5}" for d
    using that c1 f2 f3 f5 vw by auto
  have q3: "view content d4 (int (mtd_offset m) + a) ?chunk = ?src" if verify "r4 = 0"
    using vw that by (simp add: v4)
  define Q where "Q res w' \<longleftrightarrow> run_ok w' \<and> loop_rel w w' \<and>
    frame (blocks_of m {a}) (content (dev w)) (content (dev w')) \<and>
    (\<forall>r. res = Inl r \<longrightarrow> r \<noteq> 0) \<and>
    (\<forall>n. res = Inr n \<longrightarrow>
       \<not> strict \<and> n = written \<and> prog_write_done w' = prog_write_done w \<and> prog_done w' = prog_done w \<or>
       n = written + ?chunk \<and> prog_write_done w' = of_nat n \<and>
       prog_done w' = prog_erase_done w + of_nat n \<and>
       (verify \<longrightarrow> view content (dev w') (int (mtd_offset m) + a) (n - written) = ?src)) \<and>
    prog_erase_done w' = prog_erase_done w" for res :: "int + nat" and w'
  have Q1: "Q (Inl r) (w\<lparr>dev := d\<rparr>)" if "r \<noteq> 0" "d \<in> {d1, d2, d3, d4, d5}" for d r
    using that fr lr run_ok_dev [OF assms(2)] by (simp add: Q_def)
  have Q2: "Q (Inr written) (w\<lparr>dev := d\<rparr>)" if "\<not> strict" "d \<in> {d1, d2, d3, d4, d5}" for d
    using that fr lr run_ok_dev [OF assms(2)] by (simp add: Q_def)
  have Q3: "Q (Inr (written + ?chunk)) (w\<lparr>dev := d4, prog_write_done := of_nat (written + ?chunk),
        prog_done := prog_erase_done w + of_nat (written + ?chunk)\<rparr>)" if "r4 = 0"
    using q3 that fr [of d4] lr run_ok_write_progress [OF assms(2)] by (simp add: Q_def)
  have "case write_block m verify strict img a written w of (res, w') \<Rightarrow> Q res w'"
    unfolding eq using Q1 Q2 Q3 by (simp del: of_nat_add)
  then have "Q res w'" by (simp add: assms(3))
  then show ?thesis by (simp add: Q_def src)
qed

end

section \<open>Where the image ends up\<close>

text \<open>The data is stored in the blocks \<open>bs\<close>, one erase block of it after the other.\<close>

fun stored :: "('d \<Rightarrow> int \<Rightarrow> u8) \<Rightarrow> 'd mtd_info \<Rightarrow> 'd \<Rightarrow> int list \<Rightarrow> bytes \<Rightarrow> bool" where
  "stored content m d [] data \<longleftrightarrow> data = []"
| "stored content m d (b # bs) data \<longleftrightarrow>
     data \<noteq> [] \<and>
     view content d (int (mtd_offset m) + b) (min (mtd_erasesize m) (length data)) = take (mtd_erasesize m) data \<and>
     stored content m d bs (drop (mtd_erasesize m) data)"

definition disjoint_blocks :: "'d mtd_info \<Rightarrow> int list \<Rightarrow> bool" where
  "disjoint_blocks m as \<longleftrightarrow> distinct as \<and>
    (\<forall>a\<in>set as. \<forall>b\<in>set as. a \<noteq> b \<longrightarrow> blocks_of m {a} \<inter> blocks_of m {b} = {})"

lemma disjoint_blocks_Cons:
  assumes "disjoint_blocks m (a # as)"
  shows "disjoint_blocks m as" "blocks_of m {a} \<inter> blocks_of m (set as) = {}"
proof -
  show "disjoint_blocks m as" using assms by (simp add: disjoint_blocks_def)
  have "\<forall>b\<in>set as. blocks_of m {a} \<inter> blocks_of m {b} = {}"
    using assms unfolding disjoint_blocks_def by (metis distinct.simps(2) list.set_intros(1,2))
  then show "blocks_of m {a} \<inter> blocks_of m (set as) = {}" by (auto simp: blocks_of_def)
qed

lemma stored_contiguous:
  assumes "mtd_erasesize m \<noteq> 0"
  shows "stored content m d (map (\<lambda>k. ofs + int (k * mtd_erasesize m)) [j..<j + n]) data \<Longrightarrow>
    view content d (int (mtd_offset m) + ofs + int (j * mtd_erasesize m)) (length data) = data"
proof (induction n arbitrary: j data)
  case 0
  then show ?case by (simp add: view_def)
next
  case (Suc n)
  let ?es = "mtd_erasesize m"
  have l: "[j..<j + Suc n] = j # [Suc j..<Suc j + n]" by (simp add: upt_rec)
  have p: "data \<noteq> []" "view content d (int (mtd_offset m) + (ofs + int (j * ?es))) (min ?es (length data)) = take ?es data"
    "stored content m d (map (\<lambda>k. ofs + int (k * ?es)) [Suc j..<Suc j + n]) (drop ?es data)"
    using Suc.prems unfolding l by simp_all
  have ih: "view content d (int (mtd_offset m) + ofs + int (Suc j * ?es)) (length data - ?es) = drop ?es data"
    using Suc.IH [OF p(3)] by simp
  show ?case
  proof (cases "length data \<le> ?es")
    case True
    then show ?thesis using p(2) by (simp add: add.assoc min_absorb2)
  next
    case False
    then have n: "length data = ?es + (length data - ?es)" by simp
    have "view content d (int (mtd_offset m) + ofs + int (j * ?es)) (?es + (length data - ?es)) =
        take ?es data @ drop ?es data"
      unfolding view_append using p(2) ih False by (simp add: min_absorb1 add.assoc algebra_simps)
    then show ?thesis using n by simp
  qed
qed

context runtime
begin

lemma write_blocks_ok:
  assumes "driver_ok content m"
  shows "run_ok w \<Longrightarrow> write_blocks svc m verify strict img as written w = (ret, w') \<Longrightarrow>
    run_ok w' \<and> loop_rel w w' \<and> frame (blocks_of m (set as)) (content (dev w)) (content (dev w'))"
proof (induction as arbitrary: w written)
  case (Cons a as)
  show ?case
  proof (cases "written < length img")
    case False
    then show ?thesis using Cons.prems by simp
  next
    case True
    obtain res w1 where e: "write_block m verify strict img a written w = (res, w1)"
      by (cases "write_block m verify strict img a written w")
    note o1 = write_block_ok [OF assms Cons.prems(1) e]
    have f1: "frame (blocks_of m {a}) (content (dev w)) (content (dev w1))" using o1 by simp
    have sub: "blocks_of m {a} \<subseteq> blocks_of m (set (a # as))" by (simp add: blocks_of_def)
    show ?thesis
    proof (cases res)
      case (Inl r)
      then have "w' = w1" using Cons.prems(2) e True by simp
      then show ?thesis using o1 frame_mono [OF f1 sub] by simp
    next
      case (Inr n)
      have r: "run_ok (svc w1)" using o1 svc_run_ok by simp
      have "write_blocks svc m verify strict img as n (svc w1) = (ret, w')"
        using Cons.prems(2) e True Inr by simp
      note ih = Cons.IH [OF r this]
      have f2: "frame (blocks_of m (set as)) (content (dev w1)) (content (dev w'))"
        using ih svc_content [of w1] o1 by simp
      have "loop_rel w w'"
        using loop_rel_trans [OF loop_rel_trans [of w w1 "svc w1"]] o1 ih svc_loop_rel [of w1] by simp
      then show ?thesis
        using ih frame_trans [OF f1 f2] by (simp only: list.set blocks_of_insert [of m a "set as"])
    qed
  qed
qed (simp split: if_splits)

lemma write_blocks_stored:
  assumes "driver_ok content m" "mtd_erasesize m \<noteq> 0"
  shows "run_ok w \<Longrightarrow> write_blocks svc m True strict img as written w = (0, w') \<Longrightarrow> disjoint_blocks m as \<Longrightarrow>
    \<exists>bs. subseq bs as \<and> (strict \<longrightarrow> bs = take (length bs) as) \<and>
      stored content m (dev w') bs (drop written img)"
proof (induction as arbitrary: w written)
  case Nil
  then have "stored content m (dev w') [] (drop written img)" by (simp split: if_splits)
  then show ?case by (intro exI [of _ "[]"]) simp
next
  case (Cons a as)
  show ?case
  proof (cases "written < length img")
    case False
    then have "stored content m (dev w') [] (drop written img)" by simp
    then show ?thesis by (intro exI [of _ "[]"]) simp
  next
    case True
    obtain res w1 where e0: "write_block m True strict img a written w = (res, w1)"
      by (cases "write_block m True strict img a written w")
    note o1 = write_block_ok [OF assms(1) Cons.prems(1) e0]
    obtain n where n: "res = Inr n"
      using Cons.prems(2) e0 True o1 by (cases res) simp_all
    have r: "run_ok (svc w1)" using o1 svc_run_ok by simp
    have e2: "write_blocks svc m True strict img as n (svc w1) = (0, w')"
      using Cons.prems(2) e0 True n by simp
    note dj = disjoint_blocks_Cons [OF Cons.prems(3)]
    obtain bs where bs: "subseq bs as" "strict \<longrightarrow> bs = take (length bs) as" "stored content m (dev w') bs (drop n img)"
      using Cons.IH [OF r e2 dj(1)] by blast
    have fr: "frame (blocks_of m (set as)) (content (dev w1)) (content (dev w'))"
      using write_blocks_ok [OF assms(1) r e2] svc_content [of w1] o1 by simp
    let ?chunk = "min (mtd_erasesize m) (length img - written)"
    consider "\<not> strict" "n = written" | "n = written + ?chunk"
      "view content (dev w1) (int (mtd_offset m) + a) ?chunk = take (mtd_erasesize m) (drop written img)"
      using o1 n by fastforce
    then show ?thesis
    proof cases
      case 1
      then show ?thesis using bs by (intro exI [of _ bs]) (simp add: list_emb_Cons)
    next
      case 2
      have "{int (mtd_offset m) + a..<int (mtd_offset m) + a + int ?chunk} \<subseteq> blocks_of m {a}"
        by (auto simp: blocks_of_def)
      then have "view content (dev w') (int (mtd_offset m) + a) ?chunk = take (mtd_erasesize m) (drop written img)"
        using frame_view [where content = content, OF fr, of "int (mtd_offset m) + a" ?chunk] dj(2) 2(2) by auto
      moreover have "drop n img = drop (mtd_erasesize m) (drop written img)"
        using 2(1) by (simp add: min_def add.commute)
      ultimately have "stored content m (dev w') (a # bs) (drop written img)"
        using bs(3) True by simp
      then show ?thesis using bs(1,2) by (intro exI [of _ "a # bs"]) auto
    qed
  qed
qed

lemma erase_region_ok:
  assumes "driver_ok content m" "run_ok w" "recovery_erase_mtd_region svc (Some m) ofs len w = (ret, w')"
  shows "run_ok w' \<and> loop_rel w w' \<and>
    frame {int (mtd_offset m) + ofs..<int (mtd_offset m) + ofs + int len} (content (dev w)) (content (dev w')) \<and>
    (recovery_mtd_validate_region (Some m) ofs len \<noteq> 0 \<longrightarrow> len \<noteq> 0 \<longrightarrow>
       ret = recovery_mtd_validate_region (Some m) ofs len \<and> w' = w)"
proof (cases "len = 0 \<or> recovery_mtd_validate_region (Some m) ofs len \<noteq> 0")
  case True
  then show ?thesis using assms(2,3) by (auto simp: recovery_erase_mtd_region_def split: if_splits)
next
  case False
  then have v: "recovery_mtd_validate_region (Some m) ofs len = 0" by simp
  obtain r1 d1 where u: "mtd_unlock m ofs len (dev w) = (r1, d1)"
    by (cases "mtd_unlock m ofs len (dev w)")
  have c1: "content d1 = content (dev w)" using mtdcore.unlock_same [OF assms(1) u] .
  have e: "erase_blocks svc m ofs (block_addrs (mtd_erasesize m) len) (w\<lparr>dev := d1\<rparr>) = (ret, w')"
    using assms(3) False u by (simp add: recovery_erase_mtd_region_def)
  note ok = erase_blocks_ok [OF assms(1) run_ok_dev [OF assms(2)] e]
  have "blocks_of m ((\<lambda>a. ofs + a) ` set (block_addrs (mtd_erasesize m) len)) \<subseteq>
      {int (mtd_offset m) + ofs..<int (mtd_offset m) + ofs + int len}"
    using region_addrs [OF v] by (fastforce simp: blocks_of_def)
  then have "frame {int (mtd_offset m) + ofs..<int (mtd_offset m) + ofs + int len} (content (dev w)) (content (dev w'))"
    using ok frame_mono c1 by fastforce
  then show ?thesis using ok v by (simp add: loop_rel_def)
qed

lemma region_disjoint:
  assumes "mtd_erasesize m \<noteq> 0"
  shows "disjoint_blocks m (map (\<lambda>a. ofs + a) (block_addrs (mtd_erasesize m) len))"
proof -
  let ?es = "mtd_erasesize m"
  have d: "blocks_of m {ofs + int (i * ?es)} \<inter> blocks_of m {ofs + int (j * ?es)} = {}" if "i < j" for i j
  proof -
    have "(i + 1) * ?es \<le> j * ?es" using that by (intro mult_le_mono1) simp
    then have "int (i * ?es) + int ?es \<le> int (j * ?es)" by (simp add: algebra_simps flip: of_nat_add of_nat_mult)
    then show ?thesis by (auto simp: blocks_of_def)
  qed
  have "blocks_of m {ofs + int (i * ?es)} \<inter> blocks_of m {ofs + int (j * ?es)} = {}" if "i \<noteq> j" for i j
    using d [of i j] d [of j i] that by (cases "i < j") auto
  then show ?thesis
    using assms by (auto simp: disjoint_blocks_def block_addrs_def distinct_map comp_def intro!: inj_onI)
qed

lemma write_region_ok:
  assumes "driver_ok content m" "run_ok w"
    and "recovery_write_mtd_region svc mem_ok m ofs len img verify strict w = (ret, w')"
  shows "run_ok w' \<and> loop_rel w w' \<and>
    frame {int (mtd_offset m) + ofs..<int (mtd_offset m) + ofs + int len} (content (dev w)) (content (dev w'))"
proof (cases "img = [] \<or> recovery_mtd_validate_region (Some m) ofs len \<noteq> 0 \<or> verify \<and> \<not> mem_ok")
  case True
  then show ?thesis using assms(2,3) by (auto simp: recovery_write_mtd_region_def Let_def split: if_splits)
next
  case False
  then have v: "recovery_mtd_validate_region (Some m) ofs len = 0" by simp
  have e: "write_blocks svc m verify strict img
      (map (\<lambda>a. ofs + a) (block_addrs (mtd_erasesize m) len)) 0 w = (ret, w')"
    using assms(3) False by (auto simp: recovery_write_mtd_region_def)
  have "blocks_of m (set (map (\<lambda>a. ofs + a) (block_addrs (mtd_erasesize m) len))) \<subseteq>
      {int (mtd_offset m) + ofs..<int (mtd_offset m) + ofs + int len}"
    using region_addrs [OF v] by (fastforce simp: blocks_of_def)
  then show ?thesis using write_blocks_ok [OF assms(1,2) e] frame_mono by blast
qed

lemma write_region_stored:
  assumes "driver_ok content m" "run_ok w"
    and "recovery_write_mtd_region svc mem_ok m ofs len img True strict w = (0, w')"
  shows "\<exists>bs. subseq bs (map (\<lambda>a. ofs + a) (block_addrs (mtd_erasesize m) len)) \<and>
      stored content m (dev w') bs img \<and>
      (strict \<longrightarrow> view content (dev w') (int (mtd_offset m) + ofs) (length img) = img)"
proof (cases "img = []")
  case True
  then show ?thesis by (intro exI [of _ "[]"]) (simp add: view_def)
next
  case False
  then have v: "recovery_mtd_validate_region (Some m) ofs len = 0"
    and e: "write_blocks svc m True strict img
      (map (\<lambda>a. ofs + a) (block_addrs (mtd_erasesize m) len)) 0 w = (0, w')"
    using assms(3) by (auto simp: recovery_write_mtd_region_def Let_def split: if_splits)
  have es: "mtd_erasesize m \<noteq> 0" using validate_region_0 [OF v] by simp
  obtain bs where bs: "subseq bs (map (\<lambda>a. ofs + a) (block_addrs (mtd_erasesize m) len))"
    "strict \<longrightarrow> bs = take (length bs) (map (\<lambda>a. ofs + a) (block_addrs (mtd_erasesize m) len))"
    "stored content m (dev w') bs img"
    using write_blocks_stored [OF assms(1) es assms(2) e region_disjoint [OF es]] by auto
  have "view content (dev w') (int (mtd_offset m) + ofs) (length img) = img" if strict
  proof -
    have "length bs \<le> (len + mtd_erasesize m - 1) div mtd_erasesize m"
      using list_emb_length [OF bs(1)] by (simp add: block_addrs_def)
    then have "bs = map (\<lambda>k. ofs + int (k * mtd_erasesize m)) [0..<0 + length bs]"
      using bs(2) that by (simp add: block_addrs_def take_map min_def comp_def)
    then show ?thesis using stored_contiguous [OF es, of content "dev w'" ofs 0 "length bs" img] bs(3) by simp
  qed
  then show ?thesis using bs by blast
qed

end

end
