(* ===== verification/Target.thy ===== *)
theory Target
  imports Ubi MtdFlash
begin

text \<open>
  Where an upload goes (\<^verbatim>\<open>net/lwip/httpd_recovery.c\<close>): the names and sizes of the upload targets, their
  environment overrides, attaching the UBI device (\<^verbatim>\<open>cmd/ubi.c\<close>), resolving an upload to an MTD region
  or a UBI volume, and the size an upload may have. The board description, the device tree and the
  memory map are the fields of the record \<open>board\<close>.
\<close>

section \<open>The board\<close>

text \<open>
  \<open>brd_ops\<close> says that \<^verbatim>\<open>recovery_get_board_ops\<close> returns a structure, \<open>brd_match\<close> is the result of its
  \<^verbatim>\<open>match\<close> method (false for a NULL pointer), \<open>brd_ubi\<close> its \<^verbatim>\<open>ubi\<close> geometry as far as this file reads it
  (\<^verbatim>\<open>version\<close> and \<^verbatim>\<open>ubi_part\<close>), \<open>brd_mtd_ubi_valid\<close> its \<^verbatim>\<open>mtd_ubi_valid\<close> method. \<open>brd_mtds\<close> are the MTD
  devices after \<^verbatim>\<open>mtd_probe_devices\<close>, \<open>brd_compat\<close> is \<^verbatim>\<open>of_machine_is_compatible\<close>.
\<close>

record 'd board =
  brd_ops :: bool
  brd_match :: bool
  brd_ubi :: "(string \<times> string) option"
  brd_mtd_ubi_valid :: "'d mtd_info \<Rightarrow> bool"
  brd_mtds :: "'d mtd_info list"
  brd_of_dev :: "'d mtd_info \<Rightarrow> string \<Rightarrow> bool"
  brd_compat :: "string \<Rightarrow> bool"
  brd_low :: "'d ubi_low"
  brd_ram_base :: u64
  brd_ram_size :: u64
  brd_load_addr :: u64

definition recovery_init_layout_from_ops :: "'d board \<Rightarrow> ('d, 'x) world \<Rightarrow> ('d, 'x) world" where
  "recovery_init_layout_from_ops b w =
    (case (if brd_ops b then brd_ubi b else None) of
       None \<Rightarrow> w
     | Some (version, part) \<Rightarrow>
         w\<lparr>layout_version := Some version, layout_part := Some part, current_ubi_layout := True\<rparr>)"

definition recovery_board_active :: "'d board \<Rightarrow> ('d, 'x) world \<Rightarrow> bool \<times> ('d, 'x) world" where
  "recovery_board_active b w =
    (if \<not> brd_ops b then (False, w)
     else if \<not> brd_match b then (False, w)
     else (True, if brd_ubi b \<noteq> None then recovery_init_layout_from_ops b w else w))"

section \<open>Numbers in the environment\<close>

definition isxdigit :: "char \<Rightarrow> bool" where
  "isxdigit c = (let n = of_char c :: nat in 48 \<le> n \<and> n \<le> 57 \<or> 65 \<le> n \<and> n \<le> 70 \<or> 97 \<le> n \<and> n \<le> 102)"

definition decode_digit :: "char \<Rightarrow> nat" where
  "decode_digit c =
    (let n = of_char c :: nat in
     if \<not> isxdigit c then 256
     else if n \<le> 57 then n - 48
     else if n \<le> 70 then n - 65 + 10
     else n - 97 + 10)"

text \<open>\<^verbatim>\<open>simple_strtoul\<close> with base 16: the value, which wraps, and the rest of the string.\<close>

fun hex_digits :: "string \<Rightarrow> u64 \<Rightarrow> u64 \<times> string" where
  "hex_digits [] r = (r, [])"
| "hex_digits (c # cs) r =
    (if decode_digit c < 16 then hex_digits cs (r * 16 + of_nat (decode_digit c)) else (r, c # cs))"

definition hextoul :: "string \<Rightarrow> u64 \<times> string" where
  "hextoul s =
    (case s of
       CHR ''0'' # x # cs \<Rightarrow> if x = CHR ''x'' \<or> x = CHR ''X'' then hex_digits cs 0 else hex_digits s 0
     | _ \<Rightarrow> hex_digits s 0)"

definition env_get_hex :: "(string \<Rightarrow> string option) \<Rightarrow> string \<Rightarrow> u64 \<Rightarrow> u64" where
  "env_get_hex e name dflt =
    (case e name of
       None \<Rightarrow> dflt
     | Some s \<Rightarrow> let (v, rest) = hextoul s in if length rest = length s then dflt else v)"

section \<open>Targets and their environment\<close>

definition recovery_default_target :: "upload_target \<Rightarrow> string" where
  "recovery_default_target tgt =
    (case tgt of
       TARGET_FIRMWARE \<Rightarrow> ''fit''
     | TARGET_UBOOT \<Rightarrow> ''bootloader''
     | TARGET_UENV \<Rightarrow> ''uenv''
     | TARGET_DSD \<Rightarrow> ''dsd'')"

definition recovery_target_env :: "upload_target \<Rightarrow> string" where
  "recovery_target_env tgt =
    (case tgt of
       TARGET_FIRMWARE \<Rightarrow> ''recovery_mtd''
     | TARGET_UBOOT \<Rightarrow> ''recovery_mtd_uboot''
     | TARGET_UENV \<Rightarrow> ''recovery_mtd_uenv''
     | TARGET_DSD \<Rightarrow> ''recovery_mtd_dsd'')"

definition recovery_raw_env :: "upload_target \<Rightarrow> string" where
  "recovery_raw_env tgt =
    (case tgt of
       TARGET_FIRMWARE \<Rightarrow> ''recovery_dev''
     | TARGET_UBOOT \<Rightarrow> ''recovery_dev_uboot''
     | TARGET_UENV \<Rightarrow> ''recovery_dev_uenv''
     | TARGET_DSD \<Rightarrow> ''recovery_dev_dsd'')"

definition recovery_size_env :: "upload_target \<Rightarrow> string" where
  "recovery_size_env tgt =
    (case tgt of
       TARGET_FIRMWARE \<Rightarrow> ''recovery_size''
     | TARGET_UBOOT \<Rightarrow> ''recovery_size_uboot''
     | TARGET_UENV \<Rightarrow> ''recovery_size_uenv''
     | TARGET_DSD \<Rightarrow> ''recovery_size_dsd'')"

definition recovery_raw_offset :: "(string \<Rightarrow> string option) \<Rightarrow> upload_target \<Rightarrow> u64" where
  "recovery_raw_offset e tgt =
    (case tgt of TARGET_FIRMWARE \<Rightarrow> env_get_hex e ''recovery_ofs'' 0x050000 | _ \<Rightarrow> 0)"

definition recovery_default_raw :: "upload_target \<Rightarrow> string option" where
  "recovery_default_raw tgt = None"

definition recovery_target_size_cap :: "(string \<Rightarrow> string option) \<Rightarrow> upload_target \<Rightarrow> u64" where
  "recovery_target_size_cap e tgt =
    (let size_cap = env_get_hex e (recovery_size_env tgt) 0 in
     if tgt = TARGET_UENV \<or> tgt = TARGET_DSD then of_nat RECOVERY_RAW_PART_SIZE
     else if tgt = TARGET_UBOOT \<and> (size_cap = 0 \<or> size_cap > of_nat RECOVERY_UBOOT_SIZE)
     then of_nat RECOVERY_UBOOT_SIZE
     else size_cap)"

text \<open>
  A NULL result is \<^term>\<open>None\<close>: the layout record has no name yet. \<open>ubi_part_after_parse\<close> below shows
  that this does not happen once \<^verbatim>\<open>recovery_parse_ubi_layout\<close> has run.
\<close>

definition recovery_ubi_part ::
    "'d board \<Rightarrow> upload_target \<Rightarrow> ('d, 'x) world \<Rightarrow> string option \<times> ('d, 'x) world" where
  "recovery_ubi_part b tgt w =
    (let (active, w) = (if tgt = TARGET_FIRMWARE then recovery_board_active b w else (False, w)) in
     if active then (Some ''ubi'', w)
     else if tgt = TARGET_FIRMWARE \<and> current_ubi_layout w then (layout_part w, w)
     else
       let part = (case tgt of
                     TARGET_UBOOT \<Rightarrow> env w ''recovery_ubi_part_uboot''
                   | TARGET_UENV \<Rightarrow> None
                   | TARGET_DSD \<Rightarrow> None
                   | TARGET_FIRMWARE \<Rightarrow> env w ''recovery_ubi_part'');
           part = (case part of None \<Rightarrow> env w ''recovery_ubi_part'' | Some p \<Rightarrow> Some p) in
       (case part of Some p \<Rightarrow> Some p | None \<Rightarrow> Some ''ubi'', w))"

definition recovery_parse_ubi_layout :: "'d board \<Rightarrow> string \<Rightarrow> ('d, 'x) world \<Rightarrow> int \<times> ('d, 'x) world" where
  "recovery_parse_ubi_layout b uri w =
    (let (active, w) = recovery_board_active b w;
         w = w\<lparr>current_ubi_layout := active\<rparr> in
     case strchr uri CHR ''?'' of
       None \<Rightarrow> (0, w)
     | Some query \<Rightarrow>
         if \<not> strncmp_eq query ''?layout='' 8 then (-EINVAL, w)
         else if \<not> active \<or> layout_version w \<noteq> Some (drop 8 query) then (-EINVAL, w)
         else (0, w\<lparr>current_ubi_layout := True\<rparr>))"

section \<open>References to MTD devices\<close>

definition get_mtd :: "'d board \<Rightarrow> string \<Rightarrow> ('d, 'x) world \<Rightarrow> (int + 'd mtd_info) \<times> ('d, 'x) world" where
  "get_mtd b name w =
    (case get_mtd_device_nm (brd_of_dev b) (brd_mtds b) name of
       Inl err \<Rightarrow> (Inl err, w)
     | Inr m \<Rightarrow> (Inr m, w\<lparr>usecount := (usecount w)(mtd_name m := usecount w (mtd_name m) + 1)\<rparr>))"

definition put_mtd_device :: "'d mtd_info \<Rightarrow> ('d, 'x) world \<Rightarrow> ('d, 'x) world" where
  "put_mtd_device m w = w\<lparr>usecount := (usecount w)(mtd_name m := usecount w (mtd_name m) - 1)\<rparr>"

section \<open>Attaching UBI\<close>

text \<open>The MTD device behind the attached UBI device.\<close>

definition ubi_mtd :: "'d board \<Rightarrow> ubi_device \<Rightarrow> 'd mtd_info option" where
  "ubi_mtd b u = find (\<lambda>m. mtd_name m = ubi_mtd_name u) (brd_mtds b)"

text \<open>
  \<^verbatim>\<open>ubi_exit\<close> drops the reference \<^verbatim>\<open>ubi_init\<close> took on the MTD device.
\<close>

definition ubi_detach :: "('d, 'x) world \<Rightarrow> ('d, 'x) world" where
  "ubi_detach w =
    (case ubi w of
       None \<Rightarrow> w
     | Some u \<Rightarrow>
         w\<lparr>ubi := None,
           usecount := (usecount w)(ubi_mtd_name u := usecount w (ubi_mtd_name u) - 1)\<rparr>)"

definition ubi_part :: "'d board \<Rightarrow> string \<Rightarrow> ('d, 'x) world \<Rightarrow> int \<times> ('d, 'x) world" where
  "ubi_part b part w =
    (if (case ubi w of Some u \<Rightarrow> ubi_mtd_name u = part | None \<Rightarrow> False) then (0, w)
     else
       let w = ubi_detach w in
       case get_mtd b part w of
         (Inl _, w) \<Rightarrow> (-ENODEV, w)
       | (Inr m, w) \<Rightarrow>
           let w = put_mtd_device m w in
           (case low_attach (brd_low b) (mtd_name m) (dev w) of
              (Inl err, d) \<Rightarrow> (err, w\<lparr>dev := d\<rparr>)
            | (Inr u, d) \<Rightarrow>
                (0, w\<lparr>dev := d, ubi := Some (u\<lparr>ubi_mtd_name := mtd_name m\<rparr>),
                      usecount := (usecount w)(mtd_name m := usecount w (mtd_name m) + 1)\<rparr>)))"

text \<open>Whether the attached UBI device sits on a partition of the geometry the board expects.\<close>

definition ubi_valid :: "'d board \<Rightarrow> ubi_device \<Rightarrow> bool" where
  "ubi_valid b u = (case ubi_mtd b u of Some m \<Rightarrow> brd_mtd_ubi_valid b m | None \<Rightarrow> False)"

definition recovery_select_ubi :: "'d board \<Rightarrow> string \<Rightarrow> ('d, 'x) world \<Rightarrow> int \<times> ('d, 'x) world" where
  "recovery_select_ubi b part w =
    (let selected = (case ubi w of Some u \<Rightarrow> ubi_mtd_name u = part | None \<Rightarrow> False);
         (active, w) = (if selected then recovery_board_active b w else (False, w)) in
     if selected then
       (if active \<and> (case ubi w of Some u \<Rightarrow> \<not> ubi_valid b u | None \<Rightarrow> False) then (-EINVAL, w) else (0, w))
     else if recovery_ubi_attach_error w \<noteq> 0 then (recovery_ubi_attach_error w, w)
     else
       let (ret, w) = ubi_part b part w in
       if ret \<noteq> 0 then (ret, w\<lparr>recovery_ubi_attach_error := ret\<rparr>)
       else
         let (active, w) = recovery_board_active b w in
         if active \<and> (case ubi w of Some u \<Rightarrow> \<not> ubi_valid b u | None \<Rightarrow> True)
         then (-EINVAL, w\<lparr>recovery_ubi_attach_error := -EINVAL\<rparr>)
         else (0, w))"

section \<open>Resolving a target\<close>

datatype recovery_backend = RECOVERY_BACKEND_MTD | RECOVERY_BACKEND_UBI

record 'd recovery_target =
  backend :: recovery_backend
  tgt_name :: "string option"
  tgt_ubi_part :: "string option"
  tgt_mtd :: "'d mtd_info option"
  tgt_ofs :: int
  cur_size :: u64
  tgt_limit :: u64
  ubi_needs_format :: bool

text \<open>The target after \<^verbatim>\<open>memset\<close>.\<close>

definition zero_target :: "'d recovery_target" where
  "zero_target =
    \<lparr>backend = RECOVERY_BACKEND_MTD, tgt_name = None, tgt_ubi_part = None, tgt_mtd = None, tgt_ofs = 0,
     cur_size = 0, tgt_limit = 0, ubi_needs_format = False\<rparr>"

definition target_volume :: "'d board \<Rightarrow> upload_target \<Rightarrow> ('d, 'x) world \<Rightarrow> string \<times> ('d, 'x) world" where
  "target_volume b tgt w =
    (let (active, w) = (if tgt = TARGET_FIRMWARE then recovery_board_active b w else (False, w)) in
     if active then (''fit'', w)
     else (case env w (recovery_target_env tgt) of Some v \<Rightarrow> v | None \<Rightarrow> recovery_default_target tgt, w))"

text \<open>\<^verbatim>\<open>get_mtd_device_nm\<close> and the \<^verbatim>\<open>IS_ERR_OR_NULL\<close> tests of its result.\<close>

definition recovery_try_ubi_target ::
    "'d board \<Rightarrow> upload_target \<Rightarrow> 'd recovery_target \<Rightarrow> ('d, 'x) world \<Rightarrow>
      int \<times> 'd recovery_target \<times> ('d, 'x) world" where
  "recovery_try_ubi_target b tgt t w =
    (case recovery_ubi_part b tgt w of
       (None, w) \<Rightarrow> (-ENODEV, t, w)
     | (Some part, w) \<Rightarrow>
         let (volume, w) = target_volume b tgt w;
             (ret, w) = recovery_select_ubi b part w in
         if ret \<noteq> 0 then
           (case get_mtd b part w of
              (Inl _, w) \<Rightarrow> (-ENODEV, t, w)
            | (Inr m, w) \<Rightarrow>
                let (active, w) = recovery_board_active b w in
                if active \<and> \<not> brd_mtd_ubi_valid b m then (-EINVAL, t, put_mtd_device m w)
                else
                  (0, t\<lparr>backend := RECOVERY_BACKEND_UBI, tgt_name := Some volume,
                        tgt_ubi_part := Some part, tgt_mtd := Some m, cur_size := 0,
                        tgt_limit := of_nat (mtd_size m), ubi_needs_format := True\<rparr>, w))
         else
           (case ubi_open_volume_nm (brd_low b) volume UBI_READWRITE w of
              (Inl _, w) \<Rightarrow>
                (case ubi w of
                   None \<Rightarrow> (-ENODEV, t, w)
                 | Some u \<Rightarrow>
                     (0, t\<lparr>backend := RECOVERY_BACKEND_UBI, tgt_name := Some volume,
                           tgt_ubi_part := Some part, ubi_needs_format := False, cur_size := 0,
                           tgt_limit := of_int (avail_pebs u) * of_nat (leb_size u)\<rparr>, w))
            | (Inr i, w) \<Rightarrow>
                (case ubi w of
                   None \<Rightarrow> (-ENODEV, t, w)
                 | Some u \<Rightarrow>
                     (case volumes u ! i of
                        None \<Rightarrow> (-ENODEV, t, w)
                      | Some vol \<Rightarrow>
                          (0, t\<lparr>backend := RECOVERY_BACKEND_UBI, tgt_name := Some volume,
                                tgt_ubi_part := Some part, ubi_needs_format := False,
                                cur_size := of_int (reserved_pebs vol) * of_nat (usable_leb_size vol),
                                tgt_limit := of_int (reserved_pebs vol + avail_pebs u) *
                                             of_nat (usable_leb_size vol)\<rparr>,
                           ubi_close_volume i UBI_READWRITE w)))))"

text \<open>
  The target on the raw device \<open>m\<close> called \<open>raw\<close>, with the offset and the size cap of the
  environment; the code has these lines twice.
\<close>

definition raw_target ::
    "upload_target \<Rightarrow> string \<Rightarrow> 'd mtd_info \<Rightarrow> (string \<Rightarrow> string option) \<Rightarrow> 'd recovery_target \<Rightarrow> 'd recovery_target" where
  "raw_target tgt raw m e t =
    (let ofs = recovery_raw_offset e tgt;
         limit = of_nat (mtd_size m) :: u64;
         limit = (if ofs \<noteq> 0 \<and> limit > ofs then limit - ofs else limit);
         size_cap = recovery_target_size_cap e tgt;
         limit = (if size_cap \<noteq> 0 \<and> limit > size_cap then size_cap else limit) in
     t\<lparr>backend := RECOVERY_BACKEND_MTD, tgt_name := Some raw, tgt_mtd := Some m, tgt_ofs := sint ofs,
       tgt_limit := limit, cur_size := limit\<rparr>)"

text \<open>The last part of \<^verbatim>\<open>recovery_resolve_target\<close>: the raw device of last resort.\<close>

definition resolve_raw ::
    "'d board \<Rightarrow> upload_target \<Rightarrow> string option \<Rightarrow> 'd recovery_target \<Rightarrow> ('d, 'x) world \<Rightarrow>
      int \<times> 'd recovery_target \<times> ('d, 'x) world" where
  "resolve_raw b tgt raw t w =
    (let raw = (case raw of
                  Some r \<Rightarrow> Some r
                | None \<Rightarrow>
                    (case tgt of
                       TARGET_FIRMWARE \<Rightarrow> Some ''nor0''
                     | TARGET_UBOOT \<Rightarrow> (case env w ''recovery_dev'' of Some r \<Rightarrow> Some r | None \<Rightarrow> Some ''nor0'')
                     | _ \<Rightarrow> None)) in
     case raw of
       None \<Rightarrow> (-ENODEV, t, w)
     | Some raw \<Rightarrow>
         (case get_mtd b raw w of
            (Inl _, w) \<Rightarrow> (-ENODEV, t, w)
          | (Inr m, w) \<Rightarrow> (0, raw_target tgt raw m (env w) t, w)))"

text \<open>The part of \<^verbatim>\<open>recovery_resolve_target\<close> for firmware.\<close>

definition resolve_firmware ::
    "'d board \<Rightarrow> upload_target \<Rightarrow> string \<Rightarrow> 'd recovery_target \<Rightarrow> ('d, 'x) world \<Rightarrow>
      int \<times> 'd recovery_target \<times> ('d, 'x) world" where
  "resolve_firmware b tgt name t w =
    (let raw = (case env w (recovery_raw_env tgt) of
                  Some r \<Rightarrow> if r = [] then recovery_default_raw tgt else Some r
                | None \<Rightarrow> recovery_default_raw tgt);
         (active, w) = (if tgt = TARGET_FIRMWARE then recovery_board_active b w else (False, w)) in
     case (if \<not> active \<and> raw \<noteq> None \<and> raw \<noteq> Some [] then get_mtd b (case raw of Some r \<Rightarrow> r | None \<Rightarrow> []) w
           else (Inl 0, w)) of
       (Inr m, w) \<Rightarrow> (0, raw_target tgt (case raw of Some r \<Rightarrow> r | None \<Rightarrow> []) m (env w) t, w)
     | (Inl _, w) \<Rightarrow>
         (case (if \<not> active then get_mtd b name w else (Inl 0, w)) of
            (Inr m, w) \<Rightarrow>
              (0, t\<lparr>backend := RECOVERY_BACKEND_MTD, tgt_name := Some name, tgt_mtd := Some m,
                    tgt_limit := of_nat (mtd_size m), cur_size := of_nat (mtd_size m)\<rparr>, w)
          | (Inl _, w) \<Rightarrow>
              let (ret, t, w) = recovery_try_ubi_target b tgt t w in
              if ret = 0 then (0, t, w)
              else if active then (-ENODEV, t, w)
              else resolve_raw b tgt raw t w))"

definition recovery_resolve_target ::
    "'d board \<Rightarrow> upload_target \<Rightarrow> ('d, 'x) world \<Rightarrow> int \<times> 'd recovery_target \<times> ('d, 'x) world" where
  "recovery_resolve_target b tgt w =
    (let t = zero_target; (name, w) = target_volume b tgt w in
     if tgt = TARGET_UENV \<or> tgt = TARGET_DSD then
       let name = recovery_default_target tgt in
       (case get_mtd b name w of
          (Inl err, w) \<Rightarrow> (err, t, w)
        | (Inr m, w) \<Rightarrow>
            if mtd_size m \<noteq> RECOVERY_RAW_PART_SIZE then (-EINVAL, t, put_mtd_device m w)
            else
              (0, t\<lparr>backend := RECOVERY_BACKEND_MTD, tgt_name := Some name, tgt_mtd := Some m, tgt_ofs := 0,
                    tgt_limit := of_nat (mtd_size m), cur_size := of_nat (mtd_size m)\<rparr>, w))
     else if tgt = TARGET_UBOOT then
       (if name \<noteq> ''bootloader'' then (-EINVAL, t, w)
        else
          case get_mtd b ''bootloader'' w of
            (Inl err, w) \<Rightarrow> (err, t, w)
          | (Inr m, w) \<Rightarrow>
              let limit = of_nat (mtd_size m);
                  size_cap = recovery_target_size_cap (env w) tgt;
                  limit = (if size_cap \<noteq> 0 \<and> limit > size_cap then size_cap else limit) in
              (0, t\<lparr>backend := RECOVERY_BACKEND_MTD, tgt_name := Some ''bootloader'', tgt_mtd := Some m,
                    tgt_ofs := 0, tgt_limit := limit, cur_size := limit\<rparr>, w))
     else resolve_firmware b tgt name t w)"

definition recovery_release_target ::
    "'d recovery_target \<Rightarrow> ('d, 'x) world \<Rightarrow> 'd recovery_target \<times> ('d, 'x) world" where
  "recovery_release_target t w =
    (t\<lparr>tgt_mtd := None\<rparr>, case tgt_mtd t of Some m \<Rightarrow> put_mtd_device m w | None \<Rightarrow> w)"

definition recovery_force_ubi_rebuild ::
    "'d board \<Rightarrow> 'd recovery_target \<Rightarrow> ('d, 'x) world \<Rightarrow> int \<times> 'd recovery_target \<times> ('d, 'x) world" where
  "recovery_force_ubi_rebuild b t w =
    (case (if backend t = RECOVERY_BACKEND_UBI then tgt_ubi_part t else None) of
       None \<Rightarrow> (-EINVAL, t, w)
     | Some part \<Rightarrow>
         let w = (ubi_detach w)\<lparr>recovery_ubi_attach_error := 0\<rparr>;
             (t, w) = (case tgt_mtd t of
                         Some m \<Rightarrow> (t\<lparr>tgt_mtd := None\<rparr>, put_mtd_device m w)
                       | None \<Rightarrow> (t, w)) in
         (case get_mtd b part w of
            (Inl err, w) \<Rightarrow> (err, t, w)
          | (Inr m, w) \<Rightarrow>
              (0, t\<lparr>tgt_mtd := Some m, cur_size := 0, tgt_limit := of_nat (mtd_size m),
                    ubi_needs_format := True\<rparr>, w)))"

section \<open>The size an upload may have\<close>

definition recovery_preserve_ubi_volume :: "'d board \<Rightarrow> string \<Rightarrow> bool" where
  "recovery_preserve_ubi_volume b name =
    (if name = [] then True
     else if brd_compat b ''naoki,xg2010g'' \<or> brd_compat b ''econet,xg2010g'' \<or>
             brd_compat b ''econet,xg2010g-ubi'' \<or> brd_compat b ''gemtek,xg2010g'' \<or>
             brd_compat b ''gemtek,xg2010g-ubi''
     then name = ''factory''
     else if brd_compat b ''gemtek,w1700k'' \<or> brd_compat b ''gemtek,w1700k-ubi''
     then name = ''factory''
     else False)"

text \<open>The volumes that a rebuild removes, and the bytes they hold.\<close>

definition removable :: "'d board \<Rightarrow> ubi_volume option \<Rightarrow> bool" where
  "removable b v = (case v of None \<Rightarrow> False | Some vol \<Rightarrow> \<not> recovery_preserve_ubi_volume b (vol_name vol))"

definition vol_bytes :: "ubi_volume option \<Rightarrow> u64" where
  "vol_bytes v = (case v of None \<Rightarrow> 0 | Some vol \<Rightarrow> of_int (reserved_pebs vol) * of_nat (usable_leb_size vol))"

definition recovery_calc_rebuild_ubi_limit ::
    "'d board \<Rightarrow> 'd recovery_target \<Rightarrow> ('d, 'x) world \<Rightarrow> u64 \<times> ('d, 'x) world" where
  "recovery_calc_rebuild_ubi_limit b t w =
    (if backend t \<noteq> RECOVERY_BACKEND_UBI then (tgt_limit t, w)
     else if ubi_needs_format t then (tgt_limit t, w)
     else case tgt_ubi_part t of
       None \<Rightarrow> (tgt_limit t, w)
     | Some part \<Rightarrow>
         let (ret, w) = recovery_select_ubi b part w in
         if ret \<noteq> 0 then (tgt_limit t, w)
         else
           case ubi w of
             None \<Rightarrow> (tgt_limit t, w)
           | Some u \<Rightarrow>
               (of_int (avail_pebs u) * of_nat (leb_size u) +
                  sum_list (map vol_bytes (filter (removable b) (volumes u))), w))"

text \<open>\<^verbatim>\<open>ULONG_MAX\<close> and \<^verbatim>\<open>ULLONG_MAX\<close> are equal on this 64-bit machine, so that the cap has no effect.\<close>

definition recovery_calc_target_max ::
    "'d board \<Rightarrow> upload_target \<Rightarrow> ('d, 'x) world \<Rightarrow> u64 \<times> ('d, 'x) world" where
  "recovery_calc_target_max b tgt w =
    (let (ret, t, w) = recovery_resolve_target b tgt w in
     if ret \<noteq> 0 then (0, w)
     else
       let (limit, w) = (if tgt = TARGET_FIRMWARE then recovery_calc_rebuild_ubi_limit b t w
                         else (tgt_limit t, w));
           (t, w) = recovery_release_target t w in
       (limit, w))"

section \<open>What resolving leaves alone\<close>

text \<open>
  The state without the parts that selecting a target works on: the flash, the attached UBI device,
  the reference counts, the attach error and the layout record.
\<close>

definition core :: "('d, 'x) world \<Rightarrow> ('d, 'x) world" where
  "core w = w\<lparr>dev := undefined, ubi := None, usecount := (\<lambda>_. 0), recovery_ubi_attach_error := 0,
     layout_version := None, layout_part := None, current_ubi_layout := False\<rparr>"

text \<open>References to MTD devices that are not held by the attached UBI device.\<close>

definition refs :: "('d, 'x) world \<Rightarrow> string \<Rightarrow> int" where
  "refs w n = usecount w n - (case ubi w of Some u \<Rightarrow> if ubi_mtd_name u = n then 1 else 0 | None \<Rightarrow> 0)"

text \<open>The reference a resolved target holds.\<close>

definition held :: "'d recovery_target \<Rightarrow> string \<Rightarrow> int" where
  "held t n = (case tgt_mtd t of Some m \<Rightarrow> if mtd_name m = n then 1 else 0 | None \<Rightarrow> 0)"

named_theorems quiet "steps that keep the core and the references"

text \<open>A step keeps the core of the state and the references.\<close>

definition keeps :: "('d, 'x) world \<Rightarrow> ('d, 'x) world \<Rightarrow> bool" where
  "keeps w w' \<longleftrightarrow> core w' = core w \<and> refs w' = refs w"

lemma keeps_refl [simp]: "keeps w w"
  by (simp add: keeps_def)

lemma keeps_trans: "keeps u v \<Longrightarrow> keeps v w \<Longrightarrow> keeps u w"
  by (simp add: keeps_def)

lemma core_upd [simp]:
  "core (w\<lparr>dev := d\<rparr>) = core w" "core (w\<lparr>ubi := u\<rparr>) = core w" "core (w\<lparr>usecount := c\<rparr>) = core w"
  "core (w\<lparr>recovery_ubi_attach_error := e\<rparr>) = core w" "core (w\<lparr>layout_version := v\<rparr>) = core w"
  "core (w\<lparr>layout_part := v\<rparr>) = core w" "core (w\<lparr>current_ubi_layout := l\<rparr>) = core w"
  by (simp_all add: core_def)

lemma refs_upd [simp]:
  "refs (w\<lparr>dev := d\<rparr>) = refs w"
  "refs (w\<lparr>recovery_ubi_attach_error := e\<rparr>) = refs w" "refs (w\<lparr>layout_version := v\<rparr>) = refs w"
  "refs (w\<lparr>layout_part := v\<rparr>) = refs w" "refs (w\<lparr>current_ubi_layout := l\<rparr>) = refs w"
  by (simp_all add: refs_def fun_eq_iff)

text \<open>The fields the core determines.\<close>

lemma coreD:
  assumes "core w' = core w"
  shows "env w' = env w" "ram w' = ram w" "ext w' = ext w" "recv_base w' = recv_base w" "recv_off w' = recv_off w"
    "recv_total w' = recv_total w" "post_ok w' = post_ok w" "flash_request w' = flash_request w"
    "reboot_post_pending w' = reboot_post_pending w" "reboot_request w' = reboot_request w"
    "prog_phase w' = prog_phase w" "current_target w' = current_target w" "upload_image w' = upload_image w"
    "prog_erase_total w' = prog_erase_total w" "prog_write_total w' = prog_write_total w" "prog_total w' = prog_total w"
    "prog_erase_done w' = prog_erase_done w" "prog_write_done w' = prog_write_done w" "prog_done w' = prog_done w"
    "lan_activity_ms w' = lan_activity_ms w" "upload_start_ms w' = upload_start_ms w"
proof -
  have e: "f w' = f w" if "\<And>v. f (core v) = f v" for f :: "('a, 'b) world \<Rightarrow> 'z"
    using arg_cong [OF assms, of f] by (simp only: that)
  show "env w' = env w" "ram w' = ram w" "ext w' = ext w" "recv_base w' = recv_base w" "recv_off w' = recv_off w"
    "recv_total w' = recv_total w" "post_ok w' = post_ok w" "flash_request w' = flash_request w"
    "reboot_post_pending w' = reboot_post_pending w" "reboot_request w' = reboot_request w"
    "prog_phase w' = prog_phase w" "current_target w' = current_target w" "upload_image w' = upload_image w"
    "prog_erase_total w' = prog_erase_total w" "prog_write_total w' = prog_write_total w" "prog_total w' = prog_total w"
    "prog_erase_done w' = prog_erase_done w" "prog_write_done w' = prog_write_done w" "prog_done w' = prog_done w"
    "lan_activity_ms w' = lan_activity_ms w" "upload_start_ms w' = upload_start_ms w"
    by (rule e; simp add: core_def upload_image_def)+
qed

lemma board_active_keeps: "recovery_board_active b w = (a, w') \<Longrightarrow>
    keeps w w' \<and> dev w' = dev w \<and> ubi w' = ubi w \<and> usecount w' = usecount w \<and> (a \<longleftrightarrow> brd_ops b \<and> brd_match b)"
  by (auto simp: recovery_board_active_def recovery_init_layout_from_ops_def keeps_def split: if_splits option.splits prod.splits)

lemma active_if_keeps: "(if c then recovery_board_active b w else (False, w)) = (a, w') \<Longrightarrow>
    keeps w w' \<and> dev w' = dev w \<and> ubi w' = ubi w \<and> usecount w' = usecount w \<and> (a \<longleftrightarrow> c \<and> brd_ops b \<and> brd_match b)"
  using board_active_keeps by (cases c) auto

text \<open>Taking and dropping a reference.\<close>

lemma get_mtd_cases:
  assumes "get_mtd b n w = (r, w')"
  obtains e where "r = Inl e" "w' = w"
  | m where "r = Inr m" "core w' = core w" "dev w' = dev w" "ubi w' = ubi w"
      "refs w' = (\<lambda>x. refs w x + (if mtd_name m = x then 1 else 0))" "m \<in> set (brd_mtds b)"
      "mtd_device_matches_name (brd_of_dev b) m n" "put_mtd_device m w' = w"
proof (cases r)
  case (Inl e)
  then show ?thesis using assms that(1) by (auto simp: get_mtd_def split: sum.splits)
next
  case (Inr m)
  have w': "w' = w\<lparr>usecount := (usecount w)(mtd_name m := usecount w (mtd_name m) + 1)\<rparr>"
    and g: "get_mtd_device_nm (brd_of_dev b) (brd_mtds b) n = Inr m"
    using assms Inr by (auto simp: get_mtd_def split: sum.splits)
  let ?ms = "filter (\<lambda>m. mtd_device_matches_name (brd_of_dev b) m n) (brd_mtds b)"
  have "?ms \<noteq> [] \<and> m = last ?ms"
    using g unfolding get_mtd_device_nm_def by (cases ?ms) simp_all
  then have "m \<in> set ?ms" using last_in_set by blast
  then show ?thesis using that(2) [OF Inr] w' by (auto simp: refs_def fun_eq_iff put_mtd_device_def)
qed

lemma put_refs:
  "refs (put_mtd_device m w) = (\<lambda>n. refs w n - (if mtd_name m = n then 1 else 0))"
  "core (put_mtd_device m w) = core w" "dev (put_mtd_device m w) = dev w" "ubi (put_mtd_device m w) = ubi w"
  by (auto simp: put_mtd_device_def refs_def fun_eq_iff)

lemma detach_keeps: "keeps w (ubi_detach w)" "dev (ubi_detach w) = dev w" "ubi (ubi_detach w) = None"
  by (auto simp: keeps_def ubi_detach_def refs_def fun_eq_iff split: option.splits)

lemma ubi_part_keeps:
  assumes "ubi_part b p w = (ret, w')"
  shows "keeps w w'"
proof (cases "case ubi w of Some u \<Rightarrow> ubi_mtd_name u = p | None \<Rightarrow> False")
  case True
  then show ?thesis using assms by (simp add: ubi_part_def)
next
  case False
  note d = detach_keeps [of w]
  obtain r w1 where g: "get_mtd b p (ubi_detach w) = (r, w1)" by (cases "get_mtd b p (ubi_detach w)")
  from g show ?thesis
  proof (cases rule: get_mtd_cases)
    case (1 e)
    then show ?thesis using assms False d g by (simp add: ubi_part_def)
  next
    case (2 m)
    let ?w = "ubi_detach w"
    obtain a d' where l: "low_attach (brd_low b) (mtd_name m) (dev ?w) = (a, d')"
      by (cases "low_attach (brd_low b) (mtd_name m) (dev ?w)")
    show ?thesis
    proof (cases a)
      case (Inl e)
      then have "w' = ?w\<lparr>dev := d'\<rparr>" using assms False g 2 l by (simp add: ubi_part_def)
      then show ?thesis using d by (auto simp: keeps_def)
    next
      case (Inr u)
      then have "w' = ?w\<lparr>dev := d', ubi := Some (u\<lparr>ubi_mtd_name := mtd_name m\<rparr>),
                      usecount := (usecount ?w)(mtd_name m := usecount ?w (mtd_name m) + 1)\<rparr>"
        using assms False g 2 l by (simp add: ubi_part_def Let_def)
      then show ?thesis using d by (auto simp: keeps_def refs_def fun_eq_iff)
    qed
  qed
qed

lemma select_ubi_keeps:
  assumes "recovery_select_ubi b p w = (ret, w')"
  shows "keeps w w'"
proof -
  let ?s = "case ubi w of Some u \<Rightarrow> ubi_mtd_name u = p | None \<Rightarrow> False"
  obtain a w1 where a: "(if ?s then recovery_board_active b w else (False, w)) = (a, w1)"
    by (cases "if ?s then recovery_board_active b w else (False, w)")
  obtain r w2 where p: "ubi_part b p w1 = (r, w2)" by (cases "ubi_part b p w1")
  obtain a2 w3 where a2: "recovery_board_active b w2 = (a2, w3)" by (cases "recovery_board_active b w2")
  have k: "keeps w w1" "keeps w w2" "keeps w w3"
    using active_if_keeps [OF a] ubi_part_keeps [OF p] board_active_keeps [OF a2] keeps_trans by blast+
  have up: "keeps w (v\<lparr>recovery_ubi_attach_error := e\<rparr>)" if "keeps w v" for v e
    using that by (simp add: keeps_def)
  show ?thesis using assms a k up p a2
    by (auto simp: recovery_select_ubi_def Let_def split: if_splits option.splits)
qed

lemma upd_ubi_keeps: "(\<And>u. ubi_mtd_name (f u) = ubi_mtd_name u) \<Longrightarrow> keeps w (upd_ubi f w)"
  by (auto simp: upd_ubi_def keeps_def refs_def fun_eq_iff split: option.splits)

lemma close_keeps: "keeps w (ubi_close_volume i mode w)"
  unfolding ubi_close_volume_def by (rule upd_ubi_keeps) (simp add: upd_volume_def)

lemma open_keeps:
  assumes "ubi_open_volume low i mode w = (r, w')"
  shows "keeps w w'"
proof -
  have u: "keeps v (upd_ubi (upd_volume i f) v)" for f and v :: "('a, 'b) world"
    by (rule upd_ubi_keeps) (simp add: upd_volume_def)
  have d: "keeps v (w1\<lparr>dev := d\<rparr>)" if "keeps v w1" for v w1 :: "('a, 'b) world" and d
    using that by (simp add: keeps_def)
  show ?thesis using assms
    by (auto simp: ubi_open_volume_def Let_def intro!: u d keeps_trans [OF _ close_keeps] keeps_trans [OF _ u]
        split: option.splits if_splits prod.splits)
qed

lemma open_nm_keeps: "ubi_open_volume_nm low n mode w = (r, w') \<Longrightarrow> keeps w w'"
  using open_keeps by (auto simp: ubi_open_volume_nm_def split: if_splits option.splits)

text \<open>What an operation that may store a reference in its target does: the references it adds are the ones the target holds.\<close>

definition tracks :: "'d recovery_target \<Rightarrow> ('d, 'x) world \<Rightarrow> 'd recovery_target \<Rightarrow> ('d, 'x) world \<Rightarrow> bool" where
  "tracks t w t' w' \<longleftrightarrow> core w' = core w \<and> (\<forall>n. refs w' n - held t' n = refs w n - held t n)"

lemma tracks_refl [simp]: "tracks t w t w"
  by (simp add: tracks_def)

lemma tracks_trans: "tracks t1 w1 t2 w2 \<Longrightarrow> tracks t2 w2 t3 w3 \<Longrightarrow> tracks t1 w1 t3 w3"
  by (simp add: tracks_def)

lemma keeps_tracks: "keeps w w' \<Longrightarrow> tgt_mtd t' = tgt_mtd t \<Longrightarrow> tracks t w t' w'"
  by (simp add: keeps_def tracks_def held_def)

lemma get_mtd_tracks:
  assumes "get_mtd b n w = (Inr m, w')" "tgt_mtd t = None" "tgt_mtd t' = Some m"
  shows "tracks t w t' w'"
  using assms(1) by (cases rule: get_mtd_cases) (use assms(2,3) in \<open>auto simp: tracks_def held_def\<close>)

lemma get_mtd_Inl: "get_mtd b n w = (Inl e, w') \<Longrightarrow> w' = w \<and> e = -ENODEV"
  by (auto simp: get_mtd_def get_mtd_device_nm_def split: sum.splits list.splits)

lemma put_after_get: "get_mtd b n w = (Inr m, w') \<Longrightarrow> put_mtd_device m w' = w"
  by (erule get_mtd_cases) auto

lemma ubi_part_name_keeps:
  assumes "recovery_ubi_part b tgt w = (p, w')"
  shows "keeps w w'" "tgt = TARGET_FIRMWARE \<Longrightarrow> brd_ops b \<Longrightarrow> brd_match b \<Longrightarrow> p = Some ''ubi''"
proof -
  obtain a w1 where a: "(if tgt = TARGET_FIRMWARE then recovery_board_active b w else (False, w)) = (a, w1)"
    by (cases "if tgt = TARGET_FIRMWARE then recovery_board_active b w else (False, w)")
  have "w' = w1 \<and> (a \<longrightarrow> p = Some ''ubi'')"
    using assms a unfolding recovery_ubi_part_def by (auto simp: Let_def split: if_splits)
  then show "keeps w w'" "tgt = TARGET_FIRMWARE \<Longrightarrow> brd_ops b \<Longrightarrow> brd_match b \<Longrightarrow> p = Some ''ubi''"
    using active_if_keeps [OF a] by auto
qed

lemma target_volume_keeps:
  assumes "target_volume b tgt w = (v, w')"
  shows "keeps w w' \<and> dev w' = dev w \<and> ubi w' = ubi w \<and> usecount w' = usecount w \<and>
    (tgt = TARGET_FIRMWARE \<and> brd_ops b \<and> brd_match b \<longrightarrow> v = ''fit'')"
proof -
  obtain a w1 where a: "(if tgt = TARGET_FIRMWARE then recovery_board_active b w else (False, w)) = (a, w1)"
    by (cases "if tgt = TARGET_FIRMWARE then recovery_board_active b w else (False, w)")
  have "w' = w1 \<and> (a \<longrightarrow> v = ''fit'')"
    using assms a unfolding target_volume_def by (auto simp: Let_def split: if_splits)
  then show ?thesis using active_if_keeps [OF a] by auto
qed

lemma try_ubi_target_tracks:
  assumes "recovery_try_ubi_target b tgt t w = (ret, t', w')" "tgt_mtd t = None"
  shows "tracks t w t' w' \<and> (ret \<noteq> 0 \<longrightarrow> t' = t) \<and>
    (ret = 0 \<longrightarrow> backend t' = RECOVERY_BACKEND_UBI \<and> tgt_ofs t' = tgt_ofs t \<and> tgt_ubi_part t' \<noteq> None \<and>
       (tgt = TARGET_FIRMWARE \<and> brd_ops b \<and> brd_match b \<longrightarrow>
          tgt_name t' = Some ''fit'' \<and> tgt_ubi_part t' = Some ''ubi'' \<and>
          (\<forall>m. tgt_mtd t' = Some m \<longrightarrow> brd_mtd_ubi_valid b m)))"
proof -
  obtain p w1 where p: "recovery_ubi_part b tgt w = (p, w1)" by (cases "recovery_ubi_part b tgt w")
  note kp = ubi_part_name_keeps [OF p]
  show ?thesis
  proof (cases p)
    case None
    then show ?thesis using assms p kp keeps_tracks by (auto simp: recovery_try_ubi_target_def)
  next
    case (Some part)
    obtain v w2 where v: "target_volume b tgt w1 = (v, w2)" by (cases "target_volume b tgt w1")
    note kv = target_volume_keeps [OF v]
    obtain r w3 where s: "recovery_select_ubi b part w2 = (r, w3)" by (cases "recovery_select_ubi b part w2")
    have k3: "keeps w w3" using kp(1) kv select_ubi_keeps [OF s] keeps_trans by blast
    have eq: "recovery_try_ubi_target b tgt t w = (if r \<noteq> 0 then
           (case get_mtd b part w3 of
              (Inl _, w) \<Rightarrow> (-ENODEV, t, w)
            | (Inr m, w) \<Rightarrow>
                let (active, w) = recovery_board_active b w in
                if active \<and> \<not> brd_mtd_ubi_valid b m then (-EINVAL, t, put_mtd_device m w)
                else
                  (0, t\<lparr>backend := RECOVERY_BACKEND_UBI, tgt_name := Some v,
                        tgt_ubi_part := Some part, tgt_mtd := Some m, cur_size := 0,
                        tgt_limit := of_nat (mtd_size m), ubi_needs_format := True\<rparr>, w))
         else
           (case ubi_open_volume_nm (brd_low b) v UBI_READWRITE w3 of
              (Inl _, w) \<Rightarrow>
                (case ubi w of
                   None \<Rightarrow> (-ENODEV, t, w)
                 | Some u \<Rightarrow>
                     (0, t\<lparr>backend := RECOVERY_BACKEND_UBI, tgt_name := Some v,
                           tgt_ubi_part := Some part, ubi_needs_format := False, cur_size := 0,
                           tgt_limit := of_int (avail_pebs u) * of_nat (leb_size u)\<rparr>, w))
            | (Inr i, w) \<Rightarrow>
                (case ubi w of
                   None \<Rightarrow> (-ENODEV, t, w)
                 | Some u \<Rightarrow>
                     (case volumes u ! i of
                        None \<Rightarrow> (-ENODEV, t, w)
                      | Some vol \<Rightarrow>
                          (0, t\<lparr>backend := RECOVERY_BACKEND_UBI, tgt_name := Some v,
                                tgt_ubi_part := Some part, ubi_needs_format := False,
                                cur_size := of_int (reserved_pebs vol) * of_nat (usable_leb_size vol),
                                tgt_limit := of_int (reserved_pebs vol + avail_pebs u) *
                                             of_nat (usable_leb_size vol)\<rparr>,
                           ubi_close_volume i UBI_READWRITE w)))))"
      unfolding recovery_try_ubi_target_def by (simp only: p Some v s prod.case option.case Let_def)
    show ?thesis
    proof (cases "r = 0")
      case False
      obtain g w4 where g: "get_mtd b part w3 = (g, w4)" by (cases "get_mtd b part w3")
      obtain a w5 where a: "recovery_board_active b w4 = (a, w5)" by (cases "recovery_board_active b w4")
      note ka = board_active_keeps [OF a]
      show ?thesis
      proof (cases g)
        case (Inl e)
        then show ?thesis using assms(1) eq False g k3 get_mtd_Inl [of b part w3] keeps_tracks [of w w3 t t] by auto
      next
        case (Inr m)
        have tr: "tracks t w t2 w5" if "tgt_mtd t2 = Some m" for t2
        proof -
          have "tracks t w t w3" using k3 by (rule keeps_tracks) simp
          moreover have "tracks t w3 t2 w4" using get_mtd_tracks [OF g [unfolded Inr] assms(2) that] .
          moreover have "tracks t2 w4 t2 w5" using ka keeps_tracks [of w4 w5 t2 t2] by simp
          ultimately show ?thesis using tracks_trans by blast
        qed
        have pk: "keeps w (put_mtd_device m w5)"
        proof -
          have "refs (put_mtd_device m w5) = refs (put_mtd_device m w4)"
            using ka by (simp add: put_refs keeps_def)
          moreover have "core (put_mtd_device m w5) = core (put_mtd_device m w4)"
            using ka by (simp add: put_refs keeps_def)
          ultimately show ?thesis using k3 put_after_get [OF g [unfolded Inr]] by (simp add: keeps_def)
        qed
        show ?thesis
          using assms eq False g Inr a tr pk ka kp(2) kv Some keeps_tracks [OF pk, of t t]
          by (auto split: if_splits)
      qed
    next
      case True
      obtain od w4 where od: "ubi_open_volume_nm (brd_low b) v UBI_READWRITE w3 = (od, w4)"
        by (cases "ubi_open_volume_nm (brd_low b) v UBI_READWRITE w3")
      have k4: "keeps w w4" using k3 open_nm_keeps [OF od] keeps_trans by blast
      have k5: "keeps w (ubi_close_volume i UBI_READWRITE w4)" for i using k4 close_keeps keeps_trans by blast
      show ?thesis
        using assms eq True od k4 k5 kp(2) kv Some
        by (auto intro: keeps_tracks split: sum.splits option.splits)
    qed
  qed
qed

lemma raw_target_mtd [simp]: "tgt_mtd (raw_target tgt raw m e t) = Some m"
  by (simp add: raw_target_def Let_def)

lemma get_mtd_if:
  assumes "(if c then get_mtd b n w else (Inl 0, w)) = (r, w')"
  shows "(\<exists>e. r = Inl e \<and> w' = w) \<or> (\<exists>m. r = Inr m \<and> c \<and> get_mtd b n w = (Inr m, w'))"
  using assms get_mtd_Inl [of b n w] by (cases r) (auto split: if_splits)

lemma resolve_raw_tracks:
  assumes "resolve_raw b tgt raw t w = (ret, t', w')" "tgt_mtd t = None"
  shows "tracks t w t' w' \<and> (ret \<noteq> 0 \<longrightarrow> t' = t)"
proof -
  have g: "tracks t w t' w' \<and> (ret \<noteq> 0 \<longrightarrow> t' = t)"
    if "(case get_mtd b r w of (Inl _, w) \<Rightarrow> (-ENODEV, t, w) | (Inr m, w) \<Rightarrow> (0, raw_target tgt r m (env w) t, w)) = (ret, t', w')" for r
  proof (cases "get_mtd b r w")
    case (Pair g w1)
    then show ?thesis
      using that get_mtd_Inl [of b r w] get_mtd_tracks [of b r w _ w1 t] assms(2) by (cases g) auto
  qed
  show ?thesis using assms(1) g unfolding resolve_raw_def Let_def
    by (cases raw; cases tgt; cases "env w ''recovery_dev''") (auto simp: tracks_def)
qed

lemma resolve_firmware_tracks:
  assumes "resolve_firmware b tgt name t w = (ret, t', w')" "tgt_mtd t = None"
  shows "tracks t w t' w' \<and> (ret \<noteq> 0 \<longrightarrow> tgt_mtd t' = None) \<and>
    (ret = 0 \<and> tgt = TARGET_FIRMWARE \<and> brd_ops b \<and> brd_match b \<longrightarrow>
       backend t' = RECOVERY_BACKEND_UBI \<and> tgt_name t' = Some ''fit'' \<and> tgt_ubi_part t' = Some ''ubi'' \<and>
       (\<forall>m. tgt_mtd t' = Some m \<longrightarrow> brd_mtd_ubi_valid b m))"
proof -
  define raw where "raw = (case env w (recovery_raw_env tgt) of
                  Some r \<Rightarrow> if r = [] then recovery_default_raw tgt else Some r
                | None \<Rightarrow> recovery_default_raw tgt)"
  define rn where "rn = (case raw of Some r \<Rightarrow> r | None \<Rightarrow> [])"
  obtain a w1 where a: "(if tgt = TARGET_FIRMWARE then recovery_board_active b w else (False, w)) = (a, w1)"
    by (cases "if tgt = TARGET_FIRMWARE then recovery_board_active b w else (False, w)")
  note ka = active_if_keeps [OF a]
  have t1: "tracks t w t w1" using ka by (intro keeps_tracks) auto
  obtain g1 w2 where g1: "(if \<not> a \<and> raw \<noteq> None \<and> raw \<noteq> Some [] then get_mtd b rn w1 else (Inl 0, w1)) = (g1, w2)"
    by (cases "if \<not> a \<and> raw \<noteq> None \<and> raw \<noteq> Some [] then get_mtd b rn w1 else (Inl 0, w1)")
  obtain g2 w3 where g2: "(if \<not> a then get_mtd b name w2 else (Inl 0, w2)) = (g2, w3)"
    by (cases "if \<not> a then get_mtd b name w2 else (Inl 0, w2)")
  obtain r t4 w4 where u: "recovery_try_ubi_target b tgt t w3 = (r, t4, w4)" by (rule prod_cases3)
  note tu = try_ubi_target_tracks [OF u assms(2)]
  have eq: "resolve_firmware b tgt name t w = (case g1 of
       Inr m \<Rightarrow> (0, raw_target tgt rn m (env w2) t, w2)
     | Inl _ \<Rightarrow> (case g2 of
            Inr m \<Rightarrow> (0, t\<lparr>backend := RECOVERY_BACKEND_MTD, tgt_name := Some name, tgt_mtd := Some m,
                    tgt_limit := of_nat (mtd_size m), cur_size := of_nat (mtd_size m)\<rparr>, w3)
          | Inl _ \<Rightarrow> if r = 0 then (0, t4, w4) else if a then (-ENODEV, t4, w4) else resolve_raw b tgt raw t4 w4))"
    unfolding resolve_firmware_def raw_def [symmetric] rn_def [symmetric] Let_def a prod.case g1 g2
    by (cases g1; cases g2) (use u in \<open>simp_all add: g2\<close>)
  show ?thesis
  proof (cases g1)
    case (Inr m)
    then have "get_mtd b rn w1 = (Inr m, w2)" "\<not> a" using get_mtd_if [OF g1] by auto
    then show ?thesis using assms eq Inr ka get_mtd_tracks [of b rn w1 m w2 t t'] tracks_trans [OF t1] by auto
  next
    case I1: (Inl e)
    then have w2: "w2 = w1" using get_mtd_if [OF g1] by auto
    show ?thesis
    proof (cases g2)
      case (Inr m)
      then have "get_mtd b name w2 = (Inr m, w3)" "\<not> a" using get_mtd_if [OF g2] by auto
      then show ?thesis using assms eq Inr I1 w2 ka get_mtd_tracks [of b name w2 m w3 t t'] tracks_trans [OF t1] by auto
    next
      case (Inl e)
      then have w3: "w3 = w1" using get_mtd_if [OF g2] w2 by auto
      have t4: "tracks t w t4 w4" using t1 tu w3 tracks_trans by blast
      show ?thesis
      proof (cases "r \<noteq> 0 \<and> \<not> a")
        case True
        then have "resolve_raw b tgt raw t w4 = (ret, t', w')" using assms(1) eq I1 Inl tu by auto
        then show ?thesis using resolve_raw_tracks [OF _ assms(2)] t4 tu True ka tracks_trans assms(2) by blast
      next
        case False
        then show ?thesis using assms eq I1 Inl t4 tu ka by (auto split: if_splits)
      qed
    qed
  qed
qed

lemma resolve_target_tracks:
  assumes "recovery_resolve_target b tgt w = (ret, t, w')"
  shows "tracks zero_target w t w' \<and> (ret \<noteq> 0 \<longrightarrow> tgt_mtd t = None) \<and>
    (ret = 0 \<longrightarrow> (tgt = TARGET_UBOOT \<longrightarrow> dev w' = dev w \<and>
         (\<exists>m. m \<in> set (brd_mtds b) \<and> mtd_device_matches_name (brd_of_dev b) m ''bootloader'' \<and>
            tgt_mtd t = Some m \<and> backend t = RECOVERY_BACKEND_MTD \<and> tgt_ofs t = 0 \<and>
            tgt_limit t \<le> of_nat RECOVERY_UBOOT_SIZE \<and> tgt_limit t \<le> of_nat (mtd_size m))) \<and>
      (tgt = TARGET_UENV \<or> tgt = TARGET_DSD \<longrightarrow> dev w' = dev w \<and>
         (\<exists>m. m \<in> set (brd_mtds b) \<and> mtd_device_matches_name (brd_of_dev b) m (recovery_default_target tgt) \<and>
            tgt_mtd t = Some m \<and> backend t = RECOVERY_BACKEND_MTD \<and> tgt_ofs t = 0 \<and>
            mtd_size m = RECOVERY_RAW_PART_SIZE \<and> tgt_limit t = of_nat RECOVERY_RAW_PART_SIZE)) \<and>
      (tgt = TARGET_FIRMWARE \<and> brd_ops b \<and> brd_match b \<longrightarrow>
         backend t = RECOVERY_BACKEND_UBI \<and> tgt_name t = Some ''fit'' \<and> tgt_ubi_part t = Some ''ubi'' \<and>
         (\<forall>m. tgt_mtd t = Some m \<longrightarrow> brd_mtd_ubi_valid b m)))"
proof -
  obtain name w1 where v: "target_volume b tgt w = (name, w1)" by (cases "target_volume b tgt w")
  note kv = target_volume_keeps [OF v]
  have t1: "tracks zero_target w zero_target w1" using kv by (intro keeps_tracks) auto
  have z: "tgt_mtd zero_target = None" "backend zero_target = RECOVERY_BACKEND_MTD" by (simp_all add: zero_target_def)
  consider "tgt = TARGET_FIRMWARE" | "tgt = TARGET_UENV \<or> tgt = TARGET_DSD" | "tgt = TARGET_UBOOT" by (cases tgt) auto
  then show ?thesis
  proof cases
    case 1
    then have "resolve_firmware b tgt name zero_target w1 = (ret, t, w')"
      using assms v by (simp add: recovery_resolve_target_def)
    from resolve_firmware_tracks [OF this z(1)] show ?thesis using 1 tracks_trans [OF t1] by auto
  next
    case 2
    obtain g w2 where g: "get_mtd b (recovery_default_target tgt) w1 = (g, w2)" by (cases "get_mtd b (recovery_default_target tgt) w1")
    show ?thesis
    proof (cases g)
      case (Inl e)
      then show ?thesis using assms 2 v g get_mtd_Inl [OF g [unfolded Inl]] t1 z by (auto simp: recovery_resolve_target_def)
    next
      case (Inr m)
      note gm = g [unfolded Inr]
      have m: "m \<in> set (brd_mtds b)" "mtd_device_matches_name (brd_of_dev b) m (recovery_default_target tgt)" "dev w2 = dev w1"
        using gm by (auto elim: get_mtd_cases)
      show ?thesis
      proof (cases "mtd_size m = RECOVERY_RAW_PART_SIZE")
        case False
        then have "ret = -EINVAL \<and> t = zero_target \<and> w' = w1"
          using assms 2 v g Inr put_after_get [OF gm] by (auto simp: recovery_resolve_target_def)
        then show ?thesis using t1 z by simp
      next
        case True
        then have t: "ret = 0" "w' = w2" "t = zero_target\<lparr>backend := RECOVERY_BACKEND_MTD, tgt_name := Some (recovery_default_target tgt),
            tgt_mtd := Some m, tgt_ofs := 0, tgt_limit := of_nat (mtd_size m), cur_size := of_nat (mtd_size m)\<rparr>"
          using assms 2 v g Inr by (auto simp: recovery_resolve_target_def)
        have "tracks zero_target w1 t w2" using get_mtd_tracks [OF gm z(1)] t(3) by simp
        then show ?thesis using tracks_trans [OF t1] t m True kv 2 by auto
      qed
    qed
  next
    case 3
    obtain g w2 where g: "get_mtd b ''bootloader'' w1 = (g, w2)" by (cases "get_mtd b ''bootloader'' w1")
    show ?thesis
    proof (cases "name = ''bootloader'' \<and> (\<exists>m. g = Inr m)")
      case False
      then have "ret \<noteq> 0 \<and> t = zero_target \<and> w' = w1"
        using assms 3 v g get_mtd_Inl [of b "''bootloader''" w1] by (cases g) (auto simp: recovery_resolve_target_def split: if_splits)
      then show ?thesis using t1 z by simp
    next
      case True
      then obtain m where n: "name = ''bootloader''" and Inr: "g = Inr m" by auto
      note gm = g [unfolded Inr]
      have m: "m \<in> set (brd_mtds b)" "mtd_device_matches_name (brd_of_dev b) m ''bootloader''" "dev w2 = dev w1"
        using gm by (auto elim: get_mtd_cases)
      define cap where "cap = recovery_target_size_cap (env w2) TARGET_UBOOT"
      define lim where "lim = (if cap \<noteq> 0 \<and> of_nat (mtd_size m) > cap then cap else of_nat (mtd_size m))"
      have t: "ret = 0" "w' = w2" "t = zero_target\<lparr>backend := RECOVERY_BACKEND_MTD, tgt_name := Some ''bootloader'',
            tgt_mtd := Some m, tgt_ofs := 0, tgt_limit := lim, cur_size := lim\<rparr>"
        using assms 3 v g Inr n by (auto simp: recovery_resolve_target_def Let_def lim_def cap_def)
      have cap: "cap \<noteq> 0" "cap \<le> of_nat RECOVERY_UBOOT_SIZE"
        by (auto simp: cap_def recovery_target_size_cap_def Let_def RECOVERY_UBOOT_SIZE_def not_less)
      have lim: "lim \<le> of_nat RECOVERY_UBOOT_SIZE" "lim \<le> of_nat (mtd_size m)"
        using cap unfolding lim_def by auto
      have "tracks zero_target w1 t w2" using get_mtd_tracks [OF gm z(1)] t(3) by simp
      then show ?thesis using tracks_trans [OF t1] t m kv 3 lim by auto
    qed
  qed
qed

text \<open>
  C25: the place an upload goes to is fixed whatever the environment says. A boot loader goes to offset
  0 of the MTD device named \<^verbatim>\<open>bootloader\<close> with a limit of at most 2 MiB and at most the device; a
  \<^verbatim>\<open>uenv\<close> or \<^verbatim>\<open>dsd\<close> image goes to offset 0 of the 2 MiB device of that name; neither resolution touches
  the flash. On a board whose operations are registered and match, firmware goes to the volume
  \<^verbatim>\<open>fit\<close> of the partition \<^verbatim>\<open>ubi\<close>, and a partition that is to be reformatted has the geometry the
  board expects.
\<close>

theorem resolve_target_fixed:
  assumes "recovery_resolve_target b tgt w = (0, t, w')"
  shows "(tgt = TARGET_UBOOT \<longrightarrow> dev w' = dev w \<and>
       (\<exists>m. m \<in> set (brd_mtds b) \<and> mtd_device_matches_name (brd_of_dev b) m ''bootloader'' \<and>
          tgt_mtd t = Some m \<and> backend t = RECOVERY_BACKEND_MTD \<and> tgt_ofs t = 0 \<and>
          tgt_limit t \<le> of_nat RECOVERY_UBOOT_SIZE \<and> tgt_limit t \<le> of_nat (mtd_size m))) \<and>
    (tgt = TARGET_UENV \<or> tgt = TARGET_DSD \<longrightarrow> dev w' = dev w \<and>
       (\<exists>m. m \<in> set (brd_mtds b) \<and> mtd_device_matches_name (brd_of_dev b) m (recovery_default_target tgt) \<and>
          tgt_mtd t = Some m \<and> backend t = RECOVERY_BACKEND_MTD \<and> tgt_ofs t = 0 \<and>
          mtd_size m = RECOVERY_RAW_PART_SIZE \<and> tgt_limit t = of_nat RECOVERY_RAW_PART_SIZE)) \<and>
    (tgt = TARGET_FIRMWARE \<and> brd_ops b \<and> brd_match b \<longrightarrow>
       backend t = RECOVERY_BACKEND_UBI \<and> tgt_name t = Some ''fit'' \<and> tgt_ubi_part t = Some ''ubi'' \<and>
       (\<forall>m. tgt_mtd t = Some m \<longrightarrow> brd_mtd_ubi_valid b m))"
  using resolve_target_tracks [OF assms] by simp

text \<open>A board for examples: a boot loader and a calibration partition on RAM, a UBI partition that never attaches.\<close>

definition idle_low :: "'d ubi_low" where
  "idle_low =
    \<lparr>low_change_vtbl = (\<lambda>i c d. (0, d)), low_unmap = (\<lambda>v l d. (0, d)), low_write = (\<lambda>v l b d. (0, d)),
     low_write_st = (\<lambda>v l b e d. (0, d)), low_read = (\<lambda>v l n d. (0, d)), low_wl_flush = (\<lambda>d. (0, d)),
     low_attach = (\<lambda>s d. (Inl (-EINVAL), d)), low_alloc = (\<lambda>_. True)\<rparr>"

definition sample_part :: "string \<Rightarrow> nat \<Rightarrow> nat \<Rightarrow> (int \<Rightarrow> u8) mtd_info" where
  "sample_part name ofs sz =
    ram_chip\<lparr>mtd_name := name, mtd_size := sz, mtd_offset := ofs, mtd_erasesize := 0x20000,
      drv_erase := part_erase ram_chip ofs,
      drv_read := map_option (\<lambda>f. part_read f ofs) (drv_read ram_chip),
      drv_write := map_option (\<lambda>f. part_write f ofs) (drv_write ram_chip)\<rparr>"

lemma sample_part_ok: "driver_ok (\<lambda>d. d) (sample_part name ofs sz)"
  by (auto simp: driver_ok_def sample_part_def ram_chip_def reads_ok_def writes_ok_def quiet_ok_def same_outside_def
      part_erase_def part_read_def part_write_def add.commute)

definition sample_board :: "(int \<Rightarrow> u8) board" where
  "sample_board =
    \<lparr>brd_ops = True, brd_match = True, brd_ubi = Some (''1.0'', ''ubi''), brd_mtd_ubi_valid = (\<lambda>_. True),
     brd_mtds = [sample_part ''bootloader'' 0 0x200000, sample_part ''dsd'' 0x200000 0x200000,
                 sample_part ''ubi'' 0x400000 0x800000],
     brd_of_dev = (\<lambda>_ _. False), brd_compat = (\<lambda>_. False), brd_low = idle_low, brd_ram_base = 0x80000000,
     brd_ram_size = 0x40000000, brd_load_addr = 0x81800000\<rparr>"

lemma get_mtd_sample:
  "get_mtd sample_board ''bootloader'' w =
    (Inr (sample_part ''bootloader'' 0 0x200000), w\<lparr>usecount := (usecount w)(''bootloader'' := usecount w ''bootloader'' + 1)\<rparr>)"
  "get_mtd sample_board ''dsd'' w =
    (Inr (sample_part ''dsd'' 0x200000 0x200000), w\<lparr>usecount := (usecount w)(''dsd'' := usecount w ''dsd'' + 1)\<rparr>)"
  "get_mtd sample_board ''ubi'' w =
    (Inr (sample_part ''ubi'' 0x400000 0x800000), w\<lparr>usecount := (usecount w)(''ubi'' := usecount w ''ubi'' + 1)\<rparr>)"
  by (simp_all add: get_mtd_def get_mtd_device_nm_def mtd_device_matches_name_def sample_board_def sample_part_def ram_chip_def)

theorem resolve_target_fixed_witness:
  "\<exists>t w'. recovery_resolve_target sample_board TARGET_UBOOT (initial_world Map.empty (\<lambda>_. 0) (\<lambda>_. 0xff) ()) = (0, t, w') \<and>
    tgt_ofs t = 0 \<and> tgt_limit t \<le> of_nat RECOVERY_UBOOT_SIZE"
proof -
  let ?w = "initial_world Map.empty (\<lambda>_. 0) (\<lambda>_. 0xff) ()"
  obtain ret t w' where e: "recovery_resolve_target sample_board TARGET_UBOOT ?w = (ret, t, w')" by (rule prod_cases3)
  have "fst (recovery_resolve_target sample_board TARGET_UBOOT ?w) = 0"
    by (simp add: recovery_resolve_target_def target_volume_def recovery_default_target_def get_mtd_sample initial_world_def Let_def)
  then have "ret = 0" by (simp only: e fst_conv)
  then show ?thesis using resolve_target_fixed [of sample_board TARGET_UBOOT ?w t w'] e by auto
qed

lemma release_tracks:
  assumes "recovery_release_target t w = (t', w')"
  shows "tracks t w t' w'" "tgt_mtd t' = None" "dev w' = dev w"
  using assms by (auto simp: recovery_release_target_def tracks_def held_def put_refs split: option.splits)

lemma rebuild_limit_keeps: "recovery_calc_rebuild_ubi_limit b t w = (n, w') \<Longrightarrow> keeps w w'"
  using select_ubi_keeps by (fastforce simp: recovery_calc_rebuild_ubi_limit_def Let_def split: if_splits option.splits prod.splits)

lemma calc_target_max_keeps:
  assumes "recovery_calc_target_max b tgt w = (n, w')"
  shows "keeps w w' \<and>
    (tgt = TARGET_UBOOT \<longrightarrow> n \<le> of_nat RECOVERY_UBOOT_SIZE) \<and>
    (tgt = TARGET_UENV \<or> tgt = TARGET_DSD \<longrightarrow> n = 0 \<or> n = of_nat RECOVERY_RAW_PART_SIZE)"
proof -
  obtain ret t w1 where r: "recovery_resolve_target b tgt w = (ret, t, w1)" by (rule prod_cases3)
  note rt = resolve_target_tracks [OF r]
  show ?thesis
  proof (cases "ret = 0")
    case False
    then show ?thesis using assms r rt by (auto simp: recovery_calc_target_max_def keeps_def tracks_def held_def zero_target_def)
  next
    case True
    obtain l w2 where l: "(if tgt = TARGET_FIRMWARE then recovery_calc_rebuild_ubi_limit b t w1 else (tgt_limit t, w1)) = (l, w2)"
      by (cases "if tgt = TARGET_FIRMWARE then recovery_calc_rebuild_ubi_limit b t w1 else (tgt_limit t, w1)")
    have k: "keeps w1 w2" using l rebuild_limit_keeps by (auto split: if_splits)
    obtain t' w3 where f: "recovery_release_target t w2 = (t', w3)" by (cases "recovery_release_target t w2")
    have e: "n = l \<and> w' = w3" using assms r True l f by (simp add: recovery_calc_target_max_def)
    have "tracks zero_target w t' w3"
      using rt keeps_tracks [OF k, of t t] release_tracks(1) [OF f] tracks_trans by blast
    then have "keeps w w3"
      using release_tracks(2) [OF f] by (auto simp: keeps_def tracks_def held_def zero_target_def fun_eq_iff)
    then show ?thesis using e rt True l by (cases tgt) (auto split: if_splits)
  qed
qed

text \<open>
  C36: computing the largest acceptable upload leaves everything but the flash, the UBI attachment and
  the layout record alone and drops every MTD reference it took; the result is at most 2 MiB for the
  boot loader, and 0 or 2 MiB for \<^verbatim>\<open>uenv\<close> and \<^verbatim>\<open>dsd\<close>.
\<close>

theorem calc_target_max_balanced:
  assumes "recovery_calc_target_max b tgt w = (n, w')"
  shows "core w' = core w \<and> refs w' = refs w \<and>
    (tgt = TARGET_UBOOT \<longrightarrow> n \<le> of_nat RECOVERY_UBOOT_SIZE) \<and>
    (tgt = TARGET_UENV \<or> tgt = TARGET_DSD \<longrightarrow> n = 0 \<or> n = of_nat RECOVERY_RAW_PART_SIZE)"
  using calc_target_max_keeps [OF assms] by (simp add: keeps_def)

theorem calc_target_max_balanced_witness:
  "\<exists>n w'. recovery_calc_target_max sample_board TARGET_FIRMWARE (initial_world Map.empty (\<lambda>_. 0) (\<lambda>_. 0xff) ()) = (n, w') \<and>
    refs w' = (\<lambda>_. 0)"
proof -
  let ?w = "initial_world Map.empty (\<lambda>_. 0) (\<lambda>_. 0xff) ()"
  obtain n w' where e: "recovery_calc_target_max sample_board TARGET_FIRMWARE ?w = (n, w')"
    by (cases "recovery_calc_target_max sample_board TARGET_FIRMWARE ?w")
  show ?thesis using calc_target_max_balanced [OF e] e by (auto simp: refs_def initial_world_def fun_eq_iff)
qed

lemma ubi_part_after_parse:
  assumes "recovery_parse_ubi_layout b uri w = (ret, w1)" "brd_ubi b \<noteq> None \<or> \<not> (brd_ops b \<and> brd_match b)"
  shows "fst (recovery_ubi_part b tgt w1) \<noteq> None"
proof -
  obtain a w2 where a: "recovery_board_active b w = (a, w2)" by (cases "recovery_board_active b w")
  have "current_ubi_layout w1 \<longrightarrow> brd_ops b \<and> brd_match b"
    using assms(1) a board_active_keeps [OF a] by (auto simp: recovery_parse_ubi_layout_def Let_def split: option.splits if_splits)
  then show ?thesis
    by (auto simp: recovery_ubi_part_def Let_def recovery_board_active_def split: if_splits option.splits)
qed

end
