(* ===== verification/Backup.thy ===== *)
theory Backup
  imports Target
begin

text \<open>
  The dynamic pages of the recovery server (\<^verbatim>\<open>net/lwip/httpd_recovery.c\<close>): the status and version pages
  built in memory, and the partition backups that are streamed from flash through
  \<^verbatim>\<open>fs_open_custom\<close>, \<^verbatim>\<open>fs_read_custom\<close> and \<^verbatim>\<open>fs_close_custom\<close>. Text is a list of bytes.
\<close>

section \<open>Formatting\<close>

definition ascii :: "string \<Rightarrow> bytes" where
  "ascii s = map (\<lambda>c. of_nat (of_char c)) s"

text \<open>\<open>crlf\<close> and \<open>quote\<close> are the escapes of the C string literals.\<close>

definition crlf :: bytes where "crlf = [13, 10]"

definition quote :: bytes where "quote = [34]"

text \<open>\<^verbatim>\<open>%u\<close>, \<^verbatim>\<open>%lu\<close> and \<^verbatim>\<open>%d\<close>.\<close>

fun dec_digits :: "nat \<Rightarrow> bytes" where
  "dec_digits n = (if n < 10 then [48 + of_nat n] else dec_digits (n div 10) @ [48 + of_nat (n mod 10)])"

declare dec_digits.simps [simp del]

definition dec_int :: "int \<Rightarrow> bytes" where
  "dec_int i = (if i < 0 then 45 # dec_digits (nat (- i)) else dec_digits (nat i))"

definition dec_bool :: "bool \<Rightarrow> bytes" where
  "dec_bool x = dec_digits (if x then 1 else 0)"

text \<open>What \<^verbatim>\<open>snprintf\<close> leaves in a buffer of \<open>n\<close> bytes, without the final NUL.\<close>

definition snprintf :: "nat \<Rightarrow> bytes \<Rightarrow> bytes" where
  "snprintf n text = take (n - 1) text"

section \<open>Open files\<close>

text \<open>
  \<^verbatim>\<open>struct recovery_backup_stream\<close> and \<^verbatim>\<open>struct fs_file\<close>. \<open>file_data\<close> is the page in memory, \<^term>\<open>None\<close> for a
  stream; \<open>file_static\<close> says that it is the constant page, which is not freed.
\<close>

record 'd backup_stream =
  stream_mtd :: "'d mtd_info"
  stream_header :: bytes
  header_pos :: nat
  body_pos :: nat

record 'd fs_file =
  file_data :: "bytes option"
  file_static :: bool
  file_len :: nat
  file_index :: nat
  file_stream :: "'d backup_stream option"

definition recovery_page_ok :: bytes where
  "recovery_page_ok =
    ascii ''HTTP/1.0 200 OK'' @ crlf @ ascii ''Content-Type: text/plain'' @ crlf @
    ascii ''Cache-Control: no-store'' @ crlf @ ascii ''Content-Length: 2'' @ crlf @
    ascii ''Connection: close'' @ crlf @ crlf @ ascii ''OK''"

definition response_header :: "string \<Rightarrow> nat \<Rightarrow> bytes" where
  "response_header content_type body_len =
    ascii ''HTTP/1.0 200 OK'' @ crlf @ ascii ''Content-Type: '' @ ascii content_type @ crlf @
    ascii ''Cache-Control: no-store'' @ crlf @ ascii ''Content-Length: '' @ dec_digits body_len @ crlf @
    ascii ''Connection: close'' @ crlf @ crlf"

text \<open>\<open>mem_ok\<close> says whether the allocation succeeds.\<close>

definition recovery_open_custom_response :: "bool \<Rightarrow> string \<Rightarrow> bytes \<Rightarrow> 'd fs_file option" where
  "recovery_open_custom_response mem_ok content_type body =
    (let header = response_header content_type (length body) in
     if length header \<ge> 160 then None
     else if \<not> mem_ok then None
     else
       let page = header @ body in
       Some \<lparr>file_data = Some page, file_static = False, file_len = length page,
             file_index = length page, file_stream = None\<rparr>)"

section \<open>The status page\<close>

definition field :: "string \<Rightarrow> bytes \<Rightarrow> bytes" where
  "field name v = quote @ ascii name @ quote @ ascii '':'' @ v"

definition status_json :: "('d, 'x) world \<Rightarrow> bytes" where
  "status_json w =
    ascii ''{'' @ field ''in_progress'' (dec_bool (prog_phase w > 0 \<and> prog_phase w < 3)) @
    ascii '','' @ field ''done'' (dec_digits (unat (prog_done w))) @
    ascii '','' @ field ''total'' (dec_digits (unat (prog_total w))) @
    ascii '','' @ field ''erase_done'' (dec_digits (unat (prog_erase_done w))) @
    ascii '','' @ field ''erase_total'' (dec_digits (unat (prog_erase_total w))) @
    ascii '','' @ field ''write_done'' (dec_digits (unat (prog_write_done w))) @
    ascii '','' @ field ''write_total'' (dec_digits (unat (prog_write_total w))) @
    ascii '','' @ field ''ok'' (dec_bool (prog_phase w = 3)) @
    ascii '','' @ field ''error'' (dec_bool (prog_phase w = -1)) @
    ascii '','' @ field ''phase'' (dec_int (prog_phase w)) @ ascii ''}'' @ [10]"

section \<open>Partition backups\<close>

definition backup_header :: "string \<Rightarrow> bytes" where
  "backup_header filename =
    ascii ''HTTP/1.0 200 OK'' @ crlf @ ascii ''Content-Type: application/octet-stream'' @ crlf @
    ascii ''Content-Disposition: attachment; filename='' @ quote @ ascii filename @ quote @ crlf @
    ascii ''Cache-Control: no-store'' @ crlf @
    ascii ''Content-Length: '' @ dec_digits RECOVERY_RAW_PART_SIZE @ crlf @
    ascii ''Connection: close'' @ crlf @ crlf"

definition recovery_open_mtd_backup ::
    "'d board \<Rightarrow> bool \<Rightarrow> string \<Rightarrow> string \<Rightarrow> ('d, 'x) world \<Rightarrow> 'd fs_file option \<times> ('d, 'x) world" where
  "recovery_open_mtd_backup b mem_ok part filename w =
    (case get_mtd b part w of
       (Inl _, w) \<Rightarrow> (None, w)
     | (Inr m, w) \<Rightarrow>
         if mtd_size m \<noteq> RECOVERY_RAW_PART_SIZE then (None, put_mtd_device m w)
         else if \<not> mem_ok then (None, put_mtd_device m w)
         else
           let header = backup_header filename in
           if length header \<ge> 256 then (None, put_mtd_device m w)
           else if length header + RECOVERY_RAW_PART_SIZE > 2 ^ 31 - 1 then (None, put_mtd_device m w)
           else
             (Some \<lparr>file_data = None, file_static = False, file_len = length header + RECOVERY_RAW_PART_SIZE,
                    file_index = 0,
                    file_stream = Some \<lparr>stream_mtd = m, stream_header = header, header_pos = 0, body_pos = 0\<rparr>\<rparr>,
              w))"

text \<open>
  The copy loop of \<^verbatim>\<open>recovery_read_mtd_backup\<close>: \<open>n\<close> bytes are still wanted. A read error ends the file.
\<close>

function read_backup ::
    "nat \<Rightarrow> 'd fs_file \<Rightarrow> 'd backup_stream \<Rightarrow> 'd \<Rightarrow> bytes \<times> 'd fs_file \<times> 'd backup_stream \<times> 'd" where
  "read_backup n f s d =
    (if n = 0 \<or> file_index f \<ge> file_len f then ([], f, s, d)
     else if header_pos s < length (stream_header s) then
       let chunk = min n (length (stream_header s) - header_pos s);
           out = take chunk (drop (header_pos s) (stream_header s));
           (rest, r) = read_backup (n - chunk) (f\<lparr>file_index := file_index f + chunk\<rparr>)
                         (s\<lparr>header_pos := header_pos s + chunk\<rparr>) d in
       (out @ rest, r)
     else if body_pos s < RECOVERY_RAW_PART_SIZE then
       let chunk = min n (RECOVERY_RAW_PART_SIZE - body_pos s);
           ((ret, buf), d) = mtd_read (stream_mtd s) (int (body_pos s)) chunk d in
       if (ret \<noteq> 0 \<and> ret \<noteq> -EUCLEAN) \<or> length buf \<noteq> chunk then ([], f\<lparr>file_index := file_len f\<rparr>, s, d)
       else
         let (rest, r) = read_backup (n - chunk) (f\<lparr>file_index := file_index f + chunk\<rparr>)
                           (s\<lparr>body_pos := body_pos s + chunk\<rparr>) d in
         (buf @ rest, r)
     else ([], f, s, d))"
  by pat_completeness auto

termination
  by (relation "measure (\<lambda>(n, f, s, d). n)") (auto simp: min_def split: if_splits)

declare read_backup.simps [simp del]

text \<open>\<^term>\<open>None\<close> is \<^verbatim>\<open>FS_READ_EOF\<close>.\<close>

definition recovery_read_mtd_backup ::
    "'d fs_file \<Rightarrow> nat \<Rightarrow> 'd \<Rightarrow> bytes option \<times> 'd fs_file \<times> 'd" where
  "recovery_read_mtd_backup f count d =
    (case file_stream f of
       None \<Rightarrow> (None, f, d)
     | Some s \<Rightarrow>
         let (out, f, s, d) = read_backup count f s d in
         (if out = [] then None else Some out, f\<lparr>file_stream := Some s\<rparr>, d))"

definition recovery_close_mtd_backup :: "'d fs_file \<Rightarrow> ('d, 'x) world \<Rightarrow> 'd fs_file \<times> ('d, 'x) world" where
  "recovery_close_mtd_backup f w =
    (case file_stream f of
       None \<Rightarrow> (f, w)
     | Some s \<Rightarrow> (f\<lparr>file_stream := None\<rparr>, put_mtd_device (stream_mtd s) w))"

section \<open>The file hooks\<close>

text \<open>
  \<open>about\<close> is the text of the version page, put together from the build's version macros and the
  board's strings, which are not part of the sources.
\<close>

definition fs_open_custom ::
    "'d board \<Rightarrow> bool \<Rightarrow> bytes \<Rightarrow> string \<Rightarrow> ('d, 'x) world \<Rightarrow> 'd fs_file option \<times> ('d, 'x) world" where
  "fs_open_custom b mem_ok about name w =
    (let p = (case name of CHR ''/'' # cs \<Rightarrow> cs | _ \<Rightarrow> name) in
     if p = ''status'' then
       (recovery_open_custom_response mem_ok ''application/json'' (snprintf 256 (status_json w)), w)
     else if p = ''ok'' then
       (Some \<lparr>file_data = Some recovery_page_ok, file_static = True, file_len = length recovery_page_ok,
              file_index = length recovery_page_ok, file_stream = None\<rparr>, w)
     else if p = ''about'' then
       (recovery_open_custom_response mem_ok ''application/json'' (snprintf 384 about), w)
     else if p = ''backup/env.bin'' then recovery_open_mtd_backup b mem_ok ''uenv'' ''env-2m.bin'' w
     else if p = ''backup/uenv.bin'' then recovery_open_mtd_backup b mem_ok ''uenv'' ''uenv-2m.bin'' w
     else if p = ''backup/dsd.bin'' then recovery_open_mtd_backup b mem_ok ''dsd'' ''dsd-2m.bin'' w
     else if p = ''backup/uboot.bin'' then
       recovery_open_mtd_backup b mem_ok ''bootloader'' ''mtd0-bootloader-2m.bin'' w
     else (None, w))"

definition fs_close_custom :: "'d fs_file \<Rightarrow> ('d, 'x) world \<Rightarrow> 'd fs_file \<times> ('d, 'x) world" where
  "fs_close_custom f w =
    (let (f, w) = recovery_close_mtd_backup f w in
     (if file_data f \<noteq> None \<and> \<not> file_static f then f\<lparr>file_data := None\<rparr> else f, w))"

definition fs_read_custom :: "'d fs_file \<Rightarrow> int \<Rightarrow> 'd \<Rightarrow> bytes option \<times> 'd fs_file \<times> 'd" where
  "fs_read_custom f count d =
    (if count \<le> 0 then (None, f, d)
     else if file_stream f \<noteq> None then recovery_read_mtd_backup f (nat count) d
     else case file_data f of
       None \<Rightarrow> (None, f, d)
     | Some data \<Rightarrow>
         if file_index f \<ge> file_len f then (None, f, d)
         else
           let n = min (nat count) (file_len f - file_index f) in
           (Some (take n (drop (file_index f) data)), f\<lparr>file_index := file_index f + n\<rparr>, d))"

section \<open>The status page fits its buffer\<close>

lemma length_ascii [simp]: "length (ascii s) = length s"
  by (simp add: ascii_def)

lemma length_dec_digits: "n < 10 ^ k \<Longrightarrow> 0 < k \<Longrightarrow> length (dec_digits n) \<le> k"
proof (induction n arbitrary: k rule: dec_digits.induct)
  case (1 n)
  show ?case
  proof (cases "n < 10")
    case True
    then show ?thesis using 1(3) by (subst dec_digits.simps) simp
  next
    case False
    then obtain j where k: "k = Suc j" "0 < j" using 1(2,3) by (cases k; cases "k = 1") auto
    have "n div 10 < 10 ^ j" using 1(2) k by (simp add: less_mult_imp_div_less mult.commute)
    then have "length (dec_digits (n div 10)) \<le> j" using 1(1) False k(2) by blast
    then show ?thesis using False k by (subst dec_digits.simps) simp
  qed
qed

lemma length_dec_u32: "length (dec_digits (unat (x :: u32))) \<le> 10"
proof (rule length_dec_digits)
  have "unat x < 2 ^ 32" by (rule less_le_trans [OF unsigned_less]) simp
  then show "unat x < 10 ^ 10" by simp
qed simp

lemma length_dec_int: "- (2 ^ 31) \<le> i \<Longrightarrow> i < 2 ^ 31 \<Longrightarrow> length (dec_int i) \<le> 11"
  using length_dec_digits [of "nat (- i)" 10] length_dec_digits [of "nat i" 10]
  by (cases "i < 0") (simp_all add: dec_int_def nat_less_iff)

lemma length_dec_bool [simp]: "length (dec_bool x) = 1"
  by (simp add: dec_bool_def dec_digits.simps [of 0] dec_digits.simps [of "Suc 0"])

lemma length_status_json:
  assumes "- (2 ^ 31) \<le> prog_phase w" "prog_phase w < 2 ^ 31"
  shows "length (status_json w) \<le> 190"
  using length_dec_int [OF assms] length_dec_u32 [of "prog_done w"] length_dec_u32 [of "prog_total w"]
    length_dec_u32 [of "prog_erase_done w"] length_dec_u32 [of "prog_erase_total w"]
    length_dec_u32 [of "prog_write_done w"] length_dec_u32 [of "prog_write_total w"]
  by (simp add: status_json_def field_def quote_def)

lemma length_response_header: "n < 10 ^ 4 \<Longrightarrow> length (response_header ''application/json'' n) < 160"
  using length_dec_digits [of n 4] by (simp add: response_header_def crlf_def)

text \<open>
  C38: the status page is never cut short: for every state the JSON text fits its 256-byte buffer, the
  header fits its own, and the page is the header with the exact length followed by the text.
\<close>

theorem status_page_complete:
  assumes "- (2 ^ 31) \<le> prog_phase w" and "prog_phase w < 2 ^ 31"
  shows "\<exists>f. fs_open_custom b True about ''/status'' w = (Some f, w) \<and>
    file_data f = Some (response_header ''application/json'' (length (status_json w)) @ status_json w) \<and>
    file_stream f = None \<and> length (status_json w) < 256"
proof -
  have l: "length (status_json w) \<le> 190" using length_status_json [OF assms] .
  then have "snprintf 256 (status_json w) = status_json w" by (simp add: snprintf_def)
  then show ?thesis
    using l length_response_header [of "length (status_json w)"]
    by (simp add: fs_open_custom_def recovery_open_custom_response_def Let_def)
qed

theorem status_page_complete_witness:
  "\<exists>f. fs_open_custom sample_board True [] ''/status''
      ((initial_world Map.empty (\<lambda>_. 0) (\<lambda>_. 0xff) ())\<lparr>prog_phase := 2, prog_done := 7, prog_total := 9\<rparr>) =
      (Some f, (initial_world Map.empty (\<lambda>_. 0) (\<lambda>_. 0xff) ())\<lparr>prog_phase := 2, prog_done := 7, prog_total := 9\<rparr>) \<and>
    file_stream f = None"
  using status_page_complete
    [of "(initial_world Map.empty (\<lambda>_. 0) (\<lambda>_. 0xff) ())\<lparr>prog_phase := 2, prog_done := 7, prog_total := 9\<rparr>" sample_board "[]"]
  by auto

section \<open>Backups stream the partition\<close>

text \<open>The page a backup of \<open>m\<close> serves: the header and the contents of the partition.\<close>

definition backup_page :: "('d \<Rightarrow> int \<Rightarrow> u8) \<Rightarrow> 'd backup_stream \<Rightarrow> 'd \<Rightarrow> bytes" where
  "backup_page content s d = stream_header s @ view content d (int (mtd_offset (stream_mtd s))) RECOVERY_RAW_PART_SIZE"

definition stream_inv :: "'d fs_file \<Rightarrow> 'd backup_stream \<Rightarrow> bool" where
  "stream_inv f s \<longleftrightarrow> file_len f = length (stream_header s) + RECOVERY_RAW_PART_SIZE \<and>
    file_index f = header_pos s + body_pos s \<and> header_pos s \<le> length (stream_header s) \<and>
    body_pos s \<le> RECOVERY_RAW_PART_SIZE \<and> (header_pos s < length (stream_header s) \<longrightarrow> body_pos s = 0)"

text \<open>Reads of the partition that are in range never fail.\<close>

definition reads_succeed :: "'d mtd_info \<Rightarrow> bool" where
  "reads_succeed m \<longleftrightarrow> (\<forall>a n d. 0 \<le> a \<and> a + int n \<le> int (mtd_size m) \<longrightarrow>
     (\<exists>buf d'. mtd_read m a n d = ((0, buf), d') \<and> length buf = n))"

lemma view_slice: "j + n \<le> k \<Longrightarrow> take n (drop j (view content d a k)) = view content d (a + int j) n"
  by (rule nth_equalityI) (simp_all add: view_def add.assoc)

definition read_ok :: "('d \<Rightarrow> int \<Rightarrow> u8) \<Rightarrow> nat \<Rightarrow> 'd fs_file \<Rightarrow> 'd backup_stream \<Rightarrow> 'd \<Rightarrow>
    bytes \<times> 'd fs_file \<times> 'd backup_stream \<times> 'd \<Rightarrow> bool" where
  "read_ok content n f s d = (\<lambda>(out, f', s', d').
    content d' = content d \<and> stream_mtd s' = stream_mtd s \<and> stream_header s' = stream_header s \<and>
    f' = f\<lparr>file_index := file_index f'\<rparr> \<and>
    (stream_inv f' s' \<and> file_index f' = file_index f + length out \<and> out = take n (drop (file_index f) (backup_page content s d)) \<or>
     \<not> reads_succeed (stream_mtd s) \<and> file_index f' = file_len f \<and> prefix out (take n (drop (file_index f) (backup_page content s d)))))"

lemma length_backup_page [simp]: "length (backup_page content s d) = length (stream_header s) + RECOVERY_RAW_PART_SIZE"
  by (simp add: backup_page_def)

text \<open>Prepending a chunk of the page to what a later read returns.\<close>

lemma read_ok_step:
  assumes r: "read_ok content (n - k) (f\<lparr>file_index := file_index f + k\<rparr>) s1 d1 (rest, f', s', d')"
    and k: "k \<le> n" "length out = k" "out = take k (drop (file_index f) (backup_page content s d))"
    and s1: "stream_mtd s1 = stream_mtd s" "stream_header s1 = stream_header s" "content d1 = content d"
  shows "read_ok content n f s d (out @ rest, f', s', d')"
proof -
  have p: "backup_page content s1 d1 = backup_page content s d"
    using s1 by (simp add: backup_page_def view_def)
  let ?P = "drop (file_index f) (backup_page content s d)"
  have d: "drop (file_index f + k) (backup_page content s d) = drop k ?P" by (simp add: add.commute)
  have t: "take n ?P = take k ?P @ take (n - k) (drop k ?P)"
    using k(1) by (metis le_add_diff_inverse take_add)
  show ?thesis using r k s1 p t by (auto simp: read_ok_def d)
qed

lemma read_backup_ok:
  assumes "driver_ok content (stream_mtd s)" "mtd_size (stream_mtd s) = RECOVERY_RAW_PART_SIZE" "stream_inv f s"
  shows "read_ok content n f s d (read_backup n f s d)"
  using assms
proof (induction n arbitrary: f s d rule: less_induct)
  case (less n)
  note inv = less.prems(3)
  show ?case
  proof (cases "n = 0 \<or> file_index f \<ge> file_len f")
    case True
    then have "read_backup n f s d = ([], f, s, d)" by (subst read_backup.simps) simp
    moreover have "take n (drop (file_index f) (backup_page content s d)) = []"
      using True inv by (auto simp: stream_inv_def)
    ultimately show ?thesis using inv by (simp add: read_ok_def)
  next
    case more: False
    show ?thesis
    proof (cases "header_pos s < length (stream_header s)")
      case True
      define k where "k = min n (length (stream_header s) - header_pos s)"
      let ?f = "f\<lparr>file_index := file_index f + k\<rparr>" let ?s = "s\<lparr>header_pos := header_pos s + k\<rparr>"
      obtain rest f' s' d' where r: "read_backup (n - k) ?f ?s d = (rest, f', s', d')" by (cases "read_backup (n - k) ?f ?s d")
      have i: "stream_inv ?f ?s" using inv True by (auto simp: stream_inv_def k_def)
      have ih: "read_ok content (n - k) ?f ?s d (rest, f', s', d')"
        using less.IH [of "n - k" ?s ?f d] less.prems(1,2) i r more True by (simp add: k_def)
      have eq: "read_backup n f s d = (take k (drop (header_pos s) (stream_header s)) @ rest, f', s', d')"
        using more True r by (subst read_backup.simps) (simp add: k_def Let_def)
      have "take k (drop (header_pos s) (stream_header s)) = take k (drop (file_index f) (backup_page content s d))"
        using inv True by (simp add: stream_inv_def backup_page_def k_def)
      moreover have "length (take k (drop (header_pos s) (stream_header s))) = k" by (simp add: k_def)
      ultimately show ?thesis unfolding eq by (intro read_ok_step [OF ih]) (simp_all add: k_def)
    next
      case hdr: False
      have idx: "file_index f = length (stream_header s) + body_pos s" "body_pos s < RECOVERY_RAW_PART_SIZE"
        using inv hdr more by (auto simp: stream_inv_def)
      define k where "k = min n (RECOVERY_RAW_PART_SIZE - body_pos s)"
      obtain ret buf d1 where rd: "mtd_read (stream_mtd s) (int (body_pos s)) k d = ((ret, buf), d1)"
        by (cases "mtd_read (stream_mtd s) (int (body_pos s)) k d") (metis surj_pair)
      have c1: "content d1 = content d" using mtdcore.read_same [OF less.prems(1) rd] .
      show ?thesis
      proof (cases "(ret \<noteq> 0 \<and> ret \<noteq> -EUCLEAN) \<or> length buf \<noteq> k")
        case True
        have "read_backup n f s d = ([], f\<lparr>file_index := file_len f\<rparr>, s, d1)"
          unfolding read_backup.simps [of n f s d] Let_def k_def [symmetric] rd prod.case
          using more hdr idx(2) True by auto
        moreover have "\<not> reads_succeed (stream_mtd s)"
        proof
          assume r: "reads_succeed (stream_mtd s)"
          have "0 \<le> int (body_pos s) \<and> int (body_pos s) + int k \<le> int (mtd_size (stream_mtd s))"
            using less.prems(2) idx(2) by (simp add: k_def)
          then have "\<exists>buf d'. mtd_read (stream_mtd s) (int (body_pos s)) k d = ((0, buf), d') \<and> length buf = k"
            using r unfolding reads_succeed_def by blast
          then show False using rd True by auto
        qed
        ultimately show ?thesis using c1 by (simp add: read_ok_def)
      next
        case False
        let ?f = "f\<lparr>file_index := file_index f + k\<rparr>" let ?s = "s\<lparr>body_pos := body_pos s + k\<rparr>"
        obtain rest f' s' d' where r: "read_backup (n - k) ?f ?s d1 = (rest, f', s', d')" by (cases "read_backup (n - k) ?f ?s d1")
        have i: "stream_inv ?f ?s" using inv hdr idx(2) unfolding stream_inv_def k_def by simp
        have ih: "read_ok content (n - k) ?f ?s d1 (rest, f', s', d')"
        proof -
          have "n - k < n" using more idx(2) by (simp add: k_def)
          then have "read_ok content (n - k) ?f ?s d1 (read_backup (n - k) ?f ?s d1)"
            by (rule less.IH [OF _ _ _ i]) (use less.prems(1,2) in simp_all)
          then show ?thesis by (simp only: r)
        qed
        have eq: "read_backup n f s d = (buf @ rest, f', s', d')"
          unfolding read_backup.simps [of n f s d] Let_def k_def [symmetric] rd prod.case r
          using more hdr idx(2) False by auto
        have "buf = view content d (int (mtd_offset (stream_mtd s)) + int (body_pos s)) k"
          using mtdcore.read_data [OF less.prems(1) rd] False by auto
        also have "\<dots> = take k (drop (file_index f) (backup_page content s d))"
          using idx view_slice [of "body_pos s" k RECOVERY_RAW_PART_SIZE content d "int (mtd_offset (stream_mtd s))"]
          by (simp add: backup_page_def k_def)
        finally show ?thesis unfolding eq using False c1 by (intro read_ok_step [OF ih]) (simp_all add: k_def)
      qed
    qed
  qed
qed

text \<open>A sequence of reads of a page, with the bytes they return in a row.\<close>

fun read_seq :: "int list \<Rightarrow> 'd fs_file \<Rightarrow> 'd \<Rightarrow> bytes \<times> 'd fs_file \<times> 'd" where
  "read_seq [] f d = ([], f, d)"
| "read_seq (n # ns) f d =
    (case fs_read_custom f n d of
       (out, f, d) \<Rightarrow>
         (case read_seq ns f d of (rest, f, d) \<Rightarrow> ((case out of Some o1 \<Rightarrow> o1 | None \<Rightarrow> []) @ rest, f, d)))"

definition wanted :: "int list \<Rightarrow> nat" where
  "wanted ns = sum_list (map nat ns)"

lemma read_seq_ended:
  "file_stream f = Some s \<Longrightarrow> file_index f \<ge> file_len f \<Longrightarrow> read_seq ns f d = ([], f, d)"
proof (induction ns)
  case (Cons n ns)
  have "read_backup (nat n) f s d = ([], f, s, d)" using Cons.prems by (subst read_backup.simps) simp
  then have "fs_read_custom f n d = (None, f, d)"
    using Cons.prems by (simp add: fs_read_custom_def recovery_read_mtd_backup_def)
  then show ?case using Cons by simp
qed simp

lemma read_seq_ok:
  assumes "driver_ok content m" "mtd_size m = RECOVERY_RAW_PART_SIZE"
  shows "file_stream f = Some s \<Longrightarrow> stream_mtd s = m \<Longrightarrow> stream_inv f s \<Longrightarrow> read_seq ns f d = (out, f', d') \<Longrightarrow>
    content d' = content d \<and> (\<exists>s'. file_stream f' = Some s' \<and> stream_mtd s' = m) \<and>
    prefix out (take (wanted ns) (drop (file_index f) (backup_page content s d))) \<and>
    (reads_succeed m \<longrightarrow> out = take (wanted ns) (drop (file_index f) (backup_page content s d)))"
proof (induction ns arbitrary: f s d out f' d')
  case Nil
  then show ?case by (auto simp: wanted_def)
next
  case (Cons n ns)
  let ?P = "drop (file_index f) (backup_page content s d)"
  show ?case
  proof (cases "n \<le> 0")
    case True
    then have "fs_read_custom f n d = (None, f, d)" by (simp add: fs_read_custom_def)
    then show ?thesis using Cons True by (auto simp: wanted_def split: prod.splits)
  next
    case False
    obtain o1 f1 s1 d1 where r: "read_backup (nat n) f s d = (o1, f1, s1, d1)" by (cases "read_backup (nat n) f s d")
    have ok: "read_ok content (nat n) f s d (o1, f1, s1, d1)"
      using read_backup_ok [of content s f "nat n" d] assms Cons.prems(2,3) r by simp
    let ?f1 = "f1\<lparr>file_stream := Some s1\<rparr>"
    obtain o2 f2 d2 where q: "read_seq ns ?f1 d1 = (o2, f2, d2)" by (rule prod_cases3)
    have out: "out = o1 @ o2" "f' = f2" "d' = d2"
      using Cons.prems(1,4) False r q by (auto simp: fs_read_custom_def recovery_read_mtd_backup_def split: if_splits)
    have w: "wanted (n # ns) = nat n + wanted ns" by (simp add: wanted_def)
    have t: "take (wanted (n # ns)) ?P = take (nat n) ?P @ take (wanted ns) (drop (nat n) ?P)"
      by (simp add: w take_add)
    have c: "content d1 = content d" "stream_mtd s1 = m" "stream_header s1 = stream_header s" "file_len f1 = file_len f"
      using ok Cons.prems(2) by (auto simp: read_ok_def)
    show ?thesis
    proof (cases "stream_inv f1 s1 \<and> file_index f1 = file_index f + length o1 \<and> o1 = take (nat n) ?P")
      case True
      have i: "stream_inv ?f1 s1" using True by (simp add: stream_inv_def)
      have pg: "backup_page content s1 d1 = backup_page content s d"
        using c Cons.prems(2) by (simp add: backup_page_def view_def)
      have ih: "content d2 = content d1" "\<exists>s'. file_stream f2 = Some s' \<and> stream_mtd s' = m"
        "prefix o2 (take (wanted ns) (drop (file_index f1) (backup_page content s d)))"
        "reads_succeed m \<longrightarrow> o2 = take (wanted ns) (drop (file_index f1) (backup_page content s d))"
        using Cons.IH [OF _ c(2) i q] pg by auto
      have d: "take (wanted ns) (drop (file_index f1) (backup_page content s d)) = take (wanted ns) (drop (nat n) ?P)"
      proof (cases "nat n \<le> length ?P")
        case True
        then have "length o1 = nat n" using \<open>stream_inv f1 s1 \<and> _\<close> by auto
        then show ?thesis using \<open>stream_inv f1 s1 \<and> _\<close> by (simp add: add.commute)
      next
        case False
        then have "length o1 = length ?P" using \<open>stream_inv f1 s1 \<and> _\<close> by auto
        then show ?thesis using \<open>stream_inv f1 s1 \<and> _\<close> False by simp
      qed
      have "prefix (o1 @ o2) (o1 @ take (wanted ns) (drop (nat n) ?P))"
        using ih(3) unfolding d by simp
      moreover have "reads_succeed m \<longrightarrow> o1 @ o2 = o1 @ take (wanted ns) (drop (nat n) ?P)"
        using ih(4) unfolding d by simp
      moreover have "o1 = take (nat n) ?P" using True by blast
      ultimately show ?thesis unfolding t out using ih(1,2) c(1) by metis
    next
      case f: False
      then have e: "\<not> reads_succeed m" "file_index f1 = file_len f" "prefix o1 (take (nat n) ?P)"
        using ok Cons.prems(2) by (auto simp: read_ok_def)
      have "read_seq ns ?f1 d1 = ([], ?f1, d1)" by (rule read_seq_ended [of _ s1]) (use e c in auto)
      then show ?thesis unfolding t out using q e c by (auto intro: prefix_prefix)
    qed
  qed
qed

text \<open>
  C37: reading a backup in pieces of any size returns a prefix of the response header followed by the
  2 MiB of the partition, and exactly the requested number of bytes of it when no flash read fails;
  reading changes no byte of the flash, and closing the file drops the reference opening it took.
\<close>

theorem backup_stream_faithful:
  assumes "\<forall>m\<in>set (brd_mtds b). driver_ok content m"
    and "recovery_open_mtd_backup b mem_ok part filename w = (Some f, w1)"
    and "read_seq ns f (dev w1) = (out, f', d')"
  shows "\<exists>m. m \<in> set (brd_mtds b) \<and> mtd_device_matches_name (brd_of_dev b) m part \<and>
    mtd_size m = RECOVERY_RAW_PART_SIZE \<and> content d' = content (dev w) \<and>
    prefix out (backup_header filename @ view content (dev w) (int (mtd_offset m)) RECOVERY_RAW_PART_SIZE) \<and>
    (reads_succeed m \<longrightarrow> out = take (wanted ns)
       (backup_header filename @ view content (dev w) (int (mtd_offset m)) RECOVERY_RAW_PART_SIZE)) \<and>
    keeps w (snd (fs_close_custom f' (w1\<lparr>dev := d'\<rparr>)))"
proof -
  obtain g w2 where g: "get_mtd b part w = (g, w2)" by (cases "get_mtd b part w")
  obtain m where m: "g = Inr m" using assms(2) g by (cases g) (auto simp: recovery_open_mtd_backup_def)
  define s where "s = \<lparr>stream_mtd = m, stream_header = backup_header filename, header_pos = 0, body_pos = 0\<rparr>"
  have f: "mtd_size m = RECOVERY_RAW_PART_SIZE" "w1 = w2" "file_stream f = Some s" "stream_inv f s" "file_index f = 0"
    using assms(2) g m by (auto simp: recovery_open_mtd_backup_def s_def stream_inv_def Let_def split: if_splits)
  have w2: "m \<in> set (brd_mtds b)" "mtd_device_matches_name (brd_of_dev b) m part" "dev w2 = dev w"
    "core w2 = core w" "refs w2 = (\<lambda>x. refs w x + (if mtd_name m = x then 1 else 0))"
    using g [unfolded m] by (auto elim: get_mtd_cases)
  have p: "backup_page content s (dev w1) =
      backup_header filename @ view content (dev w) (int (mtd_offset m)) RECOVERY_RAW_PART_SIZE"
    using f(2) w2(3) by (simp add: backup_page_def s_def)
  have r: "content d' = content (dev w1)" "\<exists>s'. file_stream f' = Some s' \<and> stream_mtd s' = m"
    "prefix out (take (wanted ns) (backup_page content s (dev w1)))"
    "reads_succeed m \<longrightarrow> out = take (wanted ns) (backup_page content s (dev w1))"
    using read_seq_ok [of content m f s ns "dev w1" out f' d'] assms(1,3) w2(1) f by (auto simp: s_def)
  obtain s' where s': "file_stream f' = Some s'" "stream_mtd s' = m" using r(2) by blast
  have "keeps w (snd (fs_close_custom f' (w1\<lparr>dev := d'\<rparr>)))"
    using s' f(2) w2(4,5)
    by (simp add: fs_close_custom_def recovery_close_mtd_backup_def keeps_def put_refs fun_eq_iff)
  moreover have "prefix out (backup_page content s (dev w1))"
    using r(3) prefix_order.trans take_is_prefix by blast
  ultimately show ?thesis using w2 r f(1,2) unfolding p by (intro exI [of _ m]) simp
qed

theorem backup_stream_faithful_witness:
  "\<exists>f w1 out f' d'. recovery_open_mtd_backup sample_board True ''dsd'' ''dsd-2m.bin'' (initial_world Map.empty (\<lambda>_. 0) (\<lambda>_. 7) ()) = (Some f, w1) \<and>
    read_seq [1000, 2097152] f (dev w1) = (out, f', d') \<and>
    out = backup_header ''dsd-2m.bin'' @ view (\<lambda>d. d) (\<lambda>_. 7) 0x200000 RECOVERY_RAW_PART_SIZE"
proof -
  let ?w = "initial_world Map.empty (\<lambda>_. 0) (\<lambda>_. 7) () :: (int \<Rightarrow> u8, unit) world"
  have h: "length (backup_header ''dsd-2m.bin'') < 256"
    using length_dec_digits [of 2097152 7] by (simp add: backup_header_def crlf_def quote_def RECOVERY_RAW_PART_SIZE_def)
  have "fst (recovery_open_mtd_backup sample_board True ''dsd'' ''dsd-2m.bin'' ?w) \<noteq> None"
    using h by (simp add: recovery_open_mtd_backup_def get_mtd_sample sample_part_def RECOVERY_RAW_PART_SIZE_def Let_def)
  then obtain f w1 where e: "recovery_open_mtd_backup sample_board True ''dsd'' ''dsd-2m.bin'' ?w = (Some f, w1)"
    by (cases "recovery_open_mtd_backup sample_board True ''dsd'' ''dsd-2m.bin'' ?w") auto
  obtain out f' d' where r: "read_seq [1000, 2097152] f (dev w1) = (out, f', d')" by (rule prod_cases3)
  have ok: "\<forall>m\<in>set (brd_mtds sample_board). driver_ok (\<lambda>d. d) m"
    by (simp add: sample_board_def sample_part_ok)
  have rs: "reads_succeed m" "mtd_device_matches_name (brd_of_dev sample_board) m ''dsd'' \<longrightarrow> mtd_offset m = 0x200000"
    if "m \<in> set (brd_mtds sample_board)" for m
    using that by (auto simp: sample_board_def sample_part_def ram_chip_def reads_succeed_def mtd_read_def part_read_def
        mtd_device_matches_name_def)
  have d: "dev ?w = (\<lambda>_. 7)" by (simp add: initial_world_def)
  obtain m where m: "m \<in> set (brd_mtds sample_board)" "mtd_device_matches_name (brd_of_dev sample_board) m ''dsd''"
    "out = take (wanted [1000, 2097152]) (backup_header ''dsd-2m.bin'' @ view (\<lambda>d. d) (\<lambda>_. 7) (int (mtd_offset m)) RECOVERY_RAW_PART_SIZE)"
    using backup_stream_faithful [OF ok e r] rs(1) unfolding d by auto
  then have "out = backup_header ''dsd-2m.bin'' @ view (\<lambda>d. d) (\<lambda>_. 7) 0x200000 RECOVERY_RAW_PART_SIZE"
    using h rs(2) [OF m(1)] by (simp add: wanted_def RECOVERY_RAW_PART_SIZE_def)
  then show ?thesis using e r by blast
qed

end
