(* ===== verification/Http.thy ===== *)
theory Http
  imports Backup
begin

text \<open>
  The upload endpoint: the POST callbacks of \<^verbatim>\<open>net/lwip/httpd_recovery.c\<close> and the part of the lwIP
  server (\<^verbatim>\<open>lib/lwip/lwip/src/apps/http/httpd.c\<close>) that calls them, with the acknowledgement of the
  response this project added to it. TCP is represented by the events it raises on a connection;
  the states the callbacks work on are those of \<open>world\<close>, whose open-ended part holds the server.
\<close>

section \<open>The server state\<close>

type_synonym conn = nat

text \<open>
  The fields of \<^verbatim>\<open>struct http_state\<close> that POST handling uses; \<open>hs_handle\<close> says that a response page has been
  chosen (\<^verbatim>\<open>http_find_file\<close>).
\<close>

record http_state =
  post_content_len_left :: u32
  no_auto_wnd :: bool
  unrecved_bytes :: u32
  post_finished :: bool
  post_response_pending :: bool
  hs_handle :: bool

definition http_state_init :: http_state where
  "http_state_init =
    \<lparr>post_content_len_left = 0, no_auto_wnd = False, unrecved_bytes = 0, post_finished = False,
     post_response_pending = False, hs_handle = False\<rparr>"

text \<open>
  What TCP and the timers report: a new connection; a POST request on it; further body data; the
  response sent and acknowledged in full (\<^verbatim>\<open>http_eof\<close> with an empty send queue); the connection
  closed by the peer or by the server (\<^verbatim>\<open>http_close_conn\<close>, \<^verbatim>\<open>http_err\<close>, \<^verbatim>\<open>http_poll\<close>, each with its
  error, never \<^verbatim>\<open>ERR_OK\<close>); a dynamic page opened (with the outcome of its allocation and the text of the
  version page) and read; the reboot timer; the passing of time. A chain of buffers is at most
  65535 bytes long, the range of \<^verbatim>\<open>tot_len\<close>.
\<close>

datatype net_event =
    Accepted conn
  | PostRequest conn string int "bytes list option"
  | PostData conn "bytes list"
  | ResponseAcked conn
  | Closed conn int
  | FileOpen conn bool bytes string
  | FileRead conn int
  | RebootTimer
  | Tick u64

text \<open>
  A connection that is open has a state. \<open>reboot_timer\<close> says that \<^verbatim>\<open>reboot_delay_cb\<close> is scheduled,
  \<open>response_uri\<close> is the page chosen for a connection, \<open>clock\<close> the value of \<^verbatim>\<open>get_timer(0)\<close>, \<open>files\<close> the
  page a connection is sending, \<open>inbox\<close> the events the coming calls of \<^verbatim>\<open>net_lwip_rx\<close> will
  process, call by call.
\<close>

record 'd net =
  conns :: "conn \<Rightarrow> http_state option"
  reboot_timer :: bool
  response_uri :: "conn \<Rightarrow> string"
  clock :: u64
  files :: "conn \<Rightarrow> 'd fs_file option"
  inbox :: "net_event list list"

type_synonym 'd rworld = "('d, 'd net) world"

abbreviation (input) ERR_OK :: int where "ERR_OK \<equiv> 0"
abbreviation (input) ERR_MEM :: int where "ERR_MEM \<equiv> -1"
abbreviation (input) ERR_TIMEOUT :: int where "ERR_TIMEOUT \<equiv> -3"
abbreviation (input) ERR_ABRT :: int where "ERR_ABRT \<equiv> -13"
abbreviation (input) ERR_CLSD :: int where "ERR_CLSD \<equiv> -15"
abbreviation (input) ERR_ARG :: int where "ERR_ARG \<equiv> -16"

definition upd_ext :: "('d net \<Rightarrow> 'd net) \<Rightarrow> 'd rworld \<Rightarrow> 'd rworld" where
  "upd_ext f w = w\<lparr>ext := f (ext w)\<rparr>"

definition set_hs :: "conn \<Rightarrow> http_state option \<Rightarrow> 'd rworld \<Rightarrow> 'd rworld" where
  "set_hs c hs = upd_ext (\<lambda>n. n\<lparr>conns := (conns n)(c := hs)\<rparr>)"

definition respond :: "conn \<Rightarrow> string \<Rightarrow> 'd rworld \<Rightarrow> 'd rworld" where
  "respond c uri = upd_ext (\<lambda>n. n\<lparr>response_uri := (response_uri n)(c := uri)\<rparr>)"

section \<open>httpd\_post\_begin\<close>

definition recovery_upload_uri_matches :: "string \<Rightarrow> string \<Rightarrow> bool" where
  "recovery_upload_uri_matches uri path =
    (strncmp_eq uri path (length path) \<and>
     (drop (length path) uri = [] \<or> hd (drop (length path) uri) = CHR ''?''))"

definition recovery_busy :: "('d, 'x) world \<Rightarrow> bool" where
  "recovery_busy w \<longleftrightarrow>
    post_ok w \<or> flash_request w \<or> reboot_post_pending w \<or> reboot_request w \<or> prog_phase w > 0"

text \<open>The reset of the upload and progress state at the start of an upload request.\<close>

definition reset_upload :: "('d, 'x) world \<Rightarrow> ('d, 'x) world" where
  "reset_upload w =
    w\<lparr>post_ok := False, recovery_ubi_attach_error := 0, recv_off := 0, recv_total := 0, prog_phase := 0,
      prog_done := 0, prog_total := 0, prog_erase_done := 0, prog_erase_total := 0,
      prog_write_done := 0, prog_write_total := 0\<rparr>"

text \<open>The target the path of the request names; \<open>-EINVAL\<close> for an unknown path or layout.\<close>

definition select_target :: "'d board \<Rightarrow> string \<Rightarrow> ('d, 'x) world \<Rightarrow> int \<times> ('d, 'x) world" where
  "select_target b uri w =
    (if recovery_upload_uri_matches uri ''/upload/firmware'' then
       recovery_parse_ubi_layout b uri (w\<lparr>current_target := TARGET_FIRMWARE\<rparr>)
     else if recovery_upload_uri_matches uri ''/upload/uboot'' then (0, w\<lparr>current_target := TARGET_UBOOT\<rparr>)
     else if recovery_upload_uri_matches uri ''/upload/uenv'' \<or> recovery_upload_uri_matches uri ''/upload/env'' then
       (0, w\<lparr>current_target := TARGET_UENV\<rparr>)
     else if recovery_upload_uri_matches uri ''/upload/dsd'' then (0, w\<lparr>current_target := TARGET_DSD\<rparr>)
     else if recovery_upload_uri_matches uri ''/upload'' then
       recovery_parse_ubi_layout b uri (w\<lparr>current_target := TARGET_FIRMWARE\<rparr>)
     else (-EINVAL, w))"

text \<open>The size checks on \<^verbatim>\<open>content_len\<close>; \<open>dts_max\<close> is the limit of the resolved target.\<close>

definition size_accepted :: "upload_target \<Rightarrow> u64 \<Rightarrow> u64 \<Rightarrow> int \<Rightarrow> bool" where
  "size_accepted tgt dts_max env_max content_len =
    (let exact = of_nat (recovery_target_exact_size tgt) :: u64;
         min_len = (if tgt = TARGET_FIRMWARE then of_nat RECOVERY_MIN_FIRMWARE_SIZE else 0) :: u64;
         max_len = dts_max;
         max_len = (if tgt \<noteq> TARGET_FIRMWARE \<and> exact \<noteq> 0 \<and> max_len > exact then exact else max_len);
         max_len = (if exact = 0 \<and> env_max \<noteq> 0 \<and> env_max < max_len then env_max else max_len) in
     if content_len > 0 \<and> exact \<noteq> 0 \<and> (of_int content_len :: u64) \<noteq> exact then False
     else if content_len \<le> 0 \<or> (of_int content_len :: u64) > max_len \<or>
             (min_len \<noteq> 0 \<and> (of_int content_len :: u64) < min_len) then False
     else True)"

text \<open>The upload buffer for \<open>len\<close> bytes: \<^term>\<open>None\<close> when no place in RAM is large enough.\<close>

definition upload_buffer :: "'d board \<Rightarrow> (string \<Rightarrow> string option) \<Rightarrow> u32 \<Rightarrow> u64 option" where
  "upload_buffer b e len =
    (let ram_start = brd_ram_base b;
         ram_end = brd_ram_base b + brd_ram_size b;
         base = env_get_hex e ''recovery_addr'' 0;
         base = (if base = 0 then env_get_hex e ''loadaddr'' 0 else base);
         base = (if base = 0 then brd_load_addr b else base) in
     if base < ram_start \<or> base \<ge> ram_end \<or> (ucast len :: u64) > ram_end - base then
       let fallback = ram_start + 0x01000000 in
       if fallback \<ge> ram_start \<and> fallback < ram_end \<and> (ucast len :: u64) \<le> ram_end - fallback
       then Some fallback
       else None
     else Some base)"

definition httpd_post_begin ::
    "'d board \<Rightarrow> conn \<Rightarrow> string \<Rightarrow> int \<Rightarrow> 'd rworld \<Rightarrow> (int \<times> bool) \<times> 'd rworld" where
  "httpd_post_begin b c uri content_len w =
    (if uri = ''/reboot'' then
       (if recovery_busy w then ((ERR_ARG, True), respond c ''/400.html'' w)
        else if content_len \<noteq> 0 then ((ERR_ARG, True), respond c ''/400.html'' w)
        else ((ERR_OK, True), w\<lparr>reboot_post_pending := True\<rparr>))
     else if recovery_busy w then ((ERR_ARG, False), respond c ''/400.html'' w)
     else
       let reject = (\<lambda>err w. ((err, False), respond c ''/400.html'' (w\<lparr>prog_phase := -1\<rparr>)));
           (ret, w) = select_target b uri (reset_upload w) in
       if ret \<noteq> 0 then reject ERR_ARG w
       else
         let (dts_max, w) = recovery_calc_target_max b (current_target w) w in
         if dts_max = 0 then reject ERR_ARG w
         else if \<not> size_accepted (current_target w) dts_max (env_get_hex (env w) ''recovery_max'' 0) content_len
         then reject ERR_ARG w
         else
           let w = w\<lparr>recv_total := of_int content_len, upload_start_ms := clock (ext w)\<rparr> in
           case upload_buffer b (env w) (recv_total w) of
             None \<Rightarrow> reject ERR_MEM w
           | Some base \<Rightarrow> ((ERR_OK, False), w\<lparr>recv_base := base, post_ok := True\<rparr>))"

section \<open>The other POST callbacks\<close>

text \<open>Storing bytes in RAM.\<close>

definition ram_write :: "u64 \<Rightarrow> bytes \<Rightarrow> (u64 \<Rightarrow> u8) \<Rightarrow> u64 \<Rightarrow> u8" where
  "ram_write a bs m = (\<lambda>x. if unat (x - a) < length bs then bs ! unat (x - a) else m x)"

text \<open>The copy loop over the buffer chain; the result says whether the body is too long.\<close>

fun copy_pbufs :: "bytes list \<Rightarrow> ('d, 'x) world \<Rightarrow> bool \<times> ('d, 'x) world" where
  "copy_pbufs [] w = (False, w)"
| "copy_pbufs (q # qs) w =
    (if recv_off w \<ge> recv_total w then (True, w)
     else
       let avail = unat (recv_total w) - unat (recv_off w);
           clen = min (length q) avail;
           w = w\<lparr>ram := ram_write (recv_base w + ucast (recv_off w)) (take clen q) (ram w),
                 recv_off := recv_off w + of_nat clen\<rparr>;
           (overflow, w) = copy_pbufs qs w in
       (length q > avail \<or> overflow, w))"

text \<open>
  \<open>p\<close> is the buffer chain, \<^term>\<open>None\<close> for NULL. The window update \<^verbatim>\<open>httpd_post_data_recved\<close> follows in
  \<open>http_post_rxpbuf\<close>; the second result is the length it is called with.
\<close>

definition httpd_post_receive_data :: "bytes list option \<Rightarrow> 'd rworld \<Rightarrow> (int \<times> nat) \<times> 'd rworld" where
  "httpd_post_receive_data p w =
    (let w = w\<lparr>lan_activity_ms := clock (ext w)\<rparr> in
     if reboot_post_pending w then ((ERR_OK, 0), w)
     else if \<not> post_ok w then ((ERR_ARG, 0), w)
     else case p of
       None \<Rightarrow> ((ERR_ARG, 0), w)
     | Some qs \<Rightarrow>
         if recv_off w > recv_total w then ((ERR_ARG, 0), w\<lparr>post_ok := False, prog_phase := -1\<rparr>)
         else
           let (overflow, w) = copy_pbufs qs w;
               w = (if overflow then w\<lparr>post_ok := False, prog_phase := -1\<rparr> else w) in
           ((if overflow then ERR_ARG else ERR_OK, length (concat qs)), w))"

definition httpd_post_finished :: "conn \<Rightarrow> 'd rworld \<Rightarrow> 'd rworld" where
  "httpd_post_finished c w =
    (if reboot_post_pending w then respond c ''/ok'' w
     else if post_ok w \<and> recv_total w \<noteq> 0 \<and> recv_off w \<ge> recv_total w then respond c ''/ok'' w
     else respond c ''/400.html'' (w\<lparr>post_ok := False, prog_phase := -1\<rparr>))"

definition httpd_post_response_complete :: "int \<Rightarrow> 'd rworld \<Rightarrow> 'd rworld" where
  "httpd_post_response_complete result w =
    (if reboot_post_pending w then
       (if result \<noteq> ERR_OK then w\<lparr>reboot_post_pending := False\<rparr>
        else upd_ext (\<lambda>n. n\<lparr>reboot_timer := True\<rparr>) (w\<lparr>reboot_request := False\<rparr>))
     else if \<not> post_ok w \<or> recv_total w = 0 \<or> recv_off w < recv_total w then w
     else if result \<noteq> ERR_OK then w\<lparr>post_ok := False, prog_phase := -1\<rparr>
     else w\<lparr>flash_request := True\<rparr>)"

definition reboot_delay_cb :: "'d rworld \<Rightarrow> 'd rworld" where
  "reboot_delay_cb w = w\<lparr>reboot_request := True\<rparr>"

section \<open>The lwIP server around them\<close>

definition http_post_response_notify :: "conn \<Rightarrow> http_state \<Rightarrow> int \<Rightarrow> 'd rworld \<Rightarrow> http_state \<times> 'd rworld" where
  "http_post_response_notify c hs result w =
    (if post_response_pending hs
     then (hs\<lparr>post_response_pending := False\<rparr>, httpd_post_response_complete result w)
     else (hs, w))"

definition http_post_connection_closed :: "conn \<Rightarrow> http_state \<Rightarrow> 'd rworld \<Rightarrow> http_state \<times> 'd rworld" where
  "http_post_connection_closed c hs w =
    (if post_finished hs then (hs, w)
     else if post_content_len_left hs \<noteq> 0 \<or> (no_auto_wnd hs \<and> unrecved_bytes hs \<noteq> 0)
     then (hs\<lparr>post_finished := True\<rparr>, httpd_post_finished c w)
     else (hs, w))"

definition http_handle_post_finished :: "conn \<Rightarrow> http_state \<Rightarrow> 'd rworld \<Rightarrow> http_state \<times> 'd rworld" where
  "http_handle_post_finished c hs w =
    (if post_finished hs then (hs, w)
     else (hs\<lparr>post_finished := True, post_response_pending := True, hs_handle := True\<rparr>, httpd_post_finished c w))"

text \<open>
  The window update: bytes the application has taken are no longer outstanding. The nested call of
  \<^verbatim>\<open>http_handle_post_finished\<close> never happens here, since \<^verbatim>\<open>http_post_rxpbuf\<close> holds \<open>unrecved_bytes\<close> above 0
  around the callback.
\<close>

definition httpd_post_data_recved :: "nat \<Rightarrow> http_state \<Rightarrow> http_state" where
  "httpd_post_data_recved len hs =
    (if len \<noteq> 0 \<and> no_auto_wnd hs then
       hs\<lparr>unrecved_bytes := (if unat (unrecved_bytes hs) \<ge> len then unrecved_bytes hs - of_nat len else 0)\<rparr>
     else hs)"

definition http_post_rxpbuf :: "conn \<Rightarrow> http_state \<Rightarrow> bytes list option \<Rightarrow> 'd rworld \<Rightarrow> http_state \<times> 'd rworld" where
  "http_post_rxpbuf c hs p w =
    (let hs = (case p of
                 None \<Rightarrow> hs
               | Some qs \<Rightarrow>
                   hs\<lparr>post_content_len_left :=
                        (if unat (post_content_len_left hs) < length (concat qs) then 0
                         else post_content_len_left hs - of_nat (length (concat qs)))\<rparr>);
         hs = hs\<lparr>unrecved_bytes := unrecved_bytes hs + 1\<rparr>;
         ((err, recved), w) = (case p of None \<Rightarrow> ((ERR_OK, 0), w) | Some qs \<Rightarrow> httpd_post_receive_data p w);
         hs = httpd_post_data_recved recved hs;
         hs = hs\<lparr>unrecved_bytes := unrecved_bytes hs - 1\<rparr>;
         hs = (if err \<noteq> ERR_OK then hs\<lparr>post_content_len_left := 0\<rparr> else hs) in
     if post_content_len_left hs = 0 then
       (if unrecved_bytes hs \<noteq> 0 then (hs, w) else http_handle_post_finished c hs w)
     else (hs, w))"

text \<open>
  \<^verbatim>\<open>http_post_request\<close> from the point where the header has been read: \<open>content_len\<close> is the number found
  there, \<open>body\<close> the rest of the received chain (\<^term>\<open>None\<close> when the header ends it).
\<close>

definition http_post_request ::
    "'d board \<Rightarrow> conn \<Rightarrow> string \<Rightarrow> int \<Rightarrow> bytes list option \<Rightarrow> http_state \<Rightarrow> 'd rworld \<Rightarrow> http_state \<times> 'd rworld" where
  "http_post_request b c uri content_len body hs w =
    (let ((err, post_auto_wnd), w) = httpd_post_begin b c uri content_len w in
       if err \<noteq> ERR_OK then (hs\<lparr>hs_handle := True\<rparr>, w)
       else
         let hs = hs\<lparr>no_auto_wnd := \<not> post_auto_wnd, post_content_len_left := of_int content_len\<rparr> in
         case body of
           Some qs \<Rightarrow>
             let hs = (if \<not> post_auto_wnd then hs\<lparr>unrecved_bytes := of_nat (length (concat qs))\<rparr> else hs) in
             http_post_rxpbuf c hs (Some qs) w
         | None \<Rightarrow>
             if post_content_len_left hs = 0 then http_post_rxpbuf c hs (Some [[]]) w else (hs, w))"

text \<open>Freeing the state of a connection closes its page.\<close>

definition http_state_free :: "conn \<Rightarrow> 'd rworld \<Rightarrow> 'd rworld" where
  "http_state_free c w =
    (case files (ext w) c of
       None \<Rightarrow> w
     | Some f \<Rightarrow> upd_ext (\<lambda>n. n\<lparr>files := (files n)(c := None)\<rparr>) (snd (fs_close_custom f w)))"

text \<open>Closing a connection, with the error the response is reported with.\<close>

definition http_close :: "conn \<Rightarrow> http_state \<Rightarrow> int \<Rightarrow> 'd rworld \<Rightarrow> 'd rworld" where
  "http_close c hs result w =
    (let (hs, w) = http_post_response_notify c hs result w;
         (hs, w) = http_post_connection_closed c hs w in
     set_hs c None (http_state_free c w))"

section \<open>Events\<close>

definition chain_ok :: "bytes list \<Rightarrow> bool" where
  "chain_ok qs \<longleftrightarrow> length (concat qs) < 65536"

definition handle_event :: "'d board \<Rightarrow> net_event \<Rightarrow> 'd rworld \<Rightarrow> 'd rworld" where
  "handle_event b ev w =
    (case ev of
       Accepted c \<Rightarrow> if conns (ext w) c = None then set_hs c (Some http_state_init) w else w
     | PostRequest c uri n body \<Rightarrow>
         (case conns (ext w) c of
            Some hs \<Rightarrow>
              if post_content_len_left hs = 0 \<and> \<not> hs_handle hs \<and> 0 \<le> n \<and> n < 2 ^ 31 \<and>
                 (case body of Some qs \<Rightarrow> chain_ok qs | None \<Rightarrow> True)
              then let (hs, w) = http_post_request b c uri n body hs w in set_hs c (Some hs) w
              else w
          | None \<Rightarrow> w)
     | PostData c qs \<Rightarrow>
         (case conns (ext w) c of
            Some hs \<Rightarrow>
              if post_content_len_left hs > 0 \<and> chain_ok qs then
                let hs = (if no_auto_wnd hs
                          then hs\<lparr>unrecved_bytes := unrecved_bytes hs + of_nat (length (concat qs))\<rparr> else hs);
                    (hs, w) = http_post_rxpbuf c hs (Some qs) w in
                set_hs c (Some hs) w
              else w
          | None \<Rightarrow> w)
     | ResponseAcked c \<Rightarrow>
         (case conns (ext w) c of
            Some hs \<Rightarrow>
              if post_response_pending hs then http_close c hs ERR_OK w else w
          | None \<Rightarrow> w)
     | Closed c err \<Rightarrow>
         (case conns (ext w) c of
            Some hs \<Rightarrow> if err \<noteq> ERR_OK then http_close c hs err w else w
          | None \<Rightarrow> w)
     | FileOpen c mem_ok about name \<Rightarrow>
         (case conns (ext w) c of
            Some hs \<Rightarrow>
              if files (ext w) c = None then
                let (f, w) = fs_open_custom b mem_ok about name w in
                upd_ext (\<lambda>n. n\<lparr>files := (files n)(c := f)\<rparr>) w
              else w
          | None \<Rightarrow> w)
     | FileRead c n \<Rightarrow>
         (case files (ext w) c of
            Some f \<Rightarrow>
              let (out, f, d) = fs_read_custom f n (dev w) in
              upd_ext (\<lambda>n. n\<lparr>files := (files n)(c := Some f)\<rparr>) (w\<lparr>dev := d\<rparr>)
          | None \<Rightarrow> w)
     | RebootTimer \<Rightarrow>
         if reboot_timer (ext w) then upd_ext (\<lambda>n. n\<lparr>reboot_timer := False\<rparr>) (reboot_delay_cb w) else w
     | Tick dt \<Rightarrow> upd_ext (\<lambda>n. n\<lparr>clock := clock n + dt\<rparr>) w)"

text \<open>
  \<^verbatim>\<open>net_lwip_rx\<close> processes what has arrived. \<^verbatim>\<open>recovery_service_runtime\<close> calls it between the blocks of a
  flash operation; its status LED update works on the registers of the LED model and the watchdog
  on hardware, neither of which the state here contains.
\<close>

definition net_lwip_rx :: "'d board \<Rightarrow> 'd rworld \<Rightarrow> 'd rworld" where
  "net_lwip_rx b w =
    (case inbox (ext w) of
       [] \<Rightarrow> w
     | evs # later \<Rightarrow> fold (handle_event b) evs (upd_ext (\<lambda>n. n\<lparr>inbox := later\<rparr>) w))"

definition recovery_service_runtime :: "'d board \<Rightarrow> 'd rworld \<Rightarrow> 'd rworld" where
  "recovery_service_runtime b w = net_lwip_rx b w"

section \<open>The invariant of the upload server\<close>

text \<open>The memory map of the board does not reach the end of the address space.\<close>

definition ram_ok :: "'d board \<Rightarrow> bool" where
  "ram_ok b \<longleftrightarrow> unat (brd_ram_base b) + unat (brd_ram_size b) < 2 ^ 64"

definition buffer_in_ram :: "'d board \<Rightarrow> u64 \<Rightarrow> u32 \<Rightarrow> bool" where
  "buffer_in_ram b base len \<longleftrightarrow> unat (brd_ram_base b) \<le> unat base \<and>
     unat base + unat len \<le> unat (brd_ram_base b) + unat (brd_ram_size b)"

lemma unat_ucast_u32: "unat (ucast (x :: u32) :: u64) = unat x"
proof -
  have "unat x < 2 ^ 64" by (rule less_le_trans [OF unsigned_less]) simp
  then show ?thesis by (simp add: unsigned_ucast_eq take_bit_nat_eq_self_iff)
qed

lemma ram_fits:
  assumes "ram_ok b" "brd_ram_base b \<le> base" "base < brd_ram_base b + brd_ram_size b"
    "(ucast (len :: u32) :: u64) \<le> brd_ram_base b + brd_ram_size b - base"
  shows "buffer_in_ram b base len"
proof -
  let ?e = "brd_ram_base b + brd_ram_size b"
  have e: "unat ?e = unat (brd_ram_base b) + unat (brd_ram_size b)"
    using assms(1) by (intro unat_add_lem [THEN iffD1]) (simp add: ram_ok_def)
  have "unat (?e - base) = unat ?e - unat base" using assms(3) by (intro unat_sub) simp
  moreover have "unat (ucast len :: u64) = unat len" by (rule unat_ucast_u32)
  ultimately have "unat len \<le> unat ?e - unat base" using assms(4) by (simp add: word_le_nat_alt)
  moreover have "unat base < unat ?e" using assms(3) by (simp add: word_less_nat_alt)
  ultimately show ?thesis using assms(2) e by (simp add: buffer_in_ram_def word_le_nat_alt)
qed

lemma upload_buffer_in_ram:
  assumes "ram_ok b" "upload_buffer b e len = Some base"
  shows "buffer_in_ram b base len"
  using assms(2) unfolding upload_buffer_def Let_def
  by (intro ram_fits [OF assms(1)]) (auto simp: not_less not_le split: if_splits)

text \<open>What holds of the state of a connection; a body is outstanding while \<open>post_content_len_left\<close> is not 0.\<close>

definition conn_ok :: "('d, 'x) world \<Rightarrow> http_state \<Rightarrow> bool" where
  "conn_ok w hs \<longleftrightarrow>
    (post_finished hs \<longrightarrow> post_content_len_left hs = 0 \<and> hs_handle hs) \<and>
    (post_response_pending hs \<longrightarrow> post_finished hs) \<and>
    (\<not> post_finished hs \<longrightarrow> unrecved_bytes hs = 0) \<and>
    (post_content_len_left hs \<noteq> 0 \<longrightarrow> no_auto_wnd hs \<and> post_ok w \<and>
       unat (recv_off w) + unat (post_content_len_left hs) = unat (recv_total w))"

definition conns_inv :: "'d board \<Rightarrow> (conn \<Rightarrow> http_state option) \<Rightarrow> 'd rworld \<Rightarrow> bool" where
  "conns_inv b C w \<longleftrightarrow>
    (\<forall>c hs. C c = Some hs \<longrightarrow> conn_ok w hs) \<and>
    (\<forall>c c' hs hs'. C c = Some hs \<longrightarrow> C c' = Some hs' \<longrightarrow> post_content_len_left hs \<noteq> 0 \<longrightarrow>
       post_content_len_left hs' \<noteq> 0 \<longrightarrow> c = c') \<and>
    recv_off w \<le> recv_total w \<and>
    (post_ok w \<longrightarrow> prog_phase w = 0 \<and> \<not> reboot_post_pending w \<and> recv_total w \<noteq> 0 \<and>
       buffer_in_ram b (recv_base w) (recv_total w)) \<and>
    (flash_request w \<longrightarrow> recv_off w = recv_total w \<and> recv_total w \<noteq> 0 \<and> prog_phase w \<le> 0 \<and>
       \<not> reboot_post_pending w \<and> buffer_in_ram b (recv_base w) (recv_total w)) \<and>
    (post_ok w \<and> recv_off w \<noteq> recv_total w \<longrightarrow> (\<exists>c hs. C c = Some hs \<and> post_content_len_left hs \<noteq> 0)) \<and>
    (post_ok w \<and> recv_off w = recv_total w \<and> \<not> flash_request w \<longrightarrow>
       (\<exists>c hs. C c = Some hs \<and> post_response_pending hs)) \<and>
    (reboot_post_pending w \<longrightarrow>
       (\<exists>c hs. C c = Some hs \<and> post_response_pending hs) \<or> reboot_timer (ext w) \<or> reboot_request w)"

definition http_inv :: "'d board \<Rightarrow> 'd rworld \<Rightarrow> bool" where
  "http_inv b w \<longleftrightarrow> conns_inv b (conns (ext w)) w"

text \<open>The part of the state the invariant reads, besides the connections.\<close>

definition ctl :: "'d rworld \<Rightarrow> bool \<times> bool \<times> bool \<times> bool \<times> int \<times> u32 \<times> u32 \<times> u64 \<times> bool" where
  "ctl w = (post_ok w, flash_request w, reboot_post_pending w, reboot_request w, prog_phase w,
     recv_off w, recv_total w, recv_base w, reboot_timer (ext w))"

lemma conns_inv_ctl: "ctl w' = ctl w \<Longrightarrow> conns_inv b C w' = conns_inv b C w"
  by (simp add: ctl_def conns_inv_def conn_ok_def)

lemma core_ctl: "core w' = core w \<Longrightarrow> ctl w' = ctl w \<and> ext w' = ext w"
  using coreD [of w' w] by (simp add: ctl_def)

lemma respond_ctl [simp]: "ctl (respond c u w) = ctl w" "conns (ext (respond c u w)) = conns (ext w)"
  "files (ext (respond c u w)) = files (ext w)"
  by (simp_all add: ctl_def respond_def upd_ext_def)

text \<open>A server that is not receiving an upload has no body outstanding.\<close>

lemma no_body:
  assumes "conns_inv b C w" "\<not> post_ok w \<or> recv_off w = recv_total w" "C c = Some hs"
  shows "post_content_len_left hs = 0"
proof (rule ccontr)
  assume l: "post_content_len_left hs \<noteq> 0"
  then have "post_ok w" "unat (recv_off w) + unat (post_content_len_left hs) = unat (recv_total w)"
    using assms(1,3) by (auto simp: conns_inv_def conn_ok_def)
  moreover have "unat (post_content_len_left hs) \<noteq> 0" using l by (simp add: unat_eq_0)
  ultimately show False using assms(2) by auto
qed

text \<open>A body that is not too long is taken over completely.\<close>

lemma copy_pbufs_frame:
  "copy_pbufs qs w = (ovf, w') \<Longrightarrow>
    w' = w\<lparr>ram := ram w', recv_off := recv_off w'\<rparr>"
proof (induction qs arbitrary: w ovf w')
  case (Cons q qs)
  show ?case
  proof (cases "recv_off w \<ge> recv_total w")
    case True
    then show ?thesis using Cons.prems by simp
  next
    case False
    define clen where "clen = min (length q) (unat (recv_total w) - unat (recv_off w))"
    define w1 where "w1 = w\<lparr>ram := ram_write (recv_base w + ucast (recv_off w)) (take clen q) (ram w),
                 recv_off := recv_off w + of_nat clen\<rparr>"
    obtain o2 w2 where r: "copy_pbufs qs w1 = (o2, w2)" by (cases "copy_pbufs qs w1")
    have "w' = w2" using Cons.prems False r by (simp add: w1_def clen_def Let_def)
    then show ?thesis using Cons.IH [OF r] by (simp add: w1_def)
  qed
qed simp

lemma copy_pbufs_off:
  "copy_pbufs qs w = (ovf, w') \<Longrightarrow> recv_off w \<le> recv_total w \<Longrightarrow>
    recv_off w' \<le> recv_total w \<and> (\<not> ovf \<longrightarrow> unat (recv_off w') = unat (recv_off w) + length (concat qs))"
proof (induction qs arbitrary: w ovf w')
  case (Cons q qs)
  show ?case
  proof (cases "recv_off w \<ge> recv_total w")
    case True
    then show ?thesis using Cons.prems by simp
  next
    case False
    define clen where "clen = min (length q) (unat (recv_total w) - unat (recv_off w))"
    define w1 where "w1 = w\<lparr>ram := ram_write (recv_base w + ucast (recv_off w)) (take clen q) (ram w),
                 recv_off := recv_off w + of_nat clen\<rparr>"
    obtain o2 w2 where r: "copy_pbufs qs w1 = (o2, w2)" by (cases "copy_pbufs qs w1")
    have e: "w' = w2" "ovf \<longleftrightarrow> length q > unat (recv_total w) - unat (recv_off w) \<or> o2"
      using Cons.prems(1) False r by (simp_all add: w1_def clen_def Let_def)
    have lt: "unat (recv_off w) < unat (recv_total w)" using False by (simp add: word_le_nat_alt not_le)
    have t: "unat (recv_total w) < 2 ^ 32" by (rule less_le_trans [OF unsigned_less]) simp
    have "unat (recv_off w + of_nat clen) = unat (recv_off w) + clen"
    proof (subst unat_add_lem [THEN iffD1])
      have c: "unat (of_nat clen :: u32) = clen" by (rule unat_of_nat_small) (use lt t in \<open>simp add: clen_def\<close>)
      then show "unat (recv_off w) + unat (of_nat clen :: u32) < 2 ^ LENGTH(32)" using lt t by (simp add: clen_def)
      show "unat (recv_off w) + unat (of_nat clen :: u32) = unat (recv_off w) + clen" using c by simp
    qed
    then have o1: "unat (recv_off w1) = unat (recv_off w) + clen" by (simp add: w1_def)
    have "recv_off w1 \<le> recv_total w1" using o1 lt by (simp add: word_le_nat_alt clen_def w1_def)
    from Cons.IH [OF r this] have "recv_off w2 \<le> recv_total w \<and>
        (\<not> o2 \<longrightarrow> unat (recv_off w2) = unat (recv_off w1) + length (concat qs))" by (simp add: w1_def)
    then show ?thesis using e o1 by (auto simp: clen_def)
  qed
qed simp

lemma copy_pbufs_ctl:
  assumes "copy_pbufs qs w = (ovf, w')"
  shows "ctl w' = (post_ok w, flash_request w, reboot_post_pending w, reboot_request w, prog_phase w,
     recv_off w', recv_total w, recv_base w, reboot_timer (ext w))" "ext w' = ext w"
  by (subst copy_pbufs_frame [OF assms], simp add: ctl_def)+

text \<open>The invariant, clause by clause.\<close>

lemma conns_invI:
  assumes "\<And>c hs. C c = Some hs \<Longrightarrow> conn_ok w hs"
    and "\<And>c c' hs hs'. C c = Some hs \<Longrightarrow> C c' = Some hs' \<Longrightarrow> post_content_len_left hs \<noteq> 0 \<Longrightarrow>
       post_content_len_left hs' \<noteq> 0 \<Longrightarrow> c = c'"
    and "recv_off w \<le> recv_total w"
    and "post_ok w \<Longrightarrow> prog_phase w = 0 \<and> \<not> reboot_post_pending w \<and> recv_total w \<noteq> 0 \<and>
       buffer_in_ram b (recv_base w) (recv_total w)"
    and "flash_request w \<Longrightarrow> recv_off w = recv_total w \<and> recv_total w \<noteq> 0 \<and> prog_phase w \<le> 0 \<and>
       \<not> reboot_post_pending w \<and> buffer_in_ram b (recv_base w) (recv_total w)"
    and "post_ok w \<Longrightarrow> recv_off w \<noteq> recv_total w \<Longrightarrow> \<exists>c hs. C c = Some hs \<and> post_content_len_left hs \<noteq> 0"
    and "post_ok w \<Longrightarrow> recv_off w = recv_total w \<Longrightarrow> \<not> flash_request w \<Longrightarrow> \<exists>c hs. C c = Some hs \<and> post_response_pending hs"
    and "reboot_post_pending w \<Longrightarrow> (\<exists>c hs. C c = Some hs \<and> post_response_pending hs) \<or> reboot_timer (ext w) \<or> reboot_request w"
  shows "conns_inv b C w"
  using assms unfolding conns_inv_def by blast

lemma conns_invD:
  assumes "conns_inv b C w"
  shows "\<And>c hs. C c = Some hs \<Longrightarrow> conn_ok w hs"
    and "\<And>c c' hs hs'. C c = Some hs \<Longrightarrow> C c' = Some hs' \<Longrightarrow> post_content_len_left hs \<noteq> 0 \<Longrightarrow>
       post_content_len_left hs' \<noteq> 0 \<Longrightarrow> c = c'"
    and "recv_off w \<le> recv_total w"
    and "post_ok w \<Longrightarrow> prog_phase w = 0 \<and> \<not> reboot_post_pending w \<and> recv_total w \<noteq> 0 \<and>
       buffer_in_ram b (recv_base w) (recv_total w)"
    and "flash_request w \<Longrightarrow> recv_off w = recv_total w \<and> recv_total w \<noteq> 0 \<and> prog_phase w \<le> 0 \<and>
       \<not> reboot_post_pending w \<and> buffer_in_ram b (recv_base w) (recv_total w)"
    and "post_ok w \<Longrightarrow> recv_off w \<noteq> recv_total w \<Longrightarrow> \<exists>c hs. C c = Some hs \<and> post_content_len_left hs \<noteq> 0"
    and "post_ok w \<Longrightarrow> recv_off w = recv_total w \<Longrightarrow> \<not> flash_request w \<Longrightarrow> \<exists>c hs. C c = Some hs \<and> post_response_pending hs"
    and "reboot_post_pending w \<Longrightarrow> (\<exists>c hs. C c = Some hs \<and> post_response_pending hs) \<or> reboot_timer (ext w) \<or> reboot_request w"
  using assms unfolding conns_inv_def by blast+

text \<open>Giving up an upload: no body is outstanding any more, and nothing waits for it.\<close>

lemma conns_inv_give_up:
  assumes inv: "conns_inv b C w" and C': "\<And>c hs. C' c = Some hs \<Longrightarrow> conn_ok w hs \<and> post_content_len_left hs = 0"
    and w': "ctl w' = (False, False, reboot_post_pending w, reboot_request w, p, off, recv_total w, recv_base w, reboot_timer (ext w))"
    and off: "off \<le> recv_total w"
    and keep: "reboot_post_pending w \<Longrightarrow> (\<exists>c hs. C' c = Some hs \<and> post_response_pending hs) \<or> reboot_timer (ext w) \<or> reboot_request w"
  shows "conns_inv b C' w'"
proof (rule conns_invI)
  fix c hs assume "C' c = Some hs"
  from C' [OF this] show "conn_ok w' hs" by (simp add: conn_ok_def)
qed (use C' w' off keep in \<open>auto simp: ctl_def\<close>)

lemma len_small: "chain_ok qs \<Longrightarrow> length (concat qs) < 2 ^ 16"
  by (simp add: chain_ok_def)

text \<open>The window accounts around the receive callback: all bytes of the chain are given back.\<close>

lemma window_back:
  assumes "n < 2 ^ 16" "no_auto_wnd hs"
  shows "httpd_post_data_recved n (hs\<lparr>unrecved_bytes := of_nat n + 1\<rparr>) = hs\<lparr>unrecved_bytes := 1\<rparr>"
proof -
  have "unat (of_nat (Suc n) :: u32) = Suc n" by (rule unat_of_nat_small) (use assms(1) in simp)
  moreover have "of_nat (Suc n) = (of_nat n + 1 :: u32)" by (simp add: add.commute)
  ultimately have "unat (of_nat n + 1 :: u32) = Suc n" by (simp only:)
  then show ?thesis using assms(2) by (simp add: httpd_post_data_recved_def)
qed

lemma rxpbuf_eq:
  assumes "chain_ok qs" "no_auto_wnd hs" "unrecved_bytes hs = 0" "\<not> post_finished hs"
    and r: "httpd_post_receive_data (Some qs) w = ((err, length (concat qs)), w1)"
  shows "http_post_rxpbuf c (hs\<lparr>unrecved_bytes := of_nat (length (concat qs))\<rparr>) (Some qs) w =
    (let left = (if err \<noteq> 0 \<or> unat (post_content_len_left hs) < length (concat qs) then 0
                 else post_content_len_left hs - of_nat (length (concat qs)));
         hs1 = hs\<lparr>post_content_len_left := left\<rparr> in
     if left = 0 then (hs1\<lparr>post_finished := True, post_response_pending := True, hs_handle := True\<rparr>, httpd_post_finished c w1)
     else (hs1, w1))"
proof -
  note wb = window_back [OF len_small [OF assms(1)]]
  have z: "hs\<lparr>post_content_len_left := l, unrecved_bytes := 0\<rparr> = hs\<lparr>post_content_len_left := l\<rparr>" for l
    using assms(3) by simp
  show ?thesis
    unfolding http_post_rxpbuf_def Let_def option.case r prod.case
    by (cases "unat (post_content_len_left hs) < length (concat qs)")
      (simp_all add: wb assms(2,3,4) z http_handle_post_finished_def)
qed

lemma receive_eq:
  assumes "post_ok w" "\<not> reboot_post_pending w" "recv_off w \<le> recv_total w" "copy_pbufs qs (w\<lparr>lan_activity_ms := clock (ext w)\<rparr>) = (ovf, w1)"
  shows "httpd_post_receive_data (Some qs) w =
    ((if ovf then ERR_ARG else ERR_OK, length (concat qs)), if ovf then w1\<lparr>post_ok := False, prog_phase := -1\<rparr> else w1)"
  using assms by (simp add: httpd_post_receive_data_def Let_def not_less)

text \<open>While a body is outstanding on one connection, there is none on the others.\<close>

lemma conns_inv_others:
  assumes "conns_inv b (C(c := Some hs)) w" "post_content_len_left hs \<noteq> 0" "C x = Some hs2" "x \<noteq> c"
  shows "conn_ok w hs2 \<and> post_content_len_left hs2 = 0"
proof -
  have x: "(C(c := Some hs)) x = Some hs2" and c: "(C(c := Some hs)) c = Some hs" using assms(3,4) by simp_all
  show ?thesis using conns_invD(1) [OF assms(1) x] conns_invD(2) [OF assms(1) x c _ assms(2)] assms(4) by blast
qed

lemma rxpbuf_inv:
  assumes ram: "chain_ok qs" and inv: "conns_inv b (C(c := Some hs)) w" and l: "post_content_len_left hs \<noteq> 0"
    and run: "http_post_rxpbuf c (hs\<lparr>unrecved_bytes := of_nat (length (concat qs))\<rparr>) (Some qs) w = (hs', w')"
  shows "conns_inv b (C(c := Some hs')) w' \<and> conns (ext w') = conns (ext w) \<and> files (ext w') = files (ext w)"
proof -
  have ok: "conn_ok w hs" by (rule conns_invD(1) [OF inv, of c]) simp
  have h: "no_auto_wnd hs" "post_ok w" "unat (recv_off w) + unat (post_content_len_left hs) = unat (recv_total w)"
    "\<not> post_finished hs" "unrecved_bytes hs = 0" "\<not> post_response_pending hs"
    using ok l unfolding conn_ok_def by blast+
  have i: "recv_off w \<le> recv_total w" "prog_phase w = 0" "\<not> reboot_post_pending w" "recv_total w \<noteq> 0"
    "buffer_in_ram b (recv_base w) (recv_total w)" "\<not> flash_request w"
  proof -
    show "recv_off w \<le> recv_total w" by (rule conns_invD(3) [OF inv])
    show "prog_phase w = 0" "\<not> reboot_post_pending w" "recv_total w \<noteq> 0" "buffer_in_ram b (recv_base w) (recv_total w)"
      using conns_invD(4) [OF inv h(2)] by auto
    have "recv_off w \<noteq> recv_total w" using h(3) l by (auto simp: unat_eq_0)
    then show "\<not> flash_request w" using conns_invD(5) [OF inv] by blast
  qed
  let ?w0 = "w\<lparr>lan_activity_ms := clock (ext w)\<rparr>"
  obtain ovf w1 where cp: "copy_pbufs qs ?w0 = (ovf, w1)" by (cases "copy_pbufs qs ?w0")
  note off = copy_pbufs_off [OF cp] and ct = copy_pbufs_ctl [OF cp]
  have ct1: "ctl w1 = (True, False, False, reboot_request w, 0, recv_off w1, recv_total w, recv_base w, reboot_timer (ext w))"
    "ext w1 = ext w" using ct h i by simp_all
  note eq = rxpbuf_eq [OF ram h(1,5,4) receive_eq [OF h(2) i(3,1) cp], of c]
  have others: "conn_ok w hs2 \<and> post_content_len_left hs2 = 0" if "C x = Some hs2" "x \<noteq> c" for x hs2
    by (rule conns_inv_others [OF inv l that])
  show ?thesis
  proof (cases ovf)
    case True
    have fin: "httpd_post_finished c (w1\<lparr>post_ok := False, prog_phase := -1\<rparr>) = respond c ''/400.html'' (w1\<lparr>post_ok := False, prog_phase := -1\<rparr>)"
      using ct1 by (simp add: httpd_post_finished_def ctl_def)
    have hs': "hs' = hs\<lparr>post_content_len_left := 0, post_finished := True, post_response_pending := True, hs_handle := True\<rparr>"
      "w' = respond c ''/400.html'' (w1\<lparr>post_ok := False, prog_phase := -1\<rparr>)"
      using run eq True fin by (simp_all add: Let_def)
    have "conns_inv b (C(c := Some hs')) w'"
    proof (rule conns_inv_give_up [OF inv, where p = "-1" and off = "recv_off w1"])
      show "ctl w' = (False, False, reboot_post_pending w, reboot_request w, -1, recv_off w1, recv_total w, recv_base w, reboot_timer (ext w))"
        using ct1 i by (simp add: hs'(2)) (simp add: ctl_def)
      show "recv_off w1 \<le> recv_total w" using off i by simp
      fix x hs2 assume x: "(C(c := Some hs')) x = Some hs2"
      show "conn_ok w hs2 \<and> post_content_len_left hs2 = 0"
        using x others [of x hs2] h hs'(1) by (cases "x = c") (auto simp: conn_ok_def)
    qed (use i(3) in simp)
    then show ?thesis using ct1 by (simp add: hs'(2))
  next
    case False
    let ?n = "length (concat qs)"
    have o1: "recv_off w1 \<le> recv_total w" "unat (recv_off w1) = unat (recv_off w) + ?n" using off i False by auto
    then have n: "?n \<le> unat (post_content_len_left hs)" using h(3) by (simp add: word_le_nat_alt)
    have nl: "unat (post_content_len_left hs - of_nat ?n) = unat (post_content_len_left hs) - ?n"
      using n len_small [OF ram] unat_of_nat_small [where 'a = 32, of ?n] by (subst unat_sub) (simp_all add: word_le_nat_alt)
    define left where "left = post_content_len_left hs - of_nat ?n"
    have left: "unat (recv_off w1) + unat left = unat (recv_total w)" using nl o1 h(3) n by (simp add: left_def)
    show ?thesis
    proof (cases "left = 0")
      case True
      then have full: "recv_off w1 = recv_total w" using left by (simp add: word_unat_eq_iff)
      have fin: "httpd_post_finished c w1 = respond c ''/ok'' w1"
        using ct1 i full by (simp add: httpd_post_finished_def ctl_def)
      have hs': "hs' = hs\<lparr>post_content_len_left := 0, post_finished := True, post_response_pending := True, hs_handle := True\<rparr>"
        "w' = respond c ''/ok'' w1"
        using run eq False n True fin by (simp_all add: Let_def left_def [symmetric])
      have c': "ctl w' = (True, False, False, reboot_request w, 0, recv_total w, recv_total w, recv_base w, reboot_timer (ext w))"
        using ct1 full by (simp add: hs'(2))
      have "conns_inv b (C(c := Some hs')) w'"
      proof (rule conns_invI)
        fix x hs2 assume x: "(C(c := Some hs')) x = Some hs2"
        show "conn_ok w' hs2" using x others [of x hs2] h hs'(1) by (cases "x = c") (auto simp: conn_ok_def)
      next
        fix x x' hs1 hs2 assume "(C(c := Some hs')) x = Some hs1" "post_content_len_left hs1 \<noteq> 0"
        then show "x = x'" using others [of x hs1] hs'(1) by (cases "x = c") auto
      next
        show "\<exists>c' hs2. (C(c := Some hs')) c' = Some hs2 \<and> post_response_pending hs2"
          using hs'(1) by (intro exI [of _ c] exI [of _ hs']) simp
      qed (use c' i in \<open>auto simp: ctl_def\<close>)
      then show ?thesis using ct1 by (simp add: hs'(2))
    next
      case more: False
      have hs': "hs' = hs\<lparr>post_content_len_left := left\<rparr>" "w' = w1"
        using run eq False n more by (simp_all add: Let_def left_def [symmetric])
      have ne: "recv_off w1 \<noteq> recv_total w" using left more by (auto simp: unat_eq_0)
      have "conns_inv b (C(c := Some hs')) w'"
      proof (rule conns_invI)
        fix x hs2 assume x: "(C(c := Some hs')) x = Some hs2"
        show "conn_ok w' hs2" using x others [of x hs2] ok h hs' left ct1
          by (cases "x = c") (auto simp: conn_ok_def ctl_def)
      next
        fix x x' hs1 hs2 assume "(C(c := Some hs')) x = Some hs1" "post_content_len_left hs1 \<noteq> 0"
          "(C(c := Some hs')) x' = Some hs2" "post_content_len_left hs2 \<noteq> 0"
        then show "x = x'" using others [of x hs1] others [of x' hs2] by (cases "x = c"; cases "x' = c") auto
      next
        show "\<exists>c' hs2. (C(c := Some hs')) c' = Some hs2 \<and> post_content_len_left hs2 \<noteq> 0"
          using hs'(1) more by (intro exI [of _ c] exI [of _ hs']) simp
      qed (use hs'(2) ct1 i o1 ne in \<open>auto simp: ctl_def\<close>)
      then show ?thesis using ct1 by (simp add: hs'(2))
    qed
  qed
qed

section \<open>Accepting a request\<close>

lemma select_target_ctl:
  fixes w :: "'d rworld"
  assumes "select_target b uri w = (ret, w')"
  shows "ctl w' = ctl w \<and> ext w' = ext w \<and> env w' = env w"
proof -
  have p: "ctl w2 = ctl w1 \<and> ext w2 = ext w1 \<and> env w2 = env w1"
    if "recovery_parse_ubi_layout b uri w1 = (r, w2)" for r and w1 w2 :: "'d rworld"
  proof -
    obtain a w3 where a: "recovery_board_active b w1 = (a, w3)" by (cases "recovery_board_active b w1")
    have "core w3 = core w1" using board_active_keeps [OF a] by (simp add: keeps_def)
    then have "core w2 = core w1"
      using that a by (auto simp: recovery_parse_ubi_layout_def Let_def split: option.splits if_splits)
    then show ?thesis using core_ctl coreD(1) by blast
  qed
  have t: "ctl (w\<lparr>current_target := x\<rparr>) = ctl w" for x by (simp add: ctl_def)
  show ?thesis
    using assms p [of "w\<lparr>current_target := TARGET_FIRMWARE\<rparr>"] t unfolding select_target_def
    by (auto split: if_splits)
qed

text \<open>The outcomes of \<^verbatim>\<open>httpd_post_begin\<close>.\<close>

lemma post_begin_cases:
  fixes w :: "'d rworld"
  assumes ram: "ram_ok b" and run: "httpd_post_begin b c uri n w = ((err, auto_wnd), w')" and n: "n < 2 ^ 31"
  obtains (refused) "err \<noteq> 0" "conns (ext w') = conns (ext w)" "files (ext w') = files (ext w)" "ctl w' = ctl w" "recovery_busy w \<or> uri = ''/reboot''"
  | (rejected) "err \<noteq> 0" "conns (ext w') = conns (ext w)" "files (ext w') = files (ext w)" "\<not> recovery_busy w" "recv_off w' = 0"
      "ctl w' = (False, flash_request w, reboot_post_pending w, reboot_request w, -1, 0, recv_total w', recv_base w', reboot_timer (ext w))"
  | (reboot) "err = 0" "auto_wnd" "\<not> recovery_busy w" "n = 0" "w' = w\<lparr>reboot_post_pending := True\<rparr>"
  | (accepted) "err = 0" "conns (ext w') = conns (ext w)" "files (ext w') = files (ext w)" "\<not> auto_wnd" "\<not> recovery_busy w" "0 < n" "buffer_in_ram b (recv_base w') (of_int n)"
      "ctl w' = (True, flash_request w, reboot_post_pending w, reboot_request w, 0, 0, of_int n, recv_base w', reboot_timer (ext w))"
proof (cases "uri = ''/reboot'' \<or> recovery_busy w")
  case True
  show ?thesis
  proof (cases "uri = ''/reboot'' \<and> \<not> recovery_busy w \<and> n = 0")
    case True
    then show ?thesis using run reboot by (simp add: httpd_post_begin_def)
  next
    case False
    then have "err \<noteq> 0 \<and> w' = respond c ''/400.html'' w"
      using run True by (auto simp: httpd_post_begin_def split: if_splits)
    then show ?thesis using refused True by auto
  qed
next
  case False
  obtain ret w1 where s: "select_target b uri (reset_upload w) = (ret, w1)" by (cases "select_target b uri (reset_upload w)")
  obtain mx w2 where m: "recovery_calc_target_max b (current_target w1) w1 = (mx, w2)"
    by (cases "recovery_calc_target_max b (current_target w1) w1")
  have c1: "ctl w1 = (False, flash_request w, reboot_post_pending w, reboot_request w, 0, 0, 0, recv_base w, reboot_timer (ext w))"
    "ext w1 = ext w"
    using select_target_ctl [OF s] by (simp_all add: ctl_def reset_upload_def)
  have "core w2 = core w1" using calc_target_max_keeps [OF m] unfolding keeps_def by blast
  then have c2: "ctl w2 = ctl w1 \<and> ext w2 = ext w1" by (rule core_ctl)
  let ?sz = "size_accepted (current_target w2) mx (env_get_hex (env w2) ''recovery_max'' 0) n"
  let ?w3 = "w2\<lparr>recv_total := of_int n, upload_start_ms := clock (ext w2)\<rparr>"
  let ?rej = "\<lambda>err w. ((err, False), respond c ''/400.html'' (w\<lparr>prog_phase := -1\<rparr>)) :: (int \<times> bool) \<times> 'd rworld"
  have eq: "httpd_post_begin b c uri n w =
     (if ret \<noteq> 0 then ?rej ERR_ARG w1
      else if mx = 0 then ?rej ERR_ARG w2
      else if \<not> ?sz then ?rej ERR_ARG w2
      else case upload_buffer b (env w2) (of_int n) of
             None \<Rightarrow> ?rej ERR_MEM ?w3
           | Some base \<Rightarrow> ((ERR_OK, False), ?w3\<lparr>recv_base := base, post_ok := True\<rparr>))"
    unfolding httpd_post_begin_def Let_def s m prod.case using False by simp
  have rej: thesis if ex: "\<exists>e v. e \<noteq> 0 \<and> ((err, auto_wnd), w') = ?rej e v \<and> recv_off v = 0 \<and> ext v = ext w \<and>
      ctl v = (False, flash_request w, reboot_post_pending w, reboot_request w, 0, 0, recv_total v, recv_base v, reboot_timer (ext w))"
  proof -
    obtain e v where v: "e \<noteq> 0" "err = e" "w' = respond c ''/400.html'' (v\<lparr>prog_phase := -1\<rparr>)" "recv_off v = 0" "ext v = ext w"
      "ctl v = (False, flash_request w, reboot_post_pending w, reboot_request w, 0, 0, recv_total v, recv_base v, reboot_timer (ext w))"
      using ex by auto
    show ?thesis
      by (rule rejected) (use v False in \<open>auto simp: ctl_def respond_def upd_ext_def\<close>)
  qed
  consider (a) "ret \<noteq> 0" | (b) "ret = 0" "mx = 0 \<or> \<not> ?sz"
    | (c) "ret = 0" "mx \<noteq> 0" "?sz" "upload_buffer b (env w2) (of_int n) = None"
    | (d) base where "ret = 0" "mx \<noteq> 0" "?sz" "upload_buffer b (env w2) (of_int n) = Some base"
    by blast
  then show ?thesis
  proof cases
    case a
    then have "httpd_post_begin b c uri n w = ?rej ERR_ARG w1" using eq by simp
    then show ?thesis using run c1 by (intro rej exI [of _ "ERR_ARG"] exI [of _ w1]) (simp add: ctl_def)
  next
    case b
    then have "httpd_post_begin b c uri n w = ?rej ERR_ARG w2" using eq by (cases "mx = 0") simp_all
    then show ?thesis using run c1 c2 by (intro rej exI [of _ "ERR_ARG"] exI [of _ w2]) (simp add: ctl_def)
  next
    case c
    then have "httpd_post_begin b c uri n w = ?rej ERR_MEM ?w3" using eq by simp
    then show ?thesis using run c1 c2 by (intro rej exI [of _ "ERR_MEM"] exI [of _ ?w3]) (simp add: ctl_def)
  next
    case d
    have e: "err = 0 \<and> \<not> auto_wnd \<and> w' = ?w3\<lparr>recv_base := base, post_ok := True\<rparr>" using run eq d by auto
    have "0 < n" using d(3) by (auto simp: size_accepted_def Let_def split: if_splits)
    then show ?thesis
      using accepted e False upload_buffer_in_ram [OF ram d(4)] c1 c2 by (simp add: ctl_def)
  qed
qed

lemma busy_ctl: "recovery_busy w \<longleftrightarrow> (case ctl w of (ok, fl, rp, rr, ph, _) \<Rightarrow> ok \<or> fl \<or> rp \<or> rr \<or> ph > 0)"
  by (simp add: recovery_busy_def ctl_def)

lemma conn_ok_idle: "conn_ok w hs \<Longrightarrow> post_content_len_left hs = 0 \<Longrightarrow> conn_ok w' hs"
  by (simp add: conn_ok_def)

text \<open>An idle server: a connection without a response page may begin an upload or ask for a reboot.\<close>

lemma conns_inv_fresh:
  assumes "conns_inv b C w" "C c = Some hs" "post_content_len_left hs = 0" "\<not> hs_handle hs"
  shows "\<not> post_finished hs" "unrecved_bytes hs = 0" "\<not> post_response_pending hs"
  using conns_invD(1) [OF assms(1,2)] assms(3,4) unfolding conn_ok_def by blast+

lemma conns_upd: "(C(c := Some h)) x = Some y \<Longrightarrow> x = c \<and> y = h \<or> x \<noteq> c \<and> C x = Some y"
  by (auto split: if_splits)

text \<open>A connection that nothing waits for may be replaced by one without a body.\<close>

lemma conns_inv_put:
  assumes inv: "conns_inv b C w"
    and old: "\<And>y. C c = Some y \<Longrightarrow> post_content_len_left y = 0 \<and> \<not> post_response_pending y"
    and new: "conn_ok w h" "post_content_len_left h = 0"
  shows "conns_inv b (C(c := Some h)) w"
proof -
  have other: "(C(c := Some h)) x = Some y" if "C x = Some y" "post_content_len_left y \<noteq> 0 \<or> post_response_pending y" for x y
    using that old [of y] by (cases "x = c") auto
  show ?thesis
  proof (rule conns_invI)
    fix x y assume "(C(c := Some h)) x = Some y"
    then show "conn_ok w y" using conns_upd [of C c h x y] new conns_invD(1) [OF inv, of x y] by blast
  next
    fix x x' y y' assume "(C(c := Some h)) x = Some y" "(C(c := Some h)) x' = Some y'"
      "post_content_len_left y \<noteq> 0" "post_content_len_left y' \<noteq> 0"
    then show "x = x'" using conns_upd [of C c h x y] conns_upd [of C c h x' y'] new conns_invD(2) [OF inv, of x y x' y'] by blast
  next
    assume "post_ok w" "recv_off w \<noteq> recv_total w"
    then obtain x y where y: "C x = Some y" "post_content_len_left y \<noteq> 0" using conns_invD(6) [OF inv] by blast
    then show "\<exists>x y. (C(c := Some h)) x = Some y \<and> post_content_len_left y \<noteq> 0" using other [OF y(1)] by blast
  next
    assume "post_ok w" "recv_off w = recv_total w" "\<not> flash_request w"
    then obtain x y where y: "C x = Some y" "post_response_pending y" using conns_invD(7) [OF inv] by blast
    then show "\<exists>x y. (C(c := Some h)) x = Some y \<and> post_response_pending y" using other [OF y(1)] by blast
  next
    assume "reboot_post_pending w"
    from conns_invD(8) [OF inv this]
    show "(\<exists>x y. (C(c := Some h)) x = Some y \<and> post_response_pending y) \<or> reboot_timer (ext w) \<or> reboot_request w"
    proof (elim disjE exE conjE)
      fix x y assume y: "C x = Some y" "post_response_pending y"
      then show ?thesis using other [OF y(1)] by blast
    qed simp_all
  qed (use conns_invD(3,4,5) [OF inv] in auto)
qed

text \<open>The same when the server has no upload, before and after.\<close>

lemma conns_inv_idle:
  assumes inv: "conns_inv b C w" and w: "\<not> post_ok w" and h: "conn_ok w h" "post_content_len_left h = 0"
    and w': "\<not> post_ok w'" "\<not> flash_request w'" "recv_off w' \<le> recv_total w'"
      "reboot_post_pending w' \<Longrightarrow> post_response_pending h \<or> reboot_timer (ext w') \<or> reboot_request w'"
  shows "conns_inv b (C(c := Some h)) w'"
proof -
  have q: "conn_ok w y \<and> post_content_len_left y = 0" if "(C(c := Some h)) x = Some y" for x y
    using conns_upd [OF that] h conns_invD(1) [OF inv, of x y] no_body [OF inv _, of x y] w by blast
  show ?thesis
  proof (rule conns_invI)
    fix x y assume "(C(c := Some h)) x = Some y"
    from q [OF this] show "conn_ok w' y" using conn_ok_idle by blast
  next
    fix x x' y y' assume "(C(c := Some h)) x = Some y" and l: "post_content_len_left y \<noteq> 0"
    from q [OF this(1)] l show "x = x'" by simp
  next
    assume "reboot_post_pending w'"
    from w'(4) [OF this] show "(\<exists>x y. (C(c := Some h)) x = Some y \<and> post_response_pending y) \<or> reboot_timer (ext w') \<or> reboot_request w'"
      by auto
  qed (use w' in auto)
qed

text \<open>An accepted upload makes its connection the owner of the body.\<close>

lemma conns_inv_accept:
  assumes inv: "conns_inv b C w" and w: "\<not> post_ok w" and h: "conn_ok w1 h" "post_content_len_left h \<noteq> 0"
    and w1: "post_ok w1" "\<not> flash_request w1" "\<not> reboot_post_pending w1" "prog_phase w1 = 0" "recv_off w1 = 0"
      "recv_total w1 \<noteq> 0" "buffer_in_ram b (recv_base w1) (recv_total w1)"
  shows "conns_inv b (C(c := Some h)) w1"
proof (rule conns_invI)
  fix x y assume "(C(c := Some h)) x = Some y"
  then consider "y = h" | "C x = Some y" using conns_upd [of C c h x y] by blast
  then show "conn_ok w1 y"
  proof cases
    case 2
    then show ?thesis using conn_ok_idle [OF conns_invD(1) [OF inv 2] no_body [OF inv _ 2]] w by blast
  qed (use h in simp)
next
  fix x x' y y' assume "(C(c := Some h)) x = Some y" "(C(c := Some h)) x' = Some y'"
    "post_content_len_left y \<noteq> 0" "post_content_len_left y' \<noteq> 0"
  then show "x = x'"
    using conns_upd [of C c h x y] conns_upd [of C c h x' y'] no_body [OF inv, of x y] no_body [OF inv, of x' y'] w by blast
next
  show "\<exists>x y. (C(c := Some h)) x = Some y \<and> post_content_len_left y \<noteq> 0"
    using h(2) by (intro exI [of _ c] exI [of _ h]) simp
qed (use w1 in auto)

text \<open>A request for a reboot has no body, so it is finished and answered at once.\<close>

lemma post_request_reboot:
  assumes "httpd_post_begin b c uri 0 w = ((0, True), w1)" "w1 = w\<lparr>reboot_post_pending := True\<rparr>"
    and "post_content_len_left hs = 0" "\<not> post_finished hs" "unrecved_bytes hs = 0"
  shows "http_post_request b c uri 0 body hs w =
    (hs\<lparr>no_auto_wnd := False, post_content_len_left := 0, post_finished := True, post_response_pending := True, hs_handle := True\<rparr>,
     respond c ''/ok'' (w1\<lparr>lan_activity_ms := clock (ext w1)\<rparr>))"
proof -
  define qs where "qs = (case body of Some qs \<Rightarrow> qs | None \<Rightarrow> [[]])"
  define h1 where "h1 = hs\<lparr>no_auto_wnd := False, post_content_len_left := 0\<rparr>"
  define k where "k = length (concat qs)"
  have "http_post_request b c uri 0 body hs w = http_post_rxpbuf c h1 (Some qs) w1"
    using assms unfolding http_post_request_def by (cases body) (simp_all add: h1_def qs_def)
  also have "httpd_post_receive_data (Some qs) w1 = ((ERR_OK, 0), w1\<lparr>lan_activity_ms := clock (ext w1)\<rparr>)"
    using assms(2) by (simp add: httpd_post_receive_data_def)
  then have "http_post_rxpbuf c h1 (Some qs) w1 = (h1\<lparr>post_finished := True, post_response_pending := True, hs_handle := True\<rparr>,
      respond c ''/ok'' (w1\<lparr>lan_activity_ms := clock (ext w1)\<rparr>))"
    unfolding http_post_rxpbuf_def option.case k_def [symmetric] Let_def prod.case
    using assms by (cases "k = 0") (simp_all add: httpd_post_data_recved_def http_handle_post_finished_def httpd_post_finished_def h1_def)
  finally show ?thesis by (simp add: h1_def)
qed

lemma u32_of_len: "0 \<le> n \<Longrightarrow> n < 2 ^ 31 \<Longrightarrow> unat (of_int n :: u32) = nat n"
proof -
  assume n: "0 \<le> n" "n < 2 ^ 31"
  have "of_int n = (of_nat (nat n) :: u32)" using n by simp
  then show ?thesis using n unat_of_nat_small [where 'a = 32, of "nat n"] by (simp only:) simp
qed

lemma post_request_inv:
  assumes ram: "ram_ok b" and inv: "conns_inv b C w" and c: "C c = Some hs"
    and hs: "post_content_len_left hs = 0" "\<not> hs_handle hs" and n: "0 \<le> n" "n < 2 ^ 31"
    and body: "\<And>qs. body = Some qs \<Longrightarrow> chain_ok qs"
    and run: "http_post_request b c uri n body hs w = (hs', w')"
    and conns: "conns (ext w) = C"
  shows "conns_inv b (C(c := Some hs')) w' \<and> conns (ext w') = C \<and> files (ext w') = files (ext w)"
proof -
  obtain err aw w1 where bg: "httpd_post_begin b c uri n w = ((err, aw), w1)" by (metis prod.exhaust)
  note fresh = conns_inv_fresh [OF inv c hs]
  let ?h = "hs\<lparr>hs_handle := True\<rparr>"
  have hok: "conn_ok w ?h" and h0: "post_content_len_left ?h = 0" using fresh hs by (simp_all add: conn_ok_def)
  from ram bg n(2) show ?thesis
  proof (cases rule: post_begin_cases)
    case refused
    then have e: "hs' = ?h" "w' = w1" using run bg by (simp_all add: http_post_request_def)
    have "conns_inv b (C(c := Some ?h)) w" by (rule conns_inv_put [OF inv _ hok h0]) (use c hs fresh in auto)
    then show ?thesis using refused conns conns_inv_ctl [of w1 w] e by simp
  next
    case rejected
    then have e: "hs' = ?h" "w' = w1" using run bg by (simp_all add: http_post_request_def)
    have nb: "\<not> post_ok w" "\<not> flash_request w" "\<not> reboot_post_pending w" using rejected by (simp_all add: recovery_busy_def)
    have "conns_inv b (C(c := Some ?h)) w1"
      by (rule conns_inv_idle [OF inv nb(1) hok h0]) (use rejected nb in \<open>auto simp: ctl_def\<close>)
    then show ?thesis using rejected conns e by simp
  next
    case reboot
    have nb: "\<not> post_ok w" "\<not> flash_request w" "\<not> reboot_post_pending w" using reboot by (simp_all add: recovery_busy_def)
    have e: "hs' = hs\<lparr>no_auto_wnd := False, post_content_len_left := 0, post_finished := True, post_response_pending := True, hs_handle := True\<rparr>"
      "w' = respond c ''/ok'' (w1\<lparr>lan_activity_ms := clock (ext w1)\<rparr>)"
      using post_request_reboot [of b c uri w w1 hs body] run bg reboot fresh hs by simp_all
    have ct: "ctl w' = (False, False, True, reboot_request w, prog_phase w, recv_off w, recv_total w, recv_base w, reboot_timer (ext w))"
      using nb reboot(5) by (simp add: e(2)) (simp add: ctl_def)
    have hk: "conn_ok w hs'" "post_content_len_left hs' = 0" "post_response_pending hs'" using fresh hs e(1) by (simp_all add: conn_ok_def)
    have "conns_inv b (C(c := Some hs')) w'"
      by (rule conns_inv_idle [OF inv nb(1) hk(1,2)]) (use ct hk(3) conns_invD(3) [OF inv] in \<open>auto simp: ctl_def\<close>)
    then show ?thesis using reboot conns e(2) by simp
  next
    case accepted
    have nb: "\<not> post_ok w" "\<not> flash_request w" "\<not> reboot_post_pending w" using accepted by (simp_all add: recovery_busy_def)
    define h1 where "h1 = hs\<lparr>no_auto_wnd := True, post_content_len_left := of_int n\<rparr>"
    have n0: "(of_int n :: u32) \<noteq> 0" using u32_of_len [OF n] accepted(6) by (auto simp flip: unat_eq_0)
    have w1: "post_ok w1" "\<not> flash_request w1" "\<not> reboot_post_pending w1" "prog_phase w1 = 0" "recv_off w1 = 0" "recv_total w1 = of_int n"
      using accepted nb by (auto simp: ctl_def)
    have inv1: "conns_inv b (C(c := Some h1)) w1"
      by (rule conns_inv_accept [OF inv nb(1)]) (use w1 n0 fresh accepted(7) in \<open>simp_all add: h1_def conn_ok_def\<close>)
    show ?thesis
    proof (cases body)
      case None
      then have "hs' = h1" "w' = w1" using run bg accepted n0 by (simp_all add: http_post_request_def h1_def)
      then show ?thesis using inv1 accepted conns by simp
    next
      case (Some qs)
      have "http_post_rxpbuf c (h1\<lparr>unrecved_bytes := of_nat (length (concat qs))\<rparr>) (Some qs) w1 = (hs', w')"
        using run bg accepted Some unfolding http_post_request_def by (simp add: h1_def)
      from rxpbuf_inv [OF body [OF Some] inv1 _ this] show ?thesis using n0 accepted conns by (simp add: h1_def)
    qed
  qed
qed

section \<open>Closing a connection\<close>

text \<open>A connection that nothing waits for can go.\<close>

lemma conns_inv_drop:
  assumes inv: "conns_inv b C w" and c: "\<And>hs. C c = Some hs \<Longrightarrow> post_content_len_left hs = 0 \<and> \<not> post_response_pending hs"
  shows "conns_inv b (C(c := None)) w"
proof (rule conns_invI)
  fix x hs assume "(C(c := None)) x = Some hs"
  then show "conn_ok w hs" using conns_invD(1) [OF inv, of x hs] by (simp split: if_splits)
next
  fix x x' hs hs' assume "(C(c := None)) x = Some hs" "(C(c := None)) x' = Some hs'"
    "post_content_len_left hs \<noteq> 0" "post_content_len_left hs' \<noteq> 0"
  then show "x = x'" using conns_invD(2) [OF inv, of x hs x' hs'] by (simp split: if_splits)
next
  assume "post_ok w" "recv_off w \<noteq> recv_total w"
  then obtain x hs where "C x = Some hs" "post_content_len_left hs \<noteq> 0" using conns_invD(6) [OF inv] by blast
  then show "\<exists>x hs. (C(c := None)) x = Some hs \<and> post_content_len_left hs \<noteq> 0"
    using c by (intro exI [of _ x] exI [of _ hs]) auto
next
  assume "post_ok w" "recv_off w = recv_total w" "\<not> flash_request w"
  then obtain x hs where "C x = Some hs" "post_response_pending hs" using conns_invD(7) [OF inv] by blast
  then show "\<exists>x hs. (C(c := None)) x = Some hs \<and> post_response_pending hs"
    using c by (intro exI [of _ x] exI [of _ hs]) auto
next
  assume "reboot_post_pending w"
  then consider x hs where "C x = Some hs" "post_response_pending hs" | "reboot_timer (ext w) \<or> reboot_request w"
    using conns_invD(8) [OF inv] by blast
  then show "(\<exists>x hs. (C(c := None)) x = Some hs \<and> post_response_pending hs) \<or> reboot_timer (ext w) \<or> reboot_request w"
  proof cases
    case 1
    then have "(C(c := None)) x = Some hs" using c by auto
    then show ?thesis using 1 by blast
  qed blast
qed (use conns_invD(3,4,5) [OF inv] in auto)

text \<open>The outcome of a response, whichever connection it belongs to.\<close>

lemma response_complete_inv:
  assumes inv: "conns_inv b C w" and c: "C c = Some hs" and p: "post_response_pending hs"
  shows "conns_inv b (C(c := None)) (httpd_post_response_complete result w)"
proof -
  let ?C = "C(c := None)" let ?w = "httpd_post_response_complete result w"
  have l: "post_content_len_left hs = 0" using conns_invD(1) [OF inv c] p by (auto simp: conn_ok_def)
  have C: "?C x = Some y \<Longrightarrow> C x = Some y \<and> x \<noteq> c" for x y by (simp split: if_splits)
  have ok: "?C x = Some y \<Longrightarrow> conn_ok w y" for x y using C conns_invD(1) [OF inv] by blast
  have uniq: "?C x = Some y \<Longrightarrow> ?C x' = Some y' \<Longrightarrow> post_content_len_left y \<noteq> 0 \<Longrightarrow>
      post_content_len_left y' \<noteq> 0 \<Longrightarrow> x = x'" for x x' y y'
    using C conns_invD(2) [OF inv] by blast
  have body: "\<exists>x y. ?C x = Some y \<and> post_content_len_left y \<noteq> 0" if ex: "post_ok w" "recv_off w \<noteq> recv_total w"
  proof -
    obtain x y where "C x = Some y" "post_content_len_left y \<noteq> 0" using conns_invD(6) [OF inv ex] by blast
    then show ?thesis using c l by (intro exI [of _ x] exI [of _ y]) auto
  qed
  note i = conns_invD(3,4,5) [OF inv]
  consider (r) "reboot_post_pending w" | (n) "\<not> reboot_post_pending w" "\<not> post_ok w \<or> recv_off w \<noteq> recv_total w"
    | (d) "\<not> reboot_post_pending w" "post_ok w" "recv_off w = recv_total w" by blast
  then show ?thesis
  proof cases
    case r
    then have np: "\<not> post_ok w" using i(2) by blast
    have l0: "?C x = Some y \<Longrightarrow> post_content_len_left y = 0" for x y using no_body [OF inv] C np by blast
    have ct: "ctl ?w = (False, False, result = 0, if result = 0 then False else reboot_request w, prog_phase w, recv_off w,
        recv_total w, recv_base w, result = 0 \<or> reboot_timer (ext w))"
      using r np i(3) by (auto simp: httpd_post_response_complete_def ctl_def upd_ext_def)
    show ?thesis
    proof (rule conns_invI)
      fix x y assume x: "?C x = Some y"
      show "conn_ok ?w y" by (rule conn_ok_idle [OF ok [OF x] l0 [OF x]])
    next
      fix x x' y y' assume "?C x = Some y" "post_content_len_left y \<noteq> 0"
      then show "x = x'" using l0 by blast
    qed (use ct i(1) in \<open>auto simp: ctl_def\<close>)
  next
    case n
    then have w: "?w = w" using i by (auto simp: httpd_post_response_complete_def)
    show ?thesis unfolding w
    proof (rule conns_invI)
      show "(\<exists>x y. ?C x = Some y \<and> post_response_pending y) \<or> reboot_timer (ext w) \<or> reboot_request w" if "reboot_post_pending w"
        using that n by blast
    qed (use ok uniq body i n in blast)+
  next
    case d
    have l0: "?C x = Some y \<Longrightarrow> post_content_len_left y = 0" for x y using no_body [OF inv] C d by blast
    have w: "?w = (if result \<noteq> 0 then w\<lparr>post_ok := False, prog_phase := -1\<rparr> else w\<lparr>flash_request := True\<rparr>)"
      using d i by (auto simp: httpd_post_response_complete_def)
    show ?thesis
    proof (rule conns_invI)
      fix x y assume x: "?C x = Some y"
      show "conn_ok ?w y" by (rule conn_ok_idle [OF ok [OF x] l0 [OF x]])
    next
      fix x x' y y' assume "?C x = Some y" "post_content_len_left y \<noteq> 0"
      then show "x = x'" using l0 by blast
    qed (use w d i in \<open>auto split: if_splits\<close>)
  qed
qed

lemma fs_close_ctl: "ctl (snd (fs_close_custom f w)) = ctl w" "ext (snd (fs_close_custom f w)) = ext w"
  by (auto simp: fs_close_custom_def recovery_close_mtd_backup_def put_mtd_device_def ctl_def Let_def split: option.splits)

lemma state_free_ctl: "ctl (http_state_free c w) = ctl w" "conns (ext (http_state_free c w)) = conns (ext w)"
  using fs_close_ctl [of _ w]
  by (auto simp: http_state_free_def ctl_def upd_ext_def split: option.splits)

lemma set_hs_inv: "http_inv b (set_hs c hs w) \<longleftrightarrow> conns_inv b ((conns (ext w))(c := hs)) w"
proof -
  have "ctl (set_hs c hs w) = ctl w" by (simp add: ctl_def set_hs_def upd_ext_def)
  from conns_inv_ctl [OF this] have "conns_inv b C (set_hs c hs w) = conns_inv b C w" for C .
  moreover have "conns (ext (set_hs c hs w)) = (conns (ext w))(c := hs)" by (simp add: set_hs_def upd_ext_def)
  ultimately show ?thesis by (simp only: http_inv_def)
qed

lemma response_complete_conns: "conns (ext (httpd_post_response_complete r w)) = conns (ext w)"
  by (simp add: httpd_post_response_complete_def upd_ext_def)

lemma post_finished_conns: "conns (ext (httpd_post_finished c w)) = conns (ext w)"
  by (simp add: httpd_post_finished_def respond_def upd_ext_def)

lemma http_close_inv:
  assumes inv: "http_inv b w" and c: "conns (ext w) c = Some hs"
  shows "http_inv b (http_close c hs result w)"
proof -
  let ?C = "conns (ext w)"
  have i: "conns_inv b ?C w" using inv by (simp add: http_inv_def)
  have ok: "conn_ok w hs" by (rule conns_invD(1) [OF i c])
  have fin: "http_inv b (set_hs c None (http_state_free c v))" if "conns_inv b (?C(c := None)) v" "conns (ext v) = ?C" for v
    unfolding set_hs_inv using that conns_inv_ctl [OF state_free_ctl(1) [of c v]] state_free_ctl(2) [of c v] by simp
  consider (p) "post_response_pending hs" | (f) "\<not> post_response_pending hs" "post_content_len_left hs = 0"
    | (l) "\<not> post_response_pending hs" "post_content_len_left hs \<noteq> 0" by blast
  then show ?thesis
  proof cases
    case p
    then have "post_finished hs" using ok by (simp add: conn_ok_def)
    then have "http_close c hs result w = set_hs c None (http_state_free c (httpd_post_response_complete result w))"
      using p by (simp add: http_close_def http_post_response_notify_def http_post_connection_closed_def)
    then show ?thesis using fin [OF response_complete_inv [OF i c p] response_complete_conns] by simp
  next
    case f
    have "http_close c hs result w = set_hs c None (http_state_free c w)"
      using f ok unfolding conn_ok_def
      by (simp add: http_close_def http_post_response_notify_def http_post_connection_closed_def)
    moreover have "conns_inv b (?C(c := None)) w" by (rule conns_inv_drop [OF i]) (use c f in auto)
    ultimately show ?thesis using fin [of w] by simp
  next
    case l
    have o: "post_ok w" "recv_off w \<noteq> recv_total w" "\<not> post_finished hs"
      using ok l(2) unfolding conn_ok_def by (auto simp: unat_eq_0)
    then have nr: "\<not> reboot_post_pending w" "\<not> flash_request w" "\<not> recv_total w \<le> recv_off w"
      using conns_invD(3,4,5) [OF i] by (auto simp: not_le)
    have pf: "httpd_post_finished c w = respond c ''/400.html'' (w\<lparr>post_ok := False, prog_phase := -1\<rparr>)"
      using nr by (simp add: httpd_post_finished_def)
    have eq: "http_close c hs result w = set_hs c None (http_state_free c (httpd_post_finished c w))"
      using l o by (simp add: http_close_def http_post_response_notify_def http_post_connection_closed_def)
    have "conns_inv b (?C(c := None)) (httpd_post_finished c w)"
    proof (rule conns_inv_give_up [OF i, where p = "-1" and off = "recv_off w"])
      fix x y assume "(?C(c := None)) x = Some y"
      then have y: "?C x = Some y" "x \<noteq> c" by (simp_all split: if_splits)
      have "?C(c := Some hs) = ?C" using c by auto
      then show "conn_ok w y \<and> post_content_len_left y = 0"
        using conns_inv_others [of b ?C c hs w x y] i l(2) y by simp
    next
      show "ctl (httpd_post_finished c w) = (False, False, reboot_post_pending w, reboot_request w, -1, recv_off w,
          recv_total w, recv_base w, reboot_timer (ext w))"
        unfolding pf using nr by simp (simp add: ctl_def)
    qed (use conns_invD(3) [OF i] nr in auto)
    then show ?thesis unfolding eq using fin post_finished_conns by blast
  qed
qed

section \<open>Every event keeps the invariant\<close>

lemma fs_open_ctl:
  assumes "fs_open_custom b mem_ok about name w = (f, w')"
  shows "ctl w' = ctl w" "ext w' = ext w"
proof -
  have "core w2 = core w" if "recovery_open_mtd_backup b mem_ok part fn w = (g, w2)" for part fn g w2
  proof (cases "get_mtd b part w")
    case (Pair r w1)
    have "core w1 = core w" using Pair by (auto elim: get_mtd_cases)
    then show ?thesis using that Pair
      by (auto simp: recovery_open_mtd_backup_def put_refs Let_def split: sum.splits if_splits)
  qed
  then have "core w' = core w" using assms by (auto simp: fs_open_custom_def Let_def split: if_splits)
  then show "ctl w' = ctl w" "ext w' = ext w" using core_ctl by blast+
qed

lemma http_inv_ctl: "ctl w' = ctl w \<Longrightarrow> conns (ext w') = conns (ext w) \<Longrightarrow> http_inv b w' = http_inv b w"
  using conns_inv_ctl [of w' w b "conns (ext w)"] by (simp only: http_inv_def)

lemma accept_event_inv:
  assumes inv: "http_inv b w"
  shows "http_inv b (handle_event b (Accepted c) w)"
proof (cases "conns (ext w) c")
  case None
  have "conns_inv b ((conns (ext w))(c := Some http_state_init)) w"
    by (rule conns_inv_put [OF inv [unfolded http_inv_def]]) (use None in \<open>auto simp: conn_ok_def http_state_init_def\<close>)
  then show ?thesis using None by (simp add: handle_event_def set_hs_inv)
qed (use inv in \<open>simp add: handle_event_def\<close>)

lemma request_event_inv:
  assumes ram: "ram_ok b" and inv: "http_inv b w"
  shows "http_inv b (handle_event b (PostRequest c uri n body) w)"
proof (cases "conns (ext w) c")
  case (Some hs)
  show ?thesis
  proof (cases "post_content_len_left hs = 0 \<and> \<not> hs_handle hs \<and> 0 \<le> n \<and> n < 2 ^ 31 \<and> (case body of Some qs \<Rightarrow> chain_ok qs | None \<Rightarrow> True)")
    case True
    obtain hs' w' where r: "http_post_request b c uri n body hs w = (hs', w')" by (cases "http_post_request b c uri n body hs w")
    have "conns_inv b ((conns (ext w))(c := Some hs')) w' \<and> conns (ext w') = conns (ext w) \<and> files (ext w') = files (ext w)"
      by (rule post_request_inv [OF ram inv [unfolded http_inv_def] Some _ _ _ _ _ r refl]) (use True in auto)
    then have "http_inv b (set_hs c (Some hs') w')" by (simp add: set_hs_inv)
    then show ?thesis using True r Some by (simp add: handle_event_def)
  next
    case False
    then have "handle_event b (PostRequest c uri n body) w = w"
      using Some by (simp only: handle_event_def net_event.case option.case if_False)
    then show ?thesis using inv by simp
  qed
qed (use inv in \<open>simp add: handle_event_def\<close>)

lemma data_event_inv:
  assumes inv: "http_inv b w"
  shows "http_inv b (handle_event b (PostData c qs) w)"
proof (cases "conns (ext w) c")
  case (Some hs)
  have i: "conns_inv b (conns (ext w)) w" using inv by (simp add: http_inv_def)
  have cx: "(conns (ext w))(c := Some hs) = conns (ext w)" using Some by auto
  show ?thesis
  proof (cases "post_content_len_left hs > 0 \<and> chain_ok qs")
    case True
    then have l: "post_content_len_left hs \<noteq> 0" by auto
    then have h: "no_auto_wnd hs" "unrecved_bytes hs = 0"
      using conns_invD(1) [OF i Some] unfolding conn_ok_def by blast+
    let ?h = "hs\<lparr>unrecved_bytes := of_nat (length (concat qs))\<rparr>"
    obtain hs' w' where r: "http_post_rxpbuf c ?h (Some qs) w = (hs', w')" by (cases "http_post_rxpbuf c ?h (Some qs) w")
    have "conns_inv b ((conns (ext w))(c := Some hs')) w' \<and> conns (ext w') = conns (ext w) \<and> files (ext w') = files (ext w)"
      by (rule rxpbuf_inv [OF _ _ l r]) (use True i cx in auto)
    then have "http_inv b (set_hs c (Some hs') w')" by (simp add: set_hs_inv)
    then show ?thesis using True r Some h by (simp add: handle_event_def)
  next
    case False
    then have "handle_event b (PostData c qs) w = w" using Some by (simp only: handle_event_def net_event.case option.case if_False)
    then show ?thesis using inv by simp
  qed
qed (use inv in \<open>simp add: handle_event_def\<close>)

lemma handle_event_inv:
  assumes ram: "ram_ok b" and inv: "http_inv b w"
  shows "http_inv b (handle_event b ev w)"
proof (cases ev)
  case (Accepted c)
  then show ?thesis using accept_event_inv [OF inv] by simp
next
  case (PostRequest c uri n body)
  then show ?thesis using request_event_inv [OF ram inv] by simp
next
  case (PostData c qs)
  then show ?thesis using data_event_inv [OF inv] by simp
next
  case (FileOpen c mem about name)
  obtain f w1 where o1: "fs_open_custom b mem about name w = (f, w1)" by (cases "fs_open_custom b mem about name w")
  have "http_inv b (upd_ext (\<lambda>n. n\<lparr>files := (files n)(c := f)\<rparr>) w1)"
    using inv http_inv_ctl [of "upd_ext (\<lambda>n. n\<lparr>files := (files n)(c := f)\<rparr>) w1" w b] fs_open_ctl [OF o1]
    by (simp add: ctl_def upd_ext_def)
  then show ?thesis using inv FileOpen o1 by (auto simp: handle_event_def split: option.splits)
next
  case (FileRead c n)
  have "http_inv b (upd_ext (\<lambda>n. n\<lparr>files := (files n)(c := g)\<rparr>) (w\<lparr>dev := d\<rparr>))" for g d
    using inv http_inv_ctl [of "upd_ext (\<lambda>n. n\<lparr>files := (files n)(c := g)\<rparr>) (w\<lparr>dev := d\<rparr>)" w b]
    by (simp add: ctl_def upd_ext_def)
  then show ?thesis using inv FileRead by (auto simp: handle_event_def split: option.splits prod.splits)
next
  case RebootTimer
  have "http_inv b (upd_ext (\<lambda>n. n\<lparr>reboot_timer := False\<rparr>) (reboot_delay_cb w))"
    using inv unfolding http_inv_def conns_inv_def conn_ok_def by (simp add: reboot_delay_cb_def upd_ext_def)
  then show ?thesis using inv RebootTimer by (simp add: handle_event_def)
next
  case (Tick dt)
  show ?thesis using inv http_inv_ctl [of "upd_ext (\<lambda>n. n\<lparr>clock := clock n + dt\<rparr>) w" w b] Tick
    by (simp add: handle_event_def ctl_def upd_ext_def)
qed (use inv http_close_inv in \<open>auto simp: handle_event_def split: option.splits\<close>)

section \<open>What the events leave alone\<close>

text \<open>Open pages stream from devices whose drivers meet their contract.\<close>

definition files_inv :: "('d \<Rightarrow> int \<Rightarrow> u8) \<Rightarrow> 'd rworld \<Rightarrow> bool" where
  "files_inv content w \<longleftrightarrow>
    (\<forall>c f s. files (ext w) c = Some f \<longrightarrow> file_stream f = Some s \<longrightarrow> driver_ok content (stream_mtd s))"

definition server_inv :: "('d \<Rightarrow> int \<Rightarrow> u8) \<Rightarrow> 'd board \<Rightarrow> 'd rworld \<Rightarrow> bool" where
  "server_inv content b w \<longleftrightarrow> ram_ok b \<and> (\<forall>m\<in>set (brd_mtds b). driver_ok content m) \<and> http_inv b w \<and> files_inv content w"

lemma read_backup_content:
  "driver_ok content (stream_mtd s) \<Longrightarrow> read_backup n f s d = (out, f', s', d') \<Longrightarrow>
    content d' = content d \<and> stream_mtd s' = stream_mtd s"
proof (induction n f s d arbitrary: out rule: read_backup.induct)
  case (1 n f s d)
  show ?case
  proof (cases "n = 0 \<or> file_index f \<ge> file_len f")
    case True
    then have "read_backup n f s d = ([], f, s, d)" by (subst read_backup.simps) simp
    then show ?thesis using 1(4) by simp
  next
    case more: False
    show ?thesis
    proof (cases "header_pos s < length (stream_header s)")
      case True
      let ?k = "min n (length (stream_header s) - header_pos s)"
      obtain rest r where r: "read_backup (n - ?k) (f\<lparr>file_index := file_index f + ?k\<rparr>) (s\<lparr>header_pos := header_pos s + ?k\<rparr>) d = (rest, r)"
        by (cases "read_backup (n - ?k) (f\<lparr>file_index := file_index f + ?k\<rparr>) (s\<lparr>header_pos := header_pos s + ?k\<rparr>) d")
      have "r = (f', s', d')"
        using 1(4) more True r unfolding read_backup.simps [of n f s d] by (simp add: Let_def)
      then show ?thesis using 1(1) [OF more True refl refl, of rest] r 1(3) by simp
    next
      case hdr: False
      show ?thesis
      proof (cases "body_pos s < RECOVERY_RAW_PART_SIZE")
        case False
        then have "read_backup n f s d = ([], f, s, d)" using more hdr by (subst read_backup.simps) simp
        then show ?thesis using 1(4) by simp
      next
        case True
        define k where "k = min n (RECOVERY_RAW_PART_SIZE - body_pos s)"
        obtain rb d1 where rd0: "mtd_read (stream_mtd s) (int (body_pos s)) k d = (rb, d1)"
          by (cases "mtd_read (stream_mtd s) (int (body_pos s)) k d")
        obtain ret buf where rb: "rb = (ret, buf)" by (cases rb)
        note rd = rd0 [unfolded rb]
        have c1: "content d1 = content d" using mtdcore.read_same [OF 1(3) rd] .
        obtain rest r where r: "read_backup (n - k) (f\<lparr>file_index := file_index f + k\<rparr>) (s\<lparr>body_pos := body_pos s + k\<rparr>) d1 = (rest, r)"
          by (cases "read_backup (n - k) (f\<lparr>file_index := file_index f + k\<rparr>) (s\<lparr>body_pos := body_pos s + k\<rparr>) d1")
        have eq: "read_backup n f s d = (if (ret \<noteq> 0 \<and> ret \<noteq> -EUCLEAN) \<or> length buf \<noteq> k
            then ([], f\<lparr>file_index := file_len f\<rparr>, s, d1) else (buf @ rest, r))"
          unfolding read_backup.simps [of n f s d] Let_def k_def [symmetric] rd prod.case r using more hdr True by auto
        show ?thesis
        proof (cases "(ret \<noteq> 0 \<and> ret \<noteq> -EUCLEAN) \<or> length buf \<noteq> k")
          case bad: True
          then show ?thesis using eq 1(4) c1 by auto
        next
          case good: False
          then have r': "read_backup (n - k) (f\<lparr>file_index := file_index f + k\<rparr>) (s\<lparr>body_pos := body_pos s + k\<rparr>) d1 = (rest, f', s', d')"
            using eq 1(4) r by auto
          have "driver_ok content (stream_mtd (s\<lparr>body_pos := body_pos s + k\<rparr>))" using 1(3) by simp
          from 1(2) [OF more hdr True k_def refl rd [symmetric] refl good this r'] show ?thesis using c1 by simp
        qed
      qed
    qed
  qed
qed

lemma fs_read_content:
  assumes "\<And>s. file_stream f = Some s \<Longrightarrow> driver_ok content (stream_mtd s)" "fs_read_custom f n d = (out, f', d')"
  shows "content d' = content d \<and> (\<forall>s'. file_stream f' = Some s' \<longrightarrow> driver_ok content (stream_mtd s'))"
proof (cases "n \<le> 0 \<or> file_stream f = None")
  case True
  then have "d' = d \<and> file_stream f' = file_stream f"
    using assms(2) by (auto simp: fs_read_custom_def Let_def split: if_splits option.splits)
  then show ?thesis using assms(1) by simp
next
  case False
  then obtain s where s: "file_stream f = Some s" by auto
  obtain o1 f1 s1 d1 where r: "read_backup (nat n) f s d = (o1, f1, s1, d1)" by (cases "read_backup (nat n) f s d")
  have "f' = f1\<lparr>file_stream := Some s1\<rparr> \<and> d' = d1"
    using assms(2) False s r by (auto simp: fs_read_custom_def recovery_read_mtd_backup_def)
  then show ?thesis using read_backup_content [OF assms(1) [OF s] r] assms(1) [OF s] by simp
qed

lemma fs_open_frame:
  assumes "\<forall>m\<in>set (brd_mtds b). driver_ok content m" "fs_open_custom b mem_ok about name w = (f, w')"
  shows "w' = w\<lparr>usecount := usecount w'\<rparr> \<and> (\<forall>g s. f = Some g \<longrightarrow> file_stream g = Some s \<longrightarrow> driver_ok content (stream_mtd s))"
proof -
  have g: "w2 = w\<lparr>usecount := usecount w2\<rparr> \<and> (\<forall>g s. f2 = Some g \<longrightarrow> file_stream g = Some s \<longrightarrow> driver_ok content (stream_mtd s))"
    if op: "recovery_open_mtd_backup b mem_ok part fn w = (f2, w2)" for part fn f2 w2
  proof (cases "get_mtd b part w")
    case (Pair r w1)
    obtain u where u: "w1 = w\<lparr>usecount := u\<rparr>" using Pair
      by (cases r) (auto simp: get_mtd_def split: sum.splits intro: that [of "usecount w"])
    have "r = Inr m \<Longrightarrow> m \<in> set (brd_mtds b)" for m using Pair by (auto elim: get_mtd_cases)
    then show ?thesis using op Pair [unfolded u] assms(1)
      by (cases r) (auto simp: recovery_open_mtd_backup_def put_mtd_device_def Let_def split: if_splits)
  qed
  have s: "recovery_open_custom_response mem_ok ct body = Some h \<Longrightarrow> file_stream h = None" for ct body and h :: "'a fs_file"
    by (auto simp: recovery_open_custom_response_def Let_def split: if_splits)
  show ?thesis using assms(2) g s unfolding fs_open_custom_def Let_def by (auto split: if_splits)
qed

lemma server_invI: "server_inv content b w \<Longrightarrow> http_inv b w' \<Longrightarrow> files_inv content w' \<Longrightarrow> server_inv content b w'"
  by (simp add: server_inv_def)

lemma files_inv_same: "files (ext w') = files (ext w) \<Longrightarrow> files_inv content w' = files_inv content w"
  by (simp add: files_inv_def)

lemma set_hs_files [simp]: "files (ext (set_hs c hs w)) = files (ext w)"
  by (simp add: set_hs_def upd_ext_def)

lemma response_complete_files: "files (ext (httpd_post_response_complete r w)) = files (ext w)"
  by (simp add: httpd_post_response_complete_def upd_ext_def)

lemma post_finished_files: "files (ext (httpd_post_finished c w)) = files (ext w)"
  by (simp add: httpd_post_finished_def respond_def upd_ext_def)

lemma state_free_files: "files (ext (http_state_free c w)) = (files (ext w))(c := None)"
  using fs_close_ctl(2) [of _ w] by (auto simp: http_state_free_def upd_ext_def split: option.splits)

lemma http_close_files: "files (ext (http_close c hs r w)) = (files (ext w))(c := None)"
  by (simp add: http_close_def http_post_response_notify_def http_post_connection_closed_def Let_def
      state_free_files response_complete_files post_finished_files)

lemma files_inv_upd:
  assumes "files_inv content w" "files (ext w') = (files (ext w))(c := f)"
    "\<And>g s. f = Some g \<Longrightarrow> file_stream g = Some s \<Longrightarrow> driver_ok content (stream_mtd s)"
  shows "files_inv content w'"
  using assms unfolding files_inv_def by auto

lemma handle_event_server_inv:
  assumes inv: "server_inv content b w"
  shows "server_inv content b (handle_event b ev w)"
proof (rule server_invI [OF inv])
  have i: "ram_ok b" "http_inv b w" "files_inv content w" and d: "\<forall>m\<in>set (brd_mtds b). driver_ok content m"
    using inv by (simp_all add: server_inv_def)
  show "http_inv b (handle_event b ev w)" by (rule handle_event_inv [OF i(1,2)])
  have c: "conns_inv b (conns (ext w)) w" using i(2) by (simp add: http_inv_def)
  show "files_inv content (handle_event b ev w)"
  proof (cases ev)
    case (Accepted c)
    then show ?thesis using i(3) files_inv_same [of "set_hs c (Some http_state_init) w" w] by (simp add: handle_event_def)
  next
    case (PostRequest c uri n body)
    show ?thesis
    proof (cases "\<exists>hs. conns (ext w) c = Some hs \<and> post_content_len_left hs = 0 \<and> \<not> hs_handle hs \<and> 0 \<le> n \<and> n < 2 ^ 31 \<and>
        (case body of Some qs \<Rightarrow> chain_ok qs | None \<Rightarrow> True)")
      case True
      then obtain hs where hs: "conns (ext w) c = Some hs" "post_content_len_left hs = 0" "\<not> hs_handle hs" "0 \<le> n" "n < 2 ^ 31"
        "case body of Some qs \<Rightarrow> chain_ok qs | None \<Rightarrow> True" by blast
      obtain hs' w' where r: "http_post_request b c uri n body hs w = (hs', w')" by (cases "http_post_request b c uri n body hs w")
      have "files (ext w') = files (ext w)"
      proof -
        have "\<And>qs. body = Some qs \<Longrightarrow> chain_ok qs" using hs(6) by simp
        from post_request_inv [OF i(1) c hs(1-5) this r refl] show ?thesis by blast
      qed
      moreover have "handle_event b ev w = set_hs c (Some hs') w'" using hs r PostRequest by (simp add: handle_event_def)
      ultimately show ?thesis using i(3) files_inv_same [of "set_hs c (Some hs') w'" w] by simp
    next
      case False
      then have "handle_event b ev w = w" using PostRequest by (auto simp: handle_event_def split: option.splits)
      then show ?thesis using i by simp
    qed
  next
    case (PostData c qs)
    show ?thesis
    proof (cases "\<exists>hs. conns (ext w) c = Some hs \<and> post_content_len_left hs > 0 \<and> chain_ok qs")
      case True
      then obtain hs where hs: "conns (ext w) c = Some hs" "post_content_len_left hs > 0" "chain_ok qs" by blast
      then have l: "post_content_len_left hs \<noteq> 0" by auto
      then have h: "no_auto_wnd hs" "unrecved_bytes hs = 0" using conns_invD(1) [OF c hs(1)] unfolding conn_ok_def by blast+
      let ?h = "hs\<lparr>unrecved_bytes := of_nat (length (concat qs))\<rparr>"
      obtain hs' w' where r: "http_post_rxpbuf c ?h (Some qs) w = (hs', w')" by (cases "http_post_rxpbuf c ?h (Some qs) w")
      have cx: "(conns (ext w))(c := Some hs) = conns (ext w)" using hs(1) by auto
      have "files (ext w') = files (ext w)" using rxpbuf_inv [OF hs(3) _ l r] \<open>conns_inv b (conns (ext w)) w\<close> cx by metis
      moreover have "handle_event b ev w = set_hs c (Some hs') w'" using hs r PostData h by (simp add: handle_event_def)
      ultimately show ?thesis using i(3) files_inv_same [of "set_hs c (Some hs') w'" w] by simp
    next
      case False
      then have "handle_event b ev w = w" using PostData by (auto simp: handle_event_def split: option.splits)
      then show ?thesis using i by simp
    qed
  next
    case (ResponseAcked c)
    have "files_inv content (http_close c hs 0 w)" for hs by (rule files_inv_upd [OF i(3) http_close_files]) simp
    then show ?thesis using i ResponseAcked by (auto simp: handle_event_def split: option.splits)
  next
    case (Closed c err)
    have "files_inv content (http_close c hs err w)" for hs by (rule files_inv_upd [OF i(3) http_close_files]) simp
    then show ?thesis using i Closed by (auto simp: handle_event_def split: option.splits)
  next
    case (FileOpen c mem about name)
    obtain f w1 where o1: "fs_open_custom b mem about name w = (f, w1)" by (cases "fs_open_custom b mem about name w")
    note fr = fs_open_frame [OF d o1]
    have "files_inv content (upd_ext (\<lambda>n. n\<lparr>files := (files n)(c := f)\<rparr>) w1)"
      by (rule files_inv_upd [OF i(3), of _ c f]) (use fr fs_open_ctl(2) [OF o1] in \<open>auto simp: upd_ext_def\<close>)
    then show ?thesis using i FileOpen o1 by (auto simp: handle_event_def split: option.splits)
  next
    case (FileRead c n)
    show ?thesis
    proof (cases "files (ext w) c")
      case (Some f)
      obtain out f' d' where r: "fs_read_custom f n (dev w) = (out, f', d')" by (rule prod_cases3)
      have "\<And>s. file_stream f = Some s \<Longrightarrow> driver_ok content (stream_mtd s)" using i(3) Some by (auto simp: files_inv_def)
      from fs_read_content [OF this r]
      have "files_inv content (upd_ext (\<lambda>n. n\<lparr>files := (files n)(c := Some f')\<rparr>) (w\<lparr>dev := d'\<rparr>))"
        by (intro files_inv_upd [OF i(3), of _ c "Some f'"]) (auto simp: upd_ext_def)
      then show ?thesis using Some r FileRead by (simp add: handle_event_def)
    qed (use i FileRead in \<open>simp add: handle_event_def\<close>)
  next
    case RebootTimer
    then show ?thesis using i(3) files_inv_same [of "upd_ext (\<lambda>n. n\<lparr>reboot_timer := False\<rparr>) (reboot_delay_cb w)" w]
      by (simp add: handle_event_def upd_ext_def reboot_delay_cb_def)
  next
    case (Tick dt)
    then show ?thesis using i(3) files_inv_same [of "upd_ext (\<lambda>n. n\<lparr>clock := clock n + dt\<rparr>) w" w]
      by (simp add: handle_event_def upd_ext_def)
  qed
qed

lemma kept_ext: "kept content w (w\<lparr>ext := e, usecount := u, reboot_post_pending := p, reboot_request := r\<rparr>)"
  by (simp add: kept_def upload_image_def)

lemma close_kept:
  assumes inv: "server_inv content b w" and ph: "0 < prog_phase w" and hs: "conns (ext w) c = Some hs"
  shows "kept content w (http_close c hs r w)"
proof -
  have ci: "conns_inv b (conns (ext w)) w" using inv by (simp add: server_inv_def http_inv_def)
  have np: "\<not> post_ok w" using conns_invD(4) [OF ci] ph by auto
  have l: "post_content_len_left hs = 0" using no_body [OF ci _ hs] np by blast
  have k: "\<not> post_finished hs \<longrightarrow> unrecved_bytes hs = 0" using conns_invD(1) [OF ci hs] by (simp add: conn_ok_def)
  obtain e p q where rc: "httpd_post_response_complete r w = w\<lparr>ext := e, reboot_post_pending := p, reboot_request := q\<rparr>"
  proof -
    have "httpd_post_response_complete r w =
        w\<lparr>ext := ext (httpd_post_response_complete r w),
          reboot_post_pending := reboot_post_pending (httpd_post_response_complete r w),
          reboot_request := reboot_request (httpd_post_response_complete r w)\<rparr>"
      using np by (simp add: httpd_post_response_complete_def upd_ext_def)
    then show ?thesis by (rule that)
  qed
  have fr: "\<exists>u e. http_state_free c v = v\<lparr>usecount := u, ext := e\<rparr>" for v :: "'a rworld"
  proof -
    have "http_state_free c v = v\<lparr>usecount := usecount (http_state_free c v), ext := ext (http_state_free c v)\<rparr>"
      by (simp add: http_state_free_def fs_close_custom_def recovery_close_mtd_backup_def put_mtd_device_def upd_ext_def Let_def
          split: option.split)
    then show ?thesis by blast
  qed
  have "kept content w (set_hs c None (http_state_free c v))" if "v = w \<or> v = httpd_post_response_complete r w" for v
  proof -
    obtain u e2 where "http_state_free c v = v\<lparr>usecount := u, ext := e2\<rparr>" using fr by blast
    then show ?thesis using that rc by (auto simp: set_hs_def upd_ext_def kept_def upload_image_def)
  qed
  then show ?thesis using l k
    by (auto simp: http_close_def http_post_response_notify_def http_post_connection_closed_def Let_def)
qed

lemma handle_event_kept:
  assumes inv: "server_inv content b w" and ph: "0 < prog_phase w"
  shows "kept content w (handle_event b ev w)"
proof -
  have i: "http_inv b w" "files_inv content w" and d: "\<forall>m\<in>set (brd_mtds b). driver_ok content m"
    using inv by (simp_all add: server_inv_def)
  have c: "conns_inv b (conns (ext w)) w" using i(1) by (simp add: http_inv_def)
  have np: "\<not> post_ok w" using conns_invD(4) [OF c] ph by auto
  have l0: "conns (ext w) x = Some hs \<Longrightarrow> post_content_len_left hs = 0" for x hs using no_body [OF c] np by blast
  have same: "kept content w (w\<lparr>ext := e\<rparr>)" "kept content w (w\<lparr>ext := e, usecount := u\<rparr>)" for e u
    by (simp_all add: kept_def upload_image_def)
  show ?thesis
  proof (cases ev)
    case (Accepted x)
    then show ?thesis by (simp add: handle_event_def set_hs_def upd_ext_def same)
  next
    case (PostRequest x uri n body)
    have "httpd_post_begin b x uri n w = ((ERR_ARG, uri = ''/reboot''), respond x ''/400.html'' w)"
      using ph by (simp add: httpd_post_begin_def recovery_busy_def)
    then have "http_post_request b x uri n body hs w = (hs\<lparr>hs_handle := True\<rparr>, respond x ''/400.html'' w)" for hs
      by (simp add: http_post_request_def)
    then show ?thesis using PostRequest
      by (auto simp: handle_event_def set_hs_def respond_def upd_ext_def same split: option.splits)
  next
    case (PostData x qs)
    then show ?thesis using l0 [of x] by (auto simp: handle_event_def split: option.splits)
  next
    case (FileOpen x mem about name)
    obtain f w1 where o1: "fs_open_custom b mem about name w = (f, w1)" by (cases "fs_open_custom b mem about name w")
    obtain u where "w1 = w\<lparr>usecount := u\<rparr>" using fs_open_frame [OF d o1] by blast
    then have "kept content w (upd_ext g w1)" for g by (simp add: upd_ext_def kept_def upload_image_def)
    then show ?thesis using FileOpen o1 by (auto simp: handle_event_def split: option.splits)
  next
    case (FileRead x n)
    show ?thesis
    proof (cases "files (ext w) x")
      case (Some f)
      obtain out f' d' where r: "fs_read_custom f n (dev w) = (out, f', d')" by (rule prod_cases3)
      have "\<And>s. file_stream f = Some s \<Longrightarrow> driver_ok content (stream_mtd s)" using i(2) Some by (auto simp: files_inv_def)
      from fs_read_content [OF this r] have "kept content w (upd_ext g (w\<lparr>dev := d'\<rparr>))" for g
        by (simp add: upd_ext_def kept_def upload_image_def)
      then show ?thesis using Some r FileRead by (simp add: handle_event_def)
    qed (use FileRead in \<open>simp add: handle_event_def\<close>)
  next
    case RebootTimer
    then show ?thesis using kept_refl
      by (auto simp: handle_event_def reboot_delay_cb_def upd_ext_def kept_def upload_image_def)
  next
    case (Tick dt)
    then show ?thesis by (simp add: handle_event_def upd_ext_def same)
  next
    case (ResponseAcked x)
    have "kept content w (http_close x hs 0 w)" if "conns (ext w) x = Some hs" "post_response_pending hs" for hs
      using close_kept [OF inv ph that(1)] .
    then show ?thesis using ResponseAcked by (auto simp: handle_event_def split: option.splits)
  next
    case (Closed x err)
    then show ?thesis using close_kept [OF inv ph] by (auto simp: handle_event_def split: option.splits)
  qed
qed

section \<open>The runtime service\<close>

lemma kept_trans: "kept content u v \<Longrightarrow> kept content v w \<Longrightarrow> kept content u w"
  by (simp add: kept_def)

lemma server_inv_inbox: "server_inv content b (upd_ext (\<lambda>n. n\<lparr>inbox := q\<rparr>) w) = server_inv content b w"
proof -
  let ?w = "upd_ext (\<lambda>n. n\<lparr>inbox := q\<rparr>) w"
  have "http_inv b ?w = http_inv b w" by (rule http_inv_ctl) (simp_all add: ctl_def upd_ext_def)
  moreover have "files_inv content ?w = files_inv content w" by (rule files_inv_same) (simp add: upd_ext_def)
  ultimately show ?thesis by (simp only: server_inv_def)
qed

lemma events_server_inv: "server_inv content b w \<Longrightarrow> server_inv content b (fold (handle_event b) evs w)"
  by (induction evs arbitrary: w) (simp_all add: handle_event_server_inv)

lemma events_kept: "server_inv content b w \<Longrightarrow> 0 < prog_phase w \<Longrightarrow> kept content w (fold (handle_event b) evs w)"
proof (induction evs arbitrary: w)
  case (Cons ev evs)
  have k: "kept content w (handle_event b ev w)" by (rule handle_event_kept [OF Cons.prems])
  then have "0 < prog_phase (handle_event b ev w)" using Cons.prems(2) by (simp add: kept_def)
  from Cons.IH [OF handle_event_server_inv [OF Cons.prems(1)] this] show ?case using kept_trans [OF k] by simp
qed simp

lemma rx_server_inv: "server_inv content b w \<Longrightarrow> server_inv content b (net_lwip_rx b w)"
  by (auto simp: net_lwip_rx_def server_inv_inbox intro: events_server_inv split: list.splits)

lemma rx_kept:
  assumes "server_inv content b w" "0 < prog_phase w"
  shows "kept content w (net_lwip_rx b w)"
proof (cases "inbox (ext w)")
  case (Cons evs later)
  let ?w = "upd_ext (\<lambda>n. n\<lparr>inbox := later\<rparr>) w"
  have "kept content ?w (fold (handle_event b) evs ?w)"
    by (rule events_kept) (use assms in \<open>simp_all add: server_inv_inbox\<close>, simp add: upd_ext_def)
  moreover have "kept content w ?w" by (simp add: kept_def upd_ext_def upload_image_def)
  ultimately show ?thesis using Cons kept_trans by (simp add: net_lwip_rx_def) blast
qed (simp add: net_lwip_rx_def)

text \<open>
  The invariant the flash code runs under: the server invariant with no upload being accepted any
  more. It gives the contract the flash loops ask of the runtime service.
\<close>

interpretation rt: runtime "recovery_service_runtime b" content "server_inv content b"
proof
  fix w assume w: "server_inv content b w" "0 < prog_phase w"
  show "kept content w (recovery_service_runtime b w)" using rx_kept [OF w] by (simp add: recovery_service_runtime_def)
  show "server_inv content b (recovery_service_runtime b w)" using rx_server_inv [OF w(1)] by (simp add: recovery_service_runtime_def)
next
  fix w assume w: "server_inv content b w"
  have *: "server_inv content b w'" if "ctl w' = ctl w" "ext w' = ext w" for w'
    using w http_inv_ctl [of w' w b] files_inv_same [of w' w] that by (simp add: server_inv_def)
  show "server_inv content b (w\<lparr>dev := d\<rparr>)" for d by (rule *) (simp_all add: ctl_def)
  show "server_inv content b (w\<lparr>prog_erase_done := n\<rparr>)" for n by (rule *) (simp_all add: ctl_def)
  show "server_inv content b (w\<lparr>prog_write_done := n\<rparr>)" for n by (rule *) (simp_all add: ctl_def)
  show "server_inv content b (w\<lparr>prog_done := n\<rparr>)" for n by (rule *) (simp_all add: ctl_def)
qed

section \<open>Properties of the upload server\<close>

text \<open>The server when it starts to listen: no connection, no page, no timer.\<close>

definition server_start :: "(string \<Rightarrow> string option) \<Rightarrow> (u64 \<Rightarrow> u8) \<Rightarrow> 'd \<Rightarrow> 'd rworld" where
  "server_start e m d = initial_world e m d
    \<lparr>conns = (\<lambda>_. None), reboot_timer = False, response_uri = (\<lambda>_. []), clock = 0, files = (\<lambda>_. None), inbox = []\<rparr>"

inductive server_reachable :: "'d board \<Rightarrow> 'd rworld \<Rightarrow> bool" for b where
  start: "server_reachable b (server_start e m d)"
| event: "server_reachable b w \<Longrightarrow> server_reachable b (handle_event b ev w)"

lemma start_inv: "http_inv b (server_start e m d)"
  by (simp add: http_inv_def conns_inv_def server_start_def initial_world_def)

lemma reachable_inv: "server_reachable b w \<Longrightarrow> ram_ok b \<Longrightarrow> http_inv b w"
  by (induction rule: server_reachable.induct) (simp_all add: start_inv handle_event_inv)

text \<open>
  C3: whatever requests, data, acknowledgements and connection losses the network produces, in any
  order and on any number of connections, the upload state stays sound: no more bytes are stored
  than announced; while an upload is being accepted nothing is being flashed, no reboot is pending
  and the buffer lies in RAM; a flash request is made only for a complete, non-empty image; and at
  most one connection owes body data, exactly as much as the buffer still has room for. The RAM
  described by the board must not wrap around the address space.
\<close>

theorem upload_state_sound:
  assumes "server_reachable b w" and "ram_ok b"
  shows "recv_off w \<le> recv_total w \<and>
    (post_ok w \<longrightarrow> prog_phase w = 0 \<and> \<not> reboot_post_pending w \<and> buffer_in_ram b (recv_base w) (recv_total w)) \<and>
    (flash_request w \<longrightarrow> recv_off w = recv_total w \<and> recv_total w \<noteq> 0 \<and> buffer_in_ram b (recv_base w) (recv_total w)) \<and>
    (\<forall>c hs. conns (ext w) c = Some hs \<longrightarrow> post_content_len_left hs \<noteq> 0 \<longrightarrow>
       post_ok w \<and> unat (recv_off w) + unat (post_content_len_left hs) = unat (recv_total w) \<and>
       (\<forall>c' hs'. conns (ext w) c' = Some hs' \<longrightarrow> post_content_len_left hs' \<noteq> 0 \<longrightarrow> c' = c))"
proof -
  have i: "conns_inv b (conns (ext w)) w" using reachable_inv [OF assms] by (simp add: http_inv_def)
  have "post_ok w \<and> unat (recv_off w) + unat (post_content_len_left hs) = unat (recv_total w) \<and>
       (\<forall>c' hs'. conns (ext w) c' = Some hs' \<longrightarrow> post_content_len_left hs' \<noteq> 0 \<longrightarrow> c' = c)"
    if "conns (ext w) c = Some hs" "post_content_len_left hs \<noteq> 0" for c hs
    using conns_invD(1) [OF i that(1)] conns_invD(2) [OF i _ that(1) _ that(2)] that(2) unfolding conn_ok_def by blast
  then show ?thesis using conns_invD(3,4,5) [OF i] by blast
qed

theorem upload_state_sound_witness:
  "server_reachable sample_board (handle_event sample_board (PostRequest 1 ''/reboot'' 0 None)
      (handle_event sample_board (Accepted 1) (server_start Map.empty (\<lambda>_. 0) (\<lambda>_. 0xff)))) \<and>
   \<not> post_ok (handle_event sample_board (PostRequest 1 ''/reboot'' 0 None)
      (handle_event sample_board (Accepted 1) (server_start Map.empty (\<lambda>_. 0) (\<lambda>_. 0xff))))"
proof -
  let ?w = "handle_event sample_board (PostRequest 1 ''/reboot'' 0 None)
      (handle_event sample_board (Accepted 1) (server_start Map.empty (\<lambda>_. 0) (\<lambda>_. 0xff)))"
  have r: "server_reachable sample_board ?w" by (intro server_reachable.intros)
  have m: "ram_ok sample_board" by (simp add: ram_ok_def sample_board_def)
  have "reboot_post_pending ?w"
    by (simp add: handle_event_def server_start_def initial_world_def set_hs_def upd_ext_def http_state_init_def
        http_post_request_def httpd_post_begin_def recovery_busy_def http_post_rxpbuf_def httpd_post_receive_data_def
        httpd_post_data_recved_def http_handle_post_finished_def httpd_post_finished_def respond_def Let_def)
  then show ?thesis using upload_state_sound [OF r m] r by blast
qed

text \<open>
  C16: the server cannot stay busy for nothing: once no connection is open any more, a new
  request is refused only if an image is waiting to be or being flashed, or a reboot is requested
  or scheduled. A client that disappears in the middle of an upload does not block the next one.
\<close>

theorem busy_server_has_owner:
  assumes "server_reachable b w" and "ram_ok b" and "\<forall>c. conns (ext w) c = None"
  shows "recovery_busy w \<longleftrightarrow> flash_request w \<or> reboot_request w \<or> reboot_post_pending w \<and> reboot_timer (ext w) \<or> prog_phase w > 0"
proof -
  have i: "conns_inv b (conns (ext w)) w" using reachable_inv [OF assms(1,2)] by (simp add: http_inv_def)
  have "post_ok w \<Longrightarrow> flash_request w" using conns_invD(6,7) [OF i] assms(3) by (metis option.distinct(1))
  moreover have "reboot_post_pending w \<Longrightarrow> reboot_timer (ext w) \<or> reboot_request w"
    using conns_invD(8) [OF i] assms(3) by (metis option.distinct(1))
  ultimately show ?thesis by (auto simp: recovery_busy_def)
qed

lemmas post_evals = handle_event_def server_start_def initial_world_def set_hs_def upd_ext_def http_state_init_def
  http_post_request_def httpd_post_begin_def recovery_busy_def http_post_rxpbuf_def httpd_post_receive_data_def
  httpd_post_data_recved_def http_handle_post_finished_def httpd_post_finished_def respond_def Let_def
  http_close_def http_post_response_notify_def httpd_post_response_complete_def http_post_connection_closed_def
  http_state_free_def

theorem busy_server_has_owner_witness:
  "\<not> recovery_busy (fold (handle_event sample_board) [Accepted 1, PostRequest 1 ''/reboot'' 0 None, Closed 1 (-15)]
      (server_start Map.empty (\<lambda>_. 0) (\<lambda>_. 0xff)))"
proof -
  let ?w0 = "server_start Map.empty (\<lambda>_. 0) (\<lambda>_. 0xff) :: (int \<Rightarrow> u8) rworld"
  let ?w = "fold (handle_event sample_board) [Accepted 1, PostRequest 1 ''/reboot'' 0 None, Closed 1 (-15)] ?w0"
  have m: "ram_ok sample_board" by (simp add: ram_ok_def sample_board_def)
  have r: "server_reachable sample_board ?w" by (simp, intro server_reachable.intros)
  have c: "\<forall>c. conns (ext ?w) c = None" by (simp add: post_evals)
  have "\<not> flash_request ?w \<and> \<not> reboot_request ?w \<and> \<not> reboot_timer (ext ?w) \<and> \<not> prog_phase ?w > 0"
    by (simp add: post_evals)
  then show ?thesis using busy_server_has_owner [OF r m c] by blast
qed

text \<open>
  C15: servicing the network between the blocks of a flash operation, whatever arrives there, leaves
  the flash content, the UBI state, the uploaded image, the selected target and the progress counters
  alone and keeps the server invariant.
\<close>

theorem service_keeps_flash:
  assumes "server_inv content b w" and "0 < prog_phase w"
  shows "kept content w (recovery_service_runtime b w) \<and> server_inv content b (recovery_service_runtime b w)"
  using rt.svc_kept [OF assms] rt.svc_inv [OF assms] by simp

theorem service_keeps_flash_witness:
  "prog_phase (recovery_service_runtime sample_board
     (upd_ext (\<lambda>n. n\<lparr>inbox := [[Accepted 1, PostRequest 1 ''/upload/uboot'' 2097152 None, FileOpen 1 True [] ''/backup/dsd.bin'']]\<rparr>)
       ((server_start Map.empty (\<lambda>_. 0) (\<lambda>_. 0xff))\<lparr>prog_phase := 1\<rparr>))) = 1"
proof -
  let ?w = "upd_ext (\<lambda>n. n\<lparr>inbox := [[Accepted 1, PostRequest 1 ''/upload/uboot'' 2097152 None, FileOpen 1 True [] ''/backup/dsd.bin'']]\<rparr>)
       ((server_start Map.empty (\<lambda>_. 0) (\<lambda>_. 0xff))\<lparr>prog_phase := 1\<rparr>) :: (int \<Rightarrow> u8) rworld"
  have "server_inv (\<lambda>d. d) sample_board ?w"
    by (simp add: server_inv_def ram_ok_def sample_board_def sample_part_ok http_inv_def conns_inv_def files_inv_def
        upd_ext_def server_start_def initial_world_def)
  moreover have "prog_phase ?w = 1" by (simp add: upd_ext_def)
  ultimately show ?thesis using service_keeps_flash [of "\<lambda>d. d" sample_board ?w] by (simp add: kept_def)
qed

lemma close_pending:
  assumes "post_response_pending hs" "post_finished hs"
  shows "ctl (http_close c hs r w) = ctl (httpd_post_response_complete r w)"
    "conns (ext (http_close c hs r w)) = (conns (ext w))(c := None)"
proof -
  have eq: "http_close c hs r w = set_hs c None (http_state_free c (httpd_post_response_complete r w))"
    using assms by (simp add: http_close_def http_post_response_notify_def http_post_connection_closed_def)
  have "ctl (set_hs c None v) = ctl v" for v :: "'a rworld" by (simp add: ctl_def set_hs_def upd_ext_def)
  then show "ctl (http_close c hs r w) = ctl (httpd_post_response_complete r w)" using eq state_free_ctl(1) by metis
  have "conns (ext (set_hs c None v)) = (conns (ext v))(c := None)" for v :: "'a rworld" by (simp add: set_hs_def upd_ext_def)
  then show "conns (ext (http_close c hs r w)) = (conns (ext w))(c := None)"
    using eq state_free_ctl(2) response_complete_conns by metis
qed

text \<open>
  C17: \<^verbatim>\<open>httpd_post_response_complete\<close> does not look at the connection whose response it is told
  about. When connection \<open>a\<close> has an acknowledged response outstanding (the error page of an earlier
  failed upload) while the response of the completed upload on \<open>c\<close> is still on its way, the
  acknowledgement for \<open>a\<close> requests the flash; if \<open>c\<close> is then lost, the server reports the flash as
  cancelled (\<open>post_ok\<close> cleared, phase \<open>-1\<close>) but the request stays set.
\<close>

theorem stale_response_starts_flash:
  assumes "conns (ext w) a = Some hs" and "post_response_pending hs" and "post_finished hs"
    and "conns (ext w) c = Some hs'" and "post_response_pending hs'" and "post_finished hs'" and "a \<noteq> c"
    and "post_ok w" and "\<not> reboot_post_pending w" and "recv_total w \<noteq> 0" and "recv_off w = recv_total w"
    and "w1 = handle_event b (ResponseAcked a) w" and "w2 = handle_event b (Closed c (-15)) w1"
  shows "flash_request w1 \<and> conns (ext w1) c = Some hs' \<and> flash_request w2 \<and> \<not> post_ok w2 \<and> prog_phase w2 = -1"
proof -
  have w1: "w1 = http_close a hs 0 w" unfolding assms(12) using assms(1,2) by (simp add: handle_event_def)
  have r1: "httpd_post_response_complete 0 w = w\<lparr>flash_request := True\<rparr>"
    using assms(8-11) by (simp add: httpd_post_response_complete_def)
  have c1: "ctl w1 = ctl (w\<lparr>flash_request := True\<rparr>)" unfolding w1 using close_pending(1) [OF assms(2,3), of a 0 w] r1 by simp
  have k1: "conns (ext w1) c = Some hs'" unfolding w1 close_pending(2) [OF assms(2,3)] using assms(4,7) by simp
  have w2: "w2 = http_close c hs' (-15) w1" unfolding assms(13) using k1 by (simp add: handle_event_def)
  have f1: "flash_request w1" "post_ok w1" "\<not> reboot_post_pending w1" "recv_total w1 \<noteq> 0" "recv_off w1 = recv_total w1"
    using c1 assms(8-11) by (simp_all add: ctl_def)
  have r2: "httpd_post_response_complete (-15) w1 = w1\<lparr>post_ok := False, prog_phase := -1\<rparr>"
    using f1 by (simp add: httpd_post_response_complete_def)
  have "ctl w2 = ctl (w1\<lparr>post_ok := False, prog_phase := -1\<rparr>)"
    unfolding w2 using close_pending(1) [OF assms(5,6), of c "-15" w1] r2 by simp
  then have "flash_request w2" "\<not> post_ok w2" "prog_phase w2 = -1" using f1(1) by (simp_all add: ctl_def)
  then show ?thesis using f1(1) k1 by blast
qed

theorem stale_response_starts_flash_witness:
  "\<exists>w w1 w2 hs. w1 = handle_event sample_board (ResponseAcked 1) w \<and> w2 = handle_event sample_board (Closed 2 (-15)) w1 \<and>
     \<not> flash_request w \<and> flash_request w1 \<and> conns (ext w1) 2 = Some hs \<and> post_response_pending hs \<and> flash_request w2 \<and> prog_phase w2 = -1"
proof -
  let ?h = "http_state_init\<lparr>post_response_pending := True, post_finished := True\<rparr>"
  let ?w = "set_hs 1 (Some ?h) (set_hs 2 (Some ?h) ((server_start Map.empty (\<lambda>_. 0) (\<lambda>_. 0xff))\<lparr>post_ok := True, recv_off := 4, recv_total := 4\<rparr>)) :: (int \<Rightarrow> u8) rworld"
  have "\<exists>h w. post_response_pending h \<and> post_finished h \<and> conns (ext (w :: (int \<Rightarrow> u8) rworld)) 1 = Some h \<and> conns (ext w) 2 = Some h \<and>
      post_ok w \<and> \<not> reboot_post_pending w \<and> recv_total w \<noteq> 0 \<and> recv_off w = recv_total w \<and> \<not> flash_request w"
    by (rule exI [of _ ?h], rule exI [of _ ?w]) (simp add: set_hs_def upd_ext_def server_start_def initial_world_def)
  then obtain h and w :: "(int \<Rightarrow> u8) rworld" where h: "post_response_pending h" "post_finished h"
    and w: "conns (ext w) 1 = Some h" "conns (ext w) 2 = Some h" "post_ok w" "\<not> reboot_post_pending w" "recv_total w \<noteq> 0"
      "recv_off w = recv_total w" "\<not> flash_request w" by blast
  have "(1 :: conn) \<noteq> 2" by simp
  from stale_response_starts_flash [OF w(1) h w(2) h this w(3-6) refl refl, of sample_board] w(7) h(1) show ?thesis by blast
qed

section \<open>The upload buffer\<close>

lemma ram_write_outside: "\<not> unat (x - a) < length bs \<Longrightarrow> ram_write a bs m x = m x"
  by (simp add: ram_write_def)

lemma ram_write_inside: "i < length bs \<Longrightarrow> i < 2 ^ 64 \<Longrightarrow> ram_write a bs m (a + of_nat i) = bs ! i"
  by (simp add: ram_write_def unat_of_nat_small)

lemma ram_write_before:
  assumes "i < off" "off + length bs < 2 ^ 64"
  shows "ram_write (base + of_nat off) bs m (base + of_nat i) = m (base + of_nat i)"
proof (rule ram_write_outside)
  have "unat (of_nat i - of_nat off :: u64) = i + 2 ^ 64 - off"
    using assms by (simp add: unat_sub_if' unat_of_nat_small)
  then show "\<not> unat (base + of_nat i - (base + of_nat off)) < length bs" using assms by simp
qed

lemma ram_write_image:
  assumes "off + length xs \<le> 2 ^ 32"
  shows "map (\<lambda>i. ram_write (base + of_nat off) xs m (base + of_nat i)) [0..<off + length xs] =
    map (\<lambda>i. m (base + of_nat i)) [0..<off] @ xs"
proof (rule nth_equalityI)
  fix i assume "i < length (map (\<lambda>i. ram_write (base + of_nat off) xs m (base + of_nat i)) [0..<off + length xs])"
  then have i: "i < off + length xs" by simp
  show "map (\<lambda>i. ram_write (base + of_nat off) xs m (base + of_nat i)) [0..<off + length xs] ! i =
    (map (\<lambda>i. m (base + of_nat i)) [0..<off] @ xs) ! i"
  proof (cases "i < off")
    case True
    then show ?thesis using i assms ram_write_before [of i off xs] by (simp add: nth_append)
  next
    case False
    then obtain k where "i = off + k" using le_Suc_ex not_less by blast
    then show ?thesis using i assms ram_write_inside [of k xs "base + of_nat off" m]
      by (simp add: nth_append add.assoc)
  qed
qed simp

lemma unat_u32_le: "unat (x :: u32) < 2 ^ 32"
  by (rule less_le_trans [OF unsigned_less]) simp

lemma ucast_u32: "(ucast (x :: u32) :: u64) = of_nat (unat x)"
  by simp

lemma copy_pbufs_appends:
  assumes "copy_pbufs qs w = (False, w')" "recv_off w \<le> recv_total w"
  shows "map (\<lambda>i. ram w' (recv_base w + of_nat i)) [0..<unat (recv_off w')] =
      map (\<lambda>i. ram w (recv_base w + of_nat i)) [0..<unat (recv_off w)] @ concat qs \<and>
    (\<forall>a. unat (recv_total w) \<le> unat (a - recv_base w) \<longrightarrow> ram w' a = ram w a)"
  using assms
proof (induction qs arbitrary: w w')
  case (Cons q qs)
  have nle: "\<not> recv_off w \<ge> recv_total w" using Cons.prems(1) by auto
  have lt: "unat (recv_off w) < unat (recv_total w)" using nle by (simp add: word_le_nat_alt not_le)
  have qle: "length q \<le> unat (recv_total w) - unat (recv_off w)"
    using Cons.prems(1) nle by (auto simp: Let_def split: prod.splits)
  define w1 where "w1 = w\<lparr>ram := ram_write (recv_base w + ucast (recv_off w)) q (ram w), recv_off := recv_off w + of_nat (length q)\<rparr>"
  have r: "copy_pbufs qs w1 = (False, w')"
    using Cons.prems(1) nle qle by (auto simp: w1_def Let_def min_absorb1 split: prod.splits)
  have t: "unat (recv_total w) < 2 ^ 32" by (rule unat_u32_le)
  have o1: "unat (recv_off w1) = unat (recv_off w) + length q"
  proof -
    have "unat (of_nat (length q) :: u32) = length q" by (rule unat_of_nat_small) (use qle t in simp)
    moreover have "unat (recv_off w) + length q < 2 ^ 32" using lt qle t by linarith
    ultimately show ?thesis using unat_add_lem [of "recv_off w" "of_nat (length q)"] by (simp add: w1_def)
  qed
  have s1: "recv_base w1 = recv_base w" "recv_total w1 = recv_total w" by (simp_all add: w1_def)
  have m1: "ram w1 = ram_write (recv_base w + of_nat (unat (recv_off w))) q (ram w)" by (simp add: w1_def)
  have "recv_off w1 \<le> recv_total w1" unfolding word_le_nat_alt o1 s1 using qle lt by simp
  from Cons.IH [OF r this] have ih: "map (\<lambda>i. ram w' (recv_base w + of_nat i)) [0..<unat (recv_off w')] =
      map (\<lambda>i. ram w1 (recv_base w + of_nat i)) [0..<unat (recv_off w) + length q] @ concat qs"
    and out: "\<And>a. unat (recv_total w) \<le> unat (a - recv_base w) \<Longrightarrow> ram w' a = ram w1 a"
    unfolding s1 o1 by blast+
  have "ram w1 a = ram w a" if a: "unat (recv_total w) \<le> unat (a - recv_base w)" for a
    unfolding m1
  proof (rule ram_write_outside)
    have u: "unat (of_nat (unat (recv_off w)) :: u64) = unat (recv_off w)"
      by (rule unat_of_nat_small) (use lt t in simp)
    have "unat (a - recv_base w - of_nat (unat (recv_off w))) = unat (a - recv_base w) - unat (recv_off w)"
      using a lt unfolding unat_sub_if' [of "a - recv_base w"] u by simp
    moreover have "a - (recv_base w + of_nat (unat (recv_off w))) = a - recv_base w - of_nat (unat (recv_off w))"
      by (simp only: diff_diff_eq)
    ultimately have "unat (a - (recv_base w + of_nat (unat (recv_off w)))) = unat (a - recv_base w) - unat (recv_off w)"
      by (simp only:)
    then show "\<not> unat (a - (recv_base w + of_nat (unat (recv_off w)))) < length q" using a qle by linarith
  qed
  moreover have "map (\<lambda>i. ram w1 (recv_base w + of_nat i)) [0..<unat (recv_off w) + length q] =
      map (\<lambda>i. ram w (recv_base w + of_nat i)) [0..<unat (recv_off w)] @ q"
    unfolding m1 by (rule ram_write_image) (use qle t lt in simp)
  ultimately show ?case using ih out by simp
qed simp

text \<open>
  C11: when \<^verbatim>\<open>httpd_post_receive_data\<close> accepts a chain of buffers, the bytes of the chain, in order,
  are appended to what the upload buffer holds, the announced size is not exceeded, and no byte of RAM
  outside the buffer of the announced size changes.
\<close>

theorem receive_appends:
  assumes "post_ok w" and "\<not> reboot_post_pending w" and "recv_off w \<le> recv_total w"
    and "httpd_post_receive_data (Some qs) w = ((ERR_OK, n), w')"
  shows "n = length (concat qs) \<and> unat (recv_off w') = unat (recv_off w) + length (concat qs) \<and>
    unat (recv_off w') \<le> unat (recv_total w) \<and>
    map (\<lambda>i. ram w' (recv_base w + of_nat i)) [0..<unat (recv_off w')] =
      map (\<lambda>i. ram w (recv_base w + of_nat i)) [0..<unat (recv_off w)] @ concat qs \<and>
    (\<forall>a. unat (recv_total w) \<le> unat (a - recv_base w) \<longrightarrow> ram w' a = ram w a) \<and>
    post_ok w' \<and> prog_phase w' = prog_phase w \<and> recv_base w' = recv_base w \<and> recv_total w' = recv_total w"
proof -
  let ?w = "w\<lparr>lan_activity_ms := clock (ext w)\<rparr>"
  have le: "\<not> recv_off w > recv_total w" using assms(3) by simp
  obtain ovf v where r: "copy_pbufs qs ?w = (ovf, v)" by (cases "copy_pbufs qs ?w")
  have e: "\<not> ovf" "w' = v" "n = length (concat qs)"
    using assms(4) r assms(1,2) le by (auto simp: httpd_post_receive_data_def Let_def split: if_splits)
  have r': "copy_pbufs qs ?w = (False, w')" using r e by simp
  have f: "w' = ?w\<lparr>ram := ram w', recv_off := recv_off w'\<rparr>" by (rule copy_pbufs_frame [OF r'])
  have k: "post_ok w' = post_ok w" "prog_phase w' = prog_phase w" "recv_base w' = recv_base w" "recv_total w' = recv_total w"
    by (subst f, simp)+
  have lt: "recv_off ?w \<le> recv_total ?w" using assms(3) by simp
  show ?thesis using copy_pbufs_off [OF r' lt] copy_pbufs_appends [OF r' lt] k e(3) assms(1) by (simp add: word_le_nat_alt)
qed

theorem receive_appends_witness:
  "\<exists>w' :: (int \<Rightarrow> u8) rworld. map (\<lambda>i. ram w' (0x1000 + of_nat i)) [0..<unat (recv_off w')] = [1, 2, 3] \<and> post_ok w'"
proof -
  let ?w = "(server_start Map.empty (\<lambda>_. 0) (\<lambda>_. 0xff))\<lparr>post_ok := True, recv_total := 4, recv_base := 0x1000\<rparr> :: (int \<Rightarrow> u8) rworld"
  have s: "post_ok ?w" "\<not> reboot_post_pending ?w" "recv_off ?w \<le> recv_total ?w" "recv_off ?w = 0" "recv_base ?w = 0x1000"
    by (simp_all add: server_start_def initial_world_def)
  have "fst (httpd_post_receive_data (Some [[1, 2], [3]]) ?w) = (ERR_OK, 3)"
    by (simp add: httpd_post_receive_data_def server_start_def initial_world_def Let_def word_le_nat_alt word_less_nat_alt)
  then obtain w' where "httpd_post_receive_data (Some [[1, 2], [3]]) ?w = ((ERR_OK, 3), w')" by (metis prod.collapse)
  note r = receive_appends [OF s(1-3) this, unfolded s(4,5)]
  have "map (\<lambda>i. ram w' (0x1000 + of_nat i)) [0..<unat (recv_off w')] =
      map (\<lambda>i. ram ?w (0x1000 + of_nat i)) [0..<unat (0 :: u32)] @ concat [[1, 2], [3]]" "post_ok w'" using r by blast+
  moreover have "map (\<lambda>i. ram ?w (0x1000 + of_nat i)) [0..<unat (0 :: u32)] @ concat [[1, 2], [3]] = [1, 2, 3]" by simp
  ultimately show ?thesis by metis
qed

end
