(* ===== verification/RecoveryUbi.thy ===== *)
theory RecoveryUbi
  imports Target
begin

text \<open>
  The UBI side of flashing in \<^verbatim>\<open>net/lwip/httpd_recovery.c\<close>: creating, removing and resizing volumes,
  preparing the partition of a target, removing the volumes a rebuild replaces, and writing an
  image to the volume of a target in chunks with the runtime service between them. The lemmas
  follow a volume through these steps: none of them loses, renames or alters another volume, and a
  successful write leaves exactly the image in the volume.
\<close>

section \<open>Creating and removing volumes\<close>

definition recovery_ubi_progress ::
    "(('d, 'x) world \<Rightarrow> ('d, 'x) world) \<Rightarrow> int \<Rightarrow> int \<Rightarrow> ('d, 'x) world \<Rightarrow> ('d, 'x) world" where
  "recovery_ubi_progress svc k n w =
    (let bytes_done = prog_erase_volume_base w;
         bytes_done = (if n > 0 then bytes_done + (prog_erase_volume_bytes w * of_int k) div of_int n else bytes_done);
         bytes_done = (if bytes_done > ucast (prog_erase_total w) then ucast (prog_erase_total w) else bytes_done);
         w = w\<lparr>prog_erase_done := ucast bytes_done\<rparr>;
         w = w\<lparr>prog_done := prog_erase_done w + prog_write_done w\<rparr> in
     if prog_status_leds w then svc w else w)"

text \<open>The request that \<^verbatim>\<open>recovery_create_ubi_volume\<close> and \<^verbatim>\<open>recovery_create_ubi_target\<close> fill in.\<close>

definition mkvol_req :: "string \<Rightarrow> nat \<Rightarrow> vol_type \<Rightarrow> ubi_mkvol_req" where
  "mkvol_req name n ty =
    \<lparr>req_vol_id = None, req_alignment = 1, req_bytes = n, req_vol_type = ty, req_name = name\<rparr>"

definition recovery_create_ubi_volume ::
    "'d board \<Rightarrow> string \<Rightarrow> nat \<Rightarrow> vol_type \<Rightarrow> ('d, 'x) world \<Rightarrow> int \<times> ('d, 'x) world" where
  "recovery_create_ubi_volume b name n ty w =
    (if name = [] then (-EINVAL, w)
     else case ubi w of
       None \<Rightarrow> (-ENODEV, w)
     | Some u \<Rightarrow>
         let n = (if n = 0 then nat (avail_pebs u) * leb_size u else n) in
         if length name > UBI_VOL_NAME_MAX then (-ENAMETOOLONG, w)
         else
           let (ret, u, d) = ubi_create_volume (brd_low b) (mkvol_req name n ty) u (dev w) in
           (ret, w\<lparr>ubi := Some u, dev := d\<rparr>))"

definition recovery_remove_ubi_volume ::
    "'d board \<Rightarrow> (int \<Rightarrow> int \<Rightarrow> ('d, 'x) world \<Rightarrow> ('d, 'x) world) \<Rightarrow> string \<Rightarrow> ('d, 'x) world \<Rightarrow>
      int \<times> ('d, 'x) world" where
  "recovery_remove_ubi_volume b cb name w =
    (case ubi_open_volume_nm (brd_low b) name UBI_EXCLUSIVE w of
       (Inl err, w) \<Rightarrow> (err, w)
     | (Inr i, w) \<Rightarrow>
         let (ret, w) = ubi_remove_volume (brd_low b) cb i False w in
         (ret, ubi_close_volume i UBI_EXCLUSIVE w))"

text \<open>\<open>recovery_select_ubi\<close> on the partition of a target; a UBI target always names one.\<close>

definition select_target_ubi :: "'d board \<Rightarrow> 'd recovery_target \<Rightarrow> ('d, 'x) world \<Rightarrow> int \<times> ('d, 'x) world" where
  "select_target_ubi b t w =
    (case tgt_ubi_part t of None \<Rightarrow> (-ENODEV, w) | Some part \<Rightarrow> recovery_select_ubi b part w)"

definition recovery_ensure_ubi_volume_named ::
    "'d board \<Rightarrow> string \<Rightarrow> nat \<Rightarrow> vol_type \<Rightarrow> ('d, 'x) world \<Rightarrow> int \<times> ('d, 'x) world" where
  "recovery_ensure_ubi_volume_named b name n ty w =
    (if name = [] then (-EINVAL, w)
     else case ubi_open_volume_nm (brd_low b) name UBI_READWRITE w of
       (Inr i, w) \<Rightarrow> (0, ubi_close_volume i UBI_READWRITE w)
     | (Inl _, w) \<Rightarrow>
         let (ret, w) = recovery_create_ubi_volume b name n ty w in
         if ret \<noteq> 0 \<and> ret \<noteq> -EEXIST then (ret, w) else (0, w))"

definition recovery_ensure_rootfs_data ::
    "'d board \<Rightarrow> 'd recovery_target \<Rightarrow> ('d, 'x) world \<Rightarrow> int \<times> ('d, 'x) world" where
  "recovery_ensure_rootfs_data b t w =
    (if backend t \<noteq> RECOVERY_BACKEND_UBI then (0, w)
     else
       let (ret, w) = select_target_ubi b t w in
       if ret \<noteq> 0 then (-ENODEV, w)
       else case ubi_open_volume_nm (brd_low b) ''rootfs_data'' UBI_READWRITE w of
         (Inr i, w) \<Rightarrow> (0, ubi_close_volume i UBI_READWRITE w)
       | (Inl _, w) \<Rightarrow>
           let (ret, w) = recovery_create_ubi_volume b ''rootfs_data'' 0 UBI_DYNAMIC_VOLUME w in
           if ret \<noteq> 0 \<and> ret \<noteq> -EEXIST then (ret, w) else (0, w))"

definition recovery_ensure_preserved_ubi_volumes ::
    "'d board \<Rightarrow> 'd recovery_target \<Rightarrow> ('d, 'x) world \<Rightarrow> int \<times> ('d, 'x) world" where
  "recovery_ensure_preserved_ubi_volumes b t w =
    (if backend t \<noteq> RECOVERY_BACKEND_UBI then (0, w)
     else
       let (ret, w) = select_target_ubi b t w in
       if ret \<noteq> 0 then (-ENODEV, w)
       else if brd_compat b ''naoki,xg2010g'' \<or> brd_compat b ''econet,xg2010g'' \<or>
               brd_compat b ''econet,xg2010g-ubi'' \<or> brd_compat b ''gemtek,xg2010g'' \<or>
               brd_compat b ''gemtek,xg2010g-ubi'' \<or> brd_compat b ''gemtek,w1700k'' \<or>
               brd_compat b ''gemtek,w1700k-ubi''
       then
         let (ret, w) = recovery_ensure_ubi_volume_named b ''factory'' RECOVERY_FACTORY_SIZE UBI_STATIC_VOLUME w in
         if ret \<noteq> 0 then (ret, w) else (0, w)
       else (0, w))"

section \<open>Preparing the partition\<close>

text \<open>The progress counters at the start of a flash operation.\<close>

definition start_progress :: "u32 \<Rightarrow> u32 \<Rightarrow> ('d, 'x) world \<Rightarrow> ('d, 'x) world" where
  "start_progress erase_total write_total w =
    w\<lparr>prog_phase := 1, prog_done := 0, prog_erase_done := 0, prog_erase_total := erase_total,
      prog_write_done := 0, prog_write_total := write_total, prog_total := erase_total + write_total\<rparr>"

text \<open>
  The result says whether the partition was reformatted; \<^verbatim>\<open>ALIGN\<close> rounds up to the erase size, a
  power of two.
\<close>

definition recovery_prepare_ubi_target ::
    "'d board \<Rightarrow> (('d, 'x) world \<Rightarrow> ('d, 'x) world) \<Rightarrow> 'd recovery_target \<Rightarrow> u32 \<Rightarrow> ('d, 'x) world \<Rightarrow>
      int \<times> bool \<times> 'd recovery_target \<times> ('d, 'x) world" where
  "recovery_prepare_ubi_target b svc t image_size w =
    (if backend t \<noteq> RECOVERY_BACKEND_UBI then (-EINVAL, False, t, w)
     else if \<not> ubi_needs_format t then
       let (ret, w) = select_target_ubi b t w in (ret, False, t, w)
     else case tgt_mtd t of
       None \<Rightarrow> (-ENODEV, False, t, w)
     | Some m \<Rightarrow>
         let w = start_progress (of_nat (align_up (mtd_size m) (mtd_erasesize m))) image_size w;
             (ret, w) = recovery_erase_mtd_region svc (Some m) 0 (mtd_size m) w in
         if ret \<noteq> 0 then (ret, False, t, w)
         else
           let w = w\<lparr>recovery_ubi_attach_error := 0\<rparr>;
               (ret, w) = select_target_ubi b t w in
           if ret \<noteq> 0 then (ret, False, t, w)
           else
             let t = (case ubi w of
                        Some u \<Rightarrow> t\<lparr>tgt_limit := of_int (avail_pebs u) * of_nat (leb_size u)\<rparr>
                      | None \<Rightarrow> t) in
             (0, True, t\<lparr>cur_size := 0, ubi_needs_format := False\<rparr>, w))"

text \<open>
  The loop that removes the volumes a rebuild replaces: \<open>slots\<close> are the slots still to visit,
  \<open>erase_done\<close> the bytes accounted so far.
\<close>

fun cleanup_slots ::
    "'d board \<Rightarrow> (('d, 'x) world \<Rightarrow> ('d, 'x) world) \<Rightarrow> nat list \<Rightarrow> u64 \<Rightarrow> ('d, 'x) world \<Rightarrow> int \<times> ('d, 'x) world" where
  "cleanup_slots b svc [] erase_done w = (0, w)"
| "cleanup_slots b svc (i # slots) erase_done w =
    (case ubi w of
       None \<Rightarrow> (0, w)
     | Some u \<Rightarrow>
         if \<not> removable b (volumes u ! i) then cleanup_slots b svc slots erase_done w
         else
           let vol_size = vol_bytes (volumes u ! i);
               name = (case volumes u ! i of Some vol \<Rightarrow> vol_name vol | None \<Rightarrow> []);
               w = w\<lparr>prog_erase_volume_base := erase_done, prog_erase_volume_bytes := vol_size\<rparr>;
               (ret, w) = recovery_remove_ubi_volume b (recovery_ubi_progress svc) name w in
           if ret \<noteq> 0 then (ret, w)
           else
             let erase_done = erase_done + vol_size;
                 w = w\<lparr>prog_erase_done := (if erase_done > ucast (prog_erase_total w) then prog_erase_total w
                                          else ucast erase_done)\<rparr>;
                 w = w\<lparr>prog_done := prog_erase_done w + prog_write_done w\<rparr> in
             cleanup_slots b svc slots erase_done (svc w))"

definition recovery_cleanup_ubi_firmware ::
    "'d board \<Rightarrow> (('d, 'x) world \<Rightarrow> ('d, 'x) world) \<Rightarrow> 'd recovery_target \<Rightarrow> u32 \<Rightarrow> ('d, 'x) world \<Rightarrow>
      int \<times> 'd recovery_target \<times> ('d, 'x) world" where
  "recovery_cleanup_ubi_firmware b svc t image_size w =
    (if backend t \<noteq> RECOVERY_BACKEND_UBI then (-EINVAL, t, w)
     else
       let (ret, w) = select_target_ubi b t w in
       if ret \<noteq> 0 then (-ENODEV, t, w)
       else case ubi w of
         None \<Rightarrow> (-ENODEV, t, w)
       | Some u \<Rightarrow>
           let erase_total = sum_list (map vol_bytes (filter (removable b) (volumes u)));
               w = start_progress (if erase_total > 0xffffffff then 0xffffffff else ucast erase_total) image_size w;
               (ret, w) = cleanup_slots b svc [0..<length (volumes u)] 0 (w\<lparr>prog_status_leds := True\<rparr>);
               w = w\<lparr>prog_status_leds := False\<rparr> in
           if ret \<noteq> 0 then (ret, t, w)
           else recovery_try_ubi_target b (current_target w) t w)"

section \<open>Writing the image\<close>

definition recovery_abort_ubi_update :: "ubi_volume \<Rightarrow> ubi_volume" where
  "recovery_abort_ubi_update vol =
    (if \<not> updating vol then vol
     else vol\<lparr>upd_buf := None, updating := False, upd_bytes := 0, upd_received := 0, upd_ebs := 0\<rparr>)"

text \<open>Running an operation on the volume in slot \<open>i\<close> of the attached device.\<close>

definition on_volume ::
    "nat \<Rightarrow> (ubi_device \<Rightarrow> ubi_volume \<Rightarrow> 'd \<Rightarrow> int \<times> ubi_volume \<times> 'd) \<Rightarrow> ('d, 'x) world \<Rightarrow> int \<times> ('d, 'x) world" where
  "on_volume i f w =
    (case ubi w of
       None \<Rightarrow> (-ENODEV, w)
     | Some u \<Rightarrow>
         (case volumes u ! i of
            None \<Rightarrow> (-ENODEV, w)
          | Some vol \<Rightarrow>
              let (ret, vol, d) = f u vol (dev w) in
              (ret, upd_ubi (upd_volume i (\<lambda>_. vol)) (w\<lparr>dev := d\<rparr>))))"

lemma write_chunk_pos: "0 < RECOVERY_UBI_WRITE_CHUNK"
  by (simp add: RECOVERY_UBI_WRITE_CHUNK_def)

text \<open>The write loop: \<open>rest\<close> is the part of the image still to write, \<open>written\<close> what came before it.\<close>

function write_ubi_chunks ::
    "'d board \<Rightarrow> (('d, 'x) world \<Rightarrow> ('d, 'x) world) \<Rightarrow> nat \<Rightarrow> bytes \<Rightarrow> u32 \<Rightarrow> ('d, 'x) world \<Rightarrow>
      int \<times> ('d, 'x) world" where
  "write_ubi_chunks b svc i rest written w =
    (if rest = [] then (0, w)
     else
       let chunk = min (length rest) RECOVERY_UBI_WRITE_CHUNK;
           (ret, w) = on_volume i (\<lambda>u vol. ubi_more_update_data (brd_low b) u vol (take chunk rest)) w in
       if ret < 0 then (ret, w)
       else
         let written = written + of_nat chunk;
             w = w\<lparr>prog_write_done := (if written > prog_write_total w then prog_write_total w else written)\<rparr>;
             w = w\<lparr>prog_done := prog_erase_done w + prog_write_done w\<rparr> in
         write_ubi_chunks b svc i (drop chunk rest) written (svc w))"
  by pat_completeness auto
termination
  by (relation "measure (\<lambda>(b, svc, i, rest, written, w). length rest)") (auto simp: write_chunk_pos)

text \<open>The body of \<^verbatim>\<open>recovery_write_ubi_target\<close> between opening and closing the volume.\<close>

definition update_ubi_volume ::
    "'d board \<Rightarrow> (('d, 'x) world \<Rightarrow> ('d, 'x) world) \<Rightarrow> nat \<Rightarrow> bytes \<Rightarrow> ('d, 'x) world \<Rightarrow> int \<times> ('d, 'x) world" where
  "update_ubi_volume b svc i img w =
    (case on_volume i (\<lambda>u vol d.
            if length img > nat (reserved_pebs vol) * (leb_size u - data_pad vol) then (-EFBIG, vol, d)
            else ubi_start_update (brd_low b) u vol (length img) d) w of
       (ret, w) \<Rightarrow>
         if ret \<noteq> 0 then (ret, w)
         else
           let (ret, w) = write_ubi_chunks b svc i img 0 (svc w) in
           if ret < 0 then (ret, w)
           else
             on_volume i (\<lambda>u vol d.
                let (ret, d) = ubi_check_volume (brd_low b) vol d in
                if ret < 0 then (- ret, vol, d)
                else (0, (if ret \<noteq> 0 then vol\<lparr>corrupted := True\<rparr> else vol)\<lparr>checked := True\<rparr>, d)) w)"

definition recovery_write_ubi_target ::
    "'d board \<Rightarrow> (('d, 'x) world \<Rightarrow> ('d, 'x) world) \<Rightarrow> 'd recovery_target \<Rightarrow> bytes \<Rightarrow> ('d, 'x) world \<Rightarrow>
      int \<times> ('d, 'x) world" where
  "recovery_write_ubi_target b svc t img w =
    (if backend t \<noteq> RECOVERY_BACKEND_UBI then (-EINVAL, w)
     else
       let (ret, w) = select_target_ubi b t w in
       if ret \<noteq> 0 then (-ENODEV, w)
       else case ubi_open_volume_nm (brd_low b) (case tgt_name t of Some n \<Rightarrow> n | None \<Rightarrow> []) UBI_READWRITE w of
         (Inl err, w) \<Rightarrow> (err, w)
       | (Inr i, w) \<Rightarrow>
           let (ret, w) = update_ubi_volume b svc i img w;
               w = (if ret \<noteq> 0 then upd_ubi (upd_volume i recovery_abort_ubi_update) w else w) in
           (ret, ubi_close_volume i UBI_READWRITE w))"

section \<open>The volume of the target\<close>

text \<open>No progress callback is installed when a volume is resized.\<close>

definition recovery_resize_ubi_target ::
    "'d board \<Rightarrow> 'd recovery_target \<Rightarrow> nat \<Rightarrow> ('d, 'x) world \<Rightarrow> int \<times> 'd recovery_target \<times> ('d, 'x) world" where
  "recovery_resize_ubi_target b t new_size w =
    (if backend t \<noteq> RECOVERY_BACKEND_UBI then (-EINVAL, t, w)
     else
       let (ret, w) = select_target_ubi b t w in
       if ret \<noteq> 0 then (-ENODEV, t, w)
       else case ubi_open_volume_nm (brd_low b) (case tgt_name t of Some n \<Rightarrow> n | None \<Rightarrow> []) UBI_EXCLUSIVE w of
         (Inl err, w) \<Rightarrow> (err, t, w)
       | (Inr i, w) \<Rightarrow>
           let usable = (case ubi w of
                           Some u \<Rightarrow> (case volumes u ! i of Some vol \<Rightarrow> usable_leb_size vol | None \<Rightarrow> 0)
                         | None \<Rightarrow> 0);
               needed_pebs = (new_size + usable - 1) div usable;
               (ret, w) = ubi_resize_volume (brd_low b) (\<lambda>_ _ w. w) i (int needed_pebs) w;
               t = (case ubi w of
                      Some u \<Rightarrow>
                        if ret = 0 then
                          t\<lparr>cur_size := of_nat needed_pebs * of_nat usable,
                            tgt_limit := of_int (int needed_pebs + avail_pebs u) * of_nat usable\<rparr>
                        else t
                    | None \<Rightarrow> t) in
           (ret, t, ubi_close_volume i UBI_EXCLUSIVE w))"

definition recovery_create_ubi_target ::
    "'d board \<Rightarrow> 'd recovery_target \<Rightarrow> nat \<Rightarrow> ('d, 'x) world \<Rightarrow> int \<times> 'd recovery_target \<times> ('d, 'x) world" where
  "recovery_create_ubi_target b t new_size w =
    (if backend t \<noteq> RECOVERY_BACKEND_UBI then (-EINVAL, t, w)
     else
       let (ret, w) = select_target_ubi b t w in
       if ret \<noteq> 0 then (-ENODEV, t, w)
       else case ubi w of
         None \<Rightarrow> (-ENODEV, t, w)
       | Some u \<Rightarrow>
           let name = (case tgt_name t of Some n \<Rightarrow> n | None \<Rightarrow> []) in
           if length name > UBI_VOL_NAME_MAX then (-ENAMETOOLONG, t, w)
           else
             let (ret, u, d) = ubi_create_volume (brd_low b) (mkvol_req name new_size UBI_STATIC_VOLUME) u (dev w);
                 w = w\<lparr>ubi := Some u, dev := d\<rparr> in
             if ret \<noteq> 0 then (ret, t, w)
             else recovery_try_ubi_target b (current_target w) t w)"

section \<open>What an update changes of a volume\<close>

text \<open>A volume without the fields an update works on.\<close>

definition vol_fixed :: "ubi_volume \<Rightarrow> ubi_volume" where
  "vol_fixed vol =
    vol\<lparr>used_ebs := 0, last_eb_bytes := 0, used_bytes := 0, upd_ebs := 0, upd_bytes := 0, upd_received := 0,
        upd_buf := None, checked := False, corrupted := False, upd_marker := False, updating := False\<rparr>"

lemma vol_fixed_upd [simp]:
  "vol_fixed (vol\<lparr>used_ebs := n\<rparr>) = vol_fixed vol" "vol_fixed (vol\<lparr>last_eb_bytes := n\<rparr>) = vol_fixed vol"
  "vol_fixed (vol\<lparr>used_bytes := n\<rparr>) = vol_fixed vol" "vol_fixed (vol\<lparr>upd_ebs := n\<rparr>) = vol_fixed vol"
  "vol_fixed (vol\<lparr>upd_bytes := n\<rparr>) = vol_fixed vol" "vol_fixed (vol\<lparr>upd_received := n\<rparr>) = vol_fixed vol"
  "vol_fixed (vol\<lparr>upd_buf := b\<rparr>) = vol_fixed vol" "vol_fixed (vol\<lparr>checked := c\<rparr>) = vol_fixed vol"
  "vol_fixed (vol\<lparr>corrupted := c\<rparr>) = vol_fixed vol" "vol_fixed (vol\<lparr>upd_marker := c\<rparr>) = vol_fixed vol"
  "vol_fixed (vol\<lparr>updating := c\<rparr>) = vol_fixed vol"
  by (simp_all add: vol_fixed_def)

lemma vol_fixedD:
  assumes "vol_fixed vol' = vol_fixed vol"
  shows "vol_id vol' = vol_id vol" "vol_name vol' = vol_name vol" "reserved_pebs vol' = reserved_pebs vol"
    "vol_type vol' = vol_type vol" "usable_leb_size vol' = usable_leb_size vol" "data_pad vol' = data_pad vol"
    "ref_count vol' = ref_count vol" "readers vol' = readers vol" "writers vol' = writers vol" "exclusive vol' = exclusive vol"
proof -
  have e: "f vol' = f vol" if "\<And>v. f (vol_fixed v) = f v" for f :: "ubi_volume \<Rightarrow> 'z"
    using arg_cong [OF assms, of f] by (simp only: that)
  show "vol_id vol' = vol_id vol" "vol_name vol' = vol_name vol" "reserved_pebs vol' = reserved_pebs vol"
    "vol_type vol' = vol_type vol" "usable_leb_size vol' = usable_leb_size vol" "data_pad vol' = data_pad vol"
    "ref_count vol' = ref_count vol" "readers vol' = readers vol" "writers vol' = writers vol" "exclusive vol' = exclusive vol"
    by (rule e; simp add: vol_fixed_def)+
qed

lemma set_data_size_fixed [simp]: "vol_fixed (set_data_size n vol) = vol_fixed vol"
  by (simp add: set_data_size_def Let_def)

lemma clear_marker_fixed: "clear_update_marker low vol n d = (err, vol', d') \<Longrightarrow> vol_fixed vol' = vol_fixed vol"
  by (auto simp: clear_update_marker_def Let_def split: prod.splits if_splits)

lemma set_marker_fixed: "set_update_marker low vol d = (err, vol', d') \<Longrightarrow> vol_fixed vol' = vol_fixed vol"
  by (auto simp: set_update_marker_def Let_def split: prod.splits if_splits)

lemma update_lebs_fixed: "update_lebs fuel low u vol l buf d = (err, vol', d') \<Longrightarrow> vol_fixed vol' = vol_fixed vol"
proof (induction fuel low u vol l buf d rule: update_lebs.induct)
  case (2 fuel low u vol l buf d)
  then show ?case by (auto simp: Let_def split: prod.splits if_splits)
qed simp

lemma more_update_fixed:
  assumes "ubi_more_update_data low u vol buf d = (err, vol', d')"
  shows "vol_fixed vol' = vol_fixed vol"
proof -
  have fin: "vol_fixed v' = vol_fixed v"
    if "(let (err, vol2, d) = update_lebs n low u v l b e in
         if upd_received vol2 = upd_bytes vol2 then
           let (err, d) = low_wl_flush low d in
           if err \<noteq> 0 then (err, vol2, d)
           else
             let (err, vol3, d) = clear_update_marker low vol2 (upd_bytes vol2) d in
             if err \<noteq> 0 then (err, vol3, d)
             else (k, vol3\<lparr>updating := False, upd_buf := None\<rparr>, d)
         else (err, vol2, d)) = (err', v', e')" for n v l b e k err' v' e'
    using that update_lebs_fixed clear_marker_fixed by (fastforce simp: Let_def split: prod.splits if_splits)
  define offs where "offs = upd_received vol mod usable_leb_size vol"
  define bf where "bf = (if upd_received vol + length buf > upd_bytes vol
                  then take (upd_bytes vol - upd_received vol) buf else buf)"
  define len where "len = min (usable_leb_size vol - offs) (length bf)"
  define lnum where "lnum = upd_received vol div usable_leb_size vol"
  define stage where "stage = (if offs \<noteq> 0 then
                let ub = map_option (overwrite offs (take len bf)) (upd_buf vol);
                    (err, d) = (if offs + len = usable_leb_size vol \<or> upd_received vol + len = upd_bytes vol
                                then (case ub of
                                        Some b \<Rightarrow> write_leb low u vol lnum (take (offs + len) b) (upd_ebs vol) d
                                      | None \<Rightarrow> (0, d))
                                else (0, d)) in
                (err, vol\<lparr>upd_buf := ub, upd_received := (if err \<noteq> 0 then upd_received vol else upd_received vol + len)\<rparr>,
                 lnum + 1, drop len bf, d)
              else (0, vol, lnum, bf, d))"
  obtain e1 v1 l1 b1 d1 where st: "stage = (e1, v1, l1, b1, d1)" by (rule prod_cases5)
  have v1: "vol_fixed v1 = vol_fixed vol" using st by (auto simp: stage_def Let_def split: if_splits prod.splits)
  show ?thesis
  proof (cases "ro_mode u \<or> e1 \<noteq> 0")
    case True
    then show ?thesis using assms v1 st
      unfolding ubi_more_update_data_def Let_def offs_def [symmetric] bf_def [symmetric] len_def [symmetric] lnum_def [symmetric]
        stage_def [unfolded Let_def, symmetric] by (auto split: if_splits)
  next
    case False
    then have "(let (err, vol2, d) = update_lebs (length b1) low u v1 l1 b1 d1 in
         if upd_received vol2 = upd_bytes vol2 then
           let (err, d) = low_wl_flush low d in
           if err \<noteq> 0 then (err, vol2, d)
           else
             let (err, vol3, d) = clear_update_marker low vol2 (upd_bytes vol2) d in
             if err \<noteq> 0 then (err, vol3, d)
             else (int (length bf), vol3\<lparr>updating := False, upd_buf := None\<rparr>, d)
         else (err, vol2, d)) = (err, vol', d')"
      using assms st
      unfolding ubi_more_update_data_def Let_def offs_def [symmetric] bf_def [symmetric] len_def [symmetric] lnum_def [symmetric]
        stage_def [unfolded Let_def, symmetric] by simp
    from fin [OF this] show ?thesis using v1 by simp
  qed
qed

lemma start_update_fixed:
  assumes "ubi_start_update low u vol n d = (err, vol', d')"
  shows "vol_fixed vol' = vol_fixed vol"
  using assms set_marker_fixed clear_marker_fixed
  by (fastforce simp: ubi_start_update_def Let_def split: prod.splits if_splits)

section \<open>The runtime service under the UBI operations\<close>

text \<open>
  The state without what selecting a target changes and without the progress counters; the phase is
  kept.
\<close>

definition plain :: "('d, 'x) world \<Rightarrow> ('d, 'x) world" where
  "plain w = (core w)\<lparr>prog_total := 0, prog_done := 0, prog_erase_total := 0, prog_erase_done := 0,
     prog_write_total := 0, prog_write_done := 0, prog_erase_volume_base := 0, prog_erase_volume_bytes := 0,
     prog_status_leds := False\<rparr>"

lemma plain_upd [simp]:
  "plain (w\<lparr>prog_total := n\<rparr>) = plain w" "plain (w\<lparr>prog_done := n\<rparr>) = plain w"
  "plain (w\<lparr>prog_erase_total := n\<rparr>) = plain w" "plain (w\<lparr>prog_erase_done := n\<rparr>) = plain w"
  "plain (w\<lparr>prog_write_total := n\<rparr>) = plain w" "plain (w\<lparr>prog_write_done := n\<rparr>) = plain w"
  "plain (w\<lparr>prog_erase_volume_base := k\<rparr>) = plain w" "plain (w\<lparr>prog_erase_volume_bytes := k\<rparr>) = plain w"
  "plain (w\<lparr>prog_status_leds := l\<rparr>) = plain w" "plain (w\<lparr>dev := d\<rparr>) = plain w" "plain (w\<lparr>ubi := u\<rparr>) = plain w"
  "plain (w\<lparr>recovery_ubi_attach_error := e\<rparr>) = plain w"
  by (simp_all add: plain_def core_def)

lemma keeps_plain: "keeps w w' \<Longrightarrow> plain w' = plain w"
  by (simp add: keeps_def plain_def)

text \<open>What no step of a flash operation changes.\<close>

definition stays :: "('d, 'x) world \<Rightarrow> ('d, 'x) world \<Rightarrow> bool" where
  "stays w w' \<longleftrightarrow> upload_image w' = upload_image w \<and> recv_off w' = recv_off w \<and>
     current_target w' = current_target w \<and> env w' = env w"

lemma stays_refl [simp]: "stays w w"
  by (simp add: stays_def)

lemma stays_trans: "stays u v \<Longrightarrow> stays v w \<Longrightarrow> stays u w"
  by (simp add: stays_def)

lemma plainD:
  assumes "plain w' = plain w"
  shows "stays w w'" "prog_phase w' = prog_phase w" "post_ok w' = post_ok w" "flash_request w' = flash_request w"
proof -
  have e: "f w' = f w" if "\<And>v. f (plain v) = f v" for f :: "('a, 'b) world \<Rightarrow> 'z"
    using arg_cong [OF assms, of f] by (simp only: that)
  have "upload_image w' = upload_image w" "recv_off w' = recv_off w" "current_target w' = current_target w" "env w' = env w"
    by (rule e; simp add: plain_def core_def upload_image_def)+
  then show "stays w w'" by (simp add: stays_def)
  show "prog_phase w' = prog_phase w" "post_ok w' = post_ok w" "flash_request w' = flash_request w"
    by (rule e; simp add: plain_def core_def)+
qed

text \<open>
  The contract of the runtime service for the UBI part: the invariant does not depend on the flash,
  the attached device, the references, or the counters, and the phase of a flash operation that is
  under way may move.
\<close>

locale flash_runtime = runtime svc content inv
  for svc :: "('d, 'x) world \<Rightarrow> ('d, 'x) world" and content :: "'d \<Rightarrow> int \<Rightarrow> u8" and inv :: "('d, 'x) world \<Rightarrow> bool" +
  assumes inv_plain: "inv w \<Longrightarrow> plain w' = plain w \<Longrightarrow> inv w'"
    and inv_phase: "inv w \<Longrightarrow> \<not> post_ok w \<Longrightarrow> \<not> flash_request w \<Longrightarrow> inv (w\<lparr>prog_phase := n\<rparr>)"
begin

lemma run_ok_plain: "run_ok w \<Longrightarrow> plain w' = plain w \<Longrightarrow> run_ok w'"
  using inv_plain [of w w'] plainD(2) [of w' w] by (simp add: run_ok_def)

lemma svc_stays: "run_ok w \<Longrightarrow> stays w (svc w) \<and> ubi (svc w) = ubi w"
  using svc_loop_rel by (simp add: stays_def loop_rel_def)

end

section \<open>Updating the volume of a target\<close>

lemma on_volume_Some:
  assumes "on_volume i f w = (ret, w')" "ubi w = Some u" "volumes u ! i = Some vol"
  shows "\<exists>vol' d'. f u vol (dev w) = (ret, vol', d') \<and>
    w' = w\<lparr>dev := d', ubi := Some (u\<lparr>volumes := (volumes u)[i := Some vol']\<rparr>)\<rparr>"
proof -
  obtain r v d where "f u vol (dev w) = (r, v, d)" by (rule prod_cases3)
  then show ?thesis using assms by (auto simp: on_volume_def upd_ubi_def upd_volume_def)
qed

lemma on_volume_plain:
  assumes "on_volume i f w = (ret, w')"
  shows "plain w' = plain w"
  using assms by (auto simp: on_volume_def upd_ubi_def split: option.splits prod.splits)

lemma upd_state_leb: "leb d' = leb d \<Longrightarrow> upd_state leb m img r vol d \<Longrightarrow> upd_state leb m img r vol d'"
  by (simp add: upd_state_def)

context flash_runtime
begin

lemma write_ubi_chunks_ok:
  assumes low: "low_ok leb (brd_low b)" and lc: "\<And>d d'. content d' = content d \<Longrightarrow> leb d' = leb d"
  shows "run_ok w \<Longrightarrow> ubi w = Some u \<Longrightarrow> i < length (volumes u) \<Longrightarrow> volumes u ! i = Some vol \<Longrightarrow>
    upd_state leb m img r vol (dev w) \<Longrightarrow> rest = drop r img \<Longrightarrow> rest \<noteq> [] \<Longrightarrow>
    write_ubi_chunks b svc i rest written w = (ret, w') \<Longrightarrow> 0 \<le> ret \<Longrightarrow>
    \<exists>vol'. run_ok w' \<and> stays w w' \<and> prog_phase w' = prog_phase w \<and> ubi w' = Some (u\<lparr>volumes := (volumes u)[i := Some vol']\<rparr>) \<and>
      vol_fixed vol' = vol_fixed vol \<and> upd_state leb m img (length img) vol' (dev w') \<and>
      \<not> updating vol' \<and> \<not> upd_marker vol' \<and> \<not> corrupted vol' \<and> used_bytes vol' = length img \<and> upd_buf vol' = None"
proof (induction rest arbitrary: w u vol r written rule: length_induct)
  case (1 rest)
  note prems = 1(2-)
  define chunk where "chunk = min (length rest) RECOVERY_UBI_WRITE_CHUNK"
  have cp: "0 < chunk" using prems(7) write_chunk_pos by (simp add: chunk_def)
  obtain r1 w1 where v: "on_volume i (\<lambda>u vol. ubi_more_update_data (brd_low b) u vol (take chunk rest)) w = (r1, w1)"
    by (cases "on_volume i (\<lambda>u vol. ubi_more_update_data (brd_low b) u vol (take chunk rest)) w")
  define wn where "wn = written + of_nat chunk"
  define w2 where "w2 = (let w = w1\<lparr>prog_write_done := (if wn > prog_write_total w1 then prog_write_total w1 else wn)\<rparr> in
      w\<lparr>prog_done := prog_erase_done w + prog_write_done w\<rparr>)"
  have eq: "write_ubi_chunks b svc i rest written w =
      (if r1 < 0 then (r1, w1) else write_ubi_chunks b svc i (drop chunk rest) wn (svc w2))"
    using prems(7) v unfolding write_ubi_chunks.simps [of b svc i rest written w] w2_def wn_def
    by (simp add: Let_def flip: chunk_def)
  have r1: "0 \<le> r1" using prems(8,9) eq by (cases "r1 < 0") auto
  obtain vol1 d1 where m: "ubi_more_update_data (brd_low b) u vol (take chunk rest) (dev w) = (r1, vol1, d1)"
    and w1: "w1 = w\<lparr>dev := d1, ubi := Some (u\<lparr>volumes := (volumes u)[i := Some vol1]\<rparr>)\<rparr>"
    using on_volume_Some [OF v prems(2,4)] by blast
  have rl: "r < length img" using prems(6,7) by (cases "r < length img") auto
  have cl: "length (take chunk rest) = chunk" by (simp add: chunk_def)
  have "take (length (take chunk rest)) (drop r img) = take chunk rest" "take chunk rest \<noteq> []"
    using prems(6,7) cp cl by auto
  note ok = ubi_more_update_data_ok [OF low prems(5) rl this m r1, unfolded cl]
  have f1: "vol_fixed vol1 = vol_fixed vol" by (rule more_update_fixed [OF m])
  have p2: "plain w2 = plain w" by (simp add: w2_def Let_def w1)
  have ru2: "run_ok w2" by (rule run_ok_plain [OF prems(1) p2])
  have u2: "ubi w2 = Some (u\<lparr>volumes := (volumes u)[i := Some vol1]\<rparr>)" "dev w2 = d1" by (simp_all add: w2_def Let_def w1)
  let ?w = "svc w2" and ?u = "u\<lparr>volumes := (volumes u)[i := Some vol1]\<rparr>"
  have s: "run_ok ?w" "stays w ?w" "ubi ?w = Some ?u" "prog_phase ?w = prog_phase w"
    using svc_run_ok [OF ru2] svc_stays [OF ru2] plainD(1,2) [OF p2] stays_trans u2 svc_loop_rel [OF ru2]
    by (auto simp: loop_rel_def)
  have "leb (dev ?w) = leb d1" using lc [of "dev ?w" d1] svc_content [OF ru2] u2 by simp
  then have st: "upd_state leb m img (r + chunk) vol1 (dev ?w)" by (rule upd_state_leb [OF _ conjunct1 [OF ok]])
  have e: "write_ubi_chunks b svc i (drop chunk rest) wn ?w = (ret, w')" using prems(8) eq r1 by simp
  have iu: "i < length (volumes ?u)" "volumes ?u ! i = Some vol1" using prems(3) by simp_all
  have len: "length rest = length img - r" using prems(6) by simp
  show ?case
  proof (cases "drop chunk rest = []")
    case True
    then have "r + chunk = length img" using len rl by (auto simp: chunk_def min_def split: if_splits)
    moreover have "w' = ?w" using e True by (subst (asm) write_ubi_chunks.simps) simp
    ultimately show ?thesis using s st ok f1 by (intro exI [of _ vol1]) auto
  next
    case False
    have d: "drop chunk rest = drop (r + chunk) img" using prems(6) by (simp add: add.commute)
    have "length (drop chunk rest) < length rest" using cp prems(7) by simp
    with 1(1) have "\<exists>vol'. run_ok w' \<and> stays ?w w' \<and> prog_phase w' = prog_phase ?w \<and>
        ubi w' = Some (?u\<lparr>volumes := (volumes ?u)[i := Some vol']\<rparr>) \<and>
        vol_fixed vol' = vol_fixed vol1 \<and> upd_state leb m img (length img) vol' (dev w') \<and>
        \<not> updating vol' \<and> \<not> upd_marker vol' \<and> \<not> corrupted vol' \<and> used_bytes vol' = length img \<and> upd_buf vol' = None"
      using s(1,3) iu st d False e prems(9) by blast
    then show ?thesis using s(4) f1 stays_trans [OF s(2)] by simp
  qed
qed

end

text \<open>Reading a block back changes no block.\<close>

definition low_reads_ok :: "('d \<Rightarrow> nat \<times> nat \<Rightarrow> bytes option) \<Rightarrow> 'd ubi_low \<Rightarrow> bool" where
  "low_reads_ok leb low \<longleftrightarrow> (\<forall>v l n d err d'. low_read low v l n d = (err, d') \<longrightarrow> leb d' = leb d)"

lemma check_lebs_same: "low_reads_ok leb low \<Longrightarrow> check_lebs low vol ls d = (err, d') \<Longrightarrow> leb d' = leb d"
  by (induction ls arbitrary: d) (fastforce simp: low_reads_ok_def split: prod.splits if_splits)+

lemma check_volume_same: "low_reads_ok leb low \<Longrightarrow> ubi_check_volume low vol d = (err, d') \<Longrightarrow> leb d' = leb d"
  by (auto simp: ubi_check_volume_def dest: check_lebs_same split: if_splits)

text \<open>The blocks of a volume that holds \<open>img\<close>, the others as in \<open>m\<close>.\<close>

definition image_view :: "ubi_volume \<Rightarrow> bytes \<Rightarrow> (nat \<times> nat \<Rightarrow> bytes option) \<Rightarrow> nat \<times> nat \<Rightarrow> bytes option" where
  "image_view vol img m = (\<lambda>(v, l).
     if v = vol_id vol \<and> l * usable_leb_size vol < length img
     then Some (take (usable_leb_size vol) (drop (l * usable_leb_size vol) img))
     else if v = vol_id vol \<and> l < nat (reserved_pebs vol) then None else m (v, l))"

lemma upd_state_complete:
  assumes "upd_state leb (\<lambda>(v, l). if v = vol_id vol \<and> l < nat (reserved_pebs vol) then None else m (v, l)) img (length img) vol' d"
    "vol_id vol' = vol_id vol" "usable_leb_size vol' = usable_leb_size vol"
  shows "leb d = image_view vol img m"
proof -
  have dn: "lebs_done us n n l \<longleftrightarrow> l * us < n" if "0 < us" for us n l
    using that by (auto simp: lebs_done_def)
  show ?thesis using assms by (auto simp: upd_state_def lebs_view_def leb_slice_def image_view_def fun_eq_iff dn)
qed

lemma upd_volume_upd_ubi:
  "ubi w = Some u \<Longrightarrow> volumes u ! i = Some vol \<Longrightarrow>
    upd_ubi (upd_volume i f) w = w\<lparr>ubi := Some (u\<lparr>volumes := (volumes u)[i := Some (f vol)]\<rparr>)\<rparr>"
  by (simp add: upd_ubi_def upd_volume_def)

context flash_runtime
begin

lemma update_ubi_volume_ok:
  assumes low: "low_ok leb (brd_low b)" "low_reads_ok leb (brd_low b)" and lc: "\<And>d d'. content d' = content d \<Longrightarrow> leb d' = leb d"
    and w: "run_ok w" "ubi w = Some u" "i < length (volumes u)" "volumes u ! i = Some vol"
    and vol: "vol_type vol = UBI_STATIC_VOLUME" "0 < usable_leb_size vol" "usable_leb_size vol \<le> leb_size u" and img: "img \<noteq> []"
    and run: "update_ubi_volume b svc i img w = (0, w')"
  shows "\<exists>vol'. run_ok w' \<and> stays w w' \<and> prog_phase w' = prog_phase w \<and> ubi w' = Some (u\<lparr>volumes := (volumes u)[i := Some vol']\<rparr>) \<and>
      vol_fixed vol' = vol_fixed vol \<and> leb (dev w') = image_view vol img (leb (dev w)) \<and>
      \<not> updating vol' \<and> \<not> upd_marker vol' \<and> used_bytes vol' = length img \<and> upd_buf vol' = None \<and> checked vol'"
proof -
  let ?f = "\<lambda>u vol d. if length img > nat (reserved_pebs vol) * (leb_size u - data_pad vol) then (-EFBIG, vol, d)
            else ubi_start_update (brd_low b) u vol (length img) d"
  let ?g = "\<lambda>u vol d. let (ret, d) = ubi_check_volume (brd_low b) vol d in
                if ret < 0 then (- ret, vol, d)
                else (0, (if ret \<noteq> 0 then vol\<lparr>corrupted := True\<rparr> else vol)\<lparr>checked := True\<rparr>, d)"
  obtain r1 w1 where v1: "on_volume i ?f w = (r1, w1)" by (cases "on_volume i ?f w")
  have r1: "r1 = 0" using run v1 by (auto simp: update_ubi_volume_def split: if_splits)
  obtain r2 w2 where v2: "write_ubi_chunks b svc i img 0 (svc w1) = (r2, w2)" by (cases "write_ubi_chunks b svc i img 0 (svc w1)")
  have r2: "0 \<le> r2" and v3: "on_volume i ?g w2 = (0, w')"
    using run v1 r1 v2 by (auto simp: update_ubi_volume_def split: if_splits)
  obtain vol1 d1 where s1: "?f u vol (dev w) = (0, vol1, d1)"
    and w1: "w1 = w\<lparr>dev := d1, ubi := Some (u\<lparr>volumes := (volumes u)[i := Some vol1]\<rparr>)\<rparr>"
    using on_volume_Some [OF v1 w(2,4)] r1 by blast
  have st: "ubi_start_update (brd_low b) u vol (length img) (dev w) = (0, vol1, d1)" using s1 by (simp split: if_splits)
  let ?m = "\<lambda>(v, l). if v = vol_id vol \<and> l < nat (reserved_pebs vol) then None else leb (dev w) (v, l)"
  have u1: "upd_state leb ?m img 0 vol1 d1" using ubi_start_update_ok [OF low(1) vol img st] by simp
  have f1: "vol_fixed vol1 = vol_fixed vol" by (rule start_update_fixed [OF st])
  have p1: "plain w1 = plain w" by (simp add: w1)
  have ru1: "run_ok w1" by (rule run_ok_plain [OF w(1) p1])
  let ?u1 = "u\<lparr>volumes := (volumes u)[i := Some vol1]\<rparr>"
  have sv: "run_ok (svc w1)" "stays w (svc w1)" "ubi (svc w1) = Some ?u1" "prog_phase (svc w1) = prog_phase w"
    using svc_run_ok [OF ru1] svc_stays [OF ru1] plainD(1,2) [OF p1] stays_trans w1 svc_loop_rel [OF ru1]
    by (auto simp: loop_rel_def)
  have "leb (dev (svc w1)) = leb d1" using lc [of "dev (svc w1)" d1] svc_content [OF ru1] w1 by simp
  then have u2: "upd_state leb ?m img 0 vol1 (dev (svc w1))" by (rule upd_state_leb [OF _ u1])
  have iu: "i < length (volumes ?u1)" "volumes ?u1 ! i = Some vol1" using w(3) by simp_all
  obtain vol2 where c: "run_ok w2" "stays (svc w1) w2" "prog_phase w2 = prog_phase (svc w1)"
    "ubi w2 = Some (?u1\<lparr>volumes := (volumes ?u1)[i := Some vol2]\<rparr>)"
    "vol_fixed vol2 = vol_fixed vol1" "upd_state leb ?m img (length img) vol2 (dev w2)"
    "\<not> updating vol2" "\<not> upd_marker vol2" "\<not> corrupted vol2" "used_bytes vol2 = length img" "upd_buf vol2 = None"
    using write_ubi_chunks_ok [OF low(1) lc sv(1,3) iu u2 _ img v2 r2] by auto
  have f2: "vol_fixed vol2 = vol_fixed vol" using c(5) f1 by simp
  let ?u2 = "?u1\<lparr>volumes := (volumes ?u1)[i := Some vol2]\<rparr>"
  have i2: "volumes ?u2 ! i = Some vol2" using w(3) by simp
  obtain vol3 d3 where s3: "?g ?u2 vol2 (dev w2) = (0, vol3, d3)"
    and w3: "w' = w2\<lparr>dev := d3, ubi := Some (?u2\<lparr>volumes := (volumes ?u2)[i := Some vol3]\<rparr>)\<rparr>"
    using on_volume_Some [OF v3 c(4) i2] by blast
  obtain r3 d4 where k: "ubi_check_volume (brd_low b) vol2 (dev w2) = (r3, d4)" by (cases "ubi_check_volume (brd_low b) vol2 (dev w2)")
  have g3: "d3 = d4" "vol3 = (if r3 \<noteq> 0 then vol2\<lparr>corrupted := True\<rparr> else vol2)\<lparr>checked := True\<rparr>"
    using s3 k by (auto split: if_splits)
  have "leb d3 = leb (dev w2)" using check_volume_same [OF low(2) k] g3 by simp
  also have "\<dots> = image_view vol img (leb (dev w))"
    by (rule upd_state_complete [OF c(6) vol_fixedD(1,5) [OF f2]])
  finally have l: "leb (dev w') = image_view vol img (leb (dev w))" by (simp add: w3)
  have p3: "plain w' = plain w2" by (simp add: w3)
  have "run_ok w'" by (rule run_ok_plain [OF c(1) p3])
  moreover have "stays w w'" "prog_phase w' = prog_phase w"
    using sv(2,4) c(2,3) plainD(1,2) [OF p3] stays_trans by metis+
  moreover have "vol_fixed vol3 = vol_fixed vol" using f2 g3 by simp
  ultimately show ?thesis using l c(7-11) g3 by (intro exI [of _ vol3]) (auto simp: w3)
qed

end

section \<open>Opening, creating and keeping volumes\<close>

lemma close_open [simp]: "open_mode m vol = Some volo \<Longrightarrow> close_mode m volo = vol"
  by (auto simp: open_mode_def close_mode_def Let_def split: ubi_mode.splits if_splits)

text \<open>Two volumes that differ only in what an update or a check changes.\<close>

lemma close_fixed: "vol_fixed vol1 = vol_fixed volo \<Longrightarrow> open_mode m vol = Some volo \<Longrightarrow> vol_fixed (close_mode m vol1) = vol_fixed vol"
proof -
  assume f: "vol_fixed vol1 = vol_fixed volo" and o: "open_mode m vol = Some volo"
  have c: "vol_fixed (close_mode m v) = close_mode m (vol_fixed v)" for v
    by (simp add: close_mode_def vol_fixed_def Let_def split: ubi_mode.splits)
  show ?thesis using c [of vol1] c [of volo] f close_open [OF o] by simp
qed

lemma open_nm_cases:
  assumes "ubi_open_volume_nm low n mode w = (r, w')" "low_reads_ok leb low" "ubi w = Some u"
  shows "keeps w w' \<and> leb (dev w') = leb (dev w) \<and>
    ((\<exists>e. r = Inl e) \<and> ubi w' = ubi w \<or>
     (\<exists>i vol volo vol1. r = Inr i \<and> find_volume n (volumes u) 0 = Some i \<and> i < length (volumes u) \<and>
        volumes u ! i = Some vol \<and> vol_name vol = n \<and> open_mode mode vol = Some volo \<and> vol_fixed vol1 = vol_fixed volo \<and>
        ubi w' = Some (u\<lparr>volumes := (volumes u)[i := Some vol1]\<rparr>)))"
proof (cases "length n > UBI_VOL_NAME_MAX \<or> find_volume n (volumes u) 0 = None")
  case True
  then show ?thesis using assms(1,3) by (auto simp: ubi_open_volume_nm_def split: if_splits)
next
  case False
  then obtain i where i: "find_volume n (volumes u) 0 = Some i" by auto
  then obtain vol where v: "i < length (volumes u)" "volumes u ! i = Some vol" "vol_name vol = n"
    using find_volume_Some by fastforce
  have k: "keeps w w'" by (rule open_nm_keeps [OF assms(1)])
  have o: "ubi_open_volume low i mode w = (r, w')" using assms(1,3) False i by (simp add: ubi_open_volume_nm_def)
  show ?thesis
  proof (cases "low_alloc low 4 \<and> open_mode mode vol \<noteq> None")
    case False
    then show ?thesis using o v assms(3) k by (auto simp: ubi_open_volume_def split: option.splits if_splits)
  next
    case True
    then obtain volo where vo: "open_mode mode vol = Some volo" by auto
    let ?w = "upd_ubi (upd_volume i (\<lambda>_. volo)) w"
    have w1: "?w = w\<lparr>ubi := Some (u\<lparr>volumes := (volumes u)[i := Some volo]\<rparr>)\<rparr>"
      by (rule upd_volume_upd_ubi [OF assms(3) v(2)])
    show ?thesis
    proof (cases "checked volo")
      case True
      then have "r = Inr i" "w' = ?w" using o v assms(3) vo \<open>low_alloc low 4 \<and> _\<close>
        by (auto simp: ubi_open_volume_def Let_def)
      then show ?thesis using i v vo k w1 by auto
    next
      case False
      obtain e d where c: "ubi_check_volume low volo (dev w) = (e, d)" by (cases "ubi_check_volume low volo (dev w)")
      have l: "leb d = leb (dev w)" by (rule check_volume_same [OF assms(2) c])
      let ?w2 = "?w\<lparr>dev := d\<rparr>"
      have w2: "ubi ?w2 = Some (u\<lparr>volumes := (volumes u)[i := Some volo]\<rparr>)" "dev ?w2 = d" by (simp_all add: w1)
      have d1: "dev ?w = dev w" by (simp add: w1)
      have e: "(r, w') = (if e < 0 then (Inl e, ubi_close_volume i mode ?w2)
          else (Inr i, upd_ubi (upd_volume i (\<lambda>v. v\<lparr>corrupted := (if e = 1 then True else corrupted v), checked := True\<rparr>)) ?w2))"
        using o v assms(3) vo \<open>low_alloc low 4 \<and> _\<close> False c d1 unfolding ubi_open_volume_def
        by (auto simp: Let_def)
      have i2: "volumes (u\<lparr>volumes := (volumes u)[i := Some volo]\<rparr>) ! i = Some volo" using v by simp
      note up = upd_volume_upd_ubi [OF w2(1) i2]
      show ?thesis
      proof (cases "e < 0")
        case True
        then have "w' = ubi_close_volume i mode ?w2" "r = Inl e" using e by auto
        moreover have "ubi_close_volume i mode ?w2 = ?w2\<lparr>ubi := ubi w\<rparr>"
          unfolding ubi_close_volume_def up using close_open [OF vo] v assms(3) by (simp add: list_update_same_conv)
        ultimately show ?thesis using l k w2 by auto
      next
        case False
        then have "r = Inr i" "w' = upd_ubi (upd_volume i (\<lambda>v. v\<lparr>corrupted := (if e = 1 then True else corrupted v), checked := True\<rparr>)) ?w2"
          using e by auto
        then have "ubi w' = Some (u\<lparr>volumes := (volumes u)[i := Some (volo\<lparr>corrupted := (if e = 1 then True else corrupted volo), checked := True\<rparr>)]\<rparr>)"
          "dev w' = d" unfolding up by simp_all
        moreover have "vol_fixed (volo\<lparr>corrupted := (if e = 1 then True else corrupted volo), checked := True\<rparr>) = vol_fixed volo" by simp
        ultimately show ?thesis using k l i v vo \<open>r = Inr i\<close> by blast
      qed
    qed
  qed
qed

text \<open>Later states of a device: volumes may have been added, updated and checked, none is lost or renamed.\<close>

definition grows :: "ubi_device \<Rightarrow> ubi_device \<Rightarrow> bool" where
  "grows u u' \<longleftrightarrow> ubi_mtd_name u' = ubi_mtd_name u \<and> leb_size u' = leb_size u \<and> length (volumes u') = length (volumes u) \<and>
     (ubi_wf u \<longrightarrow> ubi_wf u') \<and>
     (\<forall>i vol. i < length (volumes u) \<longrightarrow> volumes u ! i = Some vol \<longrightarrow>
        (\<exists>vol'. volumes u' ! i = Some vol' \<and> vol_fixed vol' = vol_fixed vol))"

lemma grows_refl [simp]: "grows u u"
  by (simp add: grows_def)

lemma grows_trans: "grows u v \<Longrightarrow> grows v w \<Longrightarrow> grows u w"
  by (simp add: grows_def) metis

lemma vol_names_same:
  assumes "i < length vs" "vs ! i = Some vol" "vol_name vol' = vol_name vol"
  shows "vol_names (vs[i := Some vol']) = vol_names vs"
proof -
  have vs: "vs = take i vs @ Some vol # drop (Suc i) vs" using assms(1,2) by (metis id_take_nth_drop)
  show ?thesis using assms(1,3) by (subst (2) vs) (simp add: upd_conv_take_nth_drop)
qed

lemma grows_volume:
  assumes "i < length (volumes u)" "volumes u ! i = Some vol" "vol_fixed vol' = vol_fixed vol"
  shows "grows u (u\<lparr>volumes := (volumes u)[i := Some vol']\<rparr>)"
  using assms vol_fixedD [OF assms(3)] vol_names_same [OF assms(1,2)]
  by (auto simp: grows_def ubi_wf_def nth_list_update)

lemma open_close_grows:
  assumes "ubi_open_volume_nm low n mode w = (Inr i, w1)" "low_reads_ok leb low" "ubi w = Some u"
    and "w' = ubi_close_volume i mode w1"
  shows "keeps w w' \<and> leb (dev w') = leb (dev w) \<and> (\<exists>u'. ubi w' = Some u' \<and> grows u u')"
proof -
  obtain vol volo vol1 where k: "keeps w w1" "leb (dev w1) = leb (dev w)" and i: "i < length (volumes u)" "volumes u ! i = Some vol"
    "open_mode mode vol = Some volo" "vol_fixed vol1 = vol_fixed volo"
    and u1: "ubi w1 = Some (u\<lparr>volumes := (volumes u)[i := Some vol1]\<rparr>)"
    using open_nm_cases [OF assms(1-3)] by auto
  have i2: "volumes (u\<lparr>volumes := (volumes u)[i := Some vol1]\<rparr>) ! i = Some vol1" using i by simp
  have "w' = w1\<lparr>ubi := Some (u\<lparr>volumes := (volumes u)[i := Some (close_mode mode vol1)]\<rparr>)\<rparr>"
    unfolding assms(4) ubi_close_volume_def upd_volume_upd_ubi [OF u1 i2] by simp
  moreover have "grows u (u\<lparr>volumes := (volumes u)[i := Some (close_mode mode vol1)]\<rparr>)"
    by (rule grows_volume [OF i(1,2) close_fixed [OF i(4,3)]])
  moreover have "keeps w w'" using keeps_trans [OF k(1) close_keeps] assms(4) by simp
  ultimately show ?thesis using k by auto
qed

text \<open>A volume of a given name and type, with usable blocks.\<close>

definition has_vol :: "string \<Rightarrow> vol_type \<Rightarrow> ubi_device \<Rightarrow> bool" where
  "has_vol n ty u \<longleftrightarrow> (\<exists>i vol. i < length (volumes u) \<and> volumes u ! i = Some vol \<and> vol_name vol = n \<and> vol_type vol = ty \<and>
     usable_leb_size vol = leb_size u)"

lemma has_vol_grows: "has_vol n ty u \<Longrightarrow> grows u u' \<Longrightarrow> has_vol n ty u'"
proof -
  assume "has_vol n ty u" and g: "grows u u'"
  then obtain i vol where v: "i < length (volumes u)" "volumes u ! i = Some vol" "vol_name vol = n" "vol_type vol = ty"
    "usable_leb_size vol = leb_size u" by (auto simp: has_vol_def)
  then obtain vol' where v': "volumes u' ! i = Some vol'" "vol_fixed vol' = vol_fixed vol"
    using g by (auto simp: grows_def)
  show "has_vol n ty u'" unfolding has_vol_def
    using v v'(1) vol_fixedD(2,4,5) [OF v'(2)] g by (intro exI [of _ i] exI [of _ vol']) (simp add: grows_def)
qed

lemma create_leb:
  assumes "ubi_create_volume low req u d = (ret, u', d')" "low_ok leb low"
  shows "leb d' = leb d"
proof -
  obtain e1 d1 where f: "low_wl_flush low d = (e1, d1)" by (cases "low_wl_flush low d")
  have l1: "leb d1 = leb d" using low_okD(4) [OF assms(2) f] by simp
  have c: "leb (snd (low_change_vtbl low i r d1)) = leb d" for i r
    using low_okD(5) [OF assms(2), of i r d1] l1 by (metis prod.collapse)
  have "leb (snd (snd (ubi_create_volume low req u d))) = leb d"
    unfolding ubi_create_volume_def Let_def f prod.case case_prod_beta
    by (simp only: if_distrib [of snd] if_distrib [of leb] option.case_distrib [of snd] option.case_distrib [of leb] snd_conv c l1 if_cancel option.case_eq_if)
  then show ?thesis by (simp only: assms(1) snd_conv)
qed
lemma create_grows:
  assumes "ubi_create_volume low req u d = (ret, u', d')" "req_vol_id req = None" "req_alignment req = 1"
    and "low_ok leb low"
  shows "grows u u' \<and> leb d' = leb d \<and> (ret = 0 \<longrightarrow> has_vol (req_name req) (req_vol_type req) u')"
proof -
  note l = create_leb [OF assms(1,4)]
  consider "ret \<noteq> 0" "u' = u" | (new) i vol where "ret = 0" "req_pebs u req \<le> avail_pebs u" "req_name req \<notin> set (vol_names (volumes u))"
    "i < length (volumes u)" "volumes u ! i = None" "vol_id vol = i" "vol_name vol = req_name req" "reserved_pebs vol = req_pebs u req"
    "vol_type vol = req_vol_type req" "usable_leb_size vol = leb_size u - leb_size u mod req_alignment req"
    "u' = u\<lparr>avail_pebs := avail_pebs u - req_pebs u req, rsvd_pebs := rsvd_pebs u + req_pebs u req,
              volumes := (volumes u)[i := Some vol], vol_count := vol_count u + 1\<rparr>"
    using create_cases [OF assms(1,2)] by auto
  then show ?thesis
  proof cases
    case new
    have "0 \<le> req_pebs u req" by (simp add: req_pebs_def Let_def)
    then have "ubi_wf u \<Longrightarrow> ubi_wf u'" using new by (auto simp: ubi_wf_def nth_list_update vol_names_put)
    moreover have "\<exists>vol'. volumes u' ! j = Some vol' \<and> vol_fixed vol' = vol_fixed v" if "volumes u ! j = Some v" for j v
      using new(5,11) that by (cases "j = i") auto
    moreover have "has_vol (req_name req) (req_vol_type req) u'"
      unfolding has_vol_def using new assms(3) by (intro exI [of _ i] exI [of _ vol]) simp
    ultimately show ?thesis using l new(11) by (auto simp: grows_def)
  qed (use l in simp)
qed

text \<open>A step on the attached device that changes no block of data and loses no volume.\<close>

definition ustep :: "('d \<Rightarrow> nat \<times> nat \<Rightarrow> bytes option) \<Rightarrow> ('d, 'x) world \<Rightarrow> ('d, 'x) world \<Rightarrow> bool" where
  "ustep leb w w' \<longleftrightarrow> plain w' = plain w \<and> leb (dev w') = leb (dev w) \<and>
     (\<forall>u. ubi w = Some u \<longrightarrow> (\<exists>u'. ubi w' = Some u' \<and> grows u u'))"

lemma ustep_refl [simp]: "ustep leb w w"
  by (simp add: ustep_def)

lemma ustep_trans: "ustep leb u v \<Longrightarrow> ustep leb v w \<Longrightarrow> ustep leb u w"
  unfolding ustep_def using grows_trans by metis

lemma select_attached:
  assumes "recovery_select_ubi b part w = (ret, w')" "ubi w = Some u" "ubi_mtd_name u = part"
  shows "plain w' = plain w \<and> dev w' = dev w \<and> ubi w' = ubi w"
proof -
  obtain a w1 where a: "recovery_board_active b w = (a, w1)" by (cases "recovery_board_active b w")
  have "w' = w1" using assms a by (auto simp: recovery_select_ubi_def Let_def split: if_splits)
  then show ?thesis using board_active_keeps [OF a] keeps_plain by blast
qed

lemma select_target_attached:
  assumes "select_target_ubi b t w = (ret, w')" "ubi w = Some u" "tgt_ubi_part t = Some (ubi_mtd_name u)"
  shows "ustep leb w w' \<and> ubi w' = Some u"
  using select_attached [of b "ubi_mtd_name u" w ret w' u] assms by (auto simp: select_target_ubi_def ustep_def)

lemma create_volume_step:
  assumes "recovery_create_ubi_volume b name n ty w = (ret, w')" "ubi w = Some u" "low_ok leb (brd_low b)"
  shows "ustep leb w w' \<and> (ret = 0 \<longrightarrow> (\<exists>u'. ubi w' = Some u' \<and> has_vol name ty u'))"
proof (cases "name = [] \<or> length name > UBI_VOL_NAME_MAX")
  case True
  then show ?thesis using assms(1,2) by (auto simp: recovery_create_ubi_volume_def Let_def split: if_splits)
next
  case False
  define m where "m = (if n = 0 then nat (avail_pebs u) * leb_size u else n)"
  obtain r u1 d1 where c: "ubi_create_volume (brd_low b) (mkvol_req name m ty) u (dev w) = (r, u1, d1)" by (rule prod_cases3)
  have e: "ret = r" "w' = w\<lparr>ubi := Some u1, dev := d1\<rparr>"
    using assms(1,2) False c by (auto simp: recovery_create_ubi_volume_def Let_def m_def)
  show ?thesis using create_grows [OF c _ _ assms(3)] e by (auto simp: ustep_def assms(2) mkvol_req_def)
qed

text \<open>The layers below do not report that something exists.\<close>

definition low_codes_ok :: "'d ubi_low \<Rightarrow> bool" where
  "low_codes_ok low \<longleftrightarrow> (\<forall>d. fst (low_wl_flush low d) \<noteq> -EEXIST) \<and> (\<forall>i c d. fst (low_change_vtbl low i c d) \<noteq> -EEXIST)"

lemma create_eexist:
  assumes "ubi_create_volume low req u d = (-EEXIST, u', d')" "req_vol_id req = None" "low_codes_ok low"
  shows "req_name req \<in> set (vol_names (volumes u))"
proof (rule ccontr)
  assume "req_name req \<notin> set (vol_names (volumes u))"
  then have n: "find_volume (req_name req) (volumes u) 0 = None" using find_volume_None by metis
  obtain e1 d1 where f: "low_wl_flush low d = (e1, d1)" by (cases "low_wl_flush low d")
  have e1: "e1 \<noteq> -EEXIST" using assms(3) f by (metis fst_conv low_codes_ok_def)
  have c: "fst (low_change_vtbl low i r d1) \<noteq> -EEXIST" for i r using assms(3) by (simp add: low_codes_ok_def)
  have "fst (ubi_create_volume low req u d) \<noteq> -EEXIST"
  proof (cases "first_free (volumes u) 0")
    case None
    then show ?thesis using assms(2) by (simp add: ubi_create_volume_def)
  next
    case (Some i)
    then have "volumes u ! i = None" using first_free_Some by fastforce
    then show ?thesis unfolding ubi_create_volume_def Let_def f prod.case case_prod_beta assms(2) option.case Some n
      by (simp only: if_distrib [of fst] fst_conv simp_thms if_False) (simp add: e1 c)
  qed
  then show False by (simp only: assms(1) fst_conv not_False_eq_True)
qed

lemma has_vol_names: "has_vol n ty u \<Longrightarrow> n \<in> set (vol_names (volumes u))"
  unfolding has_vol_def vol_names_def by (force dest!: nth_mem)

lemma has_names: "n \<in> set (vol_names vs) \<longleftrightarrow> (\<exists>i<length vs. \<exists>vol. vs ! i = Some vol \<and> vol_name vol = n)"
  by (force simp: vol_names_def in_set_conv_nth split: option.splits)

lemma names_grow:
  assumes "n \<in> set (vol_names (volumes u))" "grows u u'"
  shows "n \<in> set (vol_names (volumes u'))"
proof -
  obtain i vol where v: "i < length (volumes u)" "volumes u ! i = Some vol" "vol_name vol = n" using assms(1) has_names by blast
  then obtain vol' where v': "volumes u' ! i = Some vol'" "vol_fixed vol' = vol_fixed vol" using assms(2) by (auto simp: grows_def)
  then show ?thesis unfolding has_names
    using v vol_fixedD(2) [OF v'(2)] assms(2) by (intro exI [of _ i]) (auto simp: grows_def)
qed

lemma open_or_create:
  assumes low: "low_ok leb (brd_low b)" "low_reads_ok leb (brd_low b)" "low_codes_ok (brd_low b)"
    and u: "ubi w = Some u" and name: "name \<noteq> []"
    and run: "(case ubi_open_volume_nm (brd_low b) name UBI_READWRITE w of
       (Inr i, w) \<Rightarrow> (0, ubi_close_volume i UBI_READWRITE w)
     | (Inl _, w) \<Rightarrow>
         let (ret, w) = recovery_create_ubi_volume b name n ty w in
         if ret \<noteq> 0 \<and> ret \<noteq> -EEXIST then (ret, w) else (0, w)) = (ret, w')"
  shows "ustep leb w w' \<and> (ret = 0 \<longrightarrow> (\<exists>u'. ubi w' = Some u' \<and> name \<in> set (vol_names (volumes u'))))"
proof -
  obtain r w1 where o: "ubi_open_volume_nm (brd_low b) name UBI_READWRITE w = (r, w1)"
    by (cases "ubi_open_volume_nm (brd_low b) name UBI_READWRITE w")
  show ?thesis
  proof (cases r)
    case (Inr i)
    then have w': "w' = ubi_close_volume i UBI_READWRITE w1" using run o by simp
    note g = open_close_grows [OF o [unfolded Inr] low(2) u w']
    have "find_volume name (volumes u) 0 = Some i" using open_nm_cases [OF o low(2) u] Inr by auto
    then have "name \<in> set (vol_names (volumes u))" using find_volume_None by (metis option.distinct(1))
    then show ?thesis using g u keeps_plain names_grow by (auto simp: ustep_def)
  next
    case (Inl e)
    have w1: "ubi w1 = Some u" "ustep leb w w1"
      using open_nm_cases [OF o low(2) u] Inl u keeps_plain by (auto simp: ustep_def)
    obtain r2 w2 where c: "recovery_create_ubi_volume b name n ty w1 = (r2, w2)" by (cases "recovery_create_ubi_volume b name n ty w1")
    have e: "w' = w2" "ret = 0 \<longrightarrow> r2 = 0 \<or> r2 = -EEXIST" using run o Inl c by (auto split: if_splits)
    note s = create_volume_step [OF c w1(1) low(1)]
    have "\<exists>u'. ubi w2 = Some u' \<and> name \<in> set (vol_names (volumes u'))" if x: "r2 = -EEXIST"
    proof -
      obtain u2 where u2: "ubi w2 = Some u2" "grows u u2" using s w1(1) by (auto simp: ustep_def)
      define m where "m = (if n = 0 then nat (avail_pebs u) * leb_size u else n)"
      obtain d1 u1 where "ubi_create_volume (brd_low b) (mkvol_req name m ty) u (dev w1) = (-EEXIST, u1, d1)"
        using c w1(1) name x by (auto simp: recovery_create_ubi_volume_def Let_def m_def split: if_splits prod.splits)
      from create_eexist [OF this _ low(3)] have "name \<in> set (vol_names (volumes u))" by (simp add: mkvol_req_def)
      then show ?thesis using u2 names_grow by blast
    qed
    then show ?thesis using e s ustep_trans [OF w1(2)] has_vol_names by blast
  qed
qed

lemma ensure_named_step:
  assumes "low_ok leb (brd_low b)" "low_reads_ok leb (brd_low b)" "low_codes_ok (brd_low b)" "ubi w = Some u" "name \<noteq> []"
    and "recovery_ensure_ubi_volume_named b name n ty w = (ret, w')"
  shows "ustep leb w w' \<and> (ret = 0 \<longrightarrow> (\<exists>u'. ubi w' = Some u' \<and> name \<in> set (vol_names (volumes u'))))"
  by (rule open_or_create [OF assms(1-5)]) (use assms(5,6) in \<open>simp add: recovery_ensure_ubi_volume_named_def\<close>)

lemma ensure_rootfs_step:
  assumes "low_ok leb (brd_low b)" "low_reads_ok leb (brd_low b)" "low_codes_ok (brd_low b)" "ubi w = Some u"
    and "backend t = RECOVERY_BACKEND_UBI" "tgt_ubi_part t = Some (ubi_mtd_name u)"
    and "recovery_ensure_rootfs_data b t w = (ret, w')"
  shows "ustep leb w w' \<and> (ret = 0 \<longrightarrow> (\<exists>u'. ubi w' = Some u' \<and> ''rootfs_data'' \<in> set (vol_names (volumes u'))))"
proof -
  obtain r w1 where s: "select_target_ubi b t w = (r, w1)" by (cases "select_target_ubi b t w")
  have w1: "ustep leb w w1" "ubi w1 = Some u" using select_target_attached [OF s assms(4,6)] by auto
  show ?thesis
  proof (cases "r = 0")
    case False
    then show ?thesis using assms(5,7) s w1 by (simp add: recovery_ensure_rootfs_data_def)
  next
    case True
    then have "ustep leb w1 w' \<and> (ret = 0 \<longrightarrow> (\<exists>u'. ubi w' = Some u' \<and> ''rootfs_data'' \<in> set (vol_names (volumes u'))))"
      using assms(5,7) s by (intro open_or_create [OF assms(1-3) w1(2)]) (simp_all add: recovery_ensure_rootfs_data_def)
    then show ?thesis using ustep_trans [OF w1(1)] by blast
  qed
qed

text \<open>The boards on which the calibration volume is created before \<^verbatim>\<open>rootfs_data\<close> takes the rest.\<close>

definition factory_board :: "'d board \<Rightarrow> bool" where
  "factory_board b \<longleftrightarrow> brd_compat b ''naoki,xg2010g'' \<or> brd_compat b ''econet,xg2010g'' \<or>
     brd_compat b ''econet,xg2010g-ubi'' \<or> brd_compat b ''gemtek,xg2010g'' \<or>
     brd_compat b ''gemtek,xg2010g-ubi'' \<or> brd_compat b ''gemtek,w1700k'' \<or> brd_compat b ''gemtek,w1700k-ubi''"

lemma ensure_preserved_step:
  assumes "low_ok leb (brd_low b)" "low_reads_ok leb (brd_low b)" "low_codes_ok (brd_low b)" "ubi w = Some u"
    and "backend t = RECOVERY_BACKEND_UBI" "tgt_ubi_part t = Some (ubi_mtd_name u)"
    and "recovery_ensure_preserved_ubi_volumes b t w = (ret, w')"
  shows "ustep leb w w' \<and> (ret = 0 \<longrightarrow> factory_board b \<longrightarrow> (\<exists>u'. ubi w' = Some u' \<and> ''factory'' \<in> set (vol_names (volumes u'))))"
proof -
  obtain r w1 where s: "select_target_ubi b t w = (r, w1)" by (cases "select_target_ubi b t w")
  have w1: "ustep leb w w1" "ubi w1 = Some u" using select_target_attached [OF s assms(4,6)] by auto
  obtain r2 w2 where e: "recovery_ensure_ubi_volume_named b ''factory'' RECOVERY_FACTORY_SIZE UBI_STATIC_VOLUME w1 = (r2, w2)"
    by (cases "recovery_ensure_ubi_volume_named b ''factory'' RECOVERY_FACTORY_SIZE UBI_STATIC_VOLUME w1")
  have n: "''factory'' \<noteq> []" by simp
  note es = ensure_named_step [OF assms(1-3) w1(2) n e]
  have eq: "(ret, w') = (if r \<noteq> 0 then (-ENODEV, w1) else if factory_board b then (r2, w2) else (0, w1))"
    using assms(5,7) s e unfolding recovery_ensure_preserved_ubi_volumes_def factory_board_def [symmetric] by (auto split: if_splits)
  show ?thesis
  proof (cases "r = 0 \<and> factory_board b")
    case True
    then show ?thesis using eq es ustep_trans [OF w1(1)] by auto
  next
    case False
    then show ?thesis using eq w1 by (auto split: if_splits)
  qed
qed

lemma get_mtd_step: "get_mtd b n w = (r, w') \<Longrightarrow> plain w' = plain w \<and> dev w' = dev w \<and> ubi w' = ubi w"
  by (auto simp: get_mtd_def plain_def core_def split: sum.splits)

lemma put_mtd_step: "plain (put_mtd_device m w) = plain w \<and> dev (put_mtd_device m w) = dev w \<and> ubi (put_mtd_device m w) = ubi w"
  by (simp add: put_mtd_device_def plain_def core_def)

lemma same_ustep: "plain w' = plain w \<and> dev w' = dev w \<and> ubi w' = ubi w \<Longrightarrow> ustep leb w w'"
  by (auto simp: ustep_def)

lemma ubi_part_name_step:
  assumes "recovery_ubi_part b tgt w = (p, w')"
  shows "plain w' = plain w \<and> dev w' = dev w \<and> ubi w' = ubi w"
proof -
  obtain a w1 where a: "(if tgt = TARGET_FIRMWARE then recovery_board_active b w else (False, w)) = (a, w1)"
    by (cases "if tgt = TARGET_FIRMWARE then recovery_board_active b w else (False, w)")
  have "w' = w1" using assms a unfolding recovery_ubi_part_def by (auto simp: Let_def split: if_splits)
  then show ?thesis using active_if_keeps [OF a] keeps_plain by auto
qed

lemma try_ubi_step:
  assumes low: "low_reads_ok leb (brd_low b)" and u: "ubi w = Some u"
    and p: "recovery_ubi_part b tgt w = (Some (ubi_mtd_name u), w0)"
    and run: "recovery_try_ubi_target b tgt t w = (ret, t', w')"
  shows "ustep leb w w' \<and> (ret = 0 \<longrightarrow> backend t' = RECOVERY_BACKEND_UBI \<and> tgt_ubi_part t' = Some (ubi_mtd_name u) \<and>
    (tgt = TARGET_FIRMWARE \<and> brd_ops b \<and> brd_match b \<longrightarrow> tgt_name t' = Some ''fit''))"
proof -
  have w0: "ustep leb w w0" "ubi w0 = Some u" using same_ustep [OF ubi_part_name_step [OF p]] ubi_part_name_step [OF p] u by auto
  obtain v w1 where v: "target_volume b tgt w0 = (v, w1)" by (cases "target_volume b tgt w0")
  have w1: "ustep leb w0 w1" "ubi w1 = Some u"
    using target_volume_keeps [OF v] keeps_plain w0(2) by (auto simp: ustep_def)
  have fit: "tgt = TARGET_FIRMWARE \<and> brd_ops b \<and> brd_match b \<longrightarrow> v = ''fit''" using target_volume_keeps [OF v] by simp
  obtain r w2 where s: "recovery_select_ubi b (ubi_mtd_name u) w1 = (r, w2)" by (cases "recovery_select_ubi b (ubi_mtd_name u) w1")
  have w2: "ustep leb w1 w2" "ubi w2 = Some u" using select_attached [OF s w1(2) refl] w1(2) by (auto simp: ustep_def)
  have s2: "ustep leb w w2" using ustep_trans w0(1) w1(1) w2(1) by blast
  show ?thesis
  proof (cases "r = 0")
    case False
    obtain g w3 where g: "get_mtd b (ubi_mtd_name u) w2 = (g, w3)" by (cases "get_mtd b (ubi_mtd_name u) w2")
    have w3: "ustep leb w2 w3" by (rule same_ustep [OF get_mtd_step [OF g]])
    obtain a w4 where a: "recovery_board_active b w3 = (a, w4)" by (cases "recovery_board_active b w3")
    have w4: "ustep leb w3 w4" using board_active_keeps [OF a] keeps_plain by (intro same_ustep) blast
    have s4: "ustep leb w w4" "ustep leb w w3" "ustep leb w (put_mtd_device m w4)" for m
      using ustep_trans s2 w3 w4 same_ustep [OF put_mtd_step] by metis+
    show ?thesis using run p v s False g a s4 fit unfolding recovery_try_ubi_target_def Let_def
      by (cases g) (auto split: if_splits)
  next
    case True
    obtain op w3 where o: "ubi_open_volume_nm (brd_low b) v UBI_READWRITE w2 = (op, w3)"
      by (cases "ubi_open_volume_nm (brd_low b) v UBI_READWRITE w2")
    show ?thesis
    proof (cases op)
      case (Inl e)
      then have "ustep leb w2 w3" using open_nm_cases [OF o low w2(2)] w2(2) keeps_plain by (auto simp: ustep_def)
      then have "ustep leb w w3" using ustep_trans s2 by blast
      then show ?thesis using run p v s True o Inl fit unfolding recovery_try_ubi_target_def Let_def
        by (auto split: option.splits)
    next
      case (Inr i)
      obtain u3 where u3: "ubi w3 = Some u3" using open_nm_cases [OF o low w2(2)] Inr by auto
      obtain vol where vol: "volumes u3 ! i = Some vol" using open_nm_cases [OF o low w2(2)] Inr u3 by auto
      have w': "w' = ubi_close_volume i UBI_READWRITE w3"
        and "ret = 0" "backend t' = RECOVERY_BACKEND_UBI" "tgt_ubi_part t' = Some (ubi_mtd_name u)" "tgt_name t' = Some v"
        using run p v s True o Inr u3 vol unfolding recovery_try_ubi_target_def Let_def by auto
      moreover have "ustep leb w2 w'"
        using open_close_grows [OF o [unfolded Inr] low w2(2) w'] w2(2) keeps_plain by (auto simp: ustep_def)
      ultimately show ?thesis using ustep_trans s2 fit by blast
    qed
  qed
qed

lemma find_volume_unique:
  "distinct (vol_names vs) \<Longrightarrow> i < length vs \<Longrightarrow> vs ! i = Some vol \<Longrightarrow> find_volume (vol_name vol) vs k = Some (k + i)"
proof (induction vs arbitrary: i k)
  case (Cons v vs)
  show ?case
  proof (cases i)
    case 0
    then show ?thesis using Cons.prems by simp
  next
    case (Suc j)
    then have j: "j < length vs" "vs ! j = Some vol" using Cons.prems by simp_all
    then have n: "vol_name vol \<in> set (vol_names vs)" unfolding has_names by blast
    then show ?thesis using Cons.prems(1) Cons.IH [OF _ j, of "Suc k"] Suc by (cases v) auto
  qed
qed simp

lemma create_target_step:
  assumes low: "low_ok leb (brd_low b)" "low_reads_ok leb (brd_low b)" and u: "ubi w = Some u"
    and t: "backend t = RECOVERY_BACKEND_UBI" "tgt_ubi_part t = Some ''ubi''" "ubi_mtd_name u = ''ubi''" "tgt_name t = Some n"
    and b: "current_target w = TARGET_FIRMWARE" "brd_ops b" "brd_match b"
    and run: "recovery_create_ubi_target b t len w = (ret, t', w')"
  shows "ustep leb w w' \<and> (ret = 0 \<longrightarrow> backend t' = RECOVERY_BACKEND_UBI \<and> tgt_ubi_part t' = Some ''ubi'' \<and>
    tgt_name t' = Some ''fit'' \<and> (\<exists>u'. ubi w' = Some u' \<and> has_vol n UBI_STATIC_VOLUME u'))"
proof -
  obtain r w1 where s: "select_target_ubi b t w = (r, w1)" by (cases "select_target_ubi b t w")
  have "tgt_ubi_part t = Some (ubi_mtd_name u)" using t by simp
  then have w1: "ustep leb w w1" "ubi w1 = Some u" using select_target_attached [OF s u] by auto
  obtain r2 u2 d2 where c: "ubi_create_volume (brd_low b) (mkvol_req n len UBI_STATIC_VOLUME) u (dev w1) = (r2, u2, d2)"
    by (rule prod_cases3)
  let ?w = "w1\<lparr>ubi := Some u2, dev := d2\<rparr>"
  have g: "grows u u2" "leb d2 = leb (dev w1)" "r2 = 0 \<longrightarrow> has_vol n UBI_STATIC_VOLUME u2"
    using create_grows [OF c _ _ low(1)] by (simp_all add: mkvol_req_def)
  have w2: "ustep leb w1 ?w" using g w1(2) by (auto simp: ustep_def)
  have "current_target w1 = TARGET_FIRMWARE" using w1(1) b(1) plainD(1) [of w1 w] by (auto simp: ustep_def stays_def)
  then have ct: "current_target ?w = TARGET_FIRMWARE" by simp
  obtain r3 t3 w3 where y: "recovery_try_ubi_target b TARGET_FIRMWARE t ?w = (r3, t3, w3)" by (rule prod_cases3)
  have eq: "(ret, t', w') = (if r \<noteq> 0 then (-ENODEV, t, w1) else if length n > UBI_VOL_NAME_MAX then (-ENAMETOOLONG, t, w1)
      else if r2 \<noteq> 0 then (r2, t, ?w) else (r3, t3, w3))"
    using run t s w1(2) c y ct by (auto simp: recovery_create_ubi_target_def Let_def split: if_splits)
  show ?thesis
  proof (cases "r = 0 \<and> \<not> length n > UBI_VOL_NAME_MAX \<and> r2 = 0")
    case False
    then show ?thesis using eq w1(1) ustep_trans [OF w1(1) w2] by (auto split: if_splits)
  next
    case True
    obtain p w0 where p: "recovery_ubi_part b TARGET_FIRMWARE ?w = (p, w0)" by (cases "recovery_ubi_part b TARGET_FIRMWARE ?w")
    have nm: "ubi_mtd_name u2 = ''ubi''" using g(1) t(3) by (simp add: grows_def)
    have p': "recovery_ubi_part b TARGET_FIRMWARE ?w = (Some (ubi_mtd_name u2), w0)"
      using p ubi_part_name_keeps(2) [OF p] b nm by simp
    have u2: "ubi ?w = Some u2" by simp
    note st = try_ubi_step [OF low(2) u2 p' y]
    obtain u3 where u3: "ubi w3 = Some u3" "grows u2 u3" using st by (auto simp: ustep_def)
    have "has_vol n UBI_STATIC_VOLUME u3" using has_vol_grows [OF _ u3(2)] g(3) True by blast
    then show ?thesis using eq True st nm b u3 ustep_trans [OF ustep_trans [OF w1(1) w2]] by auto
  qed
qed

context flash_runtime
begin

lemma write_target_ok:
  assumes low: "low_ok leb (brd_low b)" "low_reads_ok leb (brd_low b)" and lc: "\<And>d d'. content d' = content d \<Longrightarrow> leb d' = leb d"
    and w: "run_ok w" "ubi w = Some u" "ubi_wf u" "0 < leb_size u" "has_vol n UBI_STATIC_VOLUME u"
    and t: "backend t = RECOVERY_BACKEND_UBI" "tgt_ubi_part t = Some (ubi_mtd_name u)" "tgt_name t = Some n" and img: "img \<noteq> []"
    and run: "recovery_write_ubi_target b svc t img w = (0, w')"
  shows "\<exists>u' i vol. run_ok w' \<and> stays w w' \<and> prog_phase w' = prog_phase w \<and> ubi w' = Some u' \<and> grows u u' \<and>
    find_volume n (volumes u') 0 = Some i \<and> volumes u' ! i = Some vol \<and> vol_type vol = UBI_STATIC_VOLUME \<and>
    used_bytes vol = length img \<and> \<not> updating vol \<and> \<not> upd_marker vol \<and> leb (dev w') = image_view vol img (leb (dev w))"
proof -
  obtain r w1 where s: "select_target_ubi b t w = (r, w1)" by (cases "select_target_ubi b t w")
  have w1: "ustep leb w w1" "ubi w1 = Some u" using select_target_attached [OF s w(2) t(2)] by auto
  have r: "r = 0" using run t(1) s by (auto simp: recovery_write_ubi_target_def split: if_splits)
  obtain q w2 where o: "ubi_open_volume_nm (brd_low b) n UBI_READWRITE w1 = (q, w2)"
    by (cases "ubi_open_volume_nm (brd_low b) n UBI_READWRITE w1")
  note oc = open_nm_cases [OF o low(2) w1(2)]
  obtain hi hv where h: "hi < length (volumes u)" "volumes u ! hi = Some hv" "vol_name hv = n" "vol_type hv = UBI_STATIC_VOLUME"
    "usable_leb_size hv = leb_size u" using w(5) by (auto simp: has_vol_def)
  have fh: "find_volume n (volumes u) 0 = Some hi"
    using find_volume_unique [of "volumes u" hi hv 0] w(3) h by (simp add: ubi_wf_def)
  show ?thesis
  proof (cases q)
    case (Inl e)
    have ne: "e \<noteq> 0" using o Inl w1(2) unfolding ubi_open_volume_nm_def ubi_open_volume_def
      by (auto simp: Let_def split: if_splits option.splits prod.splits)
    show ?thesis using run t s r o Inl ne by (simp add: recovery_write_ubi_target_def)
  next
    case (Inr i)
    obtain vol volo vol1 where v: "find_volume n (volumes u) 0 = Some i" "i < length (volumes u)" "volumes u ! i = Some vol"
      "open_mode UBI_READWRITE vol = Some volo" "vol_fixed vol1 = vol_fixed volo"
      and u2: "ubi w2 = Some (u\<lparr>volumes := (volumes u)[i := Some vol1]\<rparr>)" and k2: "keeps w1 w2" "leb (dev w2) = leb (dev w1)"
      using oc Inr by auto
    have ih: "i = hi" "vol = hv" using v fh h by auto
    have vo: "vol_type volo = vol_type vol" "usable_leb_size volo = usable_leb_size vol" "vol_id volo = vol_id vol"
      "reserved_pebs volo = reserved_pebs vol"
      using v(4) by (auto simp: open_mode_def Let_def split: if_splits)
    have v1: "vol_type vol1 = UBI_STATIC_VOLUME" "usable_leb_size vol1 = leb_size u"
      using vol_fixedD(4,5) [OF v(5)] vo h ih by simp_all
    have p2: "plain w2 = plain w" using keeps_plain [OF k2(1)] w1(1) by (simp add: ustep_def)
    have ru2: "run_ok w2" by (rule run_ok_plain [OF w(1) p2])
    let ?u = "u\<lparr>volumes := (volumes u)[i := Some vol1]\<rparr>"
    have iu: "i < length (volumes ?u)" "volumes ?u ! i = Some vol1" using v(2) by simp_all
    obtain r3 w3 where up: "update_ubi_volume b svc i img w2 = (r3, w3)" by (cases "update_ubi_volume b svc i img w2")
    have r3: "r3 = 0" and w': "w' = ubi_close_volume i UBI_READWRITE w3"
      using run t s r o Inr up by (auto simp: recovery_write_ubi_target_def Let_def split: if_splits)
    obtain vol3 where c: "run_ok w3" "stays w2 w3" "prog_phase w3 = prog_phase w2"
      "ubi w3 = Some (?u\<lparr>volumes := (volumes ?u)[i := Some vol3]\<rparr>)"
      "vol_fixed vol3 = vol_fixed vol1" "leb (dev w3) = image_view vol1 img (leb (dev w2))"
      "\<not> updating vol3" "\<not> upd_marker vol3" "used_bytes vol3 = length img"
      using update_ubi_volume_ok [OF low lc ru2 u2 iu v1(1) _ _ img up [unfolded r3]] v1(2) w(4) by auto
    let ?u3 = "?u\<lparr>volumes := (volumes ?u)[i := Some vol3]\<rparr>"
    let ?v = "close_mode UBI_READWRITE vol3"
    have fx: "vol_fixed ?v = vol_fixed vol" by (rule close_fixed [OF _ v(4)]) (use c(5) v(5) in simp)
    have w'eq: "w' = w3\<lparr>ubi := Some (u\<lparr>volumes := (volumes u)[i := Some ?v]\<rparr>)\<rparr>"
      unfolding w' ubi_close_volume_def using upd_volume_upd_ubi [OF c(4), of i vol3] v(2) by simp
    let ?u' = "u\<lparr>volumes := (volumes u)[i := Some ?v]\<rparr>"
    have gr: "grows u ?u'" by (rule grows_volume [OF v(2,3) fx])
    have wf: "ubi_wf ?u'" using gr w(3) by (simp add: grows_def)
    have fv: "find_volume n (volumes ?u') 0 = Some i"
      using find_volume_unique [of "volumes ?u'" i ?v 0] wf v(2) vol_fixedD(2) [OF fx] h ih by (simp add: ubi_wf_def)
    have p3: "plain w' = plain w3" by (simp add: w'eq)
    have ids: "vol_id vol1 = vol_id ?v" "reserved_pebs vol1 = reserved_pebs ?v" "usable_leb_size vol1 = usable_leb_size ?v"
      using vol_fixedD(1,3,5) [OF fx] vol_fixedD(1,3,5) [OF v(5)] vo by simp_all
    have "image_view vol1 img m = image_view ?v img m" for m
      by (simp only: image_view_def ids)
    moreover have "leb (dev w2) = leb (dev w)" using k2(2) w1(1) by (simp add: ustep_def)
    ultimately have l: "leb (dev w') = image_view ?v img (leb (dev w))" using c(6) by (simp add: w'eq)
    have st: "stays w w'" "prog_phase w' = prog_phase w"
      using plainD(1,2) [OF p2] c(2,3) plainD(1,2) [OF p3] stays_trans by metis+
    have cl: "used_bytes ?v = used_bytes vol3" "updating ?v = updating vol3" "upd_marker ?v = upd_marker vol3"
      by (simp_all add: close_mode_def)
    show ?thesis
      using run_ok_plain [OF c(1) p3] st gr fv v(2) vol_fixedD(4) [OF fx] h ih c(7-9) l cl
      by (intro exI [of _ ?u'] exI [of _ i] exI [of _ ?v]) (simp add: w'eq)
  qed
qed

end

end
