(* ===== verification/Fip.thy ===== *)
theory Fip
  imports Prelude
begin

text \<open>
  Validation of an uploaded bootloader image, from \<^verbatim>\<open>net/lwip/httpd_recovery.c\<close>: the
  little-endian readers, the scan of the 0x800-byte prefix, the walk over the table of
  contents of the firmware image package (FIP) and the check of the whole 2 MiB image.
  A pointer is an offset into the uploaded bytes; a read outside them is \<^term>\<open>None\<close>. The
  lemmas characterise each routine by a declarative predicate on the bytes and show that
  none of them reads outside the image.
\<close>

section \<open>Constants of the image format\<close>

definition RECOVERY_MAX_UBOOT_SIZE :: nat where "RECOVERY_MAX_UBOOT_SIZE = 2 * 1024 * 1024"
definition RECOVERY_MTD0_PREFIX_ARM_NOP :: u32 where "RECOVERY_MTD0_PREFIX_ARM_NOP = 0xe320f000"
definition RECOVERY_MTD0_PREFIX_ZERO :: u32 where "RECOVERY_MTD0_PREFIX_ZERO = 0"
definition RECOVERY_MTD0_PREFIX_ERASED :: u32 where "RECOVERY_MTD0_PREFIX_ERASED = 0xffffffff"
definition RECOVERY_MTD0_FIP_OFFSET :: nat where "RECOVERY_MTD0_FIP_OFFSET = 0x800"
definition RECOVERY_FIP_TOC_HEADER_NAME :: u32 where "RECOVERY_FIP_TOC_HEADER_NAME = 0xaa640001"
definition RECOVERY_FIP_TOC_HEADER_SIZE :: nat where "RECOVERY_FIP_TOC_HEADER_SIZE = 0x10"
definition RECOVERY_FIP_TOC_ENTRY_SIZE :: nat where "RECOVERY_FIP_TOC_ENTRY_SIZE = 0x28"
definition RECOVERY_FIP_TOC_UUID_SIZE :: nat where "RECOVERY_FIP_TOC_UUID_SIZE = 0x10"
definition RECOVERY_FIP_TOC_ENTRY_PAYLOAD_OFFSET :: nat where
  "RECOVERY_FIP_TOC_ENTRY_PAYLOAD_OFFSET = 0x10"
definition RECOVERY_FIP_TOC_ENTRY_PAYLOAD_SIZE_OFFSET :: nat where
  "RECOVERY_FIP_TOC_ENTRY_PAYLOAD_SIZE_OFFSET = 0x18"
definition RECOVERY_FIP_TOC_FLAGS_OFFSET :: nat where "RECOVERY_FIP_TOC_FLAGS_OFFSET = 0x8"
definition RECOVERY_FIP_TOC_FLAG_BYPASS_FWUPGRADE :: u32 where
  "RECOVERY_FIP_TOC_FLAG_BYPASS_FWUPGRADE = 1"

definition recovery_fip_uuid_nt_fw :: bytes where
  "recovery_fip_uuid_nt_fw =
     [0xd6, 0xd0, 0xee, 0xa7, 0xfc, 0xea, 0xd5, 0x4b,
      0x97, 0x82, 0x99, 0x34, 0xf2, 0x34, 0xb6, 0xe4]"

lemmas fip_consts =
  RECOVERY_MAX_UBOOT_SIZE_def RECOVERY_MTD0_PREFIX_ARM_NOP_def RECOVERY_MTD0_PREFIX_ZERO_def
  RECOVERY_MTD0_PREFIX_ERASED_def RECOVERY_MTD0_FIP_OFFSET_def RECOVERY_FIP_TOC_HEADER_NAME_def
  RECOVERY_FIP_TOC_HEADER_SIZE_def RECOVERY_FIP_TOC_ENTRY_SIZE_def RECOVERY_FIP_TOC_UUID_SIZE_def
  RECOVERY_FIP_TOC_ENTRY_PAYLOAD_OFFSET_def RECOVERY_FIP_TOC_ENTRY_PAYLOAD_SIZE_OFFSET_def
  RECOVERY_FIP_TOC_FLAGS_OFFSET_def RECOVERY_FIP_TOC_FLAG_BYPASS_FWUPGRADE_def

section \<open>Little-endian readers and region scans\<close>

definition recovery_le32_to_cpu :: "bytes \<Rightarrow> nat \<Rightarrow> u32 option" where
  "recovery_le32_to_cpu m p = do {
     b0 \<leftarrow> rd m p; b1 \<leftarrow> rd m (p + 1); b2 \<leftarrow> rd m (p + 2); b3 \<leftarrow> rd m (p + 3);
     Some (push_bit 24 (ucast b3) OR push_bit 16 (ucast b2) OR push_bit 8 (ucast b1) OR ucast b0)
   }"

definition recovery_le64_to_cpu :: "bytes \<Rightarrow> nat \<Rightarrow> u64 option" where
  "recovery_le64_to_cpu m p = do {
     b0 \<leftarrow> rd m p; b1 \<leftarrow> rd m (p + 1); b2 \<leftarrow> rd m (p + 2); b3 \<leftarrow> rd m (p + 3);
     b4 \<leftarrow> rd m (p + 4); b5 \<leftarrow> rd m (p + 5); b6 \<leftarrow> rd m (p + 6); b7 \<leftarrow> rd m (p + 7);
     Some (push_bit 56 (ucast b7) OR push_bit 48 (ucast b6) OR
           push_bit 40 (ucast b5) OR push_bit 32 (ucast b4) OR
           push_bit 24 (ucast b3) OR push_bit 16 (ucast b2) OR
           push_bit 8 (ucast b1) OR ucast b0)
   }"

fun recovery_region_is_zero :: "bytes \<Rightarrow> nat \<Rightarrow> nat \<Rightarrow> bool option" where
  "recovery_region_is_zero m p 0 = Some True"
| "recovery_region_is_zero m p (Suc len) =
     (case rd m p of None \<Rightarrow> None
      | Some b \<Rightarrow> if b \<noteq> 0 then Some False else recovery_region_is_zero m (Suc p) len)"

fun recovery_region_is_erased :: "bytes \<Rightarrow> nat \<Rightarrow> nat \<Rightarrow> bool option" where
  "recovery_region_is_erased m p 0 = Some True"
| "recovery_region_is_erased m p (Suc len) =
     (case rd m p of None \<Rightarrow> None
      | Some b \<Rightarrow> if b \<noteq> 0xff then Some False else recovery_region_is_erased m (Suc p) len)"

section \<open>The validators\<close>

definition recovery_validate_mtd0_prefix :: "bytes \<Rightarrow> nat \<Rightarrow> int option" where
  "recovery_validate_mtd0_prefix m p = do {
     prefix_word \<leftarrow> recovery_le32_to_cpu m p;
     if prefix_word = RECOVERY_MTD0_PREFIX_ARM_NOP then Some 0
     else if prefix_word = RECOVERY_MTD0_PREFIX_ERASED then do {
       erased \<leftarrow> recovery_region_is_erased m p RECOVERY_MTD0_FIP_OFFSET;
       if erased then Some 0 else Some (- EINVAL)
     }
     else if prefix_word = RECOVERY_MTD0_PREFIX_ZERO then Some (- EINVAL)
     else Some (- EINVAL)
   }"

text \<open>
  The walk over the table of contents, from entry offset \<open>toc_offset\<close> on; \<open>fip\<close> is the offset
  of the FIP in the buffer. The payload fields are 64-bit words, so the subtraction of the
  range check is the machine's.
\<close>

function fip_toc_walk :: "bytes \<Rightarrow> nat \<Rightarrow> nat \<Rightarrow> bytes \<Rightarrow> nat \<Rightarrow> int option" where
  "fip_toc_walk m fip fip_size uuid toc_offset =
     (if toc_offset + RECOVERY_FIP_TOC_ENTRY_SIZE \<le> fip_size then do {
        zero \<leftarrow> recovery_region_is_zero m (fip + toc_offset) RECOVERY_FIP_TOC_UUID_SIZE;
        if zero then Some (- EINVAL)
        else do {
          ent \<leftarrow> rd_slice m (fip + toc_offset) RECOVERY_FIP_TOC_UUID_SIZE;
          if ent = uuid then do {
            payload_offset \<leftarrow> recovery_le64_to_cpu m
               (fip + toc_offset + RECOVERY_FIP_TOC_ENTRY_PAYLOAD_OFFSET);
            payload_size \<leftarrow> recovery_le64_to_cpu m
               (fip + toc_offset + RECOVERY_FIP_TOC_ENTRY_PAYLOAD_SIZE_OFFSET);
            if payload_size = 0 then Some (- EINVAL)
            else if payload_offset > of_nat fip_size \<or>
                    payload_size > of_nat fip_size - payload_offset then Some (- EINVAL)
            else Some 0
          }
          else fip_toc_walk m fip fip_size uuid (toc_offset + RECOVERY_FIP_TOC_ENTRY_SIZE)
        }
      }
      else Some (- EINVAL))"
  by pat_completeness auto
termination
  by (relation "measure (\<lambda>(m, fip, fip_size, uuid, toc_offset). fip_size - toc_offset)")
     (auto simp: RECOVERY_FIP_TOC_ENTRY_SIZE_def)

declare fip_toc_walk.simps [simp del]

definition recovery_validate_fip_payload :: "bytes \<Rightarrow> nat \<Rightarrow> nat \<Rightarrow> bytes \<Rightarrow> int option" where
  "recovery_validate_fip_payload m fip fip_size uuid =
     fip_toc_walk m fip fip_size uuid RECOVERY_FIP_TOC_HEADER_SIZE"

definition recovery_validate_mtd0_bootloader_image :: "bytes \<Rightarrow> nat \<Rightarrow> int option" where
  "recovery_validate_mtd0_bootloader_image m image_size =
     (if image_size \<noteq> RECOVERY_MAX_UBOOT_SIZE then Some (- EINVAL)
      else do {
        ret \<leftarrow> recovery_validate_mtd0_prefix m 0;
        if ret \<noteq> 0 then Some ret
        else do {
          fip_magic \<leftarrow> recovery_le32_to_cpu m RECOVERY_MTD0_FIP_OFFSET;
          if fip_magic \<noteq> RECOVERY_FIP_TOC_HEADER_NAME then Some (- EINVAL)
          else do {
            fip_flags \<leftarrow> recovery_le64_to_cpu m
               (RECOVERY_MTD0_FIP_OFFSET + RECOVERY_FIP_TOC_FLAGS_OFFSET);
            let plat_toc_flags = (ucast (drop_bit 32 fip_flags AND 0xffff) :: u32) in
            if plat_toc_flags AND RECOVERY_FIP_TOC_FLAG_BYPASS_FWUPGRADE = 0 then Some (- EINVAL)
            else recovery_validate_fip_payload m RECOVERY_MTD0_FIP_OFFSET
                   (image_size - RECOVERY_MTD0_FIP_OFFSET) recovery_fip_uuid_nt_fw
          }
        }
      })"

section \<open>Little-endian numbers\<close>


text \<open>A little-endian byte sequence as a number, and as the word the C code assembles.\<close>

fun le_nat :: "bytes \<Rightarrow> nat" where
  "le_nat [] = 0"
| "le_nat (b # bs) = unat b + 256 * le_nat bs"

fun le_word :: "bytes \<Rightarrow> 'a::len word" where
  "le_word [] = 0"
| "le_word (b # bs) = push_bit 8 (le_word bs) OR ucast b"

lemma le_nat_bound: "le_nat bs < 256 ^ length bs"
proof (induction bs)
  case (Cons b bs)
  have "unat b < 256" by (rule unat_u8_less)
  moreover have "256 * Suc (le_nat bs) \<le> 256 * 256 ^ length bs"
    using Cons by (intro mult_le_mono) auto
  ultimately show ?case by simp
qed simp

lemma or_byte_eq_add: "push_bit 8 w OR ucast (b :: u8) = push_bit 8 w + (ucast b :: 'a::len word)"
proof (rule disjunctive_add [symmetric])
  fix n
  show "\<not> bit (push_bit 8 w) n \<or> \<not> bit (ucast b :: 'a word) n"
    by (auto simp: bit_simps dest: bit_imp_le_length)
qed

lemma unat_le_word:
  "8 * length bs \<le> LENGTH('a::len) \<Longrightarrow> unat (le_word bs :: 'a word) = le_nat bs"
proof (induction bs)
  case (Cons b bs)
    have "(256::nat) ^ length (b # bs) \<le> 2 ^ LENGTH('a)"
  proof -
    have "(256::nat) ^ length (b # bs) = 2 ^ (8 * length (b # bs))"
      by (simp only: power_mult) simp
    also have "\<dots> \<le> 2 ^ LENGTH('a)" using Cons.prems by (intro power_increasing) auto
    finally show ?thesis .
  qed
  with le_nat_bound [of "b # bs"] have "unat b + 256 * le_nat bs < 2 ^ LENGTH('a)" by simp
  moreover have "(le_word (b # bs) :: 'a word) = of_nat (unat b + 256 * le_nat bs)"
    using Cons by (simp add: or_byte_eq_add flip: Cons.IH) (simp add: push_bit_eq_mult)
  ultimately show ?case by (simp only: unat_of_nat_small le_nat.simps)
qed simp

lemma le32_eq:
  "p + 4 \<le> length m \<Longrightarrow> recovery_le32_to_cpu m p = Some (le_word (take 4 (drop p m)))"
  by (simp add: recovery_le32_to_cpu_def rd_in take_Suc_conv_app_nth numeral_eq_Suc
      push_bit_or ac_simps)

lemma le64_eq:
  "p + 8 \<le> length m \<Longrightarrow> recovery_le64_to_cpu m p = Some (le_word (take 8 (drop p m)))"
  by (simp add: recovery_le64_to_cpu_def rd_in take_Suc_conv_app_nth numeral_eq_Suc
      push_bit_or ac_simps)

lemma region_is_zero_eq:
  "p + len \<le> length m \<Longrightarrow>
   recovery_region_is_zero m p len = Some (\<forall>i<len. m ! (p + i) = 0)"
  by (induction m p len rule: recovery_region_is_zero.induct)
     (auto simp: rd_in less_Suc_eq_0_disj)

lemma region_is_erased_eq:
  "p + len \<le> length m \<Longrightarrow>
   recovery_region_is_erased m p len = Some (\<forall>i<len. m ! (p + i) = 0xff)"
  by (induction m p len rule: recovery_region_is_erased.induct)
     (auto simp: rd_in less_Suc_eq_0_disj)

section \<open>What the validators accept\<close>

definition mtd0_prefix_ok :: "bytes \<Rightarrow> bool" where
  "mtd0_prefix_ok img \<longleftrightarrow>
     le_nat (take 4 img) = 0xe320f000 \<or> (\<forall>i<0x800. img ! i = 0xff)"

definition toc_uuid :: "bytes \<Rightarrow> nat \<Rightarrow> nat \<Rightarrow> bytes" where
  "toc_uuid m fip k = take 16 (drop (fip + 0x10 + 0x28 * k) m)"

definition toc_payload_offset :: "bytes \<Rightarrow> nat \<Rightarrow> nat \<Rightarrow> nat" where
  "toc_payload_offset m fip k = le_nat (take 8 (drop (fip + 0x10 + 0x28 * k + 0x10) m))"

definition toc_payload_size :: "bytes \<Rightarrow> nat \<Rightarrow> nat \<Rightarrow> nat" where
  "toc_payload_size m fip k = le_nat (take 8 (drop (fip + 0x10 + 0x28 * k + 0x18) m))"

definition toc_live :: "bytes \<Rightarrow> nat \<Rightarrow> nat \<Rightarrow> bytes \<Rightarrow> nat \<Rightarrow> bool" where
  "toc_live m fip fip_size uuid k \<longleftrightarrow>
     0x10 + 0x28 * (k + 1) \<le> fip_size \<and> toc_uuid m fip k = uuid \<and>
     (\<forall>j<k. toc_uuid m fip j \<noteq> uuid \<and> toc_uuid m fip j \<noteq> replicate 16 0)"

definition fip_payload_ok :: "bytes \<Rightarrow> nat \<Rightarrow> nat \<Rightarrow> bytes \<Rightarrow> bool" where
  "fip_payload_ok m fip fip_size uuid \<longleftrightarrow>
     (\<exists>k. toc_live m fip fip_size uuid k \<and> 0 < toc_payload_size m fip k \<and>
          toc_payload_offset m fip k + toc_payload_size m fip k \<le> fip_size)"

definition fip_ok_from :: "bytes \<Rightarrow> nat \<Rightarrow> nat \<Rightarrow> bytes \<Rightarrow> nat \<Rightarrow> bool" where
  "fip_ok_from m fip fip_size uuid k0 \<longleftrightarrow>
     (\<exists>k\<ge>k0. 0x10 + 0x28 * (k + 1) \<le> fip_size \<and> toc_uuid m fip k = uuid \<and>
        (\<forall>j. k0 \<le> j \<and> j < k \<longrightarrow> toc_uuid m fip j \<noteq> uuid \<and> toc_uuid m fip j \<noteq> replicate 16 0) \<and>
        0 < toc_payload_size m fip k \<and>
        toc_payload_offset m fip k + toc_payload_size m fip k \<le> fip_size)"

lemma fip_ok_from_0: "fip_ok_from m fip n uuid 0 = fip_payload_ok m fip n uuid"
  by (auto simp: fip_ok_from_def fip_payload_ok_def toc_live_def)

text \<open>One step of the walk, at the three kinds of entry.\<close>

lemma fip_ok_from_end: "n < 0x10 + 0x28 * (k + 1) \<Longrightarrow> \<not> fip_ok_from m fip n uuid k"
  by (auto simp: fip_ok_from_def)

lemma fip_ok_from_zero:
  "toc_uuid m fip k = replicate 16 0 \<Longrightarrow> uuid \<noteq> replicate 16 0 \<Longrightarrow> \<not> fip_ok_from m fip n uuid k"
  by (auto simp: fip_ok_from_def) (metis le_eq_less_or_eq)

lemma fip_ok_from_hit:
  "toc_uuid m fip k = uuid \<Longrightarrow> 0x10 + 0x28 * (k + 1) \<le> n \<Longrightarrow>
   fip_ok_from m fip n uuid k \<longleftrightarrow> 0 < toc_payload_size m fip k \<and>
     toc_payload_offset m fip k + toc_payload_size m fip k \<le> n"
  by (auto simp: fip_ok_from_def) (metis le_eq_less_or_eq)+

lemma fip_ok_from_skip:
  assumes "toc_uuid m fip k \<noteq> uuid" "toc_uuid m fip k \<noteq> replicate 16 0"
  shows "fip_ok_from m fip n uuid k \<longleftrightarrow> fip_ok_from m fip n uuid (Suc k)"
proof
  assume "fip_ok_from m fip n uuid k"
  then show "fip_ok_from m fip n uuid (Suc k)"
    unfolding fip_ok_from_def using assms by (metis Suc_leD Suc_leI le_eq_less_or_eq)
next
  assume "fip_ok_from m fip n uuid (Suc k)"
  then obtain k' where k': "Suc k \<le> k'" "0x10 + 0x28 * (k' + 1) \<le> n" "toc_uuid m fip k' = uuid"
    "\<forall>j. Suc k \<le> j \<and> j < k' \<longrightarrow> toc_uuid m fip j \<noteq> uuid \<and> toc_uuid m fip j \<noteq> replicate 16 0"
    "0 < toc_payload_size m fip k'" "toc_payload_offset m fip k' + toc_payload_size m fip k' \<le> n"
    unfolding fip_ok_from_def by blast
  have "\<forall>j. k \<le> j \<and> j < k' \<longrightarrow> toc_uuid m fip j \<noteq> uuid \<and> toc_uuid m fip j \<noteq> replicate 16 0"
    using k'(4) assms by (metis le_eq_less_or_eq Suc_leI)
  with k' show "fip_ok_from m fip n uuid k"
    unfolding fip_ok_from_def by (intro exI [of _ k'] conjI) simp_all
qed

lemma zero_uuid_eq:
  "fip + 0x10 + 0x28 * (k + 1) \<le> length m \<Longrightarrow>
   recovery_region_is_zero m (fip + (0x10 + 0x28 * k)) 16 =
     Some (toc_uuid m fip k = replicate 16 0)"
  by (simp add: region_is_zero_eq toc_uuid_def slice_eq_nth add.assoc)

lemma payload_words:
  assumes "fip + 0x10 + 0x28 * (k + 1) \<le> length m"
  shows "recovery_le64_to_cpu m (fip + (0x10 + 0x28 * k) + 0x10) =
           Some (of_nat (toc_payload_offset m fip k))"
    and "recovery_le64_to_cpu m (fip + (0x10 + 0x28 * k) + 0x18) =
           Some (of_nat (toc_payload_size m fip k))"
    and "toc_payload_offset m fip k < 2 ^ 64" and "toc_payload_size m fip k < 2 ^ 64"
proof -
  have word: "(le_word bs :: u64) = of_nat (le_nat bs) \<and> le_nat bs < 2 ^ 64"
    if "length bs = 8" for bs
    using that unat_le_word [of bs, where 'a = 64] le_nat_bound [of bs]
    by (simp add: word_eq_of_nat)
  show "recovery_le64_to_cpu m (fip + (0x10 + 0x28 * k) + 0x10) =
           Some (of_nat (toc_payload_offset m fip k))"
    and "recovery_le64_to_cpu m (fip + (0x10 + 0x28 * k) + 0x18) =
           Some (of_nat (toc_payload_size m fip k))"
    and "toc_payload_offset m fip k < 2 ^ 64" and "toc_payload_size m fip k < 2 ^ 64"
    using assms by (simp_all add: le64_eq toc_payload_offset_def toc_payload_size_def word [simplified] add.assoc)
qed

lemma payload_range:
  assumes "off < 2 ^ 64" "sz < 2 ^ 64" "n < 2 ^ 64"
  shows "((of_nat off :: u64) > of_nat n \<or> (of_nat sz :: u64) > of_nat n - of_nat off) \<longleftrightarrow>
         off + sz > n"
proof -
  have u: "unat (of_nat off :: u64) = off" "unat (of_nat sz :: u64) = sz" "unat (of_nat n :: u64) = n"
    using assms by (simp_all add: unat_of_nat_small)
  show ?thesis
    using u by (auto simp: word_less_nat_alt unat_sub_if')
qed

lemma fip_toc_walk_eq:
  assumes "fip + n \<le> length m" "n < 2 ^ 64" "length uuid = 16" "uuid \<noteq> replicate 16 0"
  shows "fip_toc_walk m fip n uuid (0x10 + 0x28 * k) =
           Some (if fip_ok_from m fip n uuid k then 0 else - EINVAL)"
proof (induction "n - 0x28 * k" arbitrary: k rule: less_induct)
  case less
  show ?case
  proof (cases "0x10 + 0x28 * (k + 1) \<le> n")
    case False
    then show ?thesis
      by (subst fip_toc_walk.simps) (simp add: fip_consts fip_ok_from_end)
  next
    case True
    have len: "fip + 0x10 + 0x28 * (k + 1) \<le> length m" using True assms(1) by simp
    have IH: "fip_toc_walk m fip n uuid (0x10 + 0x28 * Suc k) =
        Some (if fip_ok_from m fip n uuid (Suc k) then 0 else - EINVAL)"
      using less [of "Suc k"] True by simp
    have slice: "rd_slice m (fip + (0x10 + 0x28 * k)) 16 = Some (toc_uuid m fip k)"
      using len by (simp add: rd_slice_in toc_uuid_def add.assoc)
    have rng: "((of_nat (toc_payload_offset m fip k) :: u64) > of_nat n \<or>
         (of_nat (toc_payload_size m fip k) :: u64) > of_nat n - of_nat (toc_payload_offset m fip k)) \<longleftrightarrow>
        toc_payload_offset m fip k + toc_payload_size m fip k > n"
      using payload_words(3,4) [OF len] assms(2) by (rule payload_range)
    have nz: "(of_nat (toc_payload_size m fip k) :: u64) = 0 \<longleftrightarrow> toc_payload_size m fip k = 0"
      using payload_words(4) [OF len] unat_of_nat_small [of "toc_payload_size m fip k", where 'a = 64]
      by (auto simp: unat_eq_0)
    have w: "recovery_le64_to_cpu m (32 + (fip + 40 * k)) = Some (of_nat (toc_payload_offset m fip k))"
        "recovery_le64_to_cpu m (40 + (fip + 40 * k)) = Some (of_nat (toc_payload_size m fip k))"
      using payload_words(1,2) [OF len] by (simp_all add: ac_simps)
    show ?thesis
      using True assms
      by (subst fip_toc_walk.simps)
         (simp add: fip_consts zero_uuid_eq [OF len] slice w rng nz
          fip_ok_from_zero fip_ok_from_hit fip_ok_from_skip IH [simplified])
  qed
qed

definition mtd0_image_ok :: "bytes \<Rightarrow> bool" where
  "mtd0_image_ok img \<longleftrightarrow>
     length img = 0x200000 \<and> mtd0_prefix_ok img \<and>
     le_nat (take 4 (drop 0x800 img)) = 0xaa640001 \<and>
     odd (le_nat (take 8 (drop 0x808 img)) div 2 ^ 32) \<and>
     fip_payload_ok img 0x800 (0x200000 - 0x800) recovery_fip_uuid_nt_fw"

lemma le32_const:
  assumes "p + 4 \<le> length m" "c < 2 ^ 32" "recovery_le32_to_cpu m p = Some w"
  shows "(w = of_nat c) = (le_nat (take 4 (drop p m)) = c)"
proof -
  have "unat (le_word (take 4 (drop p m)) :: u32) = le_nat (take 4 (drop p m))"
    by (rule unat_le_word) simp
  moreover have "unat (of_nat c :: u32) = c"
    using assms(2) by (intro unat_of_nat_small) simp
  moreover have "w = le_word (take 4 (drop p m))"
    using assms(1,3) by (simp add: le32_eq)
  ultimately show ?thesis by (metis word_eq_of_nat)
qed

lemma erased_word:
  assumes "0x800 \<le> length m" "\<forall>i<0x800. m ! i = 0xff"
  shows "le_nat (take 4 m) = 0xffffffff"
proof -
  have "take 4 m = replicate 4 0xff"
    using assms by (intro nth_equalityI) auto
  also have "\<dots> = [0xff, 0xff, 0xff, 0xff]"
    by (simp add: numeral_eq_Suc)
  finally show ?thesis by simp
qed

lemma validate_prefix_eq:
  assumes "0x800 \<le> length m"
  shows "recovery_validate_mtd0_prefix m 0 = Some (if mtd0_prefix_ok m then 0 else - EINVAL)"
proof -
  obtain w where w: "recovery_le32_to_cpu m 0 = Some w"
    using assms by (simp add: le32_eq)
  have nop: "(w = 0xe320f000) = (le_nat (take 4 m) = 0xe320f000)"
    and er: "(w = 0xffffffff) = (le_nat (take 4 m) = 0xffffffff)"
    using le32_const [of 0 m "0xe320f000" w] le32_const [of 0 m "0xffffffff" w] assms w by simp_all
  show ?thesis
    using assms erased_word [OF assms]
    by (auto simp: recovery_validate_mtd0_prefix_def w fip_consts nop er mtd0_prefix_ok_def
        region_is_erased_eq)
qed

lemma plat_flag_eq:
  "(ucast (drop_bit 32 (w :: u64) AND 0xffff) :: u32) AND 1 = 0 \<longleftrightarrow> even (unat w div 2 ^ 32)"
proof -
  have "(x AND 1 = 0) = (\<not> bit x 0)" for x :: u32
    by (simp add: bit_0 and_one_eq even_iff_mod_2_eq_zero)
  moreover have "bit (0xffff :: u64) 0" by simp
  moreover have "(even (unat w div 2 ^ 32)) = (\<not> bit (unat w) 32)"
    by (simp add: bit_iff_odd)
  ultimately show ?thesis
    by (simp add: bit_simps bit_unsigned_iff)
qed

lemma nt_fw_uuid: "length recovery_fip_uuid_nt_fw = 16" "recovery_fip_uuid_nt_fw \<noteq> replicate 16 0"
proof -
  have "hd recovery_fip_uuid_nt_fw \<noteq> hd (replicate 16 (0 :: u8))"
    by (simp add: recovery_fip_uuid_nt_fw_def)
  then show "recovery_fip_uuid_nt_fw \<noteq> replicate 16 0" by metis
qed (simp add: recovery_fip_uuid_nt_fw_def)

lemma validate_mtd0_eq:
  "recovery_validate_mtd0_bootloader_image img (length img) =
     Some (if mtd0_image_ok img then 0 else - EINVAL)"
proof (cases "length img = 0x200000")
  case False
  then show ?thesis
    by (simp add: recovery_validate_mtd0_bootloader_image_def fip_consts mtd0_image_ok_def)
next
  case True
  obtain w where w: "recovery_le32_to_cpu img 0x800 = Some w"
    using True by (simp add: le32_eq)
  have magic: "(w = 0xaa640001) = (le_nat (take 4 (drop 0x800 img)) = 0xaa640001)"
    using le32_const [of "0x800" img "0xaa640001" w] True w by simp
  have flags: "recovery_le64_to_cpu img 0x808 = Some (le_word (take 8 (drop 0x808 img)))"
    using True by (simp add: le64_eq)
  have u: "unat (le_word (take 8 (drop 0x808 img)) :: u64) = le_nat (take 8 (drop 0x808 img))"
    by (rule unat_le_word) simp
  have toc: "recovery_validate_fip_payload img 0x800 0x1ff800 recovery_fip_uuid_nt_fw =
      Some (if fip_payload_ok img 0x800 0x1ff800 recovery_fip_uuid_nt_fw then 0 else - EINVAL)"
    using fip_toc_walk_eq [of "0x800" "0x1ff800" img recovery_fip_uuid_nt_fw 0] True
    by (simp add: recovery_validate_fip_payload_def fip_consts fip_ok_from_0 nt_fw_uuid)
  show ?thesis
    using True
    by (simp add: recovery_validate_mtd0_bootloader_image_def validate_prefix_eq w flags toc magic
        fip_consts plat_flag_eq u mtd0_image_ok_def Let_def)
qed

text \<open>
  C2: the validator of an uploaded bootloader image returns success exactly for the images of
  2 MiB whose prefix is the vendor's or erased, whose FIP header has the magic number and the
  platform flag, and whose table of contents has, before its terminator, a first BL33 entry
  with a non-empty payload that lies inside the image; every other image is refused with
  \<^verbatim>\<open>-EINVAL\<close>. The result is never \<^term>\<open>None\<close>: no input makes it read outside the image,
  and the 64-bit range check cannot be passed by wrap-around.
\<close>

theorem validate_mtd0_image_iff:
  "recovery_validate_mtd0_bootloader_image img (length img) =
     Some (if mtd0_image_ok img then 0 else - EINVAL)"
  by (rule validate_mtd0_eq)

text \<open>
  A concrete image the validator accepts: vendor prefix, header with the platform flag, one
  BL33 entry whose payload is the 0x1000 bytes at offset 0x100 of the FIP.
\<close>

definition sample_mtd0_image :: bytes where
  "sample_mtd0_image =
     [0x00, 0xf0, 0x20, 0xe3] @ replicate 0x7fc 0 @
     [0x01, 0x00, 0x64, 0xaa, 0, 0, 0, 0, 0, 0, 0, 0, 1, 0, 0, 0] @
     recovery_fip_uuid_nt_fw @ [0x00, 0x01, 0, 0, 0, 0, 0, 0] @ [0x00, 0x10, 0, 0, 0, 0, 0, 0] @
     replicate 0x1ff7d0 0"

lemma sample_drops:
  "drop 0x800 sample_mtd0_image =
     [0x01, 0x00, 0x64, 0xaa, 0, 0, 0, 0, 0, 0, 0, 0, 1, 0, 0, 0] @ drop 0x810 sample_mtd0_image"
  "drop 0x810 sample_mtd0_image = recovery_fip_uuid_nt_fw @ drop 0x820 sample_mtd0_image"
  "drop 0x820 sample_mtd0_image =
     [0x00, 0x01, 0, 0, 0, 0, 0, 0] @ [0x00, 0x10, 0, 0, 0, 0, 0, 0] @ replicate 0x1ff7d0 0"
  by (simp_all add: sample_mtd0_image_def nt_fw_uuid)

lemma sample_mtd0_image_ok: "mtd0_image_ok sample_mtd0_image"
proof -
  have "length sample_mtd0_image = 0x200000"
    by (simp add: sample_mtd0_image_def nt_fw_uuid)
  moreover have "le_nat (take 4 sample_mtd0_image) = 0xe320f000"
    by (simp add: sample_mtd0_image_def)
  moreover have "le_nat (take 4 (drop 0x800 sample_mtd0_image)) = 0xaa640001"
    unfolding sample_drops(1) by simp
  moreover have "drop 0x808 sample_mtd0_image = drop 8 (drop 0x800 sample_mtd0_image)" by simp
  then have "le_nat (take 8 (drop 0x808 sample_mtd0_image)) = 2 ^ 32"
    unfolding sample_drops(1) by simp
  moreover have "toc_uuid sample_mtd0_image 0x800 0 = recovery_fip_uuid_nt_fw"
    by (simp add: toc_uuid_def sample_drops(2) nt_fw_uuid)
  moreover have "toc_payload_offset sample_mtd0_image 0x800 0 = 0x100"
    by (simp add: toc_payload_offset_def sample_drops(3))
  moreover have "drop 0x828 sample_mtd0_image = drop 8 (drop 0x820 sample_mtd0_image)" by simp
  then have "toc_payload_size sample_mtd0_image 0x800 0 = 0x1000"
    unfolding toc_payload_size_def sample_drops(3) by simp
  ultimately show ?thesis
    by (auto simp: mtd0_image_ok_def mtd0_prefix_ok_def fip_payload_ok_def toc_live_def
        intro!: exI [of _ 0])
qed

end
