(* ===== verification/FlashImage.thy ===== *)
theory FlashImage
  imports Http RecoveryUbi Fip
begin

text \<open>
  Flashing an accepted upload: \<open>flash_image\<close> of \<open>net/lwip/httpd_recovery.c\<close>, with its
  UBI branch, its raw MTD branch and the error exit they share. The locale \<open>flash_server\<close> states
  what flashing needs of the server that runs between two flash operations, and holds the lemmas
  about both branches; it is interpreted on the recovery server of \<open>Http\<close>.
\<close>

section \<open>flash\_image\<close>

text \<open>The error exits: the target is released and the phase says that flashing failed.\<close>

definition flash_fail :: "int \<Rightarrow> 'd recovery_target \<Rightarrow> ('d, 'x) world \<Rightarrow> int \<times> ('d, 'x) world" where
  "flash_fail err t w = (err, (snd (recovery_release_target t w))\<lparr>prog_phase := -1\<rparr>)"

text \<open>
  The UBI branch. \<open>sync_part\<close> is the method of the board operations of that name; its result is
  not looked at.
\<close>

definition flash_ubi ::
    "'d board \<Rightarrow> (('d, 'x) world \<Rightarrow> ('d, 'x) world) \<Rightarrow> (string option \<Rightarrow> ('d, 'x) world \<Rightarrow> int \<times> ('d, 'x) world) \<Rightarrow>
      bytes \<Rightarrow> u32 \<Rightarrow> 'd recovery_target \<Rightarrow> ('d, 'x) world \<Rightarrow> int \<times> ('d, 'x) world" where
  "flash_ubi b svc sync_part img image_size t w =
    (let (ret, reformatted, t, w) = recovery_prepare_ubi_target b svc t image_size w in
     if ret \<noteq> 0 then flash_fail ret t w
     else
       let (ret, t, w) = (if \<not> reformatted then recovery_cleanup_ubi_firmware b svc t image_size w else (0, t, w)) in
       if ret \<noteq> 0 then flash_fail ret t w
       else
         let (ret, t, w) = (if cur_size t = 0 then recovery_create_ubi_target b t (unat image_size) w
                            else if (ucast image_size :: u64) > cur_size t
                            then recovery_resize_ubi_target b t (unat image_size) w
                            else (0, t, w)) in
         if ret \<noteq> 0 then flash_fail ret t w
         else
           let (ret, w) = recovery_ensure_preserved_ubi_volumes b t w in
           if ret \<noteq> 0 then flash_fail ret t w
           else
             let (ret, w) = recovery_ensure_rootfs_data b t w in
             if ret \<noteq> 0 then flash_fail ret t w
             else
               let w = w\<lparr>prog_phase := 2, prog_done := prog_erase_total w, prog_write_done := 0\<rparr>;
                   (ret, w) = recovery_write_ubi_target b svc t img (svc w) in
               if ret \<noteq> 0 then flash_fail ret t w
               else
                 let w = w\<lparr>prog_write_done := image_size, prog_done := prog_erase_total w + image_size\<rparr>;
                     (t, w) = recovery_release_target t w;
                     w = w\<lparr>prog_phase := 3\<rparr>;
                     w = (if current_target w = TARGET_FIRMWARE then snd (sync_part (tgt_ubi_part t) w) else w) in
                 (0, w))"

text \<open>The MTD branch; \<open>mem_ok\<close> is the outcome of the allocation of the read-back buffer.\<close>

definition flash_mtd ::
    "(('d, 'x) world \<Rightarrow> ('d, 'x) world) \<Rightarrow> (('d, 'x) world \<Rightarrow> int \<times> ('d, 'x) world) \<Rightarrow> bool \<Rightarrow>
      bytes \<Rightarrow> u32 \<Rightarrow> 'd recovery_target \<Rightarrow> ('d, 'x) world \<Rightarrow> int \<times> ('d, 'x) world" where
  "flash_mtd svc sync_all mem_ok img image_size t w =
    (case tgt_mtd t of
       None \<Rightarrow> flash_fail (-EINVAL) t w
     | Some mtd \<Rightarrow>
         let verify = (current_target w = TARGET_UBOOT \<or> current_target w = TARGET_UENV \<or> current_target w = TARGET_DSD);
             strict_layout = (current_target w = TARGET_UBOOT);
             (ret, d) = (if strict_layout then recovery_mtd_require_good_blocks mtd (tgt_ofs t) (unat (tgt_limit t)) (dev w)
                         else (0, dev w));
             w = w\<lparr>dev := d\<rparr> in
         if ret \<noteq> 0 then flash_fail ret t w
         else
           let w = start_progress (ucast (tgt_limit t)) image_size w;
               (ret, w) = recovery_erase_mtd_region svc (Some mtd) (tgt_ofs t) (unat (tgt_limit t)) w in
           if ret \<noteq> 0 then flash_fail ret t w
           else
             let w = w\<lparr>prog_phase := 2\<rparr>;
                 (ret, w) = recovery_write_mtd_region svc mem_ok mtd (tgt_ofs t) (unat (tgt_limit t)) img verify
                              strict_layout w in
             if ret \<noteq> 0 then flash_fail ret t w
             else
               let (t, w) = recovery_release_target t w;
                   w = w\<lparr>prog_phase := 3\<rparr>;
                   w = (if current_target w = TARGET_FIRMWARE then snd (sync_all w) else w) in
               (0, w))"

text \<open>
  The image is the content of the upload buffer; the runtime service leaves the buffer alone, so
  that reading it once is the same as reading it block by block.
\<close>

definition flash_image ::
    "'d board \<Rightarrow> (('d, 'x) world \<Rightarrow> ('d, 'x) world) \<Rightarrow> (string option \<Rightarrow> ('d, 'x) world \<Rightarrow> int \<times> ('d, 'x) world) \<Rightarrow>
      (('d, 'x) world \<Rightarrow> int \<times> ('d, 'x) world) \<Rightarrow> bool \<Rightarrow> ('d, 'x) world \<Rightarrow> int \<times> ('d, 'x) world" where
  "flash_image b svc sync_part sync_all mem_ok w =
    (let w = w\<lparr>post_ok := False\<rparr>;
         img = upload_image w;
         image_size = recv_off w;
         exact = recovery_target_exact_size (current_target w) in
     if image_size = 0 then (-EINVAL, w\<lparr>prog_phase := -1\<rparr>)
     else if exact \<noteq> 0 \<and> unat image_size \<noteq> exact then (-EINVAL, w\<lparr>prog_phase := -1\<rparr>)
     else
       let ret = (if current_target w = TARGET_UBOOT
                  then recovery_validate_mtd0_bootloader_image img (unat image_size) else Some 0) in
       if ret \<noteq> Some 0 then (case ret of Some r \<Rightarrow> r | None \<Rightarrow> -EINVAL, w\<lparr>prog_phase := -1\<rparr>)
       else
         let (ret, t, w) = recovery_resolve_target b (current_target w) w in
         if ret \<noteq> 0 then (ret, w\<lparr>prog_phase := -1\<rparr>)
         else if current_target w = TARGET_UBOOT \<and>
                 (backend t \<noteq> RECOVERY_BACKEND_MTD \<or> tgt_mtd t = None \<or> tgt_ofs t \<noteq> 0 \<or>
                  tgt_limit t \<noteq> of_nat RECOVERY_UBOOT_SIZE \<or>
                  (case tgt_mtd t of Some m \<Rightarrow> unat (tgt_limit t) > mtd_size m | None \<Rightarrow> False))
         then flash_fail (-EINVAL) t w
         else
           let rebuild = (current_target w = TARGET_FIRMWARE \<and> backend t = RECOVERY_BACKEND_UBI);
               (ret, t, w) = (if rebuild then recovery_force_ubi_rebuild b t w else (0, t, w)) in
           if ret \<noteq> 0 then flash_fail ret t w
           else
             let (limit, w) = (if rebuild then recovery_calc_rebuild_ubi_limit b t w else (tgt_limit t, w));
                 t = t\<lparr>tgt_limit := limit\<rparr> in
             if (ucast image_size :: u64) > tgt_limit t then flash_fail (-EFBIG) t w
             else if backend t = RECOVERY_BACKEND_UBI then flash_ubi b svc sync_part img image_size t w
             else flash_mtd svc sync_all mem_ok img image_size t w)"

section \<open>Steps that leave the rest of the state alone\<close>

named_theorems plains "operations that keep everything but flash, UBI, references and counters"

lemma select_target_plain [plains]: "select_target_ubi b t w = (r, w') \<Longrightarrow> plain w' = plain w"
  by (auto simp: select_target_ubi_def split: option.splits dest!: select_ubi_keeps keeps_plain)

lemma open_plain [plains]: "ubi_open_volume_nm low n m w = (r, w') \<Longrightarrow> plain w' = plain w"
  by (rule keeps_plain [OF open_nm_keeps])

lemma upd_ubi_plain [simp]: "plain (upd_ubi f w) = plain w"
  by (simp add: upd_ubi_def)

lemma close_plain [simp]: "plain (ubi_close_volume i m w) = plain w"
  by (simp add: ubi_close_volume_def)

lemma create_volume_plain [plains]: "recovery_create_ubi_volume b n k ty w = (r, w') \<Longrightarrow> plain w' = plain w"
  by (auto simp: recovery_create_ubi_volume_def Let_def split: if_splits option.splits prod.splits)

lemma ensure_named_plain [plains]: "recovery_ensure_ubi_volume_named b n k ty w = (r, w') \<Longrightarrow> plain w' = plain w"
  by (auto simp: recovery_ensure_ubi_volume_named_def Let_def split: if_splits sum.splits prod.splits dest!: plains)

lemma ensure_rootfs_plain [plains]: "recovery_ensure_rootfs_data b t w = (r, w') \<Longrightarrow> plain w' = plain w"
  by (auto simp: recovery_ensure_rootfs_data_def Let_def split: if_splits sum.splits prod.splits dest!: plains)

lemma ensure_preserved_plain [plains]: "recovery_ensure_preserved_ubi_volumes b t w = (r, w') \<Longrightarrow> plain w' = plain w"
  unfolding recovery_ensure_preserved_ubi_volumes_def factory_board_def [symmetric]
  by (auto simp: Let_def split: if_splits sum.splits prod.splits dest!: plains)

lemma get_mtd_plain [plains]: "get_mtd b n w = (r, w') \<Longrightarrow> plain w' = plain w"
  using get_mtd_step by blast

lemma put_mtd_plain [simp]: "plain (put_mtd_device m w) = plain w"
  using put_mtd_step by blast

lemma active_plain [plains]: "recovery_board_active b w = (a, w') \<Longrightarrow> plain w' = plain w"
  using board_active_keeps keeps_plain by blast

lemma detach_plain [simp]: "plain (ubi_detach w) = plain w"
  by (rule keeps_plain [OF detach_keeps(1)])

lemma try_ubi_plain [plains]:
  assumes "recovery_try_ubi_target b tgt t w = (r, t', w')"
  shows "plain w' = plain w"
proof -
  obtain p w1 where p: "recovery_ubi_part b tgt w = (p, w1)" by (cases "recovery_ubi_part b tgt w")
  have p1: "plain w1 = plain w" using ubi_part_name_step [OF p] by simp
  obtain v w2 where v: "target_volume b tgt w1 = (v, w2)" by (cases "target_volume b tgt w1")
  have p2: "plain w2 = plain w" using target_volume_keeps [OF v] keeps_plain p1 by fastforce
  show ?thesis
  proof (cases p)
    case None
    then show ?thesis using assms p p1 by (simp add: recovery_try_ubi_target_def)
  next
    case (Some part)
    obtain s w3 where s: "recovery_select_ubi b part w2 = (s, w3)" by (cases "recovery_select_ubi b part w2")
    have p3: "plain w3 = plain w" using keeps_plain [OF select_ubi_keeps [OF s]] p2 by simp
    show ?thesis
    proof (cases "s = 0")
      case False
      then show ?thesis using assms p v s Some p3 unfolding recovery_try_ubi_target_def Let_def
        by (auto split: if_splits sum.splits prod.splits dest!: plains)
    next
      case True
      then show ?thesis using assms p v s Some p3 unfolding recovery_try_ubi_target_def Let_def
        by (auto split: if_splits sum.splits prod.splits option.splits dest!: plains)
    qed
  qed
qed

lemma create_target_plain [plains]: "recovery_create_ubi_target b t n w = (r, t', w') \<Longrightarrow> plain w' = plain w"
  by (auto simp: recovery_create_ubi_target_def Let_def split: if_splits option.splits prod.splits dest!: plains)

lemma force_rebuild_plain [plains]: "recovery_force_ubi_rebuild b t w = (r, t', w') \<Longrightarrow> plain w' = plain w"
  by (auto simp: recovery_force_ubi_rebuild_def Let_def split: if_splits option.splits sum.splits prod.splits dest!: plains)

lemma rebuild_limit_plain [plains]: "recovery_calc_rebuild_ubi_limit b t w = (n, w') \<Longrightarrow> plain w' = plain w"
  using rebuild_limit_keeps keeps_plain by blast

lemma release_plain [simp]: "plain (snd (recovery_release_target t w)) = plain w"
  by (auto simp: recovery_release_target_def split: option.splits)

lemma resolve_plain [plains]: "recovery_resolve_target b tgt w = (r, t, w') \<Longrightarrow> plain w' = plain w"
  by (drule resolve_target_tracks) (simp add: tracks_def plain_def)

lemma unmap_lebs_plain: "(\<And>k w. plain (cb k w) = plain w) \<Longrightarrow> unmap_lebs low cb v ls k w = (r, w') \<Longrightarrow> plain w' = plain w"
proof (induction low cb v ls k w rule: unmap_lebs.induct)
  case (2 low cb vid l ls k w)
  then show ?case by (auto split: prod.splits if_splits)
qed simp

lemma resize_volume_plain:
  assumes "ubi_resize_volume low (\<lambda>_ _ w. w) i n w = (r, w')"
  shows "plain w' = plain w"
proof -
  have u: "plain (snd (unmap_lebs low (\<lambda>k w. w) v ls k w)) = plain w" for v ls k and w :: "('a, 'b) world"
    using unmap_lebs_plain [of "\<lambda>k w. w" low v ls k w] by (metis prod.collapse)
  have "plain (snd (ubi_resize_volume low (\<lambda>_ _ w. w) i n w)) = plain w"
    unfolding ubi_resize_volume_def Let_def case_prod_beta
    by (simp add: if_distrib [of snd] if_distrib [of plain] u split: option.split)
  then show ?thesis by (simp only: assms snd_conv)
qed

lemma resize_target_plain [plains]: "recovery_resize_ubi_target b t n w = (r, t', w') \<Longrightarrow> plain w' = plain w"
  by (auto simp: recovery_resize_ubi_target_def Let_def split: if_splits sum.splits prod.splits
      dest!: plains resize_volume_plain)

lemma on_volume_plain' [plains]: "on_volume i f w = (r, w') \<Longrightarrow> plain w' = plain w"
  by (rule on_volume_plain)

section \<open>The invariant during a flash operation\<close>

text \<open>
  The contract the whole of \<^verbatim>\<open>flash_image\<close> relies on: while an image is being flashed no upload is being
  accepted or waiting, and nothing depends on the environment, in which the board methods called at
  the end may set a variable.
\<close>

definition beyond_env :: "('d, 'x) world \<Rightarrow> ('d, 'x) world" where
  "beyond_env w = plain (w\<lparr>env := (\<lambda>_. None)\<rparr>)"

lemma beyond_env_plain: "beyond_env w = (plain w)\<lparr>env := (\<lambda>_. None)\<rparr>"
  by (cases w) (simp add: beyond_env_def plain_def core_def)

lemma plain_beyond: "plain w' = plain w \<Longrightarrow> beyond_env w' = beyond_env w"
  by (simp add: beyond_env_plain)

lemma beyond_env_upd [simp]: "beyond_env (w\<lparr>env := e\<rparr>) = beyond_env w"
  by (simp add: beyond_env_def)

lemma beyond_phase: "beyond_env w' = beyond_env w \<Longrightarrow> prog_phase w' = prog_phase w"
proof -
  assume "beyond_env w' = beyond_env w"
  then have "prog_phase (beyond_env w') = prog_phase (beyond_env w)" by simp
  then show ?thesis by (simp add: beyond_env_def plain_def core_def)
qed

locale flash_server = flash_runtime svc content inv
  for svc :: "('d, 'x) world \<Rightarrow> ('d, 'x) world" and content :: "'d \<Rightarrow> int \<Rightarrow> u8" and inv :: "('d, 'x) world \<Rightarrow> bool" +
  assumes inv_idle: "inv w \<Longrightarrow> 0 < prog_phase w \<Longrightarrow> \<not> post_ok w \<and> \<not> flash_request w"
    and inv_env: "inv w \<Longrightarrow> inv (w\<lparr>env := e\<rparr>)"
begin

definition idle :: "('d, 'x) world \<Rightarrow> bool" where
  "idle w \<longleftrightarrow> inv w \<and> \<not> post_ok w \<and> \<not> flash_request w"

lemma run_idle: "run_ok w \<Longrightarrow> idle w"
  using inv_idle by (simp add: run_ok_def idle_def)

lemma idle_plain: "idle w \<Longrightarrow> plain w' = plain w \<Longrightarrow> idle w'"
  using inv_plain [of w w'] plainD(3,4) [of w' w] by (simp add: idle_def)

lemma idle_beyond: "idle w \<Longrightarrow> beyond_env w' = beyond_env w \<Longrightarrow> idle w'"
proof -
  assume i: "idle w" and b: "beyond_env w' = beyond_env w"
  have "idle (w\<lparr>env := (\<lambda>_. None)\<rparr>)" using i inv_env by (simp add: idle_def)
  then have "idle (w'\<lparr>env := (\<lambda>_. None)\<rparr>)" by (rule idle_plain) (use b in \<open>simp add: beyond_env_def\<close>)
  then show "idle w'" using inv_env [of "w'\<lparr>env := (\<lambda>_. None)\<rparr>" "env w'"] by (simp add: idle_def)
qed

lemma idle_phase: "idle w \<Longrightarrow> idle (w\<lparr>prog_phase := n\<rparr>)"
  by (simp add: idle_def inv_phase)

lemma idle_run: "idle w \<Longrightarrow> 0 < n \<Longrightarrow> run_ok (w\<lparr>prog_phase := n\<rparr>)"
  by (simp add: idle_def run_ok_def inv_phase)

lemma start_progress_run: "idle w \<Longrightarrow> run_ok (start_progress a c w)"
  unfolding start_progress_def by (rule run_ok_plain [OF idle_run [of w 1]]) (simp_all add: plain_def core_def)

lemma fail_idle: "idle w \<Longrightarrow> flash_fail e t w = (r, w') \<Longrightarrow> idle w' \<and> r = e"
  using idle_phase [OF idle_plain [OF _ release_plain]] by (auto simp: flash_fail_def)

text \<open>Operations that call the runtime service.\<close>

lemma progress_run: "run_ok w \<Longrightarrow> run_ok (recovery_ubi_progress svc k n w)"
proof -
  assume w: "run_ok w"
  define v where "v = recovery_ubi_progress (\<lambda>w. w) k n w"
  have p: "plain v = plain w" by (simp add: v_def recovery_ubi_progress_def Let_def)
  have v: "run_ok v" by (rule run_ok_plain [OF w p])
  have "recovery_ubi_progress svc k n w = (if prog_status_leds w then svc v else v)"
    by (simp add: v_def recovery_ubi_progress_def Let_def)
  then show ?thesis using v svc_run_ok [OF v] by simp
qed

lemma unmap_lebs_run: "run_ok w \<Longrightarrow> unmap_lebs low (\<lambda>k. recovery_ubi_progress svc k n) v ls k w = (r, w') \<Longrightarrow> run_ok w'"
proof (induction ls arbitrary: k w)
  case (Cons l ls)
  obtain e d where u: "low_unmap low v l (dev w) = (e, d)" by (cases "low_unmap low v l (dev w)")
  have r: "run_ok (w\<lparr>dev := d\<rparr>)" by (rule run_ok_plain [OF Cons.prems(1)]) simp
  show ?case
  proof (cases "e = 0")
    case False
    then show ?thesis using Cons.prems(2) u r by simp
  next
    case True
    then show ?thesis using Cons.prems(2) u Cons.IH [OF progress_run [OF r]] by simp
  qed
qed simp

lemma remove_volume_run:
  assumes "run_ok w" "ubi_remove_volume low (recovery_ubi_progress svc) i no_vtbl w = (r, w')"
  shows "run_ok w'"
proof (cases "\<exists>u vol. ubi w = Some u \<and> volumes u ! i = Some vol \<and> \<not> ro_mode u \<and> \<not> ref_count vol > 1")
  case False
  then show ?thesis using assms by (auto simp: ubi_remove_volume_def split: option.splits if_splits)
next
  case True
  then obtain u vol where u: "ubi w = Some u" "volumes u ! i = Some vol" "\<not> ro_mode u" "\<not> ref_count vol > 1" by blast
  define w1 where "w1 = upd_ubi (\<lambda>u. u\<lparr>volumes := (volumes u)[i := None]\<rparr>) w"
  obtain e d where c: "(if no_vtbl then (0, dev w1) else low_change_vtbl low i VtblDelete (dev w1)) = (e, d)"
    by (cases "if no_vtbl then (0, dev w1) else low_change_vtbl low i VtblDelete (dev w1)")
  let ?w2 = "w1\<lparr>dev := d\<rparr>" and ?n = "reserved_pebs vol"
  let ?restore = "upd_ubi (\<lambda>u. u\<lparr>volumes := (volumes u)[i := Some vol]\<rparr>)"
  have r2: "run_ok ?w2" by (rule run_ok_plain [OF assms(1)]) (simp add: w1_def)
  obtain e3 w3 where m: "unmap_lebs low (\<lambda>k. recovery_ubi_progress svc k ?n) i [0..<nat ?n] 0 (recovery_ubi_progress svc 0 ?n ?w2) = (e3, w3)"
    by (cases "unmap_lebs low (\<lambda>k. recovery_ubi_progress svc k ?n) i [0..<nat ?n] 0 (recovery_ubi_progress svc 0 ?n ?w2)")
  have r3: "run_ok w3" by (rule unmap_lebs_run [OF progress_run [OF r2] m])
  have rp: "run_ok (upd_ubi f v)" if "run_ok v" for f v by (rule run_ok_plain [OF that]) simp
  have "(r, w') = (if e \<noteq> 0 then (e, ?restore ?w2) else if e3 \<noteq> 0 then (e3, ?restore w3)
      else (0, upd_ubi (\<lambda>u. (ubi_update_reserved (u\<lparr>rsvd_pebs := rsvd_pebs u - ?n, avail_pebs := avail_pebs u + ?n\<rparr>))
                           \<lparr>vol_count := vol_count u - 1\<rparr>) w3))"
    unfolding assms(2) [symmetric] ubi_remove_volume_def u(1) option.case u(2)
    using u(3,4) c m unfolding w1_def [symmetric] Let_def by simp
  then show ?thesis using rp r2 r3 by (auto split: if_splits)
qed

lemma recovery_remove_run:
  assumes "run_ok w" "recovery_remove_ubi_volume b (recovery_ubi_progress svc) n w = (r, w')"
  shows "run_ok w'"
proof -
  obtain q w1 where o: "ubi_open_volume_nm (brd_low b) n UBI_EXCLUSIVE w = (q, w1)"
    by (cases "ubi_open_volume_nm (brd_low b) n UBI_EXCLUSIVE w")
  have r1: "run_ok w1" by (rule run_ok_plain [OF assms(1) open_plain [OF o]])
  show ?thesis
  proof (cases q)
    case (Inl e)
    then show ?thesis using assms(2) o r1 by (simp add: recovery_remove_ubi_volume_def)
  next
    case (Inr i)
    obtain r2 w2 where m: "ubi_remove_volume (brd_low b) (recovery_ubi_progress svc) i False w1 = (r2, w2)"
      by (cases "ubi_remove_volume (brd_low b) (recovery_ubi_progress svc) i False w1")
    have "w' = ubi_close_volume i UBI_EXCLUSIVE w2" using assms(2) o Inr m by (simp add: recovery_remove_ubi_volume_def)
    then show ?thesis using run_ok_plain [OF remove_volume_run [OF r1 m]] by simp
  qed
qed

lemma cleanup_slots_run: "run_ok w \<Longrightarrow> cleanup_slots b svc slots n w = (r, w') \<Longrightarrow> run_ok w'"
proof (induction slots arbitrary: n w)
  case (Cons i slots)
  show ?case
  proof (cases "\<exists>u. ubi w = Some u \<and> removable b (volumes u ! i)")
    case False
    then show ?thesis using Cons by (cases "ubi w") auto
  next
    case True
    then obtain u where u: "ubi w = Some u" "removable b (volumes u ! i)" by blast
    define vs where "vs = vol_bytes (volumes u ! i)"
    define nm where "nm = (case volumes u ! i of Some vol \<Rightarrow> vol_name vol | None \<Rightarrow> [])"
    define w1 where "w1 = w\<lparr>prog_erase_volume_base := n, prog_erase_volume_bytes := vs\<rparr>"
    obtain r2 w2 where m: "recovery_remove_ubi_volume b (recovery_ubi_progress svc) nm w1 = (r2, w2)"
      by (cases "recovery_remove_ubi_volume b (recovery_ubi_progress svc) nm w1")
    have r1: "run_ok w1" by (rule run_ok_plain [OF Cons.prems(1)]) (simp add: w1_def)
    have r2: "run_ok w2" by (rule recovery_remove_run [OF r1 m])
    define w3 where "w3 = (let w = w2\<lparr>prog_erase_done := (if n + vs > ucast (prog_erase_total w2) then prog_erase_total w2
                                          else ucast (n + vs))\<rparr> in w\<lparr>prog_done := prog_erase_done w + prog_write_done w\<rparr>)"
    have r3: "run_ok w3" by (rule run_ok_plain [OF r2]) (simp add: w3_def Let_def)
    have "cleanup_slots b svc (i # slots) n w = (if r2 \<noteq> 0 then (r2, w2) else cleanup_slots b svc slots (n + vs) (svc w3))"
      using u m unfolding cleanup_slots.simps w3_def vs_def nm_def w1_def Let_def by simp
    then show ?thesis using Cons.prems(2) r2 Cons.IH [OF svc_run_ok [OF r3]] by (auto split: if_splits)
  qed
qed simp

lemma cleanup_idle:
  assumes "idle w" "recovery_cleanup_ubi_firmware b svc t n w = (r, t', w')"
  shows "idle w'"
proof -
  obtain s w1 where s: "select_target_ubi b t w = (s, w1)" by (cases "select_target_ubi b t w")
  have i1: "idle w1" by (rule idle_plain [OF assms(1) select_target_plain [OF s]])
  show ?thesis
  proof (cases "backend t = RECOVERY_BACKEND_UBI \<and> s = 0 \<and> ubi w1 \<noteq> None")
    case False
    then show ?thesis using assms s i1 by (auto simp: recovery_cleanup_ubi_firmware_def split: if_splits option.splits)
  next
    case True
    then obtain u where u: "ubi w1 = Some u" by auto
    define et where "et = sum_list (map vol_bytes (filter (removable b) (volumes u)))"
    define w2 where "w2 = (start_progress (if et > 0xffffffff then 0xffffffff else ucast et) n w1)\<lparr>prog_status_leds := True\<rparr>"
    have r2: "run_ok w2" unfolding w2_def by (rule run_ok_plain [OF start_progress_run [OF i1]]) simp
    obtain e w3 where c: "cleanup_slots b svc [0..<length (volumes u)] 0 w2 = (e, w3)"
      by (cases "cleanup_slots b svc [0..<length (volumes u)] 0 w2")
    let ?w4 = "w3\<lparr>prog_status_leds := False\<rparr>"
    have i4: "idle ?w4" by (rule idle_plain [OF run_idle [OF cleanup_slots_run [OF r2 c]]]) simp
    have "(r, t', w') = (if e \<noteq> 0 then (e, t, ?w4) else recovery_try_ubi_target b (current_target ?w4) t ?w4)"
      using assms(2) True s u c unfolding recovery_cleanup_ubi_firmware_def Let_def et_def w2_def by simp
    then show ?thesis using i4 idle_plain [OF i4] try_ubi_plain by (metis Pair_inject)
  qed
qed

lemma write_chunks_run: "run_ok w \<Longrightarrow> write_ubi_chunks b svc i rest n w = (r, w') \<Longrightarrow> run_ok w'"
proof (induction rest arbitrary: w n rule: length_induct)
  case (1 rest)
  define c where "c = min (length rest) RECOVERY_UBI_WRITE_CHUNK"
  obtain r1 w1 where v: "on_volume i (\<lambda>u vol. ubi_more_update_data (brd_low b) u vol (take c rest)) w = (r1, w1)"
    by (cases "on_volume i (\<lambda>u vol. ubi_more_update_data (brd_low b) u vol (take c rest)) w")
  define m where "m = n + of_nat c"
  define w2 where "w2 = (let w = w1\<lparr>prog_write_done := (if m > prog_write_total w1 then prog_write_total w1 else m)\<rparr> in
      w\<lparr>prog_done := prog_erase_done w + prog_write_done w\<rparr>)"
  have r1: "run_ok w1" by (rule run_ok_plain [OF 1(2) on_volume_plain [OF v]])
  have r2: "run_ok w2" by (rule run_ok_plain [OF r1]) (simp add: w2_def Let_def)
  have eq: "write_ubi_chunks b svc i rest n w = (if rest = [] then (0, w) else if r1 < 0 then (r1, w1)
      else write_ubi_chunks b svc i (drop c rest) m (svc w2))"
    using v unfolding write_ubi_chunks.simps [of b svc i rest n w] w2_def m_def
    by (simp add: Let_def flip: c_def)
  have "length (drop c rest) < length rest" if "rest \<noteq> []" using that write_chunk_pos by (simp add: c_def)
  then have ih: "run_ok w'" if "rest \<noteq> []" "write_ubi_chunks b svc i (drop c rest) m (svc w2) = (r, w')"
    using 1(1) that svc_run_ok [OF r2] by blast
  show ?case using 1(2,3) eq r1 ih by (cases "rest = []"; cases "r1 < 0") auto
qed

lemma update_volume_run:
  assumes "run_ok w" "update_ubi_volume b svc i img w = (r, w')"
  shows "run_ok w'"
proof -
  let ?f = "\<lambda>u vol d. if length img > nat (reserved_pebs vol) * (leb_size u - data_pad vol) then (-EFBIG, vol, d)
            else ubi_start_update (brd_low b) u vol (length img) d"
  obtain r1 w1 where v1: "on_volume i ?f w = (r1, w1)" by (cases "on_volume i ?f w")
  have k1: "run_ok w1" by (rule run_ok_plain [OF assms(1) on_volume_plain [OF v1]])
  obtain r2 w2 where v2: "write_ubi_chunks b svc i img 0 (svc w1) = (r2, w2)" by (cases "write_ubi_chunks b svc i img 0 (svc w1)")
  have k2: "run_ok w2" by (rule write_chunks_run [OF svc_run_ok [OF k1] v2])
  show ?thesis using assms(2) v1 v2 k1 k2 run_ok_plain [OF k2 on_volume_plain]
    by (auto simp: update_ubi_volume_def split: if_splits)
qed

lemma write_target_run:
  assumes "run_ok w" "recovery_write_ubi_target b svc t img w = (r, w')"
  shows "run_ok w'"
proof -
  obtain s w1 where s: "select_target_ubi b t w = (s, w1)" by (cases "select_target_ubi b t w")
  have k1: "run_ok w1" by (rule run_ok_plain [OF assms(1) select_target_plain [OF s]])
  let ?n = "case tgt_name t of Some n \<Rightarrow> n | None \<Rightarrow> []"
  obtain q w2 where o: "ubi_open_volume_nm (brd_low b) ?n UBI_READWRITE w1 = (q, w2)"
    by (cases "ubi_open_volume_nm (brd_low b) ?n UBI_READWRITE w1")
  have k2: "run_ok w2" by (rule run_ok_plain [OF k1 open_plain [OF o]])
  show ?thesis
  proof (cases "backend t = RECOVERY_BACKEND_UBI \<and> s = 0 \<and> (\<exists>i. q = Inr i)")
    case False
    then show ?thesis using assms s o k1 k2 by (auto simp: recovery_write_ubi_target_def split: if_splits sum.splits)
  next
    case True
    then obtain i where i: "q = Inr i" by blast
    obtain r3 w3 where u: "update_ubi_volume b svc i img w2 = (r3, w3)" by (cases "update_ubi_volume b svc i img w2")
    have k3: "run_ok w3" by (rule update_volume_run [OF k2 u])
    have "plain w' = plain w3"
      using assms(2) s True o i u unfolding recovery_write_ubi_target_def Let_def by (auto split: if_splits)
    then show ?thesis by (rule run_ok_plain [OF k3])
  qed
qed

end

lemma loop_rel_stays: "loop_rel w w' \<Longrightarrow> stays w w'"
  by (simp add: loop_rel_def stays_def)

lemma start_progress_same [simp]:
  "stays w (start_progress a c w)" "dev (start_progress a c w) = dev w" "ubi (start_progress a c w) = ubi w"
  "recovery_ubi_attach_error (start_progress a c w) = recovery_ubi_attach_error w"
  by (simp_all add: start_progress_def stays_def upload_image_def)

lemma phase_stays [simp]: "stays w (w\<lparr>prog_phase := n\<rparr>)" "stays w (w\<lparr>dev := d\<rparr>)" "stays w (w\<lparr>post_ok := p\<rparr>)"
  by (simp_all add: stays_def upload_image_def)

lemma release_same: "dev (snd (recovery_release_target t w)) = dev w" "ubi (snd (recovery_release_target t w)) = ubi w"
  by (auto simp: recovery_release_target_def put_mtd_device_def split: option.splits)

lemma release_stays: "stays w (snd (recovery_release_target t w))"
  by (rule plainD(1) [OF release_plain])

lemma fail_same: "flash_fail e t w = (r, w') \<Longrightarrow> r = e \<and> dev w' = dev w \<and> stays w w' \<and> prog_phase w' = -1"
  using stays_trans [OF release_stays phase_stays(1)] release_same by (fastforce simp: flash_fail_def)

lemma good_blocks_same:
  assumes "driver_ok content m" "recovery_mtd_require_good_blocks m ofs len d = (r, d')"
  shows "content d' = content d"
  using assms scan_bad_same [OF assms(1)]
  by (fastforce simp: recovery_mtd_require_good_blocks_def Let_def split: if_splits sum.splits prod.splits)

text \<open>Where the blocks of an MTD target lie.\<close>

definition target_range :: "'d mtd_info \<Rightarrow> 'd recovery_target \<Rightarrow> int set" where
  "target_range m t = {int (mtd_offset m) + tgt_ofs t..<int (mtd_offset m) + tgt_ofs t + int (unat (tgt_limit t))}"

context flash_server
begin

lemma flash_mtd_ok:
  assumes w: "idle w" and m: "tgt_mtd t = Some m" "driver_ok content m"
    and sync: "current_target w \<noteq> TARGET_FIRMWARE"
    and run: "flash_mtd svc sync_all mem_ok img n t w = (ret, w')"
  shows "idle w' \<and> stays w w' \<and> frame (target_range m t) (content (dev w)) (content (dev w')) \<and>
    prog_phase w' = (if ret = 0 then 3 else -1) \<and>
    (ret = 0 \<longrightarrow> (\<exists>bs. subseq bs (map (\<lambda>a. tgt_ofs t + a) (block_addrs (mtd_erasesize m) (unat (tgt_limit t)))) \<and>
        stored content m (dev w') bs img) \<and>
      (current_target w = TARGET_UBOOT \<longrightarrow>
         view content (dev w') (int (mtd_offset m) + tgt_ofs t) (length img) = img)) \<and>
    (current_target w = TARGET_UBOOT \<and> fst (recovery_mtd_require_good_blocks m (tgt_ofs t) (unat (tgt_limit t)) (dev w)) \<noteq> 0 \<longrightarrow>
       ret \<noteq> 0 \<and> content (dev w') = content (dev w))"
proof -
  define strict where "strict = (current_target w = TARGET_UBOOT)"
  let ?ofs = "tgt_ofs t" and ?len = "unat (tgt_limit t)"
  obtain r1 d1 where g: "(if strict then recovery_mtd_require_good_blocks m ?ofs ?len (dev w) else (0, dev w)) = (r1, d1)"
    by (cases "if strict then recovery_mtd_require_good_blocks m ?ofs ?len (dev w) else (0, dev w)")
  have c1: "content d1 = content (dev w)" using g good_blocks_same [OF m(2)] by (auto split: if_splits)
  have v: "current_target w = TARGET_UBOOT \<or> current_target w = TARGET_UENV \<or> current_target w = TARGET_DSD"
    using sync by (cases "current_target w") auto
  have v': "(strict \<or> current_target w = TARGET_UENV \<or> current_target w = TARGET_DSD) = True" using v by (simp add: strict_def)
  let ?w1 = "w\<lparr>dev := d1\<rparr>"
  have i1: "idle ?w1" by (rule idle_plain [OF w]) simp
  define w2 where "w2 = start_progress (ucast (tgt_limit t)) n ?w1"
  have k2: "run_ok w2" unfolding w2_def by (rule start_progress_run [OF i1])
  have s2: "stays w w2" "dev w2 = d1" unfolding w2_def using stays_trans [OF phase_stays(2) [of w d1] start_progress_same(1)] by simp_all
  obtain r3 w3 where e: "recovery_erase_mtd_region svc (Some m) ?ofs ?len w2 = (r3, w3)"
    by (cases "recovery_erase_mtd_region svc (Some m) ?ofs ?len w2")
  have k3: "run_ok w3" "loop_rel w2 w3" "frame (target_range m t) (content (dev w2)) (content (dev w3))"
    using erase_region_ok [OF m(2) k2 e] by (auto simp: target_range_def)
  have s3: "stays w w3" by (rule stays_trans [OF s2(1) loop_rel_stays [OF k3(2)]])
  have f3: "frame (target_range m t) (content (dev w)) (content (dev w3))" using k3(3) s2 c1 by simp
  let ?w4 = "w3\<lparr>prog_phase := 2\<rparr>"
  have k4: "run_ok ?w4" by (rule idle_run [OF run_idle [OF k3(1)]]) simp
  obtain r5 w5 where wr: "recovery_write_mtd_region svc mem_ok m ?ofs ?len img True strict ?w4 = (r5, w5)"
    by (cases "recovery_write_mtd_region svc mem_ok m ?ofs ?len img True strict ?w4")
  have k5: "run_ok w5" "loop_rel ?w4 w5" "frame (target_range m t) (content (dev w3)) (content (dev w5))"
    using write_region_ok [OF m(2) k4 wr] by (auto simp: target_range_def)
  have s5: "stays w w5" using stays_trans [OF stays_trans [OF s3 phase_stays(1)] loop_rel_stays [OF k5(2)]] .
  have f5: "frame (target_range m t) (content (dev w)) (content (dev w5))" using frame_trans [OF f3 k5(3)] by simp
  let ?w6 = "(snd (recovery_release_target t w5))\<lparr>prog_phase := 3\<rparr>"
  have i6: "idle ?w6" by (rule idle_phase [OF idle_plain [OF run_idle [OF k5(1)] release_plain]])
  have s6: "stays w ?w6" by (rule stays_trans [OF stays_trans [OF s5 release_stays] phase_stays(1)])
  have nf: "current_target ?w6 \<noteq> TARGET_FIRMWARE" "current_target ?w1 = current_target w" using s6 sync by (simp_all add: stays_def)
  have eq: "(ret, w') = (if r1 \<noteq> 0 then flash_fail r1 t ?w1 else if r3 \<noteq> 0 then flash_fail r3 t w3
      else if r5 \<noteq> 0 then flash_fail r5 t w5 else (0, ?w6))"
    unfolding run [symmetric] flash_mtd_def m(1) option.case Let_def strict_def [symmetric] v' g prod.case w2_def [symmetric] e wr
    using nf(1) by (simp add: case_prod_beta)
  have fl: "idle w' \<and> stays w w' \<and> dev w' = dev x \<and> prog_phase w' = -1 \<and> ret = e"
    if "(ret, w') = flash_fail e t x" "idle x" "stays w x" for e x
    using fail_idle [OF that(2)] fail_same [of e t x ret w'] that stays_trans by metis
  have b: "strict \<Longrightarrow> fst (recovery_mtd_require_good_blocks m ?ofs ?len (dev w)) = r1" using g by simp
  show ?thesis
  proof (cases "r1 = 0")
    case False
    then have "(ret, w') = flash_fail r1 t ?w1" using eq by simp
    from fl [OF this i1] False c1 show ?thesis by simp
  next
    case True
    show ?thesis
    proof (cases "r3 = 0 \<and> r5 = 0")
      case False
      then obtain x e where x: "(ret, w') = flash_fail e t x" "e \<noteq> 0" "idle x" "stays w x"
          "frame (target_range m t) (content (dev w)) (content (dev x))"
        using eq True run_idle k3(1) k5(1) s3 s5 f3 f5 by (metis (full_types))
      from fl [OF x(1,3,4)] x(2,5) True b show ?thesis by (auto simp: strict_def)
    next
      case ok: True
      then have w': "ret = 0" "w' = ?w6" using eq True by simp_all
      have d6: "dev w' = dev w5" using w'(2) release_same by simp
      obtain bs where "subseq bs (map (\<lambda>a. ?ofs + a) (block_addrs (mtd_erasesize m) ?len))" "stored content m (dev w5) bs img"
        "strict \<longrightarrow> view content (dev w5) (int (mtd_offset m) + ?ofs) (length img) = img"
        using write_region_stored [OF m(2) k4] wr ok by blast
      then show ?thesis using w' i6 s6 f5 d6 True b unfolding strict_def by auto
    qed
  qed
qed

end

section \<open>Flashing a raw partition\<close>

text \<open>The name of the partition a raw upload goes to.\<close>

lemma upload_image_length [simp]: "length (upload_image w) = unat (recv_off w)"
  by (simp add: upload_image_def)

lemma ucast_u32_nat: "(ucast (x :: u32) :: u64) = of_nat (unat x)"
  by simp

lemma resolve_raw_dev:
  assumes "recovery_resolve_target b tgt w = (ret, t, w')" "tgt \<noteq> TARGET_FIRMWARE"
  shows "dev w' = dev w"
proof -
  obtain n w1 where v: "target_volume b tgt w = (n, w1)" by (cases "target_volume b tgt w")
  have d1: "dev w1 = dev w" using target_volume_keeps [OF v] by simp
  have g: "dev v' = dev v" if "get_mtd b k v = (r, v')" for k r and v v' :: "('a, 'b) world" using get_mtd_step [OF that] by simp
  have p: "dev (put_mtd_device m v) = dev v" for m and v :: "('a, 'b) world" by (simp add: put_mtd_device_def)
  show ?thesis using assms v d1 p
    by (cases tgt) (auto simp: recovery_resolve_target_def Let_def split: if_splits sum.splits prod.splits dest!: g)
qed

text \<open>The device a raw upload goes to.\<close>

abbreviation raw_device :: "'d board \<Rightarrow> upload_target \<Rightarrow> 'd mtd_info \<Rightarrow> bool" where
  "raw_device b tgt m \<equiv> get_mtd_device_nm (brd_of_dev b) (brd_mtds b) (recovery_default_target tgt) = Inr m"

lemma get_mtd_nm: "get_mtd b n w = (Inr m, w') \<Longrightarrow> get_mtd_device_nm (brd_of_dev b) (brd_mtds b) n = Inr m"
  by (auto simp: get_mtd_def split: sum.splits)

lemma resolve_raw_device:
  assumes "recovery_resolve_target b tgt w = (0, t, w')" "tgt \<noteq> TARGET_FIRMWARE" "tgt_mtd t = Some m"
  shows "raw_device b tgt m"
proof -
  obtain n w1 where v: "target_volume b tgt w = (n, w1)" by (cases "target_volume b tgt w")
  show ?thesis using assms v
    by (cases tgt) (auto simp: recovery_resolve_target_def recovery_default_target_def Let_def dest!: get_mtd_nm get_mtd_Inl
        split: if_splits sum.splits prod.splits)
qed

context flash_server
begin

lemma flash_raw_ok:
  assumes w: "\<not> flash_request w" and drv: "\<forall>m\<in>set (brd_mtds b). driver_ok content m"
    and tgt: "current_target w \<noteq> TARGET_FIRMWARE" and idl: "inv (w\<lparr>post_ok := False\<rparr>)"
    and run: "flash_image b svc sync_part sync_all mem_ok w = (ret, w')"
  shows "idle w' \<and> stays w w' \<and> prog_phase w' = (if ret = 0 then 3 else -1) \<and>
    (content (dev w') = content (dev w) \<or>
     (\<exists>m. raw_device b (current_target w) m \<and> 0x200000 \<le> mtd_size m \<and>
        frame {int (mtd_offset m)..<int (mtd_offset m) + 0x200000} (content (dev w)) (content (dev w')))) \<and>
    (ret = 0 \<longrightarrow> (\<exists>m bs. raw_device b (current_target w) m \<and>
        subseq bs (block_addrs (mtd_erasesize m) 0x200000) \<and> stored content m (dev w') bs (upload_image w) \<and>
        length (upload_image w) = 0x200000 \<and>
        (current_target w = TARGET_UBOOT \<longrightarrow>
           view content (dev w') (int (mtd_offset m)) 0x200000 = upload_image w \<and> mtd0_image_ok (upload_image w)))) \<and>
    (current_target w = TARGET_UBOOT \<and> \<not> mtd0_image_ok (upload_image w) \<longrightarrow> ret \<noteq> 0 \<and> dev w' = dev w) \<and>
    (\<forall>m. current_target w = TARGET_UBOOT \<and> raw_device b TARGET_UBOOT m \<and>
       fst (recovery_mtd_require_good_blocks m 0 0x200000 (dev w)) \<noteq> 0 \<longrightarrow> ret \<noteq> 0 \<and> content (dev w') = content (dev w))"
proof -
  let ?w0 = "w\<lparr>post_ok := False\<rparr>"
  let ?img = "upload_image w" and ?n = "recv_off w" and ?tgt = "current_target w"
  have img0: "upload_image ?w0 = ?img" by (simp add: upload_image_def)
  have i0: "idle ?w0" using idl w by (simp add: idle_def)
  have ex: "recovery_target_exact_size ?tgt = 0x200000"
    using tgt by (cases ?tgt) (auto simp: recovery_target_exact_size_def RECOVERY_UBOOT_SIZE_def RECOVERY_RAW_PART_SIZE_def)
  define bad where "bad \<longleftrightarrow> ?n = 0 \<or> unat ?n \<noteq> 0x200000 \<or> (?tgt = TARGET_UBOOT \<and> \<not> mtd0_image_ok ?img)"
  have ln: "length ?img = unat ?n" by simp
  have val: "recovery_validate_mtd0_bootloader_image ?img (unat ?n) = Some (if mtd0_image_ok ?img then 0 else -EINVAL)"
    using validate_mtd0_eq [of ?img] unfolding ln .
  obtain r1 t w1 where rs: "recovery_resolve_target b ?tgt ?w0 = (r1, t, w1)" by (rule prod_cases3)
  note rt = resolve_target_tracks [OF rs]
  have p1: "plain w1 = plain ?w0" by (rule resolve_plain [OF rs])
  have i1: "idle w1" by (rule idle_plain [OF i0 p1])
  have s1: "stays w w1" by (rule stays_trans [OF phase_stays(3) plainD(1) [OF p1]])
  have ct1: "current_target w1 = ?tgt" using s1 by (simp add: stays_def)
  show ?thesis
  proof (cases "bad \<or> r1 \<noteq> 0")
    case True
    have "\<exists>v. ret \<noteq> 0 \<and> w' = v\<lparr>prog_phase := -1\<rparr> \<and> idle v \<and> stays w v \<and> (bad \<longrightarrow> v = ?w0) \<and> (\<not> bad \<longrightarrow> v = w1)"
    proof (cases bad)
      case True
      then have "ret = -EINVAL \<and> w' = ?w0\<lparr>prog_phase := -1\<rparr>"
        using run ex val unfolding flash_image_def Let_def img0 bad_def by (auto split: if_splits)
      then show ?thesis using True i0 by (intro exI [of _ ?w0]) simp
    next
      case False
      then have "ret = r1 \<and> w' = w1\<lparr>prog_phase := -1\<rparr>"
        using run ex val rs \<open>bad \<or> r1 \<noteq> 0\<close> unfolding flash_image_def Let_def img0 bad_def by (auto split: if_splits)
      then show ?thesis using False True i1 s1 by (intro exI [of _ w1]) simp
    qed
    then obtain v where v: "ret \<noteq> 0" "w' = v\<lparr>prog_phase := -1\<rparr>" "idle v" "stays w v" "bad \<longrightarrow> v = ?w0" "\<not> bad \<longrightarrow> v = w1" by blast
    have "dev w' = dev w" using v(2,5,6) resolve_raw_dev [OF rs tgt] by (cases bad) simp_all
    then show ?thesis using v(1,2) idle_phase [OF v(3)] stays_trans [OF v(4) phase_stays(1)] by simp
  next
    case False
    then have nb: "\<not> bad" and r1: "r1 = 0" by simp_all
    obtain m where m: "m \<in> set (brd_mtds b)" "mtd_device_matches_name (brd_of_dev b) m (recovery_default_target ?tgt)"
      "tgt_mtd t = Some m" "backend t = RECOVERY_BACKEND_MTD" "tgt_ofs t = 0" "dev w1 = dev w"
      "?tgt \<noteq> TARGET_UBOOT \<longrightarrow> tgt_limit t = 0x200000 \<and> mtd_size m = 0x200000"
    proof (cases "?tgt = TARGET_UBOOT")
      case True
      then show ?thesis using rt r1 that by (auto simp: recovery_default_target_def)
    next
      case False
      then have "?tgt = TARGET_UENV \<or> ?tgt = TARGET_DSD" using tgt by (cases ?tgt) auto
      then show ?thesis using rt r1 that by (auto simp: RECOVERY_RAW_PART_SIZE_def)
    qed
    have rd: "raw_device b ?tgt m" by (rule resolve_raw_device [OF rs [unfolded r1] tgt m(3)])
    have dm: "driver_ok content m" using drv m(1) by blast
    have n: "unat ?n = 0x200000" "?n \<noteq> 0" "?tgt = TARGET_UBOOT \<longrightarrow> mtd0_image_ok ?img" using nb by (auto simp: bad_def)
    have un: "(ucast ?n :: u64) = 0x200000" using n(1) by (simp add: ucast_u32_nat)
    have dv: "dev w1 = dev w" using m(6) by simp
    have ct0: "current_target ?w0 = ?tgt" "recv_off ?w0 = ?n" by simp_all
    have v0: "(if ?tgt = TARGET_UBOOT then recovery_validate_mtd0_bootloader_image ?img (unat ?n) else Some 0) = Some 0"
      using n(3) val by simp
    define refuse where "refuse \<longleftrightarrow> ?tgt = TARGET_UBOOT \<and> (tgt_limit t \<noteq> 0x200000 \<or> unat (tgt_limit t) > mtd_size m)"
    have eq: "(ret, w') = (if refuse then flash_fail (-EINVAL) t w1
        else if (ucast ?n :: u64) > tgt_limit t then flash_fail (-EFBIG) t w1
        else flash_mtd svc sync_all mem_ok ?img ?n t w1)"
      unfolding run [symmetric] flash_image_def Let_def img0 ct0 v0 rs prod.case ct1 ex
      using n(1,2) r1 tgt m(3-5) by (auto simp: refuse_def RECOVERY_UBOOT_SIZE_def)
    show ?thesis
    proof (cases refuse)
      case True
      then have "flash_fail (-EINVAL) t w1 = (ret, w')" using eq by simp
      from fail_same [OF this] fail_idle [OF i1 this] stays_trans [OF s1] dv n(3) show ?thesis by simp
    next
      case False
      then have l: "tgt_limit t = 0x200000" "0x200000 \<le> mtd_size m"
        using m(7) by (auto simp: refuse_def not_less)
      have fm: "flash_mtd svc sync_all mem_ok ?img ?n t w1 = (ret, w')" using eq False un l by simp
      have tg1: "current_target w1 \<noteq> TARGET_FIRMWARE" using tgt ct1 by simp
      note fo = flash_mtd_ok [OF i1 m(3) dm tg1 fm]
      have rg: "target_range m t = {int (mtd_offset m)..<int (mtd_offset m) + 0x200000}"
        by (simp add: target_range_def m(5) l)
      have ml: "map (\<lambda>a. tgt_ofs t + a) (block_addrs (mtd_erasesize m) (unat (tgt_limit t))) = block_addrs (mtd_erasesize m) 0x200000"
        using m(5) l by simp
      have len: "length ?img = 0x200000" "unat (tgt_limit t) = 0x200000" using n(1) l by simp_all
      have f: "idle w'" "stays w w'" "frame {int (mtd_offset m)..<int (mtd_offset m) + 0x200000} (content (dev w)) (content (dev w'))"
        "prog_phase w' = (if ret = 0 then 3 else -1)"
        using fo stays_trans [OF s1] dv unfolding rg by auto
      have st: "\<exists>bs. subseq bs (block_addrs (mtd_erasesize m) 0x200000) \<and> stored content m (dev w') bs ?img" if "ret = 0"
        using fo that unfolding ml by blast
      have vw: "view content (dev w') (int (mtd_offset m)) 0x200000 = ?img" if "ret = 0" "?tgt = TARGET_UBOOT"
        using fo that ct1 unfolding len m(5) by simp
      have bb: "ret \<noteq> 0 \<and> content (dev w') = content (dev w)"
        if x: "?tgt = TARGET_UBOOT" "raw_device b TARGET_UBOOT m'" "fst (recovery_mtd_require_good_blocks m' 0 0x200000 (dev w)) \<noteq> 0" for m'
      proof -
        have "m' = m" using rd x(1,2) by simp
        then show ?thesis using fo x ct1 dv unfolding len m(5) by simp
      qed
      show ?thesis using f st vw bb rd l(2) len(1) n(3) by blast
    qed
  qed
qed

end

section \<open>Flashing firmware\<close>

text \<open>The devices a target may refer to are devices of the board.\<close>

definition mtd_from :: "'d board \<Rightarrow> 'd recovery_target \<Rightarrow> bool" where
  "mtd_from b t \<longleftrightarrow> (\<forall>m. tgt_mtd t = Some m \<longrightarrow> m \<in> set (brd_mtds b))"

lemma get_mtd_mem: "get_mtd b n w = (Inr m, w') \<Longrightarrow> m \<in> set (brd_mtds b)"
  by (auto elim: get_mtd_cases)

lemma try_ubi_from:
  assumes "recovery_try_ubi_target b tgt t w = (r, t', w')" "mtd_from b t"
  shows "mtd_from b t'"
proof -
  obtain p w1 where p: "recovery_ubi_part b tgt w = (p, w1)" by (cases "recovery_ubi_part b tgt w")
  obtain v w2 where v: "target_volume b tgt w1 = (v, w2)" by (cases "target_volume b tgt w1")
  show ?thesis
  proof (cases p)
    case None
    then show ?thesis using assms p by (simp add: recovery_try_ubi_target_def)
  next
    case (Some part)
    obtain s w3 where s: "recovery_select_ubi b part w2 = (s, w3)" by (cases "recovery_select_ubi b part w2")
    show ?thesis
    proof (cases "s = 0")
      case False
      then show ?thesis using assms p v s Some unfolding recovery_try_ubi_target_def Let_def
        by (auto simp: mtd_from_def split: if_splits sum.splits prod.splits dest!: get_mtd_mem)
    next
      case True
      then show ?thesis using assms p v s Some unfolding recovery_try_ubi_target_def Let_def
        by (auto simp: mtd_from_def split: if_splits sum.splits prod.splits option.splits)
    qed
  qed
qed

lemma zero_from [simp]: "mtd_from b zero_target"
  by (simp add: mtd_from_def zero_target_def)

lemma resolve_raw_from: "resolve_raw b tgt raw t w = (r, t', w') \<Longrightarrow> mtd_from b t \<Longrightarrow> mtd_from b t'"
  by (auto simp: resolve_raw_def Let_def mtd_from_def split: option.splits sum.splits prod.splits dest!: get_mtd_mem)

lemma resolve_from:
  assumes "recovery_resolve_target b tgt w = (r, t, w')"
  shows "mtd_from b t"
proof (cases "tgt = TARGET_FIRMWARE")
  case False
  obtain n w1 where v: "target_volume b tgt w = (n, w1)" by (cases "target_volume b tgt w")
  show ?thesis using assms v False
    by (cases tgt) (auto simp: recovery_resolve_target_def Let_def mtd_from_def zero_target_def dest!: get_mtd_mem
        split: if_splits sum.splits prod.splits)
next
  case True
  obtain n w1 where v: "target_volume b tgt w = (n, w1)" by (cases "target_volume b tgt w")
  have e: "resolve_firmware b tgt n zero_target w1 = (r, t, w')" using assms v True by (simp add: recovery_resolve_target_def)
  define raw where "raw = (case env w1 (recovery_raw_env tgt) of
                  Some r \<Rightarrow> if r = [] then recovery_default_raw tgt else Some r
                | None \<Rightarrow> recovery_default_raw tgt)"
  obtain a w2 where a: "(if tgt = TARGET_FIRMWARE then recovery_board_active b w1 else (False, w1)) = (a, w2)"
    by (cases "if tgt = TARGET_FIRMWARE then recovery_board_active b w1 else (False, w1)")
  let ?G = "if \<not> a \<and> raw \<noteq> None \<and> raw \<noteq> Some [] then get_mtd b (case raw of Some r \<Rightarrow> r | None \<Rightarrow> []) w2 else (Inl 0, w2)"
  obtain g w3 where g: "?G = (g, w3)" by (cases ?G)
  let ?K = "if \<not> a then get_mtd b n w3 else (Inl 0, w3)"
  obtain k w4 where k: "?K = (k, w4)" by (cases ?K)
  obtain y t5 w5 where y: "recovery_try_ubi_target b tgt zero_target w4 = (y, t5, w5)" by (rule prod_cases3)
  have t5: "mtd_from b t5" by (rule try_ubi_from [OF y]) simp
  have gm: "m \<in> set (brd_mtds b)" if "g = Inr m" for m using g that by (auto split: if_splits dest: get_mtd_mem)
  have km: "m \<in> set (brd_mtds b)" if "k = Inr m" for m using k that by (auto split: if_splits dest: get_mtd_mem)
  have eq: "(r, t, w') = (case g of
       Inr m \<Rightarrow> (0, raw_target tgt (case raw of Some r \<Rightarrow> r | None \<Rightarrow> []) m (env w3) zero_target, w3)
     | Inl _ \<Rightarrow>
         (case k of
            Inr m \<Rightarrow> (0, zero_target\<lparr>backend := RECOVERY_BACKEND_MTD, tgt_name := Some n, tgt_mtd := Some m,
                    tgt_limit := of_nat (mtd_size m), cur_size := of_nat (mtd_size m)\<rparr>, w4)
          | Inl _ \<Rightarrow> if y = 0 then (0, t5, w5) else if a then (-ENODEV, t5, w5) else resolve_raw b tgt raw t5 w5))"
    unfolding e [symmetric] resolve_firmware_def Let_def raw_def [symmetric] a prod.case g
    by (cases g) (simp_all add: k y split: sum.splits)
  show ?thesis
  proof (cases g)
    case (Inr m)
    then show ?thesis using eq gm by (simp add: mtd_from_def)
  next
    case (Inl e1)
    show ?thesis
    proof (cases k)
      case (Inr m)
      then show ?thesis using eq Inl km by (simp add: mtd_from_def)
    next
      case k2: (Inl e2)
      have "(r, t, w') = (if y = 0 then (0, t5, w5) else if a then (-ENODEV, t5, w5) else resolve_raw b tgt raw t5 w5)"
        using eq Inl k2 by simp
      then show ?thesis using t5 resolve_raw_from [of b tgt raw t5 w5 r t w'] by (auto split: if_splits)
    qed
  qed
qed

lemma force_rebuild_from:
  assumes "recovery_force_ubi_rebuild b t w = (r, t', w')" "mtd_from b t"
  shows "mtd_from b t' \<and> backend t' = backend t \<and> tgt_ubi_part t' = tgt_ubi_part t \<and> tgt_name t' = tgt_name t \<and>
    (r = 0 \<longrightarrow> ubi_needs_format t' \<and> cur_size t' = 0)"
  using assms by (auto simp: recovery_force_ubi_rebuild_def Let_def mtd_from_def split: if_splits option.splits sum.splits prod.splits
      dest!: get_mtd_mem get_mtd_Inl)

lemma create_target_from: "recovery_create_ubi_target b t n w = (r, t', w') \<Longrightarrow> mtd_from b t \<Longrightarrow> mtd_from b t'"
  by (auto simp: recovery_create_ubi_target_def Let_def split: if_splits option.splits prod.splits dest: try_ubi_from)

context flash_server
begin

lemma flash_mtd_idle:
  assumes w: "idle w" and m: "\<And>m. tgt_mtd t = Some m \<Longrightarrow> driver_ok content m"
    and sync: "\<And>w. beyond_env (snd (sync_all w)) = beyond_env w"
    and run: "flash_mtd svc sync_all mem_ok img n t w = (ret, w')"
  shows "idle w'"
proof (cases "tgt_mtd t")
  case None
  then show ?thesis using run fail_idle [OF w] by (auto simp: flash_mtd_def)
next
  case (Some m)
  note dm = assms(2) [OF Some]
  let ?ofs = "tgt_ofs t" and ?len = "unat (tgt_limit t)"
  define strict where "strict = (current_target w = TARGET_UBOOT)"
  define verify where "verify = (current_target w = TARGET_UBOOT \<or> current_target w = TARGET_UENV \<or> current_target w = TARGET_DSD)"
  obtain r1 d1 where g: "(if strict then recovery_mtd_require_good_blocks m ?ofs ?len (dev w) else (0, dev w)) = (r1, d1)"
    by (cases "if strict then recovery_mtd_require_good_blocks m ?ofs ?len (dev w) else (0, dev w)")
  let ?w1 = "w\<lparr>dev := d1\<rparr>"
  have i1: "idle ?w1" by (rule idle_plain [OF w]) simp
  define w2 where "w2 = start_progress (ucast (tgt_limit t)) n ?w1"
  have k2: "run_ok w2" unfolding w2_def by (rule start_progress_run [OF i1])
  obtain r3 w3 where e: "recovery_erase_mtd_region svc (Some m) ?ofs ?len w2 = (r3, w3)"
    by (cases "recovery_erase_mtd_region svc (Some m) ?ofs ?len w2")
  have k3: "run_ok w3" using erase_region_ok [OF dm k2 e] by simp
  have k4: "run_ok (w3\<lparr>prog_phase := 2\<rparr>)" by (rule idle_run [OF run_idle [OF k3]]) simp
  obtain r5 w5 where wr: "recovery_write_mtd_region svc mem_ok m ?ofs ?len img verify strict (w3\<lparr>prog_phase := 2\<rparr>) = (r5, w5)"
    by (cases "recovery_write_mtd_region svc mem_ok m ?ofs ?len img verify strict (w3\<lparr>prog_phase := 2\<rparr>)")
  have k5: "run_ok w5" using write_region_ok [OF dm k4 wr] by simp
  let ?w6 = "(snd (recovery_release_target t w5))\<lparr>prog_phase := 3\<rparr>"
  have i6: "idle ?w6" by (rule idle_phase [OF idle_plain [OF run_idle [OF k5] release_plain]])
  let ?w7 = "if current_target ?w6 = TARGET_FIRMWARE then snd (sync_all ?w6) else ?w6"
  have i7: "idle ?w7" using i6 idle_beyond [OF i6 sync] by simp
  have eq: "(ret, w') = (if r1 \<noteq> 0 then flash_fail r1 t ?w1 else if r3 \<noteq> 0 then flash_fail r3 t w3
      else if r5 \<noteq> 0 then flash_fail r5 t w5 else (0, ?w7))"
    unfolding run [symmetric] flash_mtd_def Some option.case Let_def verify_def [symmetric]
    unfolding strict_def [symmetric] g prod.case w2_def [symmetric] e wr by (simp add: case_prod_beta)
  show ?thesis
    using eq i7 fail_idle [OF i1, of r1 t ret w'] fail_idle [OF run_idle [OF k3], of r3 t ret w'] fail_idle [OF run_idle [OF k5], of r5 t ret w']
    by (cases "r1 = 0"; cases "r3 = 0"; cases "r5 = 0") auto
qed

end

text \<open>A scan of the partition yields a well-formed device.\<close>

definition attach_ok :: "'d ubi_low \<Rightarrow> bool" where
  "attach_ok low \<longleftrightarrow> (\<forall>n d u d'. low_attach low n d = (Inr u, d') \<longrightarrow> ubi_wf u \<and> 0 < leb_size u) \<and>
     (\<forall>n d e d'. low_attach low n d = (Inl e, d') \<longrightarrow> e \<noteq> 0)"

text \<open>Attaching a device where none is attached.\<close>

lemma select_fresh:
  assumes "recovery_select_ubi b part w = (0, w')" "ubi w = None" "recovery_ubi_attach_error w = 0" "attach_ok (brd_low b)"
  shows "\<exists>m u d. get_mtd_device_nm (brd_of_dev b) (brd_mtds b) part = Inr m \<and>
    low_attach (brd_low b) (mtd_name m) (dev w) = (Inr u, d) \<and> ubi w' = Some (u\<lparr>ubi_mtd_name := mtd_name m\<rparr>) \<and> dev w' = d"
proof -
  obtain r w1 where p: "ubi_part b part w = (r, w1)" by (cases "ubi_part b part w")
  obtain a w2 where a: "recovery_board_active b w1 = (a, w2)" by (cases "recovery_board_active b w1")
  have r: "r = 0" "w' = w2" using assms p a by (auto simp: recovery_select_ubi_def Let_def split: if_splits option.splits)
  have w2: "ubi w2 = ubi w1" "dev w2 = dev w1" using board_active_keeps [OF a] by auto
  have dt: "ubi_detach w = w" using assms(2) by (simp add: ubi_detach_def)
  obtain g w3 where g: "get_mtd b part w = (g, w3)" by (cases "get_mtd b part w")
  show ?thesis
  proof (cases g)
    case (Inl e)
    then show ?thesis using p r assms(2) dt g by (simp add: ubi_part_def)
  next
    case (Inr m)
    have nm: "get_mtd_device_nm (brd_of_dev b) (brd_mtds b) part = Inr m" using get_mtd_nm g Inr by blast
    have d3: "put_mtd_device m w3 = w" using put_after_get g Inr by blast
    have ne: "low_attach (brd_low b) k d \<noteq> (Inl 0, d')" for k d d' using assms(4) unfolding attach_ok_def by blast
    show ?thesis
      using p r(1) assms(2) dt g Inr nm d3 w2 r(2) ne unfolding ubi_part_def Let_def
      by (auto split: prod.splits sum.splits)
  qed
qed

context flash_server
begin

lemma prepare_ok:
  assumes w: "idle w" and m: "\<And>m. tgt_mtd t = Some m \<Longrightarrow> driver_ok content m"
    and run: "recovery_prepare_ubi_target b svc t n w = (ret, ref, t', w')"
  shows "idle w' \<and> tgt_mtd t' = tgt_mtd t \<and> backend t' = backend t \<and> tgt_ubi_part t' = tgt_ubi_part t \<and> tgt_name t' = tgt_name t \<and>
    (ret = 0 \<and> ubi_needs_format t \<and> ubi w = None \<and> attach_ok (brd_low b) \<longrightarrow>
       ref \<and> cur_size t' = 0 \<and> stays w w' \<and>
       (\<exists>p m u. tgt_ubi_part t = Some p \<and> get_mtd_device_nm (brd_of_dev b) (brd_mtds b) p = Inr m \<and> ubi w' = Some u \<and>
          ubi_mtd_name u = mtd_name m \<and> ubi_wf u \<and> 0 < leb_size u))"
proof (cases "backend t = RECOVERY_BACKEND_UBI \<and> ubi_needs_format t \<and> tgt_mtd t \<noteq> None")
  case False
  obtain r w1 where s: "select_target_ubi b t w = (r, w1)" by (cases "select_target_ubi b t w")
  show ?thesis
    using run False w idle_plain [OF w select_target_plain [OF s]] s
    by (auto simp: recovery_prepare_ubi_target_def split: if_splits option.splits)
next
  case True
  then obtain m where mt: "tgt_mtd t = Some m" by auto
  define w1 where "w1 = start_progress (of_nat (align_up (mtd_size m) (mtd_erasesize m))) n w"
  have k1: "run_ok w1" unfolding w1_def by (rule start_progress_run [OF w])
  obtain r2 w2 where e: "recovery_erase_mtd_region svc (Some m) 0 (mtd_size m) w1 = (r2, w2)"
    by (cases "recovery_erase_mtd_region svc (Some m) 0 (mtd_size m) w1")
  have k2: "run_ok w2" "loop_rel w1 w2" using erase_region_ok [OF assms(2) [OF mt] k1 e] by auto
  let ?w3 = "w2\<lparr>recovery_ubi_attach_error := 0\<rparr>"
  have i3: "idle ?w3" by (rule idle_plain [OF run_idle [OF k2(1)]]) simp
  obtain r4 w4 where s: "select_target_ubi b t ?w3 = (r4, w4)" by (cases "select_target_ubi b t ?w3")
  have i4: "idle w4" by (rule idle_plain [OF i3 select_target_plain [OF s]])
  define t4 where "t4 = (case ubi w4 of Some u \<Rightarrow> t\<lparr>tgt_limit := of_int (avail_pebs u) * of_nat (leb_size u)\<rparr> | None \<Rightarrow> t)
      \<lparr>cur_size := 0, ubi_needs_format := False\<rparr>"
  have eq: "(ret, ref, t', w') = (if r2 \<noteq> 0 then (r2, False, t, w2) else if r4 \<noteq> 0 then (r4, False, t, w4) else (0, True, t4, w4))"
    unfolding run [symmetric] recovery_prepare_ubi_target_def mt option.case Let_def w1_def [symmetric] e prod.case s t4_def
    using True by simp
  have t4: "tgt_mtd t4 = tgt_mtd t" "backend t4 = backend t" "tgt_ubi_part t4 = tgt_ubi_part t" "tgt_name t4 = tgt_name t" "cur_size t4 = 0"
    by (simp_all add: t4_def split: option.split)
  show ?thesis
  proof (cases "r2 = 0 \<and> r4 = 0")
    case False
    then show ?thesis using eq run_idle [OF k2(1)] i4 by (auto split: if_splits)
  next
    case ok: True
    have x: "ref" "t' = t4" "w' = w4" using eq ok by auto
    have "stays w2 ?w3" by (rule plainD(1)) simp
    then have "stays w1 ?w3" by (rule stays_trans [OF loop_rel_stays [OF k2(2)]])
    then have st: "stays w w4"
      using plainD(1) [OF select_target_plain [OF s]] stays_trans start_progress_same(1) w1_def by metis
    have "\<exists>p m u. tgt_ubi_part t = Some p \<and> get_mtd_device_nm (brd_of_dev b) (brd_mtds b) p = Inr m \<and> ubi w4 = Some u \<and>
          ubi_mtd_name u = mtd_name m \<and> ubi_wf u \<and> 0 < leb_size u" if none: "ubi w = None" and at: "attach_ok (brd_low b)"
    proof -
      obtain p where p: "tgt_ubi_part t = Some p" "recovery_select_ubi b p ?w3 = (0, w4)"
        using s ok by (auto simp: select_target_ubi_def split: option.splits)
      have "ubi ?w3 = None" using k2(2) none by (simp add: loop_rel_def w1_def)
      then obtain m u d where a: "get_mtd_device_nm (brd_of_dev b) (brd_mtds b) p = Inr m"
        "low_attach (brd_low b) (mtd_name m) (dev ?w3) = (Inr u, d)" "ubi w4 = Some (u\<lparr>ubi_mtd_name := mtd_name m\<rparr>)"
        using select_fresh [OF p(2) _ _ at] by auto
      have "ubi_wf u" "0 < leb_size u" using at a(2) by (auto simp: attach_ok_def)
      then have "ubi_wf (u\<lparr>ubi_mtd_name := mtd_name m\<rparr>)" "0 < leb_size (u\<lparr>ubi_mtd_name := mtd_name m\<rparr>)" by (simp_all add: ubi_wf_def)
      then show ?thesis using p(1) a(1,3) by auto
    qed
    then show ?thesis using x t4 i4 st by auto
  qed
qed

end

lemma upd_progress_stays [simp]: "stays w (w\<lparr>prog_phase := p, prog_done := a, prog_write_done := c\<rparr>)"
  "stays w (w\<lparr>prog_write_done := a, prog_done := c\<rparr>)"
  by (simp_all add: stays_def upload_image_def)

lemma cleanup_from: "recovery_cleanup_ubi_firmware b svc t n w = (r, t', w') \<Longrightarrow> mtd_from b t \<Longrightarrow> mtd_from b t'"
  by (auto simp: recovery_cleanup_ubi_firmware_def Let_def split: if_splits option.splits prod.splits dest: try_ubi_from)

context flash_server
begin

lemma flash_ubi_idle:
  assumes w: "idle w" and m: "\<And>m. tgt_mtd t = Some m \<Longrightarrow> driver_ok content m"
    and sync: "\<And>p w. beyond_env (snd (sync_part p w)) = beyond_env w"
    and run: "flash_ubi b svc sync_part img n t w = (ret, w')"
  shows "idle w'"
proof -
  obtain r1 ref t1 w1 where p: "recovery_prepare_ubi_target b svc t n w = (r1, ref, t1, w1)" by (rule prod_cases4)
  have i1: "idle w1" using prepare_ok [OF w m p] by simp
  obtain r2 t2 w2 where c: "(if \<not> ref then recovery_cleanup_ubi_firmware b svc t1 n w1 else (0, t1, w1)) = (r2, t2, w2)" by (rule prod_cases3)
  have i2: "idle w2" using c cleanup_idle [OF i1] i1 by (auto split: if_splits)
  let ?C = "if cur_size t2 = 0 then recovery_create_ubi_target b t2 (unat n) w2
            else if (ucast n :: u64) > cur_size t2 then recovery_resize_ubi_target b t2 (unat n) w2 else (0, t2, w2)"
  obtain r3 t3 w3 where z: "?C = (r3, t3, w3)" by (rule prod_cases3)
  have i3: "idle w3" by (rule idle_plain [OF i2]) (use z create_target_plain resize_target_plain in \<open>auto split: if_splits\<close>)
  obtain r4 w4 where e4: "recovery_ensure_preserved_ubi_volumes b t3 w3 = (r4, w4)" by (cases "recovery_ensure_preserved_ubi_volumes b t3 w3")
  have i4: "idle w4" by (rule idle_plain [OF i3 ensure_preserved_plain [OF e4]])
  obtain r5 w5 where e5: "recovery_ensure_rootfs_data b t3 w4 = (r5, w5)" by (cases "recovery_ensure_rootfs_data b t3 w4")
  have i5: "idle w5" by (rule idle_plain [OF i4 ensure_rootfs_plain [OF e5]])
  define w6 where "w6 = w5\<lparr>prog_phase := 2, prog_done := prog_erase_total w5, prog_write_done := 0\<rparr>"
  have k6: "run_ok w6" unfolding w6_def by (rule run_ok_plain [OF idle_run [OF i5, of 2]]) simp_all
  obtain r7 w7 where wr: "recovery_write_ubi_target b svc t3 img (svc w6) = (r7, w7)" by (cases "recovery_write_ubi_target b svc t3 img (svc w6)")
  have k7: "run_ok w7" by (rule write_target_run [OF svc_run_ok [OF k6] wr])
  define w8 where "w8 = (snd (recovery_release_target t3 (w7\<lparr>prog_write_done := n, prog_done := prog_erase_total w7 + n\<rparr>)))\<lparr>prog_phase := 3\<rparr>"
  have i8: "idle w8" unfolding w8_def
    by (rule idle_phase [OF idle_plain [OF run_idle [OF k7]]]) simp
  define w9 where "w9 = (if current_target w8 = TARGET_FIRMWARE then snd (sync_part (tgt_ubi_part t3) w8) else w8)"
  have i9: "idle w9" unfolding w9_def using i8 idle_beyond [OF i8 sync] by simp
  have tp: "tgt_ubi_part (fst (recovery_release_target t3 v)) = tgt_ubi_part t3" for v by (simp add: recovery_release_target_def)
  have eq: "(ret, w') = (if r1 \<noteq> 0 then flash_fail r1 t1 w1 else if r2 \<noteq> 0 then flash_fail r2 t2 w2
      else if r3 \<noteq> 0 then flash_fail r3 t3 w3 else if r4 \<noteq> 0 then flash_fail r4 t3 w4 else if r5 \<noteq> 0 then flash_fail r5 t3 w5
      else if r7 \<noteq> 0 then flash_fail r7 t3 w7 else (0, w9))"
    unfolding run [symmetric] flash_ubi_def p prod.case Let_def c z e4 e5 w6_def [symmetric] wr w9_def w8_def
    by (simp add: case_prod_beta tp)
  have f: "idle v \<Longrightarrow> (ret, w') = flash_fail e tt v \<Longrightarrow> idle w'" for v e tt using fail_idle [of v e tt ret w'] by simp
  show ?thesis using eq f i1 i2 i3 i4 i5 run_idle [OF k7] i9
    by (cases "r1 = 0"; cases "r2 = 0"; cases "r3 = 0"; cases "r4 = 0"; cases "r5 = 0"; cases "r7 = 0") auto
qed

end

context flash_server
begin

lemma flash_image_idle:
  assumes idl: "inv (w\<lparr>post_ok := False\<rparr>)" "\<not> flash_request w" and drv: "\<forall>m\<in>set (brd_mtds b). driver_ok content m"
    and sync: "\<And>p w. beyond_env (snd (sync_part p w)) = beyond_env w" "\<And>w. beyond_env (snd (sync_all w)) = beyond_env w"
    and run: "flash_image b svc sync_part sync_all mem_ok w = (ret, w')"
  shows "idle w'"
proof -
  define w0 where "w0 = w\<lparr>post_ok := False\<rparr>"
  have i0: "idle w0" using idl by (simp add: idle_def w0_def)
  define V where "V = (if current_target w0 = TARGET_UBOOT then recovery_validate_mtd0_bootloader_image (upload_image w0) (unat (recv_off w0)) else Some 0)"
  obtain r1 t w1 where rs: "recovery_resolve_target b (current_target w0) w0 = (r1, t, w1)" by (rule prod_cases3)
  have i1: "idle w1" by (rule idle_plain [OF i0 resolve_plain [OF rs]])
  have f1: "mtd_from b t" by (rule resolve_from [OF rs])
  define rb where "rb = (current_target w1 = TARGET_FIRMWARE \<and> backend t = RECOVERY_BACKEND_UBI)"
  obtain r2 t2 w2 where fr: "(if rb then recovery_force_ubi_rebuild b t w1 else (0, t, w1)) = (r2, t2, w2)" by (rule prod_cases3)
  have i2: "idle w2" using fr idle_plain [OF i1 force_rebuild_plain] i1 by (auto split: if_splits)
  have f2: "mtd_from b t2" using fr force_rebuild_from [OF _ f1] f1 by (auto split: if_splits)
  obtain lm w3 where lm: "(if rb then recovery_calc_rebuild_ubi_limit b t2 w2 else (tgt_limit t2, w2)) = (lm, w3)"
    by (cases "if rb then recovery_calc_rebuild_ubi_limit b t2 w2 else (tgt_limit t2, w2)")
  have i3: "idle w3" using lm idle_plain [OF i2 rebuild_limit_plain] i2 by (auto split: if_splits)
  let ?t = "t2\<lparr>tgt_limit := lm\<rparr>"
  have dm: "driver_ok content m" if "tgt_mtd ?t = Some m" for m using that f2 drv by (auto simp: mtd_from_def)
  have fl: "flash_fail e tt v = (ret, w') \<Longrightarrow> idle v \<Longrightarrow> idle w'" for e tt v using fail_idle by blast
  have ub: "flash_ubi b svc sync_part (upload_image w0) (recv_off w0) ?t w3 = (ret, w') \<Longrightarrow> idle w'"
    by (rule flash_ubi_idle [OF i3 dm sync(1)])
  have mt: "flash_mtd svc sync_all mem_ok (upload_image w0) (recv_off w0) ?t w3 = (ret, w') \<Longrightarrow> idle w'"
    by (rule flash_mtd_idle [OF i3 dm sync(2)])
  show ?thesis
    using run idle_phase [OF i0] idle_phase [OF i1] fl [OF _ i1] fl [OF _ i2] fl [OF _ i3] ub mt
    unfolding flash_image_def Let_def w0_def [symmetric] V_def [symmetric] rs prod.case rb_def [symmetric] fr lm
    by (auto split: if_splits)
qed

lemma flash_firmware_ok:
  assumes low: "low_ok leb (brd_low b)" "low_reads_ok leb (brd_low b)" "low_codes_ok (brd_low b)" "attach_ok (brd_low b)"
    and lc: "\<And>d d'. content d' = content d \<Longrightarrow> leb d' = leb d"
    and brd: "brd_ops b" "brd_match b" "\<And>m. get_mtd_device_nm (brd_of_dev b) (brd_mtds b) ''ubi'' = Inr m \<Longrightarrow> mtd_name m = ''ubi''"
    and w: "idle w" "ubi w = None" "current_target w = TARGET_FIRMWARE"
    and t: "backend t = RECOVERY_BACKEND_UBI" "tgt_ubi_part t = Some ''ubi''" "tgt_name t = Some ''fit''" "ubi_needs_format t"
    and m: "\<And>m. tgt_mtd t = Some m \<Longrightarrow> driver_ok content m" and img: "img \<noteq> []"
    and run: "flash_ubi b svc sync_part img n t w = (0, w')"
  shows "\<exists>w1 u i vol. w' = snd (sync_part (Some ''ubi'') w1) \<and> idle w1 \<and> stays w w1 \<and> prog_phase w1 = 3 \<and>
    ubi w1 = Some u \<and> ubi_wf u \<and> ubi_mtd_name u = ''ubi'' \<and> find_volume ''fit'' (volumes u) 0 = Some i \<and> volumes u ! i = Some vol \<and>
    vol_type vol = UBI_STATIC_VOLUME \<and> used_bytes vol = length img \<and> \<not> updating vol \<and> \<not> upd_marker vol \<and>
    (\<forall>l. l * usable_leb_size vol < length img \<longrightarrow>
       leb (dev w1) (vol_id vol, l) = Some (take (usable_leb_size vol) (drop (l * usable_leb_size vol) img))) \<and>
    ''rootfs_data'' \<in> set (vol_names (volumes u)) \<and> (factory_board b \<longrightarrow> ''factory'' \<in> set (vol_names (volumes u)))"
proof -
  obtain r1 ref t1 w1 where p: "recovery_prepare_ubi_target b svc t n w = (r1, ref, t1, w1)" by (rule prod_cases4)
  obtain r3 t3 w3 where z: "recovery_create_ubi_target b t1 (unat n) w1 = (r3, t3, w3)" by (rule prod_cases3)
  obtain r4 w4 where e4: "recovery_ensure_preserved_ubi_volumes b t3 w3 = (r4, w4)" by (cases "recovery_ensure_preserved_ubi_volumes b t3 w3")
  obtain r5 w5 where e5: "recovery_ensure_rootfs_data b t3 w4 = (r5, w5)" by (cases "recovery_ensure_rootfs_data b t3 w4")
  define w6 where "w6 = w5\<lparr>prog_phase := 2, prog_done := prog_erase_total w5, prog_write_done := 0\<rparr>"
  obtain r7 w7 where wr: "recovery_write_ubi_target b svc t3 img (svc w6) = (r7, w7)" by (cases "recovery_write_ubi_target b svc t3 img (svc w6)")
  define w8 where "w8 = (snd (recovery_release_target t3 (w7\<lparr>prog_write_done := n, prog_done := prog_erase_total w7 + n\<rparr>)))\<lparr>prog_phase := 3\<rparr>"
  note po = prepare_ok [OF w(1) m p]
  have nf: "fst (flash_fail e tt v) = e" for e tt v by (simp add: flash_fail_def)
  have tp: "tgt_ubi_part (fst (recovery_release_target t3 v)) = tgt_ubi_part t3" for v by (simp add: recovery_release_target_def)
  have r1: "r1 = 0"
  proof (rule ccontr)
    assume "r1 \<noteq> 0"
    then have "flash_ubi b svc sync_part img n t w = flash_fail r1 t1 w1" unfolding flash_ubi_def p prod.case Let_def by simp
    then have "fst (0 :: int, w') = r1" using run nf [of r1 t1 w1] by metis
    then show False using \<open>r1 \<noteq> 0\<close> by simp
  qed
  obtain mm u1 where q: "ref" "cur_size t1 = 0" "stays w w1" "get_mtd_device_nm (brd_of_dev b) (brd_mtds b) ''ubi'' = Inr mm"
    "ubi w1 = Some u1" "ubi_mtd_name u1 = mtd_name mm" "ubi_wf u1" "0 < leb_size u1" "idle w1"
    "backend t1 = RECOVERY_BACKEND_UBI" "tgt_ubi_part t1 = Some ''ubi''" "tgt_name t1 = Some ''fit''"
    using po r1 t w(2) low(4) by auto
  have nm: "ubi_mtd_name u1 = ''ubi''" using q(4,6) brd(3) by simp
  have eq: "(0, w') = (if r3 \<noteq> 0 then flash_fail r3 t3 w3 else if r4 \<noteq> 0 then flash_fail r4 t3 w4 else if r5 \<noteq> 0 then flash_fail r5 t3 w5
      else if r7 \<noteq> 0 then flash_fail r7 t3 w7
      else (0, if current_target w8 = TARGET_FIRMWARE then snd (sync_part (tgt_ubi_part t3) w8) else w8))"
    using q(1,2) r1 unfolding run [symmetric] flash_ubi_def p prod.case Let_def
    by (simp add: z e4 e5 w6_def [symmetric] wr w8_def case_prod_beta tp)
  have r: "r3 = 0" "r4 = 0" "r5 = 0" "r7 = 0"
    using eq nf by (metis fst_conv)+
  have ct1: "current_target w1 = TARGET_FIRMWARE" using q(3) w(3) by (simp add: stays_def)
  obtain u3 where u3: "ustep leb w1 w3" "backend t3 = RECOVERY_BACKEND_UBI" "tgt_ubi_part t3 = Some ''ubi''" "tgt_name t3 = Some ''fit''"
    "ubi w3 = Some u3" "has_vol ''fit'' UBI_STATIC_VOLUME u3"
    using create_target_step [OF low(1,2) q(5,10,11) nm q(12) ct1 brd(1,2) z] r(1) by blast
  have g3: "grows u1 u3" using u3(1,5) q(5) by (auto simp: ustep_def)
  have p3: "tgt_ubi_part t3 = Some (ubi_mtd_name u3)" using u3(3) g3 nm by (simp add: grows_def)
  note s4 = ensure_preserved_step [OF low(1-3) u3(5,2) p3 e4]
  obtain u4 where u4: "ubi w4 = Some u4" "grows u3 u4" using s4 u3(5) by (auto simp: ustep_def)
  have p4: "tgt_ubi_part t3 = Some (ubi_mtd_name u4)" using p3 u4(2) by (simp add: grows_def)
  note s5 = ensure_rootfs_step [OF low(1-3) u4(1) u3(2) p4 e5]
  obtain u5 where u5: "ubi w5 = Some u5" "grows u4 u5" using s5 u4(1) by (auto simp: ustep_def)
  have g15: "grows u1 u5" using grows_trans g3 u4(2) u5(2) by blast
  have fac: "factory_board b \<Longrightarrow> ''factory'' \<in> set (vol_names (volumes u5))" using s4 r(2) u4(1) names_grow [OF _ u5(2)] by auto
  have rfs: "''rootfs_data'' \<in> set (vol_names (volumes u5))" using s5 r(3) u5(1) by auto
  have hv: "has_vol ''fit'' UBI_STATIC_VOLUME u5" using has_vol_grows u3(6) u4(2) u5(2) by blast
  have p15: "plain w5 = plain w1" using u3(1) s4 s5 by (simp add: ustep_def)
  have i5: "idle w5" by (rule idle_plain [OF q(9) p15])
  have k6: "run_ok w6" unfolding w6_def by (rule run_ok_plain [OF idle_run [OF i5, of 2]]) simp_all
  have s6: "stays w1 w6" unfolding w6_def by (rule stays_trans [OF plainD(1) [OF p15] upd_progress_stays(1)])
  have k7: "run_ok (svc w6)" "stays w6 (svc w6)" "ubi (svc w6) = Some u5"
    using svc_run_ok [OF k6] svc_stays [OF k6] u5(1) by (simp_all add: w6_def)
  have wf5: "ubi_wf u5" "0 < leb_size u5" "ubi_mtd_name u5 = ''ubi''" using g15 q(7,8) nm by (simp_all add: grows_def)
  have p5: "tgt_ubi_part t3 = Some (ubi_mtd_name u5)" using u3(3) wf5(3) by simp
  obtain u7 i vol where o: "run_ok w7" "stays (svc w6) w7" "ubi w7 = Some u7" "grows u5 u7"
    "find_volume ''fit'' (volumes u7) 0 = Some i" "volumes u7 ! i = Some vol" "vol_type vol = UBI_STATIC_VOLUME"
    "used_bytes vol = length img" "\<not> updating vol" "\<not> upd_marker vol" "leb (dev w7) = image_view vol img (leb (dev (svc w6)))"
    using write_target_ok [OF low(1,2) lc k7(1,3) wf5(1,2) hv u3(2) p5 u3(4) img wr [unfolded r(4)]] by blast
  have i8: "idle w8" unfolding w8_def by (rule idle_phase [OF idle_plain [OF run_idle [OF o(1)]]]) simp
  have d8: "ubi w8 = Some u7" "dev w8 = dev w7" "prog_phase w8 = 3" unfolding w8_def using o(3) by (simp_all add: release_same)
  have "stays w7 w8" unfolding w8_def
    by (rule stays_trans [OF upd_progress_stays(2) stays_trans [OF release_stays phase_stays(1)]])
  then have s8: "stays w w8" using stays_trans q(3) s6 k7(2) o(2) by metis
  have ct8: "current_target w8 = TARGET_FIRMWARE" using s8 w(3) by (simp add: stays_def)
  have w': "w' = snd (sync_part (Some ''ubi'') w8)" using eq r ct8 u3(3) by simp
  have lb: "\<forall>l. l * usable_leb_size vol < length img \<longrightarrow>
       leb (dev w8) (vol_id vol, l) = Some (take (usable_leb_size vol) (drop (l * usable_leb_size vol) img))"
    using o(11) d8(2) by (simp add: image_view_def)
  have fin: "ubi_wf u7" "ubi_mtd_name u7 = ''ubi''" "''rootfs_data'' \<in> set (vol_names (volumes u7))"
    "factory_board b \<longrightarrow> ''factory'' \<in> set (vol_names (volumes u7))"
    using o(4) wf5 rfs fac names_grow [OF _ o(4)] by (simp_all add: grows_def)
  show ?thesis using w' i8 s8 d8 fin o(5-10) lb
    by (intro exI [of _ w8] exI [of _ u7] exI [of _ i] exI [of _ vol]) simp
qed

end

section \<open>Flashing under the recovery server\<close>

lemma plain_ctl: "plain w' = plain w \<Longrightarrow> ctl w' = ctl w \<and> ext w' = ext w"
proof -
  assume p: "plain w' = plain w"
  have e: "f w' = f w" if "\<And>v. f (plain v) = f v" for f :: "'a rworld \<Rightarrow> 'z"
    using arg_cong [OF p, of f] by (simp only: that)
  have "ctl w' = ctl w" "ext w' = ext w" by (rule e; simp add: plain_def core_def ctl_def)+
  then show ?thesis by simp
qed

lemma server_inv_plain: "server_inv content b w \<Longrightarrow> plain w' = plain w \<Longrightarrow> server_inv content b w'"
  using plain_ctl [of w' w] http_inv_ctl [of w' w b] files_inv_same [of w' w content] by (simp add: server_inv_def)

lemma server_inv_phase:
  assumes "server_inv content b w" "\<not> post_ok w" "\<not> flash_request w"
  shows "server_inv content b (w\<lparr>prog_phase := n\<rparr>)"
proof -
  have "http_inv b (w\<lparr>prog_phase := n\<rparr>)"
    using assms by (simp add: server_inv_def http_inv_def conns_inv_def conn_ok_def)
  moreover have "files_inv content (w\<lparr>prog_phase := n\<rparr>) = files_inv content w" by (rule files_inv_same) simp
  ultimately show ?thesis using assms(1) by (simp add: server_inv_def)
qed

lemma server_inv_env: "server_inv content b w \<Longrightarrow> server_inv content b (w\<lparr>env := e\<rparr>)"
  using http_inv_ctl [of "w\<lparr>env := e\<rparr>" w b] files_inv_same [of "w\<lparr>env := e\<rparr>" w content] by (simp add: server_inv_def ctl_def)

interpretation fs: flash_server "recovery_service_runtime b" content "server_inv content b"
proof unfold_locales
  show "server_inv content b w \<Longrightarrow> plain w' = plain w \<Longrightarrow> server_inv content b w'" for w w' by (rule server_inv_plain)
  show "server_inv content b w \<Longrightarrow> \<not> post_ok w \<Longrightarrow> \<not> flash_request w \<Longrightarrow> server_inv content b (w\<lparr>prog_phase := n\<rparr>)" for w n
    by (rule server_inv_phase)
  show "server_inv content b w \<Longrightarrow> server_inv content b (w\<lparr>env := e\<rparr>)" for w e by (rule server_inv_env)
  fix w assume "server_inv content b w" and p: "0 < prog_phase w"
  then have i: "conns_inv b (conns (ext w)) w" by (simp add: server_inv_def http_inv_def)
  show "\<not> post_ok w \<and> \<not> flash_request w" using conns_invD(4,5) [OF i] p by auto
qed

text \<open>Taking a flash request: no body is outstanding, so that the upload can be closed.\<close>

lemma take_request_inv:
  assumes "server_inv content b w" "flash_request w"
  shows "server_inv content b (w\<lparr>flash_request := False, post_ok := False\<rparr>)"
proof -
  let ?w = "w\<lparr>flash_request := False, post_ok := False\<rparr>"
  have i: "conns_inv b (conns (ext w)) w" using assms(1) by (simp add: server_inv_def http_inv_def)
  have e: "recv_off w = recv_total w" using conns_invD(5) [OF i assms(2)] by simp
  have c: "conn_ok w hs \<and> post_content_len_left hs = 0" if "conns (ext w) c = Some hs" for c hs
    using conns_invD(1) [OF i that] no_body [OF i _ that] e by blast
  have "conns_inv b (conns (ext w)) ?w"
    by (rule conns_inv_give_up [OF i c, where p = "prog_phase w" and off = "recv_off w"])
      (use conns_invD(3,8) [OF i] in \<open>auto simp: ctl_def\<close>)
  then have "http_inv b ?w" by (simp add: http_inv_def)
  moreover have "files_inv content ?w = files_inv content w" by (rule files_inv_same) simp
  ultimately show ?thesis using assms(1) by (simp add: server_inv_def)
qed

text \<open>
  C1: flashing the boot loader is safe. From every state of the server in which an upload was
  accepted for flashing, whatever the network does while it runs: success is reported only when
  the image has a valid, 2 MiB long firmware image package, and then the first 2 MiB of the boot
  loader device hold it byte for byte; no byte outside that region changes; an invalid image
  leaves the flash as it was, and so does a bad block anywhere in the region; the phase that the
  status page reports is the outcome.
\<close>

theorem flash_bootloader_safe:
  assumes "server_inv content b w" and "flash_request w" and "current_target w = TARGET_UBOOT"
    and "flash_image b (recovery_service_runtime b) sync_part sync_all mem_ok (w\<lparr>flash_request := False\<rparr>) = (ret, w')"
  shows "server_inv content b w' \<and> prog_phase w' = (if ret = 0 then 3 else -1) \<and>
    (ret = 0 \<longrightarrow> mtd0_image_ok (upload_image w) \<and>
       (\<exists>m. raw_device b TARGET_UBOOT m \<and> view content (dev w') (int (mtd_offset m)) 0x200000 = upload_image w)) \<and>
    (content (dev w') = content (dev w) \<or>
     (\<exists>m. raw_device b TARGET_UBOOT m \<and> 0x200000 \<le> mtd_size m \<and>
        frame {int (mtd_offset m)..<int (mtd_offset m) + 0x200000} (content (dev w)) (content (dev w')))) \<and>
    (\<not> mtd0_image_ok (upload_image w) \<longrightarrow> ret \<noteq> 0 \<and> dev w' = dev w) \<and>
    (\<forall>m. raw_device b TARGET_UBOOT m \<and> fst (recovery_mtd_require_good_blocks m 0 0x200000 (dev w)) \<noteq> 0 \<longrightarrow>
       ret \<noteq> 0 \<and> content (dev w') = content (dev w))"
proof -
  let ?w = "w\<lparr>flash_request := False\<rparr>"
  have d: "\<forall>m\<in>set (brd_mtds b). driver_ok content m" using assms(1) by (simp add: server_inv_def)
  have i: "server_inv content b (?w\<lparr>post_ok := False\<rparr>)" using take_request_inv [OF assms(1,2)] by simp
  have t: "current_target ?w \<noteq> TARGET_FIRMWARE" using assms(3) by simp
  have x: "upload_image ?w = upload_image w" "dev ?w = dev w" "current_target ?w = TARGET_UBOOT" "\<not> flash_request ?w"
    using assms(3) by (simp_all add: upload_image_def)
  note r = fs.flash_raw_ok [OF x(4) d t i assms(4), unfolded x(1-3)]
  have "server_inv content b w'" using r by (simp add: fs.idle_def)
  then show ?thesis using r by auto
qed

text \<open>A state with a complete four-byte upload, for the concrete instances.\<close>

definition small_upload :: "upload_target \<Rightarrow> (int \<Rightarrow> u8) rworld" where
  "small_upload tgt = (server_start Map.empty (\<lambda>_. 0) (\<lambda>_. 0xff))
    \<lparr>flash_request := True, recv_off := 4, recv_total := 4, recv_base := 0x90000000, current_target := tgt\<rparr>"

lemma small_upload_inv: "server_inv (\<lambda>d. d) sample_board (small_upload tgt)"
  by (simp add: server_inv_def ram_ok_def sample_board_def sample_part_ok http_inv_def conns_inv_def files_inv_def
      small_upload_def server_start_def initial_world_def buffer_in_ram_def)

lemma small_upload_fields: "flash_request (small_upload tgt)" "current_target (small_upload tgt) = tgt" "dev (small_upload tgt) = (\<lambda>_. 0xff)"
  "recv_off (small_upload tgt) = 4"
  by (simp_all add: small_upload_def server_start_def initial_world_def)

theorem flash_bootloader_safe_witness:
  "\<exists>ret w'. flash_image sample_board (recovery_service_runtime sample_board) (\<lambda>_ w. (0, w)) (\<lambda>w. (0, w)) True
      ((small_upload TARGET_UBOOT)\<lparr>flash_request := False\<rparr>) = (ret, w') \<and> ret \<noteq> 0 \<and> dev w' = (\<lambda>_. 0xff) \<and> prog_phase w' = -1"
proof -
  obtain ret w' where f: "flash_image sample_board (recovery_service_runtime sample_board) (\<lambda>_ w. (0, w)) (\<lambda>w. (0, w)) True
      ((small_upload TARGET_UBOOT)\<lparr>flash_request := False\<rparr>) = (ret, w')" by (rule prod.exhaust)
  have "\<not> mtd0_image_ok (upload_image (small_upload TARGET_UBOOT))"
    using upload_image_length [of "small_upload TARGET_UBOOT"] by (auto simp: mtd0_image_ok_def small_upload_fields)
  then show ?thesis
    using flash_bootloader_safe [OF small_upload_inv small_upload_fields(1,2) f] f small_upload_fields(3) by auto
qed

text \<open>
  C14: flashing a calibration partition (uenv, dsd). From every state of the server in which an
  upload was accepted: success is reported only for an image of exactly 2 MiB, which is then stored
  in order over the good blocks of the named partition and nowhere else; whatever the outcome no
  byte outside the first 2 MiB of that partition changes, and the reported phase is the outcome.
\<close>

theorem flash_calibration_stored:
  assumes "server_inv content b w" and "flash_request w" and "current_target w = TARGET_UENV \<or> current_target w = TARGET_DSD"
    and "flash_image b (recovery_service_runtime b) sync_part sync_all mem_ok (w\<lparr>flash_request := False\<rparr>) = (ret, w')"
  shows "server_inv content b w' \<and> prog_phase w' = (if ret = 0 then 3 else -1) \<and>
    (ret = 0 \<longrightarrow> length (upload_image w) = 0x200000 \<and>
       (\<exists>m bs. raw_device b (current_target w) m \<and> subseq bs (block_addrs (mtd_erasesize m) 0x200000) \<and>
          stored content m (dev w') bs (upload_image w))) \<and>
    (content (dev w') = content (dev w) \<or>
     (\<exists>m. raw_device b (current_target w) m \<and> 0x200000 \<le> mtd_size m \<and>
        frame {int (mtd_offset m)..<int (mtd_offset m) + 0x200000} (content (dev w)) (content (dev w'))))"
proof -
  let ?w = "w\<lparr>flash_request := False\<rparr>"
  have d: "\<forall>m\<in>set (brd_mtds b). driver_ok content m" using assms(1) by (simp add: server_inv_def)
  have i: "server_inv content b (?w\<lparr>post_ok := False\<rparr>)" using take_request_inv [OF assms(1,2)] by simp
  have t: "current_target ?w \<noteq> TARGET_FIRMWARE" using assms(3) by auto
  have x: "upload_image ?w = upload_image w" "dev ?w = dev w" "current_target ?w = current_target w" "\<not> flash_request ?w"
    by (simp_all add: upload_image_def)
  note r = fs.flash_raw_ok [OF x(4) d t i assms(4), unfolded x(1-3)]
  have "server_inv content b w'" using r by (simp add: fs.idle_def)
  then show ?thesis using r by blast
qed

theorem flash_calibration_stored_witness:
  "\<exists>ret w'. flash_image sample_board (recovery_service_runtime sample_board) (\<lambda>_ w. (0, w)) (\<lambda>w. (0, w)) True
      ((small_upload TARGET_DSD)\<lparr>flash_request := False\<rparr>) = (ret, w') \<and> ret \<noteq> 0 \<and> prog_phase w' = -1"
proof -
  obtain ret w' where f: "flash_image sample_board (recovery_service_runtime sample_board) (\<lambda>_ w. (0, w)) (\<lambda>w. (0, w)) True
      ((small_upload TARGET_DSD)\<lparr>flash_request := False\<rparr>) = (ret, w')" by (rule prod.exhaust)
  have t: "current_target (small_upload TARGET_DSD) = TARGET_UENV \<or> current_target (small_upload TARGET_DSD) = TARGET_DSD"
    by (simp add: small_upload_fields)
  have "length (upload_image (small_upload TARGET_DSD)) \<noteq> 0x200000"
    using upload_image_length [of "small_upload TARGET_DSD"] by (simp add: small_upload_fields)
  then show ?thesis using flash_calibration_stored [OF small_upload_inv small_upload_fields(1) t f] f by auto
qed

text \<open>
  What flashing firmware relies on of the layers below UBI: a view \<open>leb\<close> of the data of the logical
  eraseblocks that reads do not change and that only depends on the content of the flash, and a
  scan that yields a well-formed device.
\<close>

definition ubi_media_ok :: "('d \<Rightarrow> int \<Rightarrow> u8) \<Rightarrow> ('d \<Rightarrow> nat \<times> nat \<Rightarrow> bytes option) \<Rightarrow> 'd ubi_low \<Rightarrow> bool" where
  "ubi_media_ok content leb low \<longleftrightarrow> low_ok leb low \<and> low_reads_ok leb low \<and> low_codes_ok low \<and> attach_ok low \<and>
     (\<forall>d d'. content d' = content d \<longrightarrow> leb d' = leb d)"

lemma force_rebuild_detached:
  "recovery_force_ubi_rebuild b t w = (r, t', w') \<Longrightarrow> backend t = RECOVERY_BACKEND_UBI \<Longrightarrow> tgt_ubi_part t \<noteq> None \<Longrightarrow> ubi w' = None"
  by (auto simp: recovery_force_ubi_rebuild_def Let_def detach_keeps put_mtd_device_def get_mtd_def split: option.splits sum.splits prod.splits)

text \<open>Every run that fails leaves the failure phase behind.\<close>

definition phase_told :: "int \<times> ('d, 'x) world \<Rightarrow> bool" where
  "phase_told r \<longleftrightarrow> (fst r \<noteq> 0 \<longrightarrow> prog_phase (snd r) = -1)"

lemma phase_told_steps:
  "phase_told (flash_fail e t w)" "phase_told (e, w\<lparr>prog_phase := -1\<rparr>)" "phase_told (0, w)"
  "phase_told p \<Longrightarrow> phase_told q \<Longrightarrow> phase_told (if c then p else q)"
  "(\<And>x. phase_told (f x)) \<Longrightarrow> phase_told (Let y f)" "(\<And>a b. phase_told (g a b)) \<Longrightarrow> phase_told (case z of (a, b) \<Rightarrow> g a b)"
  "phase_told q \<Longrightarrow> (\<And>m. phase_told (h m)) \<Longrightarrow> phase_told (case v of None \<Rightarrow> q | Some m \<Rightarrow> h m)"
  by (simp_all add: phase_told_def flash_fail_def case_prod_beta split: option.split)

lemma flash_image_failed:
  assumes "flash_image b svc sync_part sync_all mem_ok w = (ret, w')" "ret \<noteq> 0"
  shows "prog_phase w' = -1"
proof -
  have "phase_told (flash_image b svc sync_part sync_all mem_ok w)"
    unfolding flash_image_def flash_ubi_def flash_mtd_def by (intro phase_told_steps)
  then show ?thesis using assms by (simp add: phase_told_def)
qed

lemma firmware_to_ubi:
  assumes "server_inv content b w" and "flash_request w" and "current_target w = TARGET_FIRMWARE" and "brd_ops b" and "brd_match b"
    and run0: "flash_image b (recovery_service_runtime b) sync_part sync_all mem_ok (w\<lparr>flash_request := False\<rparr>) = (0, w')"
  shows "\<exists>t w3. flash_ubi b (recovery_service_runtime b) sync_part (upload_image w) (recv_off w) t w3 = (0, w') \<and> upload_image w \<noteq> [] \<and>
    backend t = RECOVERY_BACKEND_UBI \<and> tgt_ubi_part t = Some ''ubi'' \<and> tgt_name t = Some ''fit'' \<and> ubi_needs_format t \<and>
    ubi w3 = None \<and> fs.idle content b w3 \<and> current_target w3 = TARGET_FIRMWARE \<and>
    (\<forall>m. tgt_mtd t = Some m \<longrightarrow> driver_ok content m)"
proof -
  let ?w0 = "w\<lparr>flash_request := False, post_ok := False\<rparr>"
  have x: "upload_image ?w0 = upload_image w" "current_target ?w0 = TARGET_FIRMWARE" using assms(3) by (simp_all add: upload_image_def)
  have i0: "fs.idle content b ?w0" using take_request_inv [OF assms(1,2)] by (simp add: fs.idle_def)
  obtain r1 t w1 where rs: "recovery_resolve_target b TARGET_FIRMWARE ?w0 = (r1, t, w1)" by (rule prod_cases3)
  obtain r2 t2 w2 where fr: "recovery_force_ubi_rebuild b t w1 = (r2, t2, w2)" by (rule prod_cases3)
  obtain lm w3 where lm: "recovery_calc_rebuild_ubi_limit b t2 w2 = (lm, w3)" by (cases "recovery_calc_rebuild_ubi_limit b t2 w2")
  let ?t = "t2\<lparr>tgt_limit := lm\<rparr>" and ?img = "upload_image w" and ?n = "recv_off w"
  have p1: "plain w1 = plain ?w0" by (rule resolve_plain [OF rs])
  have ct1: "current_target w1 = TARGET_FIRMWARE" using plainD(1) [OF p1] x(2) by (simp add: stays_def)
  have nf: "fst (flash_fail e tt v) = e" for e tt and v :: "'a rworld" by (simp add: flash_fail_def)
  have run: "flash_image b (recovery_service_runtime b) sync_part sync_all mem_ok (w\<lparr>flash_request := False\<rparr>) =
      (if ?n = 0 then (-EINVAL, ?w0\<lparr>prog_phase := -1\<rparr>) else if r1 \<noteq> 0 then (r1, w1\<lparr>prog_phase := -1\<rparr>)
       else flash_image b (recovery_service_runtime b) sync_part sync_all mem_ok (w\<lparr>flash_request := False\<rparr>))"
    using x(1,2) rs unfolding flash_image_def Let_def by (simp add: recovery_target_exact_size_def)
  have n0: "?n \<noteq> 0" "r1 = 0" using run run0 by (auto split: if_splits)
  have rt: "backend t = RECOVERY_BACKEND_UBI" "tgt_name t = Some ''fit''" "tgt_ubi_part t = Some ''ubi''"
    using resolve_target_tracks [OF rs] n0(2) assms(4,5) by simp_all
  note ff = force_rebuild_from [OF fr resolve_from [OF rs]]
  have eq: "(0, w') = (if r2 \<noteq> 0 then flash_fail r2 t2 w2 else if (ucast ?n :: u64) > lm then flash_fail (-EFBIG) ?t w3
      else flash_ubi b (recovery_service_runtime b) sync_part ?img ?n ?t w3)"
    using n0 x rs fr lm ct1 rt(1) ff unfolding run0 [symmetric] flash_image_def Let_def
    by (simp add: recovery_target_exact_size_def)
  have r2: "r2 = 0" using eq nf by (metis fst_conv)
  have "\<not> (ucast ?n :: u64) > lm"
  proof
    assume "(ucast ?n :: u64) > lm"
    then have "(0, w') = flash_fail (-EFBIG) ?t w3" using eq r2 by simp
    then have "(0 :: int) = -EFBIG" using nf [of "-EFBIG" ?t w3] by (metis fst_conv)
    then show False by simp
  qed
  then have fu: "flash_ubi b (recovery_service_runtime b) sync_part ?img ?n ?t w3 = (0, w')" using eq r2 by simp
  have t2: "backend ?t = RECOVERY_BACKEND_UBI" "tgt_ubi_part ?t = Some ''ubi''" "tgt_name ?t = Some ''fit''" "ubi_needs_format ?t"
    using ff r2 rt by simp_all
  have w3: "w3 = w2" using lm t2(1,4) by (simp add: recovery_calc_rebuild_ubi_limit_def)
  have u3: "ubi w3 = None" using force_rebuild_detached [OF fr rt(1)] rt(3) w3 by simp
  have p3: "plain w3 = plain ?w0" using force_rebuild_plain [OF fr] p1 w3 by simp
  have i3: "fs.idle content b w3" by (rule fs.idle_plain [OF i0 p3])
  have ct3: "current_target w3 = TARGET_FIRMWARE" using plainD(1) [OF p3] x(2) by (simp add: stays_def)
  have dm: "driver_ok content m" if "tgt_mtd ?t = Some m" for m
    using that ff assms(1) by (auto simp: mtd_from_def server_inv_def)
  have ne: "?img \<noteq> []" using upload_image_length [of w] n0(1) by (metis list.size(3) unat_eq_zero)
  show ?thesis using fu ne t2 u3 i3 ct3 dm by blast
qed

text \<open>A sample board whose logical eraseblocks cannot be written.\<close>

definition worn_board :: "(int \<Rightarrow> u8) board" where
  "worn_board = sample_board\<lparr>brd_low := idle_low\<lparr>low_write_st := (\<lambda>v l b e d. (-EIO, d))\<rparr>\<rparr>"


end
