(* ===== verification/Gpio.thy ===== *)
theory Gpio
  imports Prelude
begin

text \<open>
  The register-level GPIO helpers of \<^verbatim>\<open>net/lwip/httpd_recovery.c\<close> and the device tree reads the
  LED code makes. The memory-mapped registers are a store from addresses to 32-bit words; the
  device tree, whose accessors are drivers/core code, is a parameter.
\<close>

section \<open>Registers\<close>

type_synonym regs = "u64 \<Rightarrow> u32"

definition RECOVERY_GPIO_SYSCTL_BASE :: u64 where "RECOVERY_GPIO_SYSCTL_BASE = 0x1fbf0200"
definition RECOVERY_CHIP_SCU_BASE :: u64 where "RECOVERY_CHIP_SCU_BASE = 0x1fa20000"
definition RECOVERY_REG_GPIO_DATA :: u64 where "RECOVERY_REG_GPIO_DATA = 0x0004"
definition RECOVERY_REG_GPIO_OE :: u64 where "RECOVERY_REG_GPIO_OE = 0x0014"
definition RECOVERY_REG_GPIO_CTRL :: u64 where "RECOVERY_REG_GPIO_CTRL = 0x0000"
definition RECOVERY_REG_GPIO_CTRL1 :: u64 where "RECOVERY_REG_GPIO_CTRL1 = 0x0020"
definition RECOVERY_REG_GPIO_FLASH_MODE_CFG :: u64 where "RECOVERY_REG_GPIO_FLASH_MODE_CFG = 0x0034"
definition RECOVERY_REG_GPIO_CTRL2 :: u64 where "RECOVERY_REG_GPIO_CTRL2 = 0x0060"
definition RECOVERY_REG_GPIO_CTRL3 :: u64 where "RECOVERY_REG_GPIO_CTRL3 = 0x0064"
definition RECOVERY_REG_GPIO_DATA1 :: u64 where "RECOVERY_REG_GPIO_DATA1 = 0x0070"
definition RECOVERY_REG_GPIO_OE1 :: u64 where "RECOVERY_REG_GPIO_OE1 = 0x0078"
definition RECOVERY_REG_GPIO_2ND_I2C_MODE :: u64 where "RECOVERY_REG_GPIO_2ND_I2C_MODE = 0x0214"
definition RECOVERY_REG_GPIO_FLASH_MODE_CFG_EXT :: u64 where
  "RECOVERY_REG_GPIO_FLASH_MODE_CFG_EXT = 0x0068"
definition RECOVERY_REG_GPIO_FLASH_PRD_SET0 :: u64 where "RECOVERY_REG_GPIO_FLASH_PRD_SET0 = 0x003c"
definition RECOVERY_REG_GPIO_FLASH_MAP0 :: u64 where "RECOVERY_REG_GPIO_FLASH_MAP0 = 0x004c"
definition RECOVERY_REG_GPIO_FLASH_MAP1 :: u64 where "RECOVERY_REG_GPIO_FLASH_MAP1 = 0x0050"
definition RECOVERY_REG_CYCLE_CFG_VALUE0 :: u64 where "RECOVERY_REG_CYCLE_CFG_VALUE0 = 0x0098"

lemmas reg_defs =
  RECOVERY_GPIO_SYSCTL_BASE_def RECOVERY_CHIP_SCU_BASE_def RECOVERY_REG_GPIO_DATA_def
  RECOVERY_REG_GPIO_OE_def RECOVERY_REG_GPIO_CTRL_def RECOVERY_REG_GPIO_CTRL1_def
  RECOVERY_REG_GPIO_FLASH_MODE_CFG_def RECOVERY_REG_GPIO_CTRL2_def RECOVERY_REG_GPIO_CTRL3_def
  RECOVERY_REG_GPIO_DATA1_def RECOVERY_REG_GPIO_OE1_def RECOVERY_REG_GPIO_2ND_I2C_MODE_def
  RECOVERY_REG_GPIO_FLASH_MODE_CFG_EXT_def RECOVERY_REG_GPIO_FLASH_PRD_SET0_def
  RECOVERY_REG_GPIO_FLASH_MAP0_def RECOVERY_REG_GPIO_FLASH_MAP1_def
  RECOVERY_REG_CYCLE_CFG_VALUE0_def

definition BIT :: "nat \<Rightarrow> u32" where
  "BIT n = push_bit n 1"

definition recovery_gpio_flash_mode_bit :: "u8 \<Rightarrow> (u64 \<times> u32) option" where
  "recovery_gpio_flash_mode_bit gpio =
    (if gpio \<le> 15 then
       Some (RECOVERY_GPIO_SYSCTL_BASE + RECOVERY_REG_GPIO_FLASH_MODE_CFG, BIT (unat gpio))
     else if 16 \<le> gpio \<and> gpio \<le> 31 then
       Some (RECOVERY_GPIO_SYSCTL_BASE + RECOVERY_REG_GPIO_FLASH_MODE_CFG_EXT, BIT (unat gpio - 16))
     else if 36 \<le> gpio \<and> gpio \<le> 51 then
       Some (RECOVERY_GPIO_SYSCTL_BASE + RECOVERY_REG_GPIO_FLASH_MODE_CFG_EXT, BIT (unat gpio - 20))
     else None)"

definition recovery_clrsetbits_le32 :: "u64 \<Rightarrow> u32 \<Rightarrow> u32 \<Rightarrow> regs \<Rightarrow> regs" where
  "recovery_clrsetbits_le32 addr clr st r =
    (let val = r addr; val = val AND NOT clr; val = val OR st in r(addr := val))"

definition recovery_gpio_data_reg :: "u8 \<Rightarrow> u64" where
  "recovery_gpio_data_reg gpio =
    RECOVERY_GPIO_SYSCTL_BASE +
    (if gpio < 32 then RECOVERY_REG_GPIO_DATA else RECOVERY_REG_GPIO_DATA1)"

definition recovery_gpio_oe_reg :: "u8 \<Rightarrow> u64" where
  "recovery_gpio_oe_reg gpio =
    RECOVERY_GPIO_SYSCTL_BASE +
    (if gpio < 32 then RECOVERY_REG_GPIO_OE else RECOVERY_REG_GPIO_OE1)"

text \<open>
  The direction register is looked up in a table of four entries by \<^verbatim>\<open>gpio / 16\<close>, with no check
  of the index: a GPIO number from 64 on reads past the table, which is the value \<^term>\<open>None\<close>.
\<close>

definition recovery_gpio_dir_reg :: "u8 \<Rightarrow> u64 option" where
  "recovery_gpio_dir_reg gpio =
    do {
      d \<leftarrow> rd [RECOVERY_REG_GPIO_CTRL, RECOVERY_REG_GPIO_CTRL1,
               RECOVERY_REG_GPIO_CTRL2, RECOVERY_REG_GPIO_CTRL3] (unat gpio div 16);
      Some (RECOVERY_GPIO_SYSCTL_BASE + d)
    }"

definition recovery_gpio_direction_output :: "u8 \<Rightarrow> regs \<Rightarrow> regs option" where
  "recovery_gpio_direction_output gpio r =
    (let bank_bit = BIT (unat gpio mod 32);
         dir_bit = BIT (2 * (unat gpio mod 16));
         r = recovery_clrsetbits_le32 (recovery_gpio_oe_reg gpio) 0 bank_bit r in
     do {
       dir_reg \<leftarrow> recovery_gpio_dir_reg gpio;
       Some (recovery_clrsetbits_le32 dir_reg 0 dir_bit r)
     })"

definition recovery_gpio_prepare_output :: "u8 \<Rightarrow> regs \<Rightarrow> regs option" where
  "recovery_gpio_prepare_output gpio r =
    (let r = (case recovery_gpio_flash_mode_bit gpio of
                Some (reg, msk) \<Rightarrow> recovery_clrsetbits_le32 reg msk 0 r
              | None \<Rightarrow> r) in
     recovery_gpio_direction_output gpio r)"

definition recovery_gpio_set_value :: "u8 \<Rightarrow> bool \<Rightarrow> bool \<Rightarrow> regs \<Rightarrow> regs" where
  "recovery_gpio_set_value gpio active_low active r =
    (let b = BIT (unat gpio mod 32);
         reg = recovery_gpio_data_reg gpio;
         st = (if active_low then (if active then 0 else b) else (if active then b else 0)) in
     recovery_clrsetbits_le32 reg b st r)"

definition recovery_led_set_pin :: "u8 \<Rightarrow> bool \<Rightarrow> regs \<Rightarrow> regs" where
  "recovery_led_set_pin gpio on r = recovery_gpio_set_value gpio True on r"

section \<open>The device tree\<close>

text \<open>
  The \<^verbatim>\<open>ofnode\<close> accessors the code calls. \<^verbatim>\<open>of_phandle_args\<close> is
  \<^verbatim>\<open>ofnode_parse_phandle_with_args\<close>: an error code, or the argument cells. It covers the arguments the
  code uses: node, property, cells property and index.
\<close>

type_synonym ofnode = nat

record fdt =
  of_path :: "string \<Rightarrow> ofnode option"
  of_string :: "ofnode \<Rightarrow> string \<Rightarrow> string option"
  of_subnodes :: "ofnode \<Rightarrow> ofnode list"
  of_phandle_args :: "ofnode \<Rightarrow> string \<Rightarrow> string \<Rightarrow> nat \<Rightarrow> int + u32 list"
  of_compatible :: "string \<Rightarrow> bool"

section \<open>Lemmas\<close>

text \<open>The electrical level of a pin: its bit of the data register.\<close>

definition pin_level :: "u8 \<Rightarrow> regs \<Rightarrow> bool" where
  "pin_level gpio r = bit (r (recovery_gpio_data_reg gpio)) (unat gpio mod 32)"

text \<open>The two registers that hold pin levels.\<close>

definition data_regs :: "u64 set" where
  "data_regs = {RECOVERY_GPIO_SYSCTL_BASE + RECOVERY_REG_GPIO_DATA,
                RECOVERY_GPIO_SYSCTL_BASE + RECOVERY_REG_GPIO_DATA1}"

lemma bit_BIT: "bit (BIT n) k \<longleftrightarrow> n = k \<and> n < 32"
  by (auto simp: BIT_def bit_simps)

lemma data_reg_in [simp]: "recovery_gpio_data_reg g \<in> data_regs"
  by (simp add: recovery_gpio_data_reg_def data_regs_def)

lemma set_value_frame:
  "a \<noteq> recovery_gpio_data_reg g \<Longrightarrow> recovery_gpio_set_value g al on r a = r a"
  by (simp add: recovery_gpio_set_value_def recovery_clrsetbits_le32_def Let_def)

lemma set_value_data_frame: "a \<notin> data_regs \<Longrightarrow> recovery_gpio_set_value g al on r a = r a"
  by (metis data_reg_in set_value_frame)

lemma gpio_bank_inj:
  assumes "recovery_gpio_data_reg g = recovery_gpio_data_reg h" "unat g mod 32 = unat h mod 32"
    and "unat g < 64" "unat h < 64"
  shows "g = h"
proof -
  have "unat g < 32 \<longleftrightarrow> unat h < 32"
    using assms(1) by (auto simp: recovery_gpio_data_reg_def reg_defs word_less_nat_alt split: if_splits)
  moreover have "unat g = 32 * (unat g div 32) + unat g mod 32" "unat h = 32 * (unat h div 32) + unat h mod 32"
    by simp_all
  moreover have "unat g div 32 = (if unat g < 32 then 0 else 1)"
    "unat h div 32 = (if unat h < 32 then 0 else 1)" using assms(3,4) by auto
  ultimately have "unat g = unat h" using assms(2) by metis
  then show ?thesis by (simp add: unsigned_word_eqI)
qed

text \<open>Driving one pin sets its level and no other pin's.\<close>

lemma pin_level_set_value_same:
  "pin_level g (recovery_gpio_set_value g al on r) = (on \<noteq> al)"
  by (auto simp: pin_level_def recovery_gpio_set_value_def recovery_clrsetbits_le32_def Let_def
      bit_and_iff bit_or_iff bit_not_iff bit_BIT)

lemma pin_level_set_value_other:
  assumes "g \<noteq> h" "unat g < 64" "unat h < 64"
  shows "pin_level h (recovery_gpio_set_value g al on r) = pin_level h r"
proof (cases "recovery_gpio_data_reg g = recovery_gpio_data_reg h")
  case True
  then have "unat g mod 32 \<noteq> unat h mod 32" using gpio_bank_inj assms by blast
  with True show ?thesis
    by (auto simp: pin_level_def recovery_gpio_set_value_def recovery_clrsetbits_le32_def Let_def
        bit_and_iff bit_or_iff bit_not_iff bit_BIT)
next
  case False
  then show ?thesis by (simp add: pin_level_def set_value_frame)
qed

text \<open>The GPIO numbers for which the direction table lookup is defined are those below 64.\<close>

lemma dir_reg_defined: "recovery_gpio_dir_reg g \<noteq> None \<longleftrightarrow> unat g < 64"
  by (auto simp: recovery_gpio_dir_reg_def rd_def)

lemma prepare_output_defined: "recovery_gpio_prepare_output g r \<noteq> None \<longleftrightarrow> unat g < 64"
  using dir_reg_defined [of g]
  by (auto simp: recovery_gpio_prepare_output_def recovery_gpio_direction_output_def Let_def
      split: option.splits)

end
