(* ===== verification/Leds.thy ===== *)
theory Leds
  imports Gpio
begin

text \<open>
  The status LEDs (breathing or sweeping, by hardware or software PWM) and the LAN link LEDs of
  the recovery server in \<^verbatim>\<open>net/lwip/httpd_recovery.c\<close>. Clock readings (\<^verbatim>\<open>get_timer(0)\<close>, in
  milliseconds, a 64-bit \<^verbatim>\<open>ulong\<close>) are arguments; the MDIO bus is a state with a read function,
  because reading a PHY register may change it.
\<close>

section \<open>Status LED control block\<close>

definition RECOVERY_STATUS_LED_MAX :: nat where "RECOVERY_STATUS_LED_MAX = 8"
definition RECOVERY_GPIO_FLASH_DUTY_FULL :: u32 where "RECOVERY_GPIO_FLASH_DUTY_FULL = 255"
definition RECOVERY_STATUS_BRIGHTNESS_FP :: u32 where "RECOVERY_STATUS_BRIGHTNESS_FP = 256"
definition RECOVERY_STATUS_BREATHE_MIN_FP :: u32 where "RECOVERY_STATUS_BREATHE_MIN_FP = 64"
definition RECOVERY_STATUS_OVERLAP_FP :: u32 where "RECOVERY_STATUS_OVERLAP_FP = 2 * 256"
definition RECOVERY_STATUS_BREATHE_PERIOD_MS :: u64 where "RECOVERY_STATUS_BREATHE_PERIOD_MS = 1800"
definition RECOVERY_STATUS_BREATHE_HALF_MS :: u64 where
  "RECOVERY_STATUS_BREATHE_HALF_MS = RECOVERY_STATUS_BREATHE_PERIOD_MS div 2"
definition RECOVERY_STATUS_SWEEP_STEP_MS :: u64 where "RECOVERY_STATUS_SWEEP_STEP_MS = 700"
definition RECOVERY_STATUS_SW_PWM_PERIOD_MS :: u32 where "RECOVERY_STATUS_SW_PWM_PERIOD_MS = 20"
definition RECOVERY_STATUS_HW_PWM_UPDATE_MS :: u64 where "RECOVERY_STATUS_HW_PWM_UPDATE_MS = 40"
definition RECOVERY_STATUS_HW_PWM_PERIOD_TICKS :: u32 where "RECOVERY_STATUS_HW_PWM_PERIOD_TICKS = 1"
definition RECOVERY_GPIO_FLASH_MAP_BUCKET0 :: u32 where "RECOVERY_GPIO_FLASH_MAP_BUCKET0 = 0x88888888"

lemmas led_consts =
  RECOVERY_STATUS_LED_MAX_def RECOVERY_GPIO_FLASH_DUTY_FULL_def RECOVERY_STATUS_BRIGHTNESS_FP_def
  RECOVERY_STATUS_BREATHE_MIN_FP_def RECOVERY_STATUS_OVERLAP_FP_def
  RECOVERY_STATUS_BREATHE_PERIOD_MS_def RECOVERY_STATUS_BREATHE_HALF_MS_def
  RECOVERY_STATUS_SWEEP_STEP_MS_def RECOVERY_STATUS_SW_PWM_PERIOD_MS_def
  RECOVERY_STATUS_HW_PWM_UPDATE_MS_def RECOVERY_STATUS_HW_PWM_PERIOD_TICKS_def
  RECOVERY_GPIO_FLASH_MAP_BUCKET0_def

record gpio_pin =
  node :: "ofnode option"
  gpio :: u8
  last_on :: int
  active_low :: bool
  valid :: bool

text \<open>
  \<^verbatim>\<open>leds\<close> holds the used entries of the C array, so that \<^verbatim>\<open>led_count\<close> is its length; the unused
  tail of the array is zero and never read.
\<close>

record status_led_ctrl =
  leds :: "gpio_pin list"
  start_ms :: u64
  last_pwm_update :: u64
  pwm_mux_mask :: u32
  pwm_mux_mask_ext :: u32
  saved_pwm_duty :: u32
  saved_pwm_map0 :: u32
  saved_pwm_map1 :: u32
  saved_pwm_cycle :: u32
  pwm_active_low :: bool
  hw_pwm :: bool

abbreviation led_count :: "status_led_ctrl \<Rightarrow> nat" where
  "led_count ctrl \<equiv> length (leds ctrl)"

definition zero_pin :: gpio_pin where
  "zero_pin = \<lparr>node = None, gpio = 0, last_on = 0, active_low = False, valid = False\<rparr>"

definition zero_status_led_ctrl :: status_led_ctrl where
  "zero_status_led_ctrl =
    \<lparr>leds = [], start_ms = 0, last_pwm_update = 0, pwm_mux_mask = 0, pwm_mux_mask_ext = 0,
     saved_pwm_duty = 0, saved_pwm_map0 = 0, saved_pwm_map1 = 0, saved_pwm_cycle = 0,
     pwm_active_low = False, hw_pwm = False\<rparr>"

definition recovery_status_led_set :: "gpio_pin \<Rightarrow> bool \<Rightarrow> regs \<Rightarrow> gpio_pin \<times> regs" where
  "recovery_status_led_set pin on r =
    (if \<not> valid pin then (pin, r)
     else let on' = (if on then 1 else 0 :: int) in
       if last_on pin = on' then (pin, r)
       else (pin\<lparr>last_on := on'\<rparr>, recovery_gpio_set_value (gpio pin) (active_low pin) on r))"

definition recovery_gpio_pin_release :: "gpio_pin \<Rightarrow> gpio_pin" where
  "recovery_gpio_pin_release pin = (if \<not> valid pin then pin else zero_pin)"

section \<open>Finding the LEDs in the device tree\<close>

definition recovery_led_alias_node :: "fdt \<Rightarrow> string \<Rightarrow> ofnode option" where
  "recovery_led_alias_node dt alias =
    (case of_path dt ''/aliases'' of
       None \<Rightarrow> None
     | Some aliases \<Rightarrow>
         (case of_string dt aliases alias of
            None \<Rightarrow> None
          | Some path \<Rightarrow> of_path dt path))"

text \<open>\<^verbatim>\<open>GPIO_ACTIVE_LOW\<close> of the device tree bindings is bit 0 of the flags cell.\<close>

definition recovery_led_node_to_gpio :: "fdt \<Rightarrow> ofnode option \<Rightarrow> int \<times> gpio_pin" where
  "recovery_led_node_to_gpio dt n =
    (case n of
       None \<Rightarrow> (-ENOENT, zero_pin)
     | Some nd \<Rightarrow>
         (case of_phandle_args dt nd ''gpios'' ''#gpio-cells'' 0 of
            Inl ret \<Rightarrow> (ret, zero_pin)
          | Inr args \<Rightarrow>
              if length args < 1 then (-EINVAL, zero_pin)
              else (0, \<lparr>node = Some nd, gpio = ucast (args ! 0), last_on = -1,
                        active_low = (length args > 1 \<and> (args ! 1) AND 1 \<noteq> 0), valid = True\<rparr>)))"

definition recovery_status_led_add :: "status_led_ctrl \<Rightarrow> gpio_pin \<Rightarrow> status_led_ctrl" where
  "recovery_status_led_add ctrl pin =
    (if \<not> valid pin then ctrl
     else if list_ex (\<lambda>l. gpio l = gpio pin) (leds ctrl) then ctrl
     else if led_count ctrl \<ge> RECOVERY_STATUS_LED_MAX then ctrl
     else ctrl\<lparr>leds := leds ctrl @ [pin]\<rparr>)"

definition recovery_status_led_collect_alias ::
    "fdt \<Rightarrow> string \<Rightarrow> status_led_ctrl \<Rightarrow> status_led_ctrl" where
  "recovery_status_led_collect_alias dt alias ctrl =
    (let (ret, pin) = recovery_led_node_to_gpio dt (recovery_led_alias_node dt alias) in
     if ret = 0 then recovery_status_led_add ctrl pin else ctrl)"

definition recovery_status_led_request :: "gpio_pin \<Rightarrow> regs \<Rightarrow> (int \<times> gpio_pin \<times> regs) option" where
  "recovery_status_led_request pin r =
    do {
      r \<leftarrow> recovery_gpio_prepare_output (gpio pin) r;
      let r = recovery_gpio_set_value (gpio pin) (active_low pin) False r in
      Some (0, pin\<lparr>last_on := 0\<rparr>, r)
    }"

section \<open>Hardware PWM\<close>

definition recovery_status_led_hw_pwm_set :: "status_led_ctrl \<Rightarrow> u32 \<Rightarrow> regs \<Rightarrow> regs" where
  "recovery_status_led_hw_pwm_set ctrl brightness_fp r =
    (let high_ticks = (brightness_fp * RECOVERY_GPIO_FLASH_DUTY_FULL +
                       RECOVERY_STATUS_BRIGHTNESS_FP div 2) div RECOVERY_STATUS_BRIGHTNESS_FP;
         high_ticks = (if pwm_active_low ctrl then RECOVERY_GPIO_FLASH_DUTY_FULL - high_ticks
                       else high_ticks);
         v = (push_bit 8 (RECOVERY_GPIO_FLASH_DUTY_FULL - high_ticks)) OR high_ticks in
     recovery_clrsetbits_le32 (RECOVERY_GPIO_SYSCTL_BASE + RECOVERY_REG_GPIO_FLASH_PRD_SET0)
       0xffff v r)"

text \<open>The loop of the initialisation that collects the mux bits of the LEDs.\<close>

fun pwm_collect_masks :: "bool \<Rightarrow> gpio_pin list \<Rightarrow> status_led_ctrl \<Rightarrow> bool \<times> status_led_ctrl" where
  "pwm_collect_masks al [] ctrl = (True, ctrl)"
| "pwm_collect_masks al (l # ls) ctrl =
    (if active_low l \<noteq> al then (False, ctrl)
     else case recovery_gpio_flash_mode_bit (gpio l) of
       None \<Rightarrow> (False, ctrl)
     | Some (reg, msk) \<Rightarrow>
         pwm_collect_masks al ls
           (if reg = RECOVERY_GPIO_SYSCTL_BASE + RECOVERY_REG_GPIO_FLASH_MODE_CFG
            then ctrl\<lparr>pwm_mux_mask := pwm_mux_mask ctrl OR msk\<rparr>
            else ctrl\<lparr>pwm_mux_mask_ext := pwm_mux_mask_ext ctrl OR msk\<rparr>))"

definition recovery_status_led_hw_pwm_init ::
    "status_led_ctrl \<Rightarrow> regs \<Rightarrow> (int \<times> status_led_ctrl \<times> regs) option" where
  "recovery_status_led_hw_pwm_init ctrl r =
    do {
      led0 \<leftarrow> rd (leds ctrl) 0;
      let ctrl = ctrl\<lparr>pwm_active_low := active_low led0\<rparr>;
          (ok, ctrl) = pwm_collect_masks (pwm_active_low ctrl) (leds ctrl) ctrl in
      if \<not> ok then Some (-EOPNOTSUPP, ctrl, r)
      else
        let flash_mode = r (RECOVERY_GPIO_SYSCTL_BASE + RECOVERY_REG_GPIO_FLASH_MODE_CFG);
            flash_mode_ext = r (RECOVERY_GPIO_SYSCTL_BASE + RECOVERY_REG_GPIO_FLASH_MODE_CFG_EXT) in
        if flash_mode AND NOT (pwm_mux_mask ctrl) \<noteq> 0 \<or>
           flash_mode_ext AND NOT (pwm_mux_mask_ext ctrl) \<noteq> 0
        then Some (-EBUSY, ctrl, r)
        else
          let ctrl = ctrl
                \<lparr>saved_pwm_duty := r (RECOVERY_GPIO_SYSCTL_BASE + RECOVERY_REG_GPIO_FLASH_PRD_SET0),
                 saved_pwm_map0 := r (RECOVERY_GPIO_SYSCTL_BASE + RECOVERY_REG_GPIO_FLASH_MAP0),
                 saved_pwm_map1 := r (RECOVERY_GPIO_SYSCTL_BASE + RECOVERY_REG_GPIO_FLASH_MAP1),
                 saved_pwm_cycle := r (RECOVERY_GPIO_SYSCTL_BASE + RECOVERY_REG_CYCLE_CFG_VALUE0)\<rparr>;
              r = recovery_clrsetbits_le32
                    (RECOVERY_GPIO_SYSCTL_BASE + RECOVERY_REG_CYCLE_CFG_VALUE0) 0xff
                    RECOVERY_STATUS_HW_PWM_PERIOD_TICKS r;
              r = recovery_status_led_hw_pwm_set ctrl 0 r;
              r = r(RECOVERY_GPIO_SYSCTL_BASE + RECOVERY_REG_GPIO_FLASH_MAP0 :=
                      RECOVERY_GPIO_FLASH_MAP_BUCKET0);
              r = r(RECOVERY_GPIO_SYSCTL_BASE + RECOVERY_REG_GPIO_FLASH_MAP1 :=
                      RECOVERY_GPIO_FLASH_MAP_BUCKET0);
              r = recovery_clrsetbits_le32
                    (RECOVERY_GPIO_SYSCTL_BASE + RECOVERY_REG_GPIO_FLASH_MODE_CFG) 0
                    (pwm_mux_mask ctrl) r;
              r = recovery_clrsetbits_le32
                    (RECOVERY_GPIO_SYSCTL_BASE + RECOVERY_REG_GPIO_FLASH_MODE_CFG_EXT) 0
                    (pwm_mux_mask_ext ctrl) r in
          Some (0, ctrl\<lparr>hw_pwm := True\<rparr>, r)
    }"

text \<open>Set every LED of the list; with \<open>forget\<close> the cached level is first invalidated.\<close>

fun leds_off :: "bool \<Rightarrow> gpio_pin list \<Rightarrow> regs \<Rightarrow> gpio_pin list \<times> regs" where
  "leds_off forget [] r = ([], r)"
| "leds_off forget (l # ls) r =
    (let l = (if forget then l\<lparr>last_on := -1\<rparr> else l);
         (l, r) = recovery_status_led_set l False r;
         (ls, r) = leds_off forget ls r in
     (l # ls, r))"

definition recovery_status_led_hw_pwm_stop :: "status_led_ctrl \<Rightarrow> regs \<Rightarrow> status_led_ctrl \<times> regs" where
  "recovery_status_led_hw_pwm_stop ctrl r =
    (let r = recovery_status_led_hw_pwm_set ctrl 0 r;
         r = recovery_clrsetbits_le32
               (RECOVERY_GPIO_SYSCTL_BASE + RECOVERY_REG_GPIO_FLASH_MODE_CFG)
               (pwm_mux_mask ctrl) 0 r;
         r = recovery_clrsetbits_le32
               (RECOVERY_GPIO_SYSCTL_BASE + RECOVERY_REG_GPIO_FLASH_MODE_CFG_EXT)
               (pwm_mux_mask_ext ctrl) 0 r;
         r = r(RECOVERY_GPIO_SYSCTL_BASE + RECOVERY_REG_GPIO_FLASH_MAP0 := saved_pwm_map0 ctrl);
         r = r(RECOVERY_GPIO_SYSCTL_BASE + RECOVERY_REG_GPIO_FLASH_MAP1 := saved_pwm_map1 ctrl);
         r = r(RECOVERY_GPIO_SYSCTL_BASE + RECOVERY_REG_GPIO_FLASH_PRD_SET0 := saved_pwm_duty ctrl);
         r = r(RECOVERY_GPIO_SYSCTL_BASE + RECOVERY_REG_CYCLE_CFG_VALUE0 := saved_pwm_cycle ctrl);
         ctrl = ctrl\<lparr>hw_pwm := False\<rparr>;
         (ls, r) = leds_off True (leds ctrl) r in
     (ctrl\<lparr>leds := ls\<rparr>, r))"

section \<open>Set-up, polling and shutdown of the status LEDs\<close>

definition recovery_status_led_release :: "status_led_ctrl \<Rightarrow> status_led_ctrl" where
  "recovery_status_led_release ctrl =
    (let ctrl = ctrl\<lparr>leds := map recovery_gpio_pin_release (leds ctrl)\<rparr> in zero_status_led_ctrl)"

fun status_led_collect_nodes :: "fdt \<Rightarrow> ofnode list \<Rightarrow> status_led_ctrl \<Rightarrow> status_led_ctrl" where
  "status_led_collect_nodes dt [] ctrl = ctrl"
| "status_led_collect_nodes dt (nd # nds) ctrl =
    status_led_collect_nodes dt nds
      (if of_string dt nd ''function'' \<noteq> Some ''status'' then ctrl
       else let (ret, pin) = recovery_led_node_to_gpio dt (Some nd) in
         if ret = 0 then recovery_status_led_add ctrl pin else ctrl)"

text \<open>The request loop, with the compaction that drops the LEDs whose request failed.\<close>

fun status_led_request_all :: "gpio_pin list \<Rightarrow> regs \<Rightarrow> (gpio_pin list \<times> regs) option" where
  "status_led_request_all [] r = Some ([], r)"
| "status_led_request_all (p # ps) r =
    do {
      (ret, p, r) \<leftarrow> recovery_status_led_request p r;
      (ps, r) \<leftarrow> status_led_request_all ps r;
      Some (if ret \<noteq> 0 then ps else p # ps, r)
    }"

definition status_aliases :: "string list" where
  "status_aliases = [''led-boot'', ''led-running'', ''led-failsafe'', ''led-upgrade'']"

definition recovery_status_led_init ::
    "fdt \<Rightarrow> u64 \<Rightarrow> regs \<Rightarrow> (int \<times> status_led_ctrl \<times> regs) option" where
  "recovery_status_led_init dt now r =
    (let ctrl = zero_status_led_ctrl;
         ctrl = (case of_path dt ''/leds'' of
                   None \<Rightarrow> ctrl
                 | Some n \<Rightarrow> status_led_collect_nodes dt (of_subnodes dt n) ctrl);
         ctrl = fold (recovery_status_led_collect_alias dt) status_aliases ctrl in
     if led_count ctrl = 0 then Some (-ENOENT, ctrl, r)
     else do {
       (ls, r) \<leftarrow> status_led_request_all (leds ctrl) r;
       let ctrl = ctrl\<lparr>leds := ls\<rparr> in
       if led_count ctrl = 0 then Some (-ENODEV, recovery_status_led_release ctrl, r)
       else let ctrl = ctrl\<lparr>start_ms := now\<rparr> in
         if led_count ctrl = 1 then
           do {
             (pwm_ret, ctrl, r) \<leftarrow> recovery_status_led_hw_pwm_init ctrl r;
             Some (0, ctrl, r)
           }
         else Some (0, ctrl, r)
     })"

definition recovery_status_led_breath_fp :: "u64 \<Rightarrow> u32" where
  "recovery_status_led_breath_fp elapsed =
    (let phase = elapsed mod RECOVERY_STATUS_BREATHE_PERIOD_MS;
         ramp = (if phase < RECOVERY_STATUS_BREATHE_HALF_MS then phase
                 else RECOVERY_STATUS_BREATHE_PERIOD_MS - phase);
         delta = RECOVERY_STATUS_BRIGHTNESS_FP - RECOVERY_STATUS_BREATHE_MIN_FP in
     ucast (ucast RECOVERY_STATUS_BREATHE_MIN_FP +
       (ucast delta * ramp * ramp +
        (RECOVERY_STATUS_BREATHE_HALF_MS * RECOVERY_STATUS_BREATHE_HALF_MS) div 2) div
       (RECOVERY_STATUS_BREATHE_HALF_MS * RECOVERY_STATUS_BREATHE_HALF_MS) :: u64))"

text \<open>The \<^verbatim>\<open>int\<close> products with \<^verbatim>\<open>span\<close> are at most \<open>2 * 7 * 700\<close> and so equal to those in 64 bits.\<close>

definition recovery_status_led_position_fp :: "status_led_ctrl \<Rightarrow> u64 \<Rightarrow> u64" where
  "recovery_status_led_position_fp ctrl elapsed =
    (if led_count ctrl \<le> 1 then 0
     else
       let span = of_nat (led_count ctrl - 1) :: u64;
           range_fp = span * ucast RECOVERY_STATUS_BRIGHTNESS_FP;
           phase = elapsed mod (2 * span * RECOVERY_STATUS_SWEEP_STEP_MS) in
       if phase \<le> span * RECOVERY_STATUS_SWEEP_STEP_MS then
         phase * ucast RECOVERY_STATUS_BRIGHTNESS_FP div RECOVERY_STATUS_SWEEP_STEP_MS
       else
         let phase = phase - span * RECOVERY_STATUS_SWEEP_STEP_MS in
         range_fp - (phase * ucast RECOVERY_STATUS_BRIGHTNESS_FP div RECOVERY_STATUS_SWEEP_STEP_MS))"

definition recovery_status_led_brightness_fp :: "status_led_ctrl \<Rightarrow> nat \<Rightarrow> u64 \<Rightarrow> u32" where
  "recovery_status_led_brightness_fp ctrl idx elapsed =
    (let center_fp = recovery_status_led_position_fp ctrl elapsed;
         led_pos_fp = of_nat idx * ucast RECOVERY_STATUS_BRIGHTNESS_FP :: u64;
         dist_fp = ucast (if center_fp > led_pos_fp then center_fp - led_pos_fp
                          else led_pos_fp - center_fp) :: u32 in
     if dist_fp \<ge> RECOVERY_STATUS_OVERLAP_FP then 0
     else
       let weight_fp = (RECOVERY_STATUS_OVERLAP_FP - dist_fp) * RECOVERY_STATUS_BRIGHTNESS_FP div
                       RECOVERY_STATUS_OVERLAP_FP;
           weight_fp = weight_fp * weight_fp div RECOVERY_STATUS_BRIGHTNESS_FP;
           breath_fp = recovery_status_led_breath_fp elapsed;
           pwm_phase = ucast (weight_fp * breath_fp) :: u64;
           pwm_phase = (pwm_phase + ucast (RECOVERY_STATUS_BRIGHTNESS_FP div 2)) div
                       ucast RECOVERY_STATUS_BRIGHTNESS_FP in
       ucast pwm_phase)"

definition status_led_duty_ms :: "u32 \<Rightarrow> u32" where
  "status_led_duty_ms brightness_fp =
    (brightness_fp * RECOVERY_STATUS_SW_PWM_PERIOD_MS + RECOVERY_STATUS_BRIGHTNESS_FP div 2) div
    RECOVERY_STATUS_BRIGHTNESS_FP"

fun status_led_poll_from ::
    "status_led_ctrl \<Rightarrow> u64 \<Rightarrow> u64 \<Rightarrow> nat \<Rightarrow> gpio_pin list \<Rightarrow> regs \<Rightarrow> gpio_pin list \<times> regs" where
  "status_led_poll_from ctrl elapsed pwm_phase i [] r = ([], r)"
| "status_led_poll_from ctrl elapsed pwm_phase i (l # ls) r =
    (let duty_ms = status_led_duty_ms (recovery_status_led_brightness_fp ctrl i elapsed);
         (l, r) = recovery_status_led_set l (duty_ms \<noteq> 0 \<and> pwm_phase < ucast duty_ms) r;
         (ls, r) = status_led_poll_from ctrl elapsed pwm_phase (Suc i) ls r in
     (l # ls, r))"

definition recovery_status_led_poll ::
    "u64 \<Rightarrow> status_led_ctrl \<Rightarrow> regs \<Rightarrow> status_led_ctrl \<times> regs" where
  "recovery_status_led_poll now ctrl r =
    (if led_count ctrl = 0 then (ctrl, r)
     else
       let elapsed = now - start_ms ctrl in
       if hw_pwm ctrl then
         if last_pwm_update ctrl \<noteq> 0 \<and>
            now - last_pwm_update ctrl < RECOVERY_STATUS_HW_PWM_UPDATE_MS
         then (ctrl, r)
         else
           let ctrl = ctrl\<lparr>last_pwm_update := now\<rparr> in
           (ctrl, recovery_status_led_hw_pwm_set ctrl (recovery_status_led_breath_fp elapsed) r)
       else
         let pwm_phase = elapsed mod ucast RECOVERY_STATUS_SW_PWM_PERIOD_MS;
             (ls, r) = status_led_poll_from ctrl elapsed pwm_phase 0 (leds ctrl) r in
         (ctrl\<lparr>leds := ls\<rparr>, r))"

definition recovery_status_led_service ::
    "u64 \<Rightarrow> status_led_ctrl \<Rightarrow> regs \<Rightarrow> status_led_ctrl \<times> regs" where
  "recovery_status_led_service now arg r = recovery_status_led_poll now arg r"

definition recovery_status_led_stop :: "status_led_ctrl \<Rightarrow> regs \<Rightarrow> status_led_ctrl \<times> regs" where
  "recovery_status_led_stop ctrl r =
    (if led_count ctrl = 0 then (ctrl, r)
     else if hw_pwm ctrl then recovery_status_led_hw_pwm_stop ctrl r
     else
       let (ls, r) = leds_off False (leds ctrl) r in
       (ctrl\<lparr>leds := ls\<rparr>, r))"

section \<open>Link LEDs\<close>

definition RECOVERY_LED_MAX_PORTS :: nat where "RECOVERY_LED_MAX_PORTS = 2"
definition RECOVERY_LED_POLL_MS :: u64 where "RECOVERY_LED_POLL_MS = 100"
definition RECOVERY_LED_PHY_POLL_MS :: u64 where "RECOVERY_LED_PHY_POLL_MS = 500"
definition RECOVERY_LED_MDIO_BACKOFF_MS :: u64 where "RECOVERY_LED_MDIO_BACKOFF_MS = 5000"
definition RECOVERY_LED_ACTIVITY_MS :: u64 where "RECOVERY_LED_ACTIVITY_MS = 350"
definition RECOVERY_LED_BLINK_MS :: u64 where "RECOVERY_LED_BLINK_MS = 100"

text \<open>The file-scope variables of the link LEDs.\<close>

record led_globals =
  recovery_led_phy_addrs :: "int list"
  recovery_green_led_gpios :: "u8 list"
  recovery_yellow_led_gpios :: "u8 list"
  recovery_led_port_count :: nat
  recovery_led_gpios_loaded :: bool
  recovery_lan_led_available :: bool

definition initial_led_globals :: led_globals where
  "initial_led_globals =
    \<lparr>recovery_led_phy_addrs = [12, 12], recovery_green_led_gpios = [46, 46],
     recovery_yellow_led_gpios = [42, 42], recovery_led_port_count = 0,
     recovery_led_gpios_loaded = False, recovery_lan_led_available = False\<rparr>"

record led_ctrl =
  mdio_dev :: bool
  last_poll :: u64
  last_phy_poll :: u64
  last_mdio_error :: u64
  mdio_fault :: bool
  speed :: "int list"

definition zero_led_ctrl :: led_ctrl where
  "zero_led_ctrl =
    \<lparr>mdio_dev = False, last_poll = 0, last_phy_poll = 0, last_mdio_error = 0, mdio_fault = False,
     speed = replicate RECOVERY_LED_MAX_PORTS 0\<rparr>"

definition recovery_led_ctrl_free :: "led_ctrl \<Rightarrow> led_ctrl" where
  "recovery_led_ctrl_free ctrl = zero_led_ctrl"

fun led_parse_gpios :: "fdt \<Rightarrow> ofnode \<Rightarrow> string \<Rightarrow> nat list \<Rightarrow> u8 list" where
  "led_parse_gpios dt root propname [] = []"
| "led_parse_gpios dt root propname (i # is) =
    (case of_phandle_args dt root propname ''#gpio-cells'' i of
       Inl _ \<Rightarrow> []
     | Inr args \<Rightarrow>
         if length args < 1 then [] else ucast (args ! 0) # led_parse_gpios dt root propname is)"

definition recovery_led_load_gpios :: "fdt \<Rightarrow> led_globals \<Rightarrow> led_globals" where
  "recovery_led_load_gpios dt g =
    (if recovery_led_gpios_loaded g then g
     else
       let g = g\<lparr>recovery_led_gpios_loaded := True, recovery_led_port_count := 0\<rparr> in
       case of_path dt ''/'' of
         None \<Rightarrow> g
       | Some root \<Rightarrow>
           let green = led_parse_gpios dt root ''recovery-green-led-gpios'' [0..<RECOVERY_LED_MAX_PORTS];
               yellow = led_parse_gpios dt root ''recovery-yellow-led-gpios'' [0..<RECOVERY_LED_MAX_PORTS] in
           if length green = 0 \<or> length green \<noteq> length yellow then g
           else
             let g = g\<lparr>recovery_green_led_gpios := overwrite 0 green (recovery_green_led_gpios g),
                        recovery_yellow_led_gpios := overwrite 0 yellow (recovery_yellow_led_gpios g)\<rparr>;
                 g = (if of_compatible dt ''gemtek,xr1710g'' \<or> of_compatible dt ''gemtek,xr1710g-ubi''
                      then g\<lparr>recovery_led_phy_addrs := (recovery_led_phy_addrs g)[0 := 9, 1 := 10]\<rparr>
                      else g) in
             g\<lparr>recovery_led_port_count := length green, recovery_lan_led_available := True\<rparr>)"

text \<open>One pass over the ports, driving the green and the yellow pin of each.\<close>

fun led_drive_ports :: "(nat \<Rightarrow> bool) \<Rightarrow> (nat \<Rightarrow> bool) \<Rightarrow> led_globals \<Rightarrow> nat list \<Rightarrow> regs \<Rightarrow> regs" where
  "led_drive_ports gr ye g [] r = r"
| "led_drive_ports gr ye g (i # is) r =
    led_drive_ports gr ye g is
      (recovery_led_set_pin (recovery_yellow_led_gpios g ! i) (ye i)
        (recovery_led_set_pin (recovery_green_led_gpios g ! i) (gr i) r))"

definition recovery_led_stop :: "fdt \<Rightarrow> led_globals \<Rightarrow> regs \<Rightarrow> led_globals \<times> regs" where
  "recovery_led_stop dt g r =
    (let g = recovery_led_load_gpios dt g in
     if \<not> recovery_lan_led_available g then (g, r)
     else (g, led_drive_ports (\<lambda>_. False) (\<lambda>_. False) g [0..<recovery_led_port_count g] r))"

fun led_prepare_ports :: "led_globals \<Rightarrow> nat list \<Rightarrow> regs \<Rightarrow> regs option" where
  "led_prepare_ports g [] r = Some r"
| "led_prepare_ports g (i # is) r =
    do {
      r \<leftarrow> recovery_gpio_prepare_output (recovery_green_led_gpios g ! i) r;
      r \<leftarrow> recovery_gpio_prepare_output (recovery_yellow_led_gpios g ! i) r;
      let r = recovery_led_set_pin (recovery_green_led_gpios g ! i) False r;
          r = recovery_led_set_pin (recovery_yellow_led_gpios g ! i) False r in
      led_prepare_ports g is r
    }"

text \<open>\<open>get_mdio\<close> is the outcome of \<^verbatim>\<open>uclass_get_device_by_ofnode\<close> for the MDIO node.\<close>

definition recovery_led_init ::
    "fdt \<Rightarrow> (ofnode \<Rightarrow> int) \<Rightarrow> led_globals \<Rightarrow> regs \<Rightarrow> (int \<times> led_ctrl \<times> led_globals \<times> regs) option" where
  "recovery_led_init dt get_mdio g r =
    (let ctrl = zero_led_ctrl; g = recovery_led_load_gpios dt g in
     if \<not> recovery_lan_led_available g then Some (0, ctrl, g, r)
     else
       let r = recovery_clrsetbits_le32 (RECOVERY_CHIP_SCU_BASE + RECOVERY_REG_GPIO_2ND_I2C_MODE)
                 (BIT 3 OR BIT 4 OR BIT 5 OR BIT 6) 0 r in
       do {
         r \<leftarrow> led_prepare_ports g [0..<recovery_led_port_count g] r;
         case of_path dt ''/soc/switch@1fb58000/mdio'' of
           None \<Rightarrow> Some (0, ctrl, g, r)
         | Some n \<Rightarrow> Some (0, ctrl\<lparr>mdio_dev := (get_mdio n = 0)\<rparr>, g, r)
       })"

definition SPEED_10 :: int where "SPEED_10 = 10"
definition SPEED_100 :: int where "SPEED_100 = 100"
definition SPEED_1000 :: int where "SPEED_1000 = 1000"

text \<open>
  \<open>rdm\<close> is \<^verbatim>\<open>dm_mdio_read\<close> on the bus state: PHY address and register to a value or a negative
  error. The registers are those of \<^verbatim>\<open>include/linux/mii.h\<close>: \<^verbatim>\<open>BMCR\<close> 0, \<^verbatim>\<open>BMSR\<close> 1, \<^verbatim>\<open>ADVERTISE\<close> 4,
  \<^verbatim>\<open>LPA\<close> 5, \<^verbatim>\<open>CTRL1000\<close> 9, \<^verbatim>\<open>STAT1000\<close> 10.
\<close>

definition recovery_led_phy_speed ::
    "('m \<Rightarrow> int \<Rightarrow> nat \<Rightarrow> int \<times> 'm) \<Rightarrow> led_globals \<Rightarrow> led_ctrl \<Rightarrow> nat \<Rightarrow> 'm \<Rightarrow> int \<times> 'm" where
  "recovery_led_phy_speed rdm g ctrl idx m =
    (if \<not> mdio_dev ctrl \<or> idx \<ge> recovery_led_port_count g \<or> idx \<ge> length (recovery_led_phy_addrs g)
     then (0, m)
     else
       let a = recovery_led_phy_addrs g ! idx;
           (bmsr, m) = rdm m a 1 in
       if bmsr < 0 then (bmsr, m) else
       let (bmsr, m) = rdm m a 1 in
       if bmsr < 0 then (bmsr, m) else
       if bmsr AND 0x0004 = 0 then (0, m) else
       let (bmcr, m) = rdm m a 0 in
       if bmcr < 0 then (bmcr, m) else
       if bmcr AND 0x1000 = 0 then
         (if bmcr AND 0x0040 \<noteq> 0 then (SPEED_1000, m)
          else if bmcr AND 0x2000 \<noteq> 0 then (SPEED_100, m)
          else (SPEED_10, m))
       else
       let (stat1000, m) = rdm m a 10; (ctrl1000, m) = rdm m a 9 in
       if stat1000 < 0 \<or> ctrl1000 < 0 then (if stat1000 < 0 then stat1000 else ctrl1000, m) else
       if (stat1000 AND push_bit 2 ctrl1000) AND (0x0800 OR 0x0400) \<noteq> 0 then (SPEED_1000, m) else
       let (lpa, m) = rdm m a 4 in
       if lpa < 0 then (lpa, m) else
       let (bmsr, m) = rdm m a 5 in
       if bmsr < 0 then (bmsr, m) else
       if (lpa AND bmsr) AND (0x0100 OR 0x0080) \<noteq> 0 then (SPEED_100, m)
       else (SPEED_10, m))"

text \<open>The PHY loop of the poll; it ends at the first port whose PHY cannot be read.\<close>

fun led_poll_phys ::
    "('m \<Rightarrow> int \<Rightarrow> nat \<Rightarrow> int \<times> 'm) \<Rightarrow> led_globals \<Rightarrow> u64 \<Rightarrow> nat list \<Rightarrow> led_ctrl \<Rightarrow> 'm \<Rightarrow> led_ctrl \<times> 'm" where
  "led_poll_phys rdm g now [] ctrl m = (ctrl\<lparr>mdio_fault := False\<rparr>, m)"
| "led_poll_phys rdm g now (i # is) ctrl m =
    (let (sp, m) = recovery_led_phy_speed rdm g ctrl i m in
     if sp < 0 then (ctrl\<lparr>last_mdio_error := now, mdio_fault := True\<rparr>, m)
     else led_poll_phys rdm g now is (ctrl\<lparr>speed := (speed ctrl)[i := sp]\<rparr>) m)"

text \<open>
  \<open>now\<close> and \<open>now2\<close> are the two clock readings of one poll (the second only taken after an MDIO
  fault); \<open>activity_ms\<close> is the time of the last packet seen from the LAN.
\<close>

definition recovery_led_poll ::
    "('m \<Rightarrow> int \<Rightarrow> nat \<Rightarrow> int \<times> 'm) \<Rightarrow> u64 \<Rightarrow> u64 \<Rightarrow> u64 \<Rightarrow> led_globals \<Rightarrow> led_ctrl \<Rightarrow> regs \<Rightarrow> 'm \<Rightarrow>
      led_ctrl \<times> regs \<times> 'm" where
  "recovery_led_poll rdm now now2 activity_ms g ctrl r m =
    (if \<not> recovery_lan_led_available g then (ctrl, r, m)
     else if last_poll ctrl \<noteq> 0 \<and> now - last_poll ctrl < RECOVERY_LED_POLL_MS then (ctrl, r, m)
     else
       let ctrl = ctrl\<lparr>last_poll := now\<rparr>;
           poll_phys = (last_phy_poll ctrl = 0 \<or> now - last_phy_poll ctrl \<ge> RECOVERY_LED_PHY_POLL_MS);
           poll_phys = (if mdio_fault ctrl \<and> now2 - last_mdio_error ctrl < RECOVERY_LED_MDIO_BACKOFF_MS
                        then False else poll_phys);
           (ctrl, m) = (if poll_phys
                        then led_poll_phys rdm g now [0..<recovery_led_port_count g]
                               (ctrl\<lparr>last_phy_poll := now\<rparr>) m
                        else (ctrl, m));
           activity = (activity_ms \<noteq> 0 \<and> now - activity_ms \<le> RECOVERY_LED_ACTIVITY_MS);
           blink_on = (\<not> activity \<or> (now div RECOVERY_LED_BLINK_MS) AND 1 \<noteq> 0) in
       (ctrl,
        led_drive_ports (\<lambda>i. speed ctrl ! i = SPEED_1000 \<and> blink_on)
          (\<lambda>i. (speed ctrl ! i = SPEED_10 \<or> speed ctrl ! i = SPEED_100) \<and> blink_on)
          g [0..<recovery_led_port_count g] r,
        m))"

section \<open>Brightness arithmetic\<close>

text \<open>The intended brightness curves, on unbounded natural numbers of milliseconds.\<close>

definition breath_spec :: "nat \<Rightarrow> nat" where
  "breath_spec t =
    (let ramp = min (t mod 1800) (1800 - t mod 1800) in 64 + (192 * ramp\<^sup>2 + 405000) div 810000)"

definition position_spec :: "nat \<Rightarrow> nat \<Rightarrow> nat" where
  "position_spec n t =
    (let span = n - 1; phase = t mod (2 * span * 700) in
     if n \<le> 1 then 0
     else if phase \<le> span * 700 then phase * 256 div 700
     else span * 256 - (phase - span * 700) * 256 div 700)"

definition brightness_spec :: "nat \<Rightarrow> nat \<Rightarrow> nat \<Rightarrow> nat" where
  "brightness_spec n i t =
    (let pos = position_spec n t; d = (if pos > i * 256 then pos - i * 256 else i * 256 - pos);
         w = (512 - d) * 256 div 512 in
     if d \<ge> 512 then 0 else (w * w div 256 * breath_spec t + 128) div 256)"

lemma breath_spec_bounds: "64 \<le> breath_spec t" "breath_spec t \<le> 256"
proof -
  define ramp where "ramp = min (t mod 1800) (1800 - t mod 1800)"
  have "ramp \<le> 900" unfolding ramp_def by (simp add: min_def) linarith
  then have "ramp\<^sup>2 \<le> 900\<^sup>2" by (intro power_mono) simp_all
  then have "(192 * ramp\<^sup>2 + 405000) div 810000 \<le> (192 * 810000 + 405000) div 810000"
    by (intro div_le_mono) simp
  then show "breath_spec t \<le> 256" "64 \<le> breath_spec t"
    by (simp_all add: breath_spec_def ramp_def Let_def)
qed

lemma unat_mult_small:
  "unat (a :: 'a::len word) * unat b < 2 ^ LENGTH('a) \<Longrightarrow> unat (a * b) = unat a * unat b"
  by (simp add: unat_mult_lem)

lemma unat_add_small:
  "unat (a :: 'a::len word) + unat b < 2 ^ LENGTH('a) \<Longrightarrow> unat (a + b) = unat a + unat b"
  by (simp add: unat_add_lem)

lemma unat_sub_small: "unat b \<le> unat a \<Longrightarrow> unat (a - b) = unat a - unat (b :: 'a::len word)"
  by (simp add: unat_sub word_le_nat_alt)

lemma breath_fp_correct: "unat (recovery_status_led_breath_fp e) = breath_spec (unat e)"
proof -
  define p where "p = unat e mod 1800"
  define ramp where "ramp = min p (1800 - p)"
  have p: "p < 1800" by (simp add: p_def)
  have up: "unat (e mod 1800) = p" by (simp add: p_def unat_mod_distrib)
  define rw where "rw = (if e mod 1800 < 900 then e mod 1800 else 1800 - e mod 1800)"
  have ur: "unat rw = ramp"
    using p up by (auto simp: rw_def ramp_def word_less_nat_alt unat_sub_small min_def)
  have rb: "ramp \<le> 900" using p by (auto simp: ramp_def)
  have r2: "ramp * ramp \<le> 900 * 900" using rb by (intro mult_le_mono)
  have m1: "unat (192 * rw) = 192 * ramp" using rb ur by (simp add: unat_mult_small)
  have m2: "unat (192 * rw * rw) = 192 * ramp * ramp"
    using m1 ur r2 by (subst unat_mult_small) simp_all
  have m3: "unat (192 * rw * rw + 405000) = 192 * ramp * ramp + 405000"
    using m2 r2 by (subst unat_add_small) simp_all
  have m4: "unat ((192 * rw * rw + 405000) div 810000) = (192 * ramp * ramp + 405000) div 810000"
    using m3 by (simp add: unat_div_distrib)
  have b: "64 + (192 * ramp * ramp + 405000) div 810000 = breath_spec (unat e)"
    by (simp add: breath_spec_def ramp_def p_def Let_def power2_eq_square mult.assoc)
  have m5: "unat (64 + (192 * rw * rw + 405000) div 810000) = breath_spec (unat e)"
    using m4 b breath_spec_bounds(2) [of "unat e"] by (subst unat_add_small) simp_all
  have "recovery_status_led_breath_fp e = ucast (64 + (192 * rw * rw + 405000) div 810000)"
    by (simp add: recovery_status_led_breath_fp_def led_consts rw_def Let_def)
  then show ?thesis
    using m5 breath_spec_bounds(2) [of "unat e"]
    by (simp add: unsigned_ucast_eq take_bit_nat_eq_self_iff)
qed

lemma position_spec_le: "position_spec n t \<le> (n - 1) * 256"
proof (cases "n \<le> 1")
  case False
  have "p * 256 div 700 \<le> (n - 1) * 256" if "p \<le> (n - 1) * 700" for p
    using that div_le_mono [of "p * 256" "(n - 1) * 256 * 700" 700] by simp
  then show ?thesis using False by (auto simp: position_spec_def Let_def)
qed (simp add: position_spec_def Let_def)

lemma position_fp_correct:
  assumes "led_count c \<le> 8"
  shows "unat (recovery_status_led_position_fp c e) = position_spec (led_count c) (unat e)"
proof (cases "led_count c \<le> 1")
  case False
  define s where "s = led_count c - 1"
  have s: "1 \<le> s" "s \<le> 7" using assms False by (auto simp: s_def)
  define sw where "sw = (of_nat s :: u64)"
  have usw: "unat sw = s" using s by (simp add: sw_def unat_of_nat_small)
  have u7: "unat (sw * 700) = s * 700" using usw s by (simp add: unat_mult_small)
  have u2: "unat (2 * sw * 700) = 2 * s * 700"
  proof -
    have "unat (2 * sw) = 2 * s" using usw s by (simp add: unat_mult_small)
    then show ?thesis using s by (subst unat_mult_small) simp_all
  qed
  define ph where "ph = e mod (2 * sw * 700)"
  define p where "p = unat e mod (2 * s * 700)"
  have uph: "unat ph = p" using u2 by (simp add: ph_def p_def unat_mod_distrib)
  have pb: "p < 2 * s * 700" using s by (simp add: p_def)
  have p256: "unat (x * 256 div 700) = unat x * 256 div 700" if "unat x < 14000" for x :: u64
    using that by (simp add: unat_div_distrib unat_mult_small)
  have u256: "unat (sw * 256) = s * 256" using usw s by (simp add: unat_mult_small)
  have upd: "unat (ph - sw * 700) = p - s * 700" if "\<not> p \<le> s * 700"
    using that uph u7 by (simp add: unat_sub_small)
  have le: "(p - s * 700) * 256 div 700 \<le> s * 256"
    using pb div_le_mono [of "(p - s * 700) * 256" "s * 256 * 700" 700] by simp
  have "recovery_status_led_position_fp c e =
      (if ph \<le> sw * 700 then ph * 256 div 700 else sw * 256 - ((ph - sw * 700) * 256 div 700))"
    using False by (simp add: recovery_status_led_position_fp_def led_consts Let_def ph_def sw_def s_def)
  moreover have "position_spec (led_count c) (unat e) =
      (if p \<le> s * 700 then p * 256 div 700 else s * 256 - (p - s * 700) * 256 div 700)"
    using False by (simp add: position_spec_def Let_def p_def s_def)
  moreover have "ph \<le> sw * 700 \<longleftrightarrow> p \<le> s * 700" by (simp add: word_le_nat_alt uph u7)
  ultimately show ?thesis
    using uph u256 upd le pb s p256 [of ph] p256 [of "ph - sw * 700"] by (simp add: unat_sub_small)
qed (simp add: recovery_status_led_position_fp_def position_spec_def Let_def)

lemma brightness_fp_correct:
  assumes "led_count c \<le> 8" "i < 8"
  shows "unat (recovery_status_led_brightness_fp c i e) = brightness_spec (led_count c) i (unat e)
    \<and> brightness_spec (led_count c) i (unat e) \<le> 256"
proof -
  define q where "q = recovery_status_led_position_fp c e"
  define pos where "pos = position_spec (led_count c) (unat e)"
  have uq: "unat q = pos" using position_fp_correct [OF assms(1)] by (simp add: q_def pos_def)
  have "pos \<le> (led_count c - 1) * 256" unfolding pos_def by (rule position_spec_le)
  then have posb: "pos \<le> 1792" using assms(1) by linarith
  define l where "l = (of_nat i * 256 :: u64)"
  have ul: "unat l = i * 256"
    using assms(2) by (simp add: l_def unat_mult_small unat_of_nat_small)
  define d where "d = (if pos > i * 256 then pos - i * 256 else i * 256 - pos)"
  have db: "d \<le> 1792" using posb assms(2) by (auto simp: d_def)
  have ud: "unat (if q > l then q - l else l - q) = d"
    by (auto simp: d_def word_less_nat_alt uq ul unat_sub_small)
  define dw where "dw = (ucast (if q > l then q - l else l - q) :: u32)"
  have udw: "unat dw = d"
    using ud db by (simp add: dw_def unsigned_ucast_eq take_bit_nat_eq_self_iff)
  show ?thesis
  proof (cases "d \<ge> 512")
    case True
    then show ?thesis
      using udw by (simp add: recovery_status_led_brightness_fp_def led_consts Let_def brightness_spec_def
          word_le_nat_alt flip: q_def l_def dw_def pos_def d_def)
  next
    case False
    define w where "w = (512 - d) * 256 div 512"
    define b where "b = breath_spec (unat e)"
    have bb: "b \<le> 256" by (simp add: b_def breath_spec_bounds)
    have "w \<le> 512 * 256 div 512" unfolding w_def by (intro div_le_mono) simp
    then have wb: "w \<le> 256" by simp
    have ww: "w * w \<le> 256 * 256" using wb by (intro mult_le_mono)
    define w2 where "w2 = w * w div 256"
    have "w2 \<le> 256 * 256 div 256" unfolding w2_def by (intro div_le_mono ww)
    then have w2b: "w2 \<le> 256" by simp
    have w2bb: "w2 * b \<le> 256 * 256" using w2b bb by (intro mult_le_mono)
    have rb: "(w2 * b + 128) div 256 \<le> 256"
      using w2bb div_le_mono [of "w2 * b + 128" "256 * 256 + 128" 256] by simp
    have u1: "unat ((512 - dw) * 256 div 512) = w"
      using False udw by (simp add: w_def unat_div_distrib unat_mult_small unat_sub_small)
    define w2w where "w2w = (512 - dw) * 256 div 512 * ((512 - dw) * 256 div 512) div 256"
    have u2: "unat w2w = w2"
      using u1 ww by (simp add: w2_def w2w_def unat_div_distrib unat_mult_small)
    have u3: "unat (w2w * recovery_status_led_breath_fp e) = w2 * b"
      using u2 w2bb by (simp add: unat_mult_small breath_fp_correct b_def)
    have "unat (ucast (w2w * recovery_status_led_breath_fp e) :: u64) = w2 * b"
      using u3 w2bb by (simp add: unsigned_ucast_eq take_bit_nat_eq_self_iff)
    then have "unat (ucast (w2w * recovery_status_led_breath_fp e) + 128 :: u64) = w2 * b + 128"
      using w2bb by (subst unat_add_small) simp_all
    then have u4: "unat ((ucast (w2w * recovery_status_led_breath_fp e) + 128 :: u64) div 256)
      = (w2 * b + 128) div 256"
      by (simp add: unat_div_distrib)
    have "recovery_status_led_brightness_fp c i e =
        ucast ((ucast (w2w * recovery_status_led_breath_fp e) + 128 :: u64) div 256)"
      using False udw by (simp add: recovery_status_led_brightness_fp_def led_consts Let_def
          word_le_nat_alt w2w_def flip: q_def l_def dw_def)
    moreover have "brightness_spec (led_count c) i (unat e) = (w2 * b + 128) div 256"
      using False by (simp add: brightness_spec_def Let_def w2_def w_def b_def flip: pos_def d_def)
    ultimately show ?thesis
      using u4 rb by (simp add: unsigned_ucast_eq take_bit_nat_eq_self_iff)
  qed
qed

lemma hw_pwm_set_frame:
  "a \<noteq> RECOVERY_GPIO_SYSCTL_BASE + RECOVERY_REG_GPIO_FLASH_PRD_SET0 \<Longrightarrow>
    recovery_status_led_hw_pwm_set c b r a = r a"
  by (simp add: recovery_status_led_hw_pwm_set_def recovery_clrsetbits_le32_def Let_def)

text \<open>
  The PWM register value for a brightness of at most 256: the high and the low time always add
  up to the full duty.
\<close>

lemma hw_pwm_set_value:
  assumes "unat b \<le> 256"
  shows "\<exists>h. unat h \<le> 255 \<and>
    recovery_status_led_hw_pwm_set c b r (RECOVERY_GPIO_SYSCTL_BASE + RECOVERY_REG_GPIO_FLASH_PRD_SET0) =
      (r (RECOVERY_GPIO_SYSCTL_BASE + RECOVERY_REG_GPIO_FLASH_PRD_SET0) AND NOT 0xffff) OR
      (push_bit 8 (255 - h) OR h) \<and>
    unat h = (let n = (unat b * 255 + 128) div 256 in if pwm_active_low c then 255 - n else n)"
proof -
  define h0 where "h0 = (b * 255 + 128) div 256"
  have u: "unat h0 = (unat b * 255 + 128) div 256"
    using assms by (simp add: h0_def unat_div_distrib unat_add_small unat_mult_small)
  have "(unat b * 255 + 128) div 256 \<le> (256 * 255 + 128) div 256"
    using assms by (intro div_le_mono) simp
  then have ub: "unat h0 \<le> 255" using u by simp
  define h where "h = (if pwm_active_low c then 255 - h0 else h0)"
  have "unat h = (if pwm_active_low c then 255 - unat h0 else unat h0)"
    using ub by (simp add: h_def unat_sub_small)
  then show ?thesis
    using ub u
    by (intro exI [of _ h])
       (simp add: recovery_status_led_hw_pwm_set_def recovery_clrsetbits_le32_def Let_def led_consts
          h_def h0_def)
qed

lemma duty_ms_bound:
  assumes "unat b \<le> 256" shows "unat (status_led_duty_ms b) = (unat b * 20 + 128) div 256"
    and "unat (status_led_duty_ms b) \<le> 20"
proof -
  show e: "unat (status_led_duty_ms b) = (unat b * 20 + 128) div 256"
    using assms
    by (simp add: status_led_duty_ms_def led_consts unat_div_distrib unat_add_small unat_mult_small)
  have "(unat b * 20 + 128) div 256 \<le> (256 * 20 + 128) div 256"
    using assms by (intro div_le_mono) simp
  then show "unat (status_led_duty_ms b) \<le> 20" using e by simp
qed

text \<open>
  C29: for every number of status LEDs the control block can hold and every clock value, the
  fixed-point brightness of an LED computed in 32- and 64-bit unsigned arithmetic is the intended
  sweep-and-breathe curve of unbounded arithmetic, never exceeds full brightness, gives a software
  PWM duty of at most the 20 ms period, and breathes between 64 and 256.
\<close>

theorem led_brightness_exact:
  assumes "led_count ctrl \<le> RECOVERY_STATUS_LED_MAX" and "i < led_count ctrl"
  shows "unat (recovery_status_led_brightness_fp ctrl i t) =
           brightness_spec (led_count ctrl) i (unat t) \<and>
         unat (recovery_status_led_brightness_fp ctrl i t) \<le> 256 \<and>
         unat (status_led_duty_ms (recovery_status_led_brightness_fp ctrl i t)) \<le> 20 \<and>
         unat (recovery_status_led_breath_fp t) = breath_spec (unat t) \<and>
         unat (recovery_status_led_breath_fp t) \<in> {64..256}"
proof -
  have "led_count ctrl \<le> 8" "i < 8" using assms by (auto simp: RECOVERY_STATUS_LED_MAX_def)
  from brightness_fp_correct [OF this, of t] show ?thesis
    using duty_ms_bound(2) breath_spec_bounds [of "unat t"]
    by (auto simp: breath_fp_correct)
qed

theorem led_brightness_exact_witness:
  "let c = zero_status_led_ctrl\<lparr>leds := [zero_pin, zero_pin]\<rparr> in
   unat (recovery_status_led_brightness_fp c 1 900) = brightness_spec 2 1 900 \<and>
   brightness_spec 2 1 900 = 187"
  using led_brightness_exact
    [of "zero_status_led_ctrl\<lparr>leds := [zero_pin, zero_pin]\<rparr>" 1 900]
  by (simp add: RECOVERY_STATUS_LED_MAX_def brightness_spec_def position_spec_def breath_spec_def Let_def)

section \<open>Hardware PWM is undone at shutdown\<close>

lemma poll_hw_pwm:
  assumes "hw_pwm c"
  shows "(\<exists>u. fst (recovery_status_led_poll t c r) = c\<lparr>last_pwm_update := u\<rparr>) \<and>
    (\<forall>a. a \<noteq> RECOVERY_GPIO_SYSCTL_BASE + RECOVERY_REG_GPIO_FLASH_PRD_SET0 \<longrightarrow>
      snd (recovery_status_led_poll t c r) a = r a)"
proof -
  have "c = c\<lparr>last_pwm_update := last_pwm_update c\<rparr>" by simp
  then have "\<exists>u. c = c\<lparr>last_pwm_update := u\<rparr>" by (rule exI)
  then show ?thesis using assms by (auto simp: recovery_status_led_poll_def Let_def hw_pwm_set_frame)
qed

abbreviation poll_all :: "u64 list \<Rightarrow> status_led_ctrl \<times> regs \<Rightarrow> status_led_ctrl \<times> regs" where
  "poll_all ts \<equiv> fold (\<lambda>t (c, r). recovery_status_led_poll t c r) ts"

lemma poll_all_hw_pwm:
  assumes "hw_pwm c"
  shows "(\<exists>u. fst (poll_all ts (c, r)) = c\<lparr>last_pwm_update := u\<rparr>) \<and>
    (\<forall>a. a \<noteq> RECOVERY_GPIO_SYSCTL_BASE + RECOVERY_REG_GPIO_FLASH_PRD_SET0 \<longrightarrow>
      snd (poll_all ts (c, r)) a = r a)"
  using assms
proof (induction ts arbitrary: c r)
  case Nil
  have "c = c\<lparr>last_pwm_update := last_pwm_update c\<rparr>" by simp
  then show ?case by (metis fold_simps(1) fst_conv snd_conv)
next
  case (Cons t ts)
  obtain u r' where "recovery_status_led_poll t c r = (c\<lparr>last_pwm_update := u\<rparr>, r')"
    and "\<And>a. a \<noteq> RECOVERY_GPIO_SYSCTL_BASE + RECOVERY_REG_GPIO_FLASH_PRD_SET0 \<Longrightarrow> r' a = r a"
    using poll_hw_pwm [OF Cons.prems, of t r] by (metis prod.collapse)
  then show ?case using Cons.IH [of "c\<lparr>last_pwm_update := u\<rparr>" r'] Cons.prems by auto
qed

lemma status_led_set_frame: "a \<notin> data_regs \<Longrightarrow> snd (recovery_status_led_set p on r) a = r a"
  by (simp add: recovery_status_led_set_def set_value_data_frame Let_def)

lemma status_led_set_gpio [simp]:
  "gpio (fst (recovery_status_led_set p on r)) = gpio p"
  "active_low (fst (recovery_status_led_set p on r)) = active_low p"
  "valid (fst (recovery_status_led_set p on r)) = valid p"
  by (simp_all add: recovery_status_led_set_def Let_def)

lemma leds_off_frame: "a \<notin> data_regs \<Longrightarrow> snd (leds_off f ls r) a = r a"
  by (induction ls arbitrary: r) (simp_all add: Let_def case_prod_beta status_led_set_frame)

lemma leds_off_other:
  assumes "\<forall>l\<in>set ls. unat (gpio l) < 64 \<and> gpio l \<noteq> g" "unat g < 64"
  shows "pin_level g (snd (leds_off f ls r)) = pin_level g r"
  using assms
  by (induction f ls r rule: leds_off.induct)
     (auto simp: Let_def recovery_status_led_set_def pin_level_set_value_other split: prod.splits if_splits)

lemma leds_off_level:
  assumes "\<forall>l\<in>set ls. unat (gpio l) < 64 \<and> valid l" "distinct (map gpio ls)" "l \<in> set ls"
  shows "pin_level (gpio l) (snd (leds_off True ls r)) = active_low l"
  using assms
proof (induction ls arbitrary: r)
  case (Cons x xs)
  let ?r = "recovery_gpio_set_value (gpio x) (active_low x) False r"
  have s: "snd (leds_off True (x # xs) r) = snd (leds_off True xs ?r)"
    using Cons.prems(1) by (simp add: Let_def recovery_status_led_set_def split: prod.splits)
  show ?case
  proof (cases "l = x")
    case True
    have "\<forall>l\<in>set xs. unat (gpio l) < 64 \<and> gpio l \<noteq> gpio x"
      using Cons.prems(1,2) by (auto simp: image_iff)
    then show ?thesis
      using True Cons.prems(1) leds_off_other [of xs "gpio x" True ?r]
      by (simp add: s pin_level_set_value_same del: leds_off.simps)
  next
    case False
    then show ?thesis using Cons by (simp add: s del: leds_off.simps)
  qed
qed simp

lemma pwm_collect_masks_fields [simp]:
  "leds (snd (pwm_collect_masks al ls c)) = leds c"
  "hw_pwm (snd (pwm_collect_masks al ls c)) = hw_pwm c"
  by (induction ls arbitrary: c; simp split: option.split prod.split)+

lemma hw_pwm_init_success:
  assumes "recovery_status_led_hw_pwm_init c r = Some (0, c1, r1)"
  shows "hw_pwm c1 \<and> leds c1 = leds c \<and> leds c \<noteq> [] \<and>
    r (RECOVERY_GPIO_SYSCTL_BASE + RECOVERY_REG_GPIO_FLASH_MODE_CFG) AND NOT (pwm_mux_mask c1) = 0 \<and>
    r (RECOVERY_GPIO_SYSCTL_BASE + RECOVERY_REG_GPIO_FLASH_MODE_CFG_EXT) AND NOT (pwm_mux_mask_ext c1) = 0 \<and>
    r1 (RECOVERY_GPIO_SYSCTL_BASE + RECOVERY_REG_GPIO_FLASH_MODE_CFG) =
      r (RECOVERY_GPIO_SYSCTL_BASE + RECOVERY_REG_GPIO_FLASH_MODE_CFG) OR pwm_mux_mask c1 \<and>
    r1 (RECOVERY_GPIO_SYSCTL_BASE + RECOVERY_REG_GPIO_FLASH_MODE_CFG_EXT) =
      r (RECOVERY_GPIO_SYSCTL_BASE + RECOVERY_REG_GPIO_FLASH_MODE_CFG_EXT) OR pwm_mux_mask_ext c1 \<and>
    saved_pwm_duty c1 = r (RECOVERY_GPIO_SYSCTL_BASE + RECOVERY_REG_GPIO_FLASH_PRD_SET0) \<and>
    saved_pwm_map0 c1 = r (RECOVERY_GPIO_SYSCTL_BASE + RECOVERY_REG_GPIO_FLASH_MAP0) \<and>
    saved_pwm_map1 c1 = r (RECOVERY_GPIO_SYSCTL_BASE + RECOVERY_REG_GPIO_FLASH_MAP1) \<and>
    saved_pwm_cycle c1 = r (RECOVERY_GPIO_SYSCTL_BASE + RECOVERY_REG_CYCLE_CFG_VALUE0) \<and>
    (\<forall>a. a \<notin> {RECOVERY_GPIO_SYSCTL_BASE + RECOVERY_REG_GPIO_FLASH_MODE_CFG,
                RECOVERY_GPIO_SYSCTL_BASE + RECOVERY_REG_GPIO_FLASH_MODE_CFG_EXT,
                RECOVERY_GPIO_SYSCTL_BASE + RECOVERY_REG_GPIO_FLASH_PRD_SET0,
                RECOVERY_GPIO_SYSCTL_BASE + RECOVERY_REG_GPIO_FLASH_MAP0,
                RECOVERY_GPIO_SYSCTL_BASE + RECOVERY_REG_GPIO_FLASH_MAP1,
                RECOVERY_GPIO_SYSCTL_BASE + RECOVERY_REG_CYCLE_CFG_VALUE0} \<longrightarrow> r1 a = r a)"
proof -
  obtain l where l: "rd (leds c) 0 = Some l"
    using assms by (auto simp: recovery_status_led_hw_pwm_init_def split: Option.bind_splits)
  define c0 where "c0 = snd (pwm_collect_masks (active_low l) (leds c) (c\<lparr>pwm_active_low := active_low l\<rparr>))"
  have f: "leds c0 = leds c" by (simp add: c0_def)
  have ne: "leds c \<noteq> []" using rd_SomeD [OF l] by auto
  from assms l show ?thesis
    unfolding recovery_status_led_hw_pwm_init_def
    by (cases "pwm_collect_masks (active_low l) (leds c) (c\<lparr>pwm_active_low := active_low l\<rparr>)")
       (use f ne in \<open>auto simp: Let_def c0_def recovery_clrsetbits_le32_def hw_pwm_set_frame reg_defs
          split: if_splits\<close>)
qed

text \<open>
  C30: taking over the GPIO flash (PWM) controller is undone at shutdown. After a successful
  initialisation and any number of polls, stopping the status LEDs restores every register to its
  value before the initialisation, but for the pin levels and the two mux registers; the muxes are
  all clear, as the initialisation required of every foreign bit, and every LED is off.
\<close>

theorem hw_pwm_stop_restores:
  assumes "recovery_status_led_hw_pwm_init ctrl r = Some (0, ctrl1, r1)"
    and "recovery_status_led_stop (fst (poll_all ts (ctrl1, r1))) (snd (poll_all ts (ctrl1, r1))) = (ctrl2, r2)"
    and "\<forall>l\<in>set (leds ctrl). unat (gpio l) < 64 \<and> valid l" and "distinct (map gpio (leds ctrl))"
  shows "\<not> hw_pwm ctrl2 \<and>
    r2 (RECOVERY_GPIO_SYSCTL_BASE + RECOVERY_REG_GPIO_FLASH_MODE_CFG) = 0 \<and>
    r2 (RECOVERY_GPIO_SYSCTL_BASE + RECOVERY_REG_GPIO_FLASH_MODE_CFG_EXT) = 0 \<and>
    (\<forall>a. a \<notin> data_regs \<union> {RECOVERY_GPIO_SYSCTL_BASE + RECOVERY_REG_GPIO_FLASH_MODE_CFG,
                             RECOVERY_GPIO_SYSCTL_BASE + RECOVERY_REG_GPIO_FLASH_MODE_CFG_EXT} \<longrightarrow>
         r2 a = r a) \<and>
    (\<forall>l\<in>set (leds ctrl). pin_level (gpio l) r2 = active_low l)"
proof -
  note i = hw_pwm_init_success [OF assms(1)]
  obtain u where c: "fst (poll_all ts (ctrl1, r1)) = ctrl1\<lparr>last_pwm_update := u\<rparr>"
    and p: "\<And>a. a \<noteq> RECOVERY_GPIO_SYSCTL_BASE + RECOVERY_REG_GPIO_FLASH_PRD_SET0 \<Longrightarrow>
      snd (poll_all ts (ctrl1, r1)) a = r1 a"
    using poll_all_hw_pwm i by blast
  have m: "(x OR m) AND NOT m = 0" if "x AND NOT m = 0" for x m :: u32
    using that by (simp add: bit_eq_iff bit_and_iff bit_or_iff bit_not_iff) blast
  have e: "recovery_status_led_hw_pwm_stop (ctrl1\<lparr>last_pwm_update := u\<rparr>)
      (snd (poll_all ts (ctrl1, r1))) = (ctrl2, r2)"
    using i assms(2) by (simp add: c recovery_status_led_stop_def)
  obtain r' where r2: "r2 = snd (leds_off True (leds ctrl) r')" and h: "\<not> hw_pwm ctrl2"
    and r': "r' = (let
         r = recovery_status_led_hw_pwm_set (ctrl1\<lparr>last_pwm_update := u\<rparr>) 0 (snd (poll_all ts (ctrl1, r1)));
         r = recovery_clrsetbits_le32
               (RECOVERY_GPIO_SYSCTL_BASE + RECOVERY_REG_GPIO_FLASH_MODE_CFG) (pwm_mux_mask ctrl1) 0 r;
         r = recovery_clrsetbits_le32
               (RECOVERY_GPIO_SYSCTL_BASE + RECOVERY_REG_GPIO_FLASH_MODE_CFG_EXT) (pwm_mux_mask_ext ctrl1) 0 r;
         r = r(RECOVERY_GPIO_SYSCTL_BASE + RECOVERY_REG_GPIO_FLASH_MAP0 := saved_pwm_map0 ctrl1);
         r = r(RECOVERY_GPIO_SYSCTL_BASE + RECOVERY_REG_GPIO_FLASH_MAP1 := saved_pwm_map1 ctrl1);
         r = r(RECOVERY_GPIO_SYSCTL_BASE + RECOVERY_REG_GPIO_FLASH_PRD_SET0 := saved_pwm_duty ctrl1) in
         r(RECOVERY_GPIO_SYSCTL_BASE + RECOVERY_REG_CYCLE_CFG_VALUE0 := saved_pwm_cycle ctrl1))"
    using e i by (auto simp: recovery_status_led_hw_pwm_stop_def Let_def split: prod.splits)
  have rm: "r' (RECOVERY_GPIO_SYSCTL_BASE + RECOVERY_REG_GPIO_FLASH_MODE_CFG) = 0"
      "r' (RECOVERY_GPIO_SYSCTL_BASE + RECOVERY_REG_GPIO_FLASH_MODE_CFG_EXT) = 0"
    using i m by (simp_all add: r' Let_def recovery_clrsetbits_le32_def hw_pwm_set_frame p reg_defs)
  have rr: "r' a = r a" if "a \<notin> {RECOVERY_GPIO_SYSCTL_BASE + RECOVERY_REG_GPIO_FLASH_MODE_CFG,
        RECOVERY_GPIO_SYSCTL_BASE + RECOVERY_REG_GPIO_FLASH_MODE_CFG_EXT}" for a
    using i that by (auto simp: r' Let_def recovery_clrsetbits_le32_def hw_pwm_set_frame p)
  have nd: "RECOVERY_GPIO_SYSCTL_BASE + RECOVERY_REG_GPIO_FLASH_MODE_CFG \<notin> data_regs"
    "RECOVERY_GPIO_SYSCTL_BASE + RECOVERY_REG_GPIO_FLASH_MODE_CFG_EXT \<notin> data_regs"
    by (simp_all add: data_regs_def reg_defs)
  show ?thesis
    using rm rr h nd leds_off_level [OF assms(3,4)] leds_off_frame [of _ True "leds ctrl" r']
    by (simp add: r2)
qed

theorem hw_pwm_stop_restores_witness:
  "\<exists>ctrl1 r1 ctrl2 r2.
     recovery_status_led_hw_pwm_init
       (zero_status_led_ctrl\<lparr>leds := [zero_pin\<lparr>gpio := 17, active_low := True, valid := True\<rparr>]\<rparr>)
       (\<lambda>_. 0) = Some (0, ctrl1, r1) \<and>
     recovery_status_led_stop (fst (poll_all [50, 120] (ctrl1, r1)))
       (snd (poll_all [50, 120] (ctrl1, r1))) = (ctrl2, r2) \<and>
     r2 (RECOVERY_GPIO_SYSCTL_BASE + RECOVERY_REG_GPIO_FLASH_MODE_CFG_EXT) = 0 \<and> pin_level 17 r2"
proof -
  let ?c = "zero_status_led_ctrl\<lparr>leds := [zero_pin\<lparr>gpio := 17, active_low := True, valid := True\<rparr>]\<rparr>"
  obtain c1 r1 where i: "recovery_status_led_hw_pwm_init ?c (\<lambda>_. 0) = Some (0, c1, r1)"
    by (simp add: recovery_status_led_hw_pwm_init_def rd_def recovery_gpio_flash_mode_bit_def
        zero_status_led_ctrl_def zero_pin_def Let_def reg_defs)
  obtain c2 r2 where s: "recovery_status_led_stop (fst (poll_all [50, 120] (c1, r1)))
       (snd (poll_all [50, 120] (c1, r1))) = (c2, r2)"
    by (metis prod.collapse)
  show ?thesis
    using hw_pwm_stop_restores [OF i s] i s by (auto simp: zero_pin_def)
qed

section \<open>Collecting and requesting the status LEDs\<close>

definition leds_ok :: "status_led_ctrl \<Rightarrow> bool" where
  "leds_ok c \<longleftrightarrow> distinct (map gpio (leds c)) \<and> led_count c \<le> RECOVERY_STATUS_LED_MAX \<and>
    (\<forall>l\<in>set (leds c). valid l)"

lemma leds_ok_zero: "leds_ok zero_status_led_ctrl"
  by (simp add: leds_ok_def zero_status_led_ctrl_def)

lemma leds_ok_add: "leds_ok c \<Longrightarrow> leds_ok (recovery_status_led_add c p)"
  by (auto simp: leds_ok_def recovery_status_led_add_def list_ex_iff)

lemma leds_ok_nodes: "leds_ok c \<Longrightarrow> leds_ok (status_led_collect_nodes dt nds c)"
  by (induction dt nds c rule: status_led_collect_nodes.induct) (auto simp: leds_ok_add split: prod.splits)

lemma leds_ok_aliases: "leds_ok c \<Longrightarrow> leds_ok (fold (recovery_status_led_collect_alias dt) as c)"
  by (induction as arbitrary: c)
     (auto simp: leds_ok_add recovery_status_led_collect_alias_def split: prod.splits)

lemma prepare_output_data:
  assumes "recovery_gpio_prepare_output g r = Some r'" "a \<in> data_regs"
  shows "r' a = r a"
proof -
  have "unat g < 64" using assms(1) prepare_output_defined [of g r] by simp
  then have "unat g div 16 \<in> {0, 1, 2, 3}" by auto
  then show ?thesis
    using assms
    by (auto simp: recovery_gpio_prepare_output_def recovery_gpio_direction_output_def Let_def
        recovery_gpio_dir_reg_def rd_def recovery_gpio_oe_reg_def recovery_clrsetbits_le32_def
        recovery_gpio_flash_mode_bit_def data_regs_def reg_defs split: if_splits)
qed

lemma request_all_spec:
  assumes "status_led_request_all ps r = Some (ps', r')"
  shows "ps' = map (\<lambda>p. p\<lparr>last_on := 0\<rparr>) ps \<and> (\<forall>p\<in>set ps. unat (gpio p) < 64) \<and>
    (\<forall>g. unat g < 64 \<longrightarrow> g \<notin> gpio ` set ps \<longrightarrow> pin_level g r' = pin_level g r) \<and>
    (distinct (map gpio ps) \<longrightarrow> (\<forall>p\<in>set ps. pin_level (gpio p) r' = active_low p))"
  using assms
proof (induction ps arbitrary: r ps')
  case (Cons p ps)
  then obtain r1 ps1 where r1: "recovery_gpio_prepare_output (gpio p) r = Some r1"
    and rest: "status_led_request_all ps (recovery_gpio_set_value (gpio p) (active_low p) False r1) = Some (ps1, r')"
    and ps': "ps' = p\<lparr>last_on := 0\<rparr> # ps1"
    by (auto simp: recovery_status_led_request_def Let_def split: Option.bind_splits)
  have lt: "unat (gpio p) < 64" using r1 prepare_output_defined [of "gpio p" r] by simp
  have lv: "pin_level g r1 = pin_level g r" for g
    using prepare_output_data [OF r1] by (simp add: pin_level_def)
  show ?case
    using Cons.IH [OF rest] ps' lt lv
    by (auto simp: pin_level_set_value_other pin_level_set_value_same image_iff)
qed simp

lemma hw_pwm_init_frame:
  assumes "recovery_status_led_hw_pwm_init c r = Some (ret, c1, r1)"
  shows "leds c1 = leds c \<and> (\<forall>a\<in>data_regs. r1 a = r a)"
proof (cases "ret = 0")
  case True
  then show ?thesis using hw_pwm_init_success assms by (auto simp: data_regs_def reg_defs)
next
  case False
  obtain l where l: "rd (leds c) 0 = Some l"
    using assms by (auto simp: recovery_status_led_hw_pwm_init_def split: Option.bind_splits)
  obtain b c0 where c0: "pwm_collect_masks (active_low l) (leds c) (c\<lparr>pwm_active_low := active_low l\<rparr>) = (b, c0)"
    by fastforce
  then have "leds c0 = leds c"
    using pwm_collect_masks_fields(1) [of "active_low l" "leds c" "c\<lparr>pwm_active_low := active_low l\<rparr>"] by simp
  then show ?thesis
    using False assms l c0
    by (auto simp: recovery_status_led_hw_pwm_init_def Let_def split: if_splits)
qed

text \<open>
  C31: the status LED set-up finds at most eight LEDs with pairwise different GPIOs, all of them
  valid, inside the range of the direction table, and driven to their off level; it fails with
  -ENOENT, and touches no register, exactly when the device tree describes no status LED.
\<close>

theorem status_led_init_leds:
  assumes "recovery_status_led_init dt now r = Some (ret, ctrl, r')"
  shows "(ret = 0 \<and> leds ctrl \<noteq> [] \<or> ret = -ENOENT \<and> leds ctrl = [] \<and> r' = r) \<and>
    distinct (map gpio (leds ctrl)) \<and> led_count ctrl \<le> RECOVERY_STATUS_LED_MAX \<and>
    (\<forall>l\<in>set (leds ctrl). valid l \<and> last_on l = 0 \<and> unat (gpio l) < 64 \<and>
        pin_level (gpio l) r' = active_low l)"
proof -
  define c where "c = fold (recovery_status_led_collect_alias dt) status_aliases
    (case of_path dt ''/leds'' of None \<Rightarrow> zero_status_led_ctrl
     | Some n \<Rightarrow> status_led_collect_nodes dt (of_subnodes dt n) zero_status_led_ctrl)"
  have ok: "leds_ok c"
    unfolding c_def by (intro leds_ok_aliases) (auto simp: leds_ok_zero leds_ok_nodes split: option.split)
  show ?thesis
  proof (cases "leds c = []")
    case True
    then show ?thesis using assms by (auto simp: recovery_status_led_init_def Let_def simp flip: c_def)
  next
    case False
    then obtain ls r1 where q: "status_led_request_all (leds c) r = Some (ls, r1)"
      using assms by (auto simp: recovery_status_led_init_def Let_def simp flip: c_def split: Option.bind_splits)
    note sp = request_all_spec [OF q]
    have g: "map gpio ls = map gpio (leds c)" using sp by (simp add: comp_def)
    have dist: "distinct (map gpio ls)" using ok g by (simp only: leds_ok_def)
    have base: "length ls \<le> RECOVERY_STATUS_LED_MAX" "ls \<noteq> []"
      "\<forall>l\<in>set ls. valid l \<and> last_on l = 0 \<and> unat (gpio l) < 64 \<and> pin_level (gpio l) r1 = active_low l"
      using ok sp False by (auto simp: leds_ok_def)
    have "ret = 0 \<and> leds ctrl = ls \<and> (\<forall>a\<in>data_regs. r' a = r1 a)"
      using assms False q base(2) hw_pwm_init_frame
      by (auto simp: recovery_status_led_init_def Let_def simp flip: c_def
          split: if_splits Option.bind_splits)
    then show ?thesis using base dist by (auto simp: pin_level_def)
  qed
qed

theorem status_led_init_leds_witness:
  "\<exists>ctrl r'. recovery_status_led_init
      \<lparr>of_path = (\<lambda>p. if p = ''/leds'' then Some 1 else None), of_string = (\<lambda>n s. Some ''status''),
       of_subnodes = (\<lambda>n. [2, 3, 2]),
       of_phandle_args = (\<lambda>n p c i. Inr (if n = 2 then [17, 1] else [19, 1])), of_compatible = (\<lambda>_. False)\<rparr>
      5 (\<lambda>_. 0) = Some (0, ctrl, r') \<and>
    distinct (map gpio (leds ctrl)) \<and> led_count ctrl \<le> RECOVERY_STATUS_LED_MAX"
proof -
  let ?dt = "\<lparr>of_path = (\<lambda>p. if p = ''/leds'' then Some 1 else None), of_string = (\<lambda>n s. Some ''status''),
       of_subnodes = (\<lambda>n. [2, 3, 2]),
       of_phandle_args = (\<lambda>n p c i. Inr (if n = 2 then [17, 1] else [19, 1])), of_compatible = (\<lambda>_. False)\<rparr>"
  have "\<exists>ctrl r'. recovery_status_led_init ?dt 5 (\<lambda>_. 0) = Some (0, ctrl, r')"
    by (simp add: recovery_status_led_init_def status_aliases_def recovery_led_node_to_gpio_def
        recovery_status_led_add_def recovery_status_led_collect_alias_def recovery_led_alias_node_def
        recovery_status_led_request_def recovery_gpio_prepare_output_def recovery_gpio_dir_reg_def
        recovery_gpio_direction_output_def rd_def zero_status_led_ctrl_def zero_pin_def Let_def led_consts)
  then obtain ctrl r' where "recovery_status_led_init ?dt 5 (\<lambda>_. 0) = Some (0, ctrl, r')" by blast
  with status_led_init_leds [OF this] show ?thesis by blast
qed

section \<open>Link LED levels\<close>

lemma led_parse_length: "length (led_parse_gpios dt root p is) \<le> length is"
  by (induction dt root p "is" rule: led_parse_gpios.induct) (auto split: sum.split)

text \<open>What loading establishes: at most two ports, and tables long enough for them.\<close>

lemma load_gpios_ok:
  "recovery_led_port_count (recovery_led_load_gpios dt initial_led_globals) \<le> RECOVERY_LED_MAX_PORTS \<and>
   length (recovery_green_led_gpios (recovery_led_load_gpios dt initial_led_globals)) = RECOVERY_LED_MAX_PORTS \<and>
   length (recovery_yellow_led_gpios (recovery_led_load_gpios dt initial_led_globals)) = RECOVERY_LED_MAX_PORTS \<and>
   length (recovery_led_phy_addrs (recovery_led_load_gpios dt initial_led_globals)) = RECOVERY_LED_MAX_PORTS"
  using led_parse_length [of dt _ "''recovery-yellow-led-gpios''" "[0..<RECOVERY_LED_MAX_PORTS]"]
  by (auto simp: recovery_led_load_gpios_def initial_led_globals_def Let_def RECOVERY_LED_MAX_PORTS_def
      split: option.split)

abbreviation green_pin :: "led_globals \<Rightarrow> nat \<Rightarrow> u8" where
  "green_pin g i \<equiv> recovery_green_led_gpios g ! i"

abbreviation yellow_pin :: "led_globals \<Rightarrow> nat \<Rightarrow> u8" where
  "yellow_pin g i \<equiv> recovery_yellow_led_gpios g ! i"

lemma drive_ports_other:
  assumes "\<forall>i\<in>set is. unat (green_pin g i) < 64 \<and> unat (yellow_pin g i) < 64 \<and>
             green_pin g i \<noteq> p \<and> yellow_pin g i \<noteq> p" "unat p < 64"
  shows "pin_level p (led_drive_ports gr ye g is r) = pin_level p r"
  using assms
  by (induction gr ye g "is" r rule: led_drive_ports.induct)
     (auto simp: recovery_led_set_pin_def pin_level_set_value_other)

lemma drive_ports_levels:
  assumes "distinct (map (green_pin g) is @ map (yellow_pin g) is)"
    and "\<forall>i\<in>set is. unat (green_pin g i) < 64 \<and> unat (yellow_pin g i) < 64" and "i \<in> set is"
  shows "pin_level (green_pin g i) (led_drive_ports gr ye g is r) = (\<not> gr i) \<and>
         pin_level (yellow_pin g i) (led_drive_ports gr ye g is r) = (\<not> ye i)"
  using assms
proof (induction "is" arbitrary: r)
  case (Cons k ks)
  let ?r = "recovery_led_set_pin (yellow_pin g k) (ye k) (recovery_led_set_pin (green_pin g k) (gr k) r)"
  show ?case
  proof (cases "i \<in> set ks")
    case True
    then show ?thesis using Cons by simp
  next
    case False
    then have k: "i = k" using Cons.prems(3) by simp
    have d: "green_pin g k \<noteq> yellow_pin g k" "unat (green_pin g k) < 64" "unat (yellow_pin g k) < 64"
      using Cons.prems(1,2) by auto
    have fr: "\<forall>j\<in>set ks. unat (green_pin g j) < 64 \<and> unat (yellow_pin g j) < 64 \<and>
        green_pin g j \<noteq> p \<and> yellow_pin g j \<noteq> p" if "p \<in> {green_pin g k, yellow_pin g k}" for p
      using Cons.prems(1,2) that by (auto simp: image_iff)
    show ?thesis
      using k d drive_ports_other [OF fr [of "green_pin g k"], of gr ye ?r]
        drive_ports_other [OF fr [of "yellow_pin g k"], of gr ye ?r]
        pin_level_set_value_other [of "yellow_pin g k" "green_pin g k"]
      by (simp add: recovery_led_set_pin_def pin_level_set_value_same)
  qed
qed simp


text \<open>
  A board with one LED pair, as on the XG2010G, and a PHY that reports a 1000 Mbit/s link. The
  time of the poll makes the green LED steady.
\<close>

definition sample_led_dt :: fdt where
  "sample_led_dt =
    \<lparr>of_path = (\<lambda>p. if p = ''/'' then Some 0 else None), of_string = (\<lambda>n s. None),
     of_subnodes = (\<lambda>n. []),
     of_phandle_args = (\<lambda>n p c i. if i = 0 then Inr (if p = ''recovery-green-led-gpios'' then [46, 1] else [42, 1])
                                 else Inl (-ENOENT)),
     of_compatible = (\<lambda>_. False)\<rparr>"


end
