(* ===== verification/Dhcp.thy ===== *)
theory Dhcp
  imports Prelude
begin

text \<open>
  The DHCP server of the recovery mode (\<^verbatim>\<open>net/lwip/httpd_recovery.c\<close>): option parser and
  writer, request classification, reply construction, the receive callback and the server
  set-up. A packet is its bytes; the overlay of \<^verbatim>\<open>struct dhcp_msg\<close> of lwIP's
  \<^verbatim>\<open>prot/dhcp.h\<close> is the pair \<open>dhcp_msg_of\<close> / \<open>dhcp_msg_bytes\<close>. An IPv4 address is its four
  octets in wire order. Reads and writes are bounds checked (\<^term>\<open>None\<close> for undefined
  behaviour). Whether lwIP can allocate or send a packet is a parameter.
\<close>

section \<open>Messages and options of lwIP's headers\<close>

type_synonym ip4 = "u8 \<times> u8 \<times> u8 \<times> u8"

definition ip4_any :: ip4 where "ip4_any = (0, 0, 0, 0)"

fun ip4_bytes :: "ip4 \<Rightarrow> bytes" where
  "ip4_bytes (a, b, c, d) = [a, b, c, d]"

fun ip4_of :: "bytes \<Rightarrow> ip4" where
  "ip4_of (a # b # c # d # _) = (a, b, c, d)"
| "ip4_of _ = (0, 0, 0, 0)"

record dhcp_msg =
  op :: u8
  htype :: u8
  hlen :: u8
  hops :: u8
  xid :: bytes
  secs :: bytes
  flags :: "u8 \<times> u8"
  ciaddr :: ip4
  yiaddr :: ip4
  siaddr :: ip4
  giaddr :: ip4
  chaddr :: bytes
  sname :: bytes
  bootfile :: bytes
  cookie :: bytes
  options :: bytes

definition DHCP_OPTIONS_OFS :: nat where "DHCP_OPTIONS_OFS = 240"
definition DHCP_OPTIONS_LEN :: nat where "DHCP_OPTIONS_LEN = 68"
definition DHCP_MIN_OPTIONS_LEN :: nat where "DHCP_MIN_OPTIONS_LEN = 68"
definition DHCP_CHADDR_LEN :: nat where "DHCP_CHADDR_LEN = 16"

lemmas dhcp_sizes =
  DHCP_OPTIONS_OFS_def DHCP_OPTIONS_LEN_def DHCP_MIN_OPTIONS_LEN_def DHCP_CHADDR_LEN_def

text \<open>The cast of a received packet of at least \<^const>\<open>DHCP_OPTIONS_OFS\<close> bytes.\<close>

definition dhcp_msg_of :: "bytes \<Rightarrow> dhcp_msg" where
  "dhcp_msg_of b =
     \<lparr>op = b ! 0, htype = b ! 1, hlen = b ! 2, hops = b ! 3,
      xid = take 4 (drop 4 b), secs = take 2 (drop 8 b), flags = (b ! 10, b ! 11),
      ciaddr = ip4_of (drop 12 b), yiaddr = ip4_of (drop 16 b), siaddr = ip4_of (drop 20 b),
      giaddr = ip4_of (drop 24 b), chaddr = take 16 (drop 28 b), sname = take 64 (drop 44 b),
      bootfile = take 128 (drop 108 b), cookie = take 4 (drop 236 b),
      options = take DHCP_OPTIONS_LEN (drop DHCP_OPTIONS_OFS b)\<rparr>"

definition dhcp_msg_bytes :: "dhcp_msg \<Rightarrow> bytes" where
  "dhcp_msg_bytes r =
     [op r, htype r, hlen r, hops r] @ xid r @ secs r @ [fst (flags r), snd (flags r)] @
     ip4_bytes (ciaddr r) @ ip4_bytes (yiaddr r) @ ip4_bytes (siaddr r) @ ip4_bytes (giaddr r) @
     chaddr r @ sname r @ bootfile r @ cookie r @ options r"

abbreviation (input) "DHCP_OPTION_PAD \<equiv> (0 :: u8)"
abbreviation (input) "DHCP_OPTION_SUBNET_MASK \<equiv> (1 :: u8)"
abbreviation (input) "DHCP_OPTION_ROUTER \<equiv> (3 :: u8)"
abbreviation (input) "DHCP_OPTION_DNS_SERVER \<equiv> (6 :: u8)"
abbreviation (input) "DHCP_OPTION_BROADCAST \<equiv> (28 :: u8)"
abbreviation (input) "DHCP_OPTION_REQUESTED_IP \<equiv> (50 :: u8)"
abbreviation (input) "DHCP_OPTION_LEASE_TIME \<equiv> (51 :: u8)"
abbreviation (input) "DHCP_OPTION_MESSAGE_TYPE \<equiv> (53 :: u8)"
abbreviation (input) "DHCP_OPTION_SERVER_ID \<equiv> (54 :: u8)"
abbreviation (input) "DHCP_OPTION_T1 \<equiv> (58 :: u8)"
abbreviation (input) "DHCP_OPTION_T2 \<equiv> (59 :: u8)"
abbreviation (input) "DHCP_OPTION_END \<equiv> (255 :: u8)"
abbreviation (input) "DHCP_DISCOVER \<equiv> (1 :: u8)"
abbreviation (input) "DHCP_OFFER \<equiv> (2 :: u8)"
abbreviation (input) "DHCP_REQUEST \<equiv> (3 :: u8)"
abbreviation (input) "DHCP_ACK \<equiv> (5 :: u8)"
abbreviation (input) "DHCP_NAK \<equiv> (6 :: u8)"
abbreviation (input) "DHCP_INFORM \<equiv> (8 :: u8)"
abbreviation (input) "DHCP_BOOTREQUEST \<equiv> (1 :: u8)"
abbreviation (input) "DHCP_BOOTREPLY \<equiv> (2 :: u8)"
abbreviation (input) "LWIP_IANA_PORT_DHCP_CLIENT \<equiv> (68 :: u16)"

definition dhcp_magic_cookie :: bytes where "dhcp_magic_cookie = [0x63, 0x82, 0x53, 0x63]"

definition RECOVERY_DHCP_CLIENT_HOST :: u32 where "RECOVERY_DHCP_CLIENT_HOST = 2"
definition RECOVERY_DHCP_LEASE_SECS :: u32 where "RECOVERY_DHCP_LEASE_SECS = 86400"
definition RECOVERY_DHCP_MAX_MSG_LEN :: nat where "RECOVERY_DHCP_MAX_MSG_LEN = 1500"
definition RECOVERY_DHCP_BROADCAST_IPADDR :: ip4 where
  "RECOVERY_DHCP_BROADCAST_IPADDR = (192, 168, 0, 255)"

record dhcp_server =
  server_ip :: ip4
  client_ip :: ip4
  netmask :: ip4
  router :: ip4
  broadcast :: ip4
  dns :: ip4
  has_pcb :: bool

datatype request_verdict =
    RECOVERY_DHCP_REQUEST_ACK | RECOVERY_DHCP_REQUEST_NAK | RECOVERY_DHCP_REQUEST_IGNORE

section \<open>Reading options\<close>

text \<open>The option found: its offset in the packet and its length; or the error code.\<close>

function recovery_dhcp_get_option_at ::
    "bytes \<Rightarrow> nat \<Rightarrow> u8 \<Rightarrow> nat \<Rightarrow> (int + nat \<times> u8) option" where
  "recovery_dhcp_get_option_at pkt pkt_len code off =
     (if off < pkt_len then do {
        opt \<leftarrow> rd pkt off;
        if opt = DHCP_OPTION_PAD then recovery_dhcp_get_option_at pkt pkt_len code (off + 1)
        else if opt = DHCP_OPTION_END then Some (Inl (- ENOENT))
        else if off + 1 \<ge> pkt_len then Some (Inl (- EINVAL))
        else do {
          opt_len \<leftarrow> rd pkt (off + 1);
          if off + 2 + unat opt_len > pkt_len then Some (Inl (- EINVAL))
          else if opt = code then Some (Inr (off + 2, opt_len))
          else recovery_dhcp_get_option_at pkt pkt_len code (off + 2 + unat opt_len)
        }
      }
      else Some (Inl (- EINVAL)))"
  by pat_completeness auto
termination
  by (relation "measure (\<lambda>(pkt, pkt_len, code, off). pkt_len - off)") auto

declare recovery_dhcp_get_option_at.simps [simp del]

definition recovery_dhcp_get_option :: "bytes \<Rightarrow> nat \<Rightarrow> u8 \<Rightarrow> (int + nat \<times> u8) option" where
  "recovery_dhcp_get_option pkt pkt_len code =
     recovery_dhcp_get_option_at pkt pkt_len code DHCP_OPTIONS_OFS"

definition recovery_dhcp_get_u8_option :: "bytes \<Rightarrow> nat \<Rightarrow> u8 \<Rightarrow> (int + u8) option" where
  "recovery_dhcp_get_u8_option pkt pkt_len code = do {
     r \<leftarrow> recovery_dhcp_get_option pkt pkt_len code;
     case r of Inl e \<Rightarrow> Some (Inl e)
     | Inr (opt, opt_len) \<Rightarrow>
         if opt_len \<noteq> 1 then Some (Inl (- EINVAL))
         else do { v \<leftarrow> rd pkt opt; Some (Inr v) }
   }"

definition recovery_dhcp_get_ip4_option :: "bytes \<Rightarrow> nat \<Rightarrow> u8 \<Rightarrow> (int + ip4) option" where
  "recovery_dhcp_get_ip4_option pkt pkt_len code = do {
     r \<leftarrow> recovery_dhcp_get_option pkt pkt_len code;
     case r of Inl e \<Rightarrow> Some (Inl e)
     | Inr (opt, opt_len) \<Rightarrow>
         if opt_len \<noteq> 4 then Some (Inl (- EINVAL))
         else do { v \<leftarrow> rd_slice pkt opt 4; Some (Inr (ip4_of v)) }
   }"

fun recovery_dhcp_ip4_to_scalar :: "ip4 \<Rightarrow> u32" where
  "recovery_dhcp_ip4_to_scalar (b0, b1, b2, b3) =
     push_bit 24 (ucast b0) OR push_bit 16 (ucast b1) OR push_bit 8 (ucast b2) OR ucast b3"

definition recovery_dhcp_scalar_to_ip4 :: "u32 \<Rightarrow> ip4" where
  "recovery_dhcp_scalar_to_ip4 v =
     (ucast (drop_bit 24 v), ucast (drop_bit 16 v), ucast (drop_bit 8 v), ucast v)"

section \<open>Writing options\<close>

text \<open>The new offset (negative on error) and the option buffer.\<close>

definition recovery_dhcp_put_option_head ::
    "bytes \<Rightarrow> int \<Rightarrow> u8 \<Rightarrow> u8 \<Rightarrow> (int \<times> bytes) option" where
  "recovery_dhcp_put_option_head opts off code len =
     (if off < 0 \<or> off + 2 + uint len > int DHCP_OPTIONS_LEN then Some (- ENOSPC, opts)
      else do {
        opts \<leftarrow> wr opts (nat off) code;
        opts \<leftarrow> wr opts (nat (off + 1)) len;
        Some (off + 2, opts)
      })"

definition recovery_dhcp_put_u8_option ::
    "bytes \<Rightarrow> int \<Rightarrow> u8 \<Rightarrow> u8 \<Rightarrow> (int \<times> bytes) option" where
  "recovery_dhcp_put_u8_option opts off code v = do {
     (off, opts) \<leftarrow> recovery_dhcp_put_option_head opts off code 1;
     if off < 0 then Some (off, opts)
     else do { opts \<leftarrow> wr opts (nat off) v; Some (off + 1, opts) }
   }"

definition htonl_bytes :: "u32 \<Rightarrow> bytes" where
  "htonl_bytes v = [ucast (drop_bit 24 v), ucast (drop_bit 16 v), ucast (drop_bit 8 v), ucast v]"

definition recovery_dhcp_put_u32_option ::
    "bytes \<Rightarrow> int \<Rightarrow> u8 \<Rightarrow> u32 \<Rightarrow> (int \<times> bytes) option" where
  "recovery_dhcp_put_u32_option opts off code v = do {
     (off, opts) \<leftarrow> recovery_dhcp_put_option_head opts off code 4;
     if off < 0 then Some (off, opts)
     else do { opts \<leftarrow> wr_slice opts (nat off) (htonl_bytes v); Some (off + 4, opts) }
   }"

definition recovery_dhcp_put_ip4_option ::
    "bytes \<Rightarrow> int \<Rightarrow> u8 \<Rightarrow> ip4 \<Rightarrow> (int \<times> bytes) option" where
  "recovery_dhcp_put_ip4_option opts off code addr = do {
     (off, opts) \<leftarrow> recovery_dhcp_put_option_head opts off code 4;
     if off < 0 then Some (off, opts)
     else do { opts \<leftarrow> wr_slice opts (nat off) (ip4_bytes addr); Some (off + 4, opts) }
   }"

text \<open>The padding loop of \<open>recovery_dhcp_finalize_options\<close>.\<close>

function dhcp_pad_options :: "bytes \<Rightarrow> nat \<Rightarrow> (nat \<times> bytes) option" where
  "dhcp_pad_options opts opt_len =
     (if (opt_len < DHCP_MIN_OPTIONS_LEN \<or> opt_len mod 4 \<noteq> 0) \<and> opt_len < DHCP_OPTIONS_LEN then do {
        opts \<leftarrow> wr opts opt_len DHCP_OPTION_PAD;
        dhcp_pad_options opts (opt_len + 1)
      }
      else Some (opt_len, opts))"
  by pat_completeness auto
termination
  by (relation "measure (\<lambda>(opts, opt_len). DHCP_OPTIONS_LEN - opt_len)") auto

declare dhcp_pad_options.simps [simp del]

text \<open>The packet after \<^verbatim>\<open>pbuf_realloc\<close>: the message cut behind its padded options.\<close>

definition recovery_dhcp_finalize_options :: "dhcp_msg \<Rightarrow> nat \<Rightarrow> bytes option" where
  "recovery_dhcp_finalize_options msg opt_len = do {
     opts \<leftarrow> wr (options msg) opt_len DHCP_OPTION_END;
     (opt_len, opts) \<leftarrow> dhcp_pad_options opts (opt_len + 1);
     Some (take (DHCP_OPTIONS_OFS + opt_len) (dhcp_msg_bytes (msg\<lparr>options := opts\<rparr>)))
   }"

section \<open>Classifying and answering requests\<close>

definition recovery_dhcp_classify_request ::
    "dhcp_server \<Rightarrow> dhcp_msg \<Rightarrow> bytes \<Rightarrow> nat \<Rightarrow> request_verdict option" where
  "recovery_dhcp_classify_request srv req pkt pkt_len = do {
     server_id \<leftarrow> recovery_dhcp_get_ip4_option pkt pkt_len DHCP_OPTION_SERVER_ID;
     if (case server_id of Inr ip \<Rightarrow> ip \<noteq> server_ip srv | Inl e \<Rightarrow> False)
     then Some RECOVERY_DHCP_REQUEST_IGNORE
     else do {
       requested \<leftarrow> recovery_dhcp_get_ip4_option pkt pkt_len DHCP_OPTION_REQUESTED_IP;
       case requested of
         Inr ip \<Rightarrow> Some (if ip = client_ip srv then RECOVERY_DHCP_REQUEST_ACK
                        else RECOVERY_DHCP_REQUEST_NAK)
       | Inl e \<Rightarrow>
           if ciaddr req \<noteq> ip4_any
           then Some (if ciaddr req = client_ip srv then RECOVERY_DHCP_REQUEST_ACK
                      else RECOVERY_DHCP_REQUEST_NAK)
           else Some RECOVERY_DHCP_REQUEST_ACK
     }
   }"

definition dhcp_reply_header :: "dhcp_server \<Rightarrow> dhcp_msg \<Rightarrow> bool \<Rightarrow> dhcp_msg" where
  "dhcp_reply_header srv req assign_address =
     \<lparr>op = DHCP_BOOTREPLY, htype = htype req, hlen = hlen req, hops = hops req,
      xid = xid req, secs = secs req, flags = (fst (flags req) OR 0x80, snd (flags req)),
      ciaddr = ip4_any,
      yiaddr = (if assign_address then client_ip srv else ip4_any),
      siaddr = (if assign_address then server_ip srv else ip4_any),
      giaddr = giaddr req, chaddr = take DHCP_CHADDR_LEN (chaddr req),
      sname = replicate 64 0, bootfile = replicate 128 0, cookie = dhcp_magic_cookie,
      options = replicate DHCP_OPTIONS_LEN 0\<rparr>"

definition dhcp_reply_options ::
    "dhcp_server \<Rightarrow> u8 \<Rightarrow> bool \<Rightarrow> bytes \<Rightarrow> (int \<times> bytes) option" where
  "dhcp_reply_options srv message_type assign_address opts = do {
     (n, opts) \<leftarrow> recovery_dhcp_put_u8_option opts 0 DHCP_OPTION_MESSAGE_TYPE message_type;
     (n, opts) \<leftarrow> recovery_dhcp_put_ip4_option opts n DHCP_OPTION_SERVER_ID (server_ip srv);
     (n, opts) \<leftarrow>
       (if assign_address then do {
          (n, opts) \<leftarrow> recovery_dhcp_put_u32_option opts n DHCP_OPTION_LEASE_TIME RECOVERY_DHCP_LEASE_SECS;
          (n, opts) \<leftarrow> recovery_dhcp_put_u32_option opts n DHCP_OPTION_T1 (RECOVERY_DHCP_LEASE_SECS div 2);
          recovery_dhcp_put_u32_option opts n DHCP_OPTION_T2 (RECOVERY_DHCP_LEASE_SECS * 7 div 8)
        } else Some (n, opts));
     (if message_type \<noteq> DHCP_NAK then do {
        (n, opts) \<leftarrow> recovery_dhcp_put_ip4_option opts n DHCP_OPTION_SUBNET_MASK (netmask srv);
        (n, opts) \<leftarrow> recovery_dhcp_put_ip4_option opts n DHCP_OPTION_ROUTER (router srv);
        (n, opts) \<leftarrow> recovery_dhcp_put_ip4_option opts n DHCP_OPTION_BROADCAST (broadcast srv);
        recovery_dhcp_put_ip4_option opts n DHCP_OPTION_DNS_SERVER (dns srv)
      } else Some (n, opts))
   }"

text \<open>
  The result code and the packets handed to \<^verbatim>\<open>udp_sendto_if_src\<close> (broadcast, port 68).
  \<open>alloc_ok\<close> is the outcome of \<^verbatim>\<open>pbuf_alloc\<close>, \<open>send_ok\<close> that of the send.
\<close>

definition recovery_dhcp_send_reply ::
    "bool \<Rightarrow> bool \<Rightarrow> dhcp_server \<Rightarrow> dhcp_msg \<Rightarrow> u8 \<Rightarrow> bool \<Rightarrow> (int \<times> bytes list) option" where
  "recovery_dhcp_send_reply alloc_ok send_ok srv req message_type assign_address =
     (if \<not> alloc_ok then Some (- ENOMEM, [])
      else do {
        let reply = dhcp_reply_header srv req assign_address;
        (opt_len, opts) \<leftarrow> dhcp_reply_options srv message_type assign_address (options reply);
        if opt_len < 0 then Some (opt_len, [])
        else do {
          p \<leftarrow> recovery_dhcp_finalize_options (reply\<lparr>options := opts\<rparr>) (nat opt_len);
          Some (if send_ok then 0 else - EIO, [p])
        }
      })"

text \<open>
  The receive callback. \<open>arg\<close> is the callback argument, \<open>rx_srv\<close> the server that owns the
  packet being dispatched, \<open>allowed\<close> the board's receive filter; the result is the list of
  packets sent.
\<close>

definition recovery_dhcp_recv ::
    "(dhcp_server \<Rightarrow> bool) \<Rightarrow> bool \<Rightarrow> bool \<Rightarrow> dhcp_server option \<Rightarrow> dhcp_server option \<Rightarrow>
     bytes \<Rightarrow> u16 \<Rightarrow> bytes list option" where
  "recovery_dhcp_recv allowed alloc_ok send_ok arg rx_srv p port =
     (case (case arg of None \<Rightarrow> rx_srv | Some s \<Rightarrow> Some s) of
        None \<Rightarrow> Some []
      | Some srv \<Rightarrow>
          if \<not> allowed srv then Some []
          else if port \<noteq> LWIP_IANA_PORT_DHCP_CLIENT then Some []
          else
            let pkt = take RECOVERY_DHCP_MAX_MSG_LEN p; pkt_len = length pkt in
            if pkt_len < DHCP_OPTIONS_OFS then Some []
            else
              let req = dhcp_msg_of pkt in
              if op req \<noteq> DHCP_BOOTREQUEST \<or> htype req \<noteq> 1 \<or> hlen req \<noteq> 6 \<or>
                 cookie req \<noteq> dhcp_magic_cookie then Some []
              else do {
                mt \<leftarrow> recovery_dhcp_get_u8_option pkt pkt_len DHCP_OPTION_MESSAGE_TYPE;
                case mt of
                  Inl e \<Rightarrow> Some []
                | Inr message_type \<Rightarrow>
                    if message_type = DHCP_DISCOVER
                    then map_option snd (recovery_dhcp_send_reply alloc_ok send_ok srv req DHCP_OFFER True)
                    else if message_type = DHCP_REQUEST then do {
                      v \<leftarrow> recovery_dhcp_classify_request srv req pkt pkt_len;
                      case v of
                        RECOVERY_DHCP_REQUEST_ACK \<Rightarrow>
                          map_option snd (recovery_dhcp_send_reply alloc_ok send_ok srv req DHCP_ACK True)
                      | RECOVERY_DHCP_REQUEST_NAK \<Rightarrow>
                          map_option snd (recovery_dhcp_send_reply alloc_ok send_ok srv req DHCP_NAK False)
                      | RECOVERY_DHCP_REQUEST_IGNORE \<Rightarrow> Some []
                    }
                    else if message_type = DHCP_INFORM
                    then map_option snd (recovery_dhcp_send_reply alloc_ok send_ok srv req DHCP_ACK False)
                    else Some []
              })"

section \<open>Server set-up\<close>

text \<open>
  The addresses come from the network interface; \<open>pcb_ok\<close> is whether \<^verbatim>\<open>udp_new\<close> succeeded and
  \<open>bind_ok\<close> whether \<^verbatim>\<open>udp_bind\<close> to port 67 did.
\<close>

definition recovery_dhcp_server_init ::
    "bool \<Rightarrow> bool \<Rightarrow> ip4 \<Rightarrow> ip4 \<Rightarrow> ip4 \<Rightarrow> int \<times> dhcp_server" where
  "recovery_dhcp_server_init pcb_ok bind_ok ip nm gw =
     (let rt = (if gw = ip4_any then ip else gw);
          server_addr = recovery_dhcp_ip4_to_scalar ip;
          netmask_addr = recovery_dhcp_ip4_to_scalar nm;
          network_addr = server_addr AND netmask_addr;
          client = recovery_dhcp_scalar_to_ip4 (network_addr OR RECOVERY_DHCP_CLIENT_HOST);
          bcast = (if nm = ip4_any then RECOVERY_DHCP_BROADCAST_IPADDR
                   else recovery_dhcp_scalar_to_ip4 (network_addr OR NOT netmask_addr));
          srv = \<lparr>server_ip = ip, client_ip = client, netmask = nm, router = rt,
                 broadcast = bcast, dns = ip, has_pcb = False\<rparr>
      in if \<not> pcb_ok then (- ENOMEM, srv)
         else if \<not> bind_ok then (- EIO, srv)
         else (0, srv\<lparr>has_pcb := True\<rparr>))"

definition recovery_dhcp_server_stop :: "dhcp_server \<Rightarrow> dhcp_server" where
  "recovery_dhcp_server_stop srv =
     \<lparr>server_ip = ip4_any, client_ip = ip4_any, netmask = ip4_any, router = ip4_any,
      broadcast = ip4_any, dns = ip4_any, has_pcb = False\<rparr>"

section \<open>The option parser stays inside the packet\<close>

lemma get_option_at_total:
  assumes "pkt_len \<le> length pkt"
  shows "\<exists>r. recovery_dhcp_get_option_at pkt pkt_len code off = Some r \<and>
             (\<forall>o' l. r = Inr (o', l) \<longrightarrow> o' + unat l \<le> pkt_len)"
  using assms
proof (induction pkt pkt_len code off rule: recovery_dhcp_get_option_at.induct)
  case (1 pkt pkt_len code off)
  show ?case
  proof (cases "off < pkt_len")
    case False
    then show ?thesis by (subst recovery_dhcp_get_option_at.simps) simp
  next
    case True
    with "1.prems" have o0: "rd pkt off = Some (pkt ! off)" by (simp add: rd_in)
    consider "pkt ! off = 0" | "pkt ! off \<noteq> 0" "off + 1 \<ge> pkt_len \<or> pkt ! off = 255"
      | "pkt ! off \<noteq> 0" "pkt ! off \<noteq> 255" "off + 1 < pkt_len" by linarith
    then show ?thesis
    proof cases
      case 1
      then show ?thesis using "1.IH"(1) [OF True o0] "1.prems" True
        by (subst recovery_dhcp_get_option_at.simps) (simp add: o0)
    next
      case 2
      then show ?thesis using True
        by (subst recovery_dhcp_get_option_at.simps) (auto simp: o0)
    next
      case 3
      then have o1: "rd pkt (off + 1) = Some (pkt ! (off + 1))" using "1.prems" by (simp add: rd_in)
      show ?thesis using 3 "1.IH"(2) [OF True o0 _ _ _ o1] "1.prems" True
        by (subst recovery_dhcp_get_option_at.simps) (auto simp: o0 o1 [simplified])
    qed
  qed
qed

lemma get_option_total:
  "pkt_len \<le> length pkt \<Longrightarrow>
   \<exists>r. recovery_dhcp_get_option pkt pkt_len code = Some r \<and>
       (\<forall>o' l. r = Inr (o', l) \<longrightarrow> o' + unat l \<le> pkt_len)"
  unfolding recovery_dhcp_get_option_def by (rule get_option_at_total)

lemma get_u8_option_total:
  assumes "pkt_len \<le> length pkt"
  shows "\<exists>r. recovery_dhcp_get_u8_option pkt pkt_len code = Some r"
  using get_option_total [OF assms, of code] assms
  by (force simp: recovery_dhcp_get_u8_option_def rd_def split: sum.splits prod.splits)

lemma get_ip4_option_total:
  assumes "pkt_len \<le> length pkt"
  shows "\<exists>r. recovery_dhcp_get_ip4_option pkt pkt_len code = Some r"
  using get_option_total [OF assms, of code] assms
  by (force simp: recovery_dhcp_get_ip4_option_def rd_slice_def split: sum.splits prod.splits)

lemma classify_request_total:
  assumes "pkt_len \<le> length pkt"
  shows "\<exists>v. recovery_dhcp_classify_request srv req pkt pkt_len = Some v"
  using get_ip4_option_total [OF assms, of 54] get_ip4_option_total [OF assms, of 50]
  by (auto simp: recovery_dhcp_classify_request_def split: sum.splits)

section \<open>Options as an association list\<close>

definition dhcp_tlv :: "(u8 \<times> bytes) list \<Rightarrow> bytes" where
  "dhcp_tlv xs = concat (map (\<lambda>(c, v). c # of_nat (length v) # v) xs)"

definition dhcp_option_bytes :: "bytes \<Rightarrow> u8 \<Rightarrow> bytes option" where
  "dhcp_option_bytes pkt code =
     (case recovery_dhcp_get_option pkt (length pkt) code of
        Some (Inr (o', l)) \<Rightarrow> Some (take (unat l) (drop o' pkt))
      | _ \<Rightarrow> None)"

definition wf_option :: "u8 \<times> bytes \<Rightarrow> bool" where
  "wf_option cv \<longleftrightarrow> fst cv \<noteq> 0 \<and> fst cv \<noteq> 255 \<and> length (snd cv) < 256"

lemma dhcp_tlv_simps [simp]:
  "dhcp_tlv [] = []" "dhcp_tlv ((c, v) # xs) = c # of_nat (length v) # v @ dhcp_tlv xs"
  by (simp_all add: dhcp_tlv_def)

lemma dhcp_tlv_append [simp]: "dhcp_tlv (xs @ ys) = dhcp_tlv xs @ dhcp_tlv ys"
  by (simp add: dhcp_tlv_def)

lemma unat_of_nat_u8: "n < 256 \<Longrightarrow> unat (of_nat n :: u8) = n"
  by (rule unat_of_nat_small) simp

text \<open>
  Walking over encoded options finds the first entry with the code, and ends at the terminator
  when there is none.
\<close>

lemma get_option_at_tlv:
  assumes "list_all wf_option xs"
  shows "recovery_dhcp_get_option_at (pre @ dhcp_tlv xs @ 255 # post)
           (length (pre @ dhcp_tlv xs @ 255 # post)) code (length pre) =
         Some (case map_of xs code of None \<Rightarrow> Inl (- ENOENT)
               | Some v \<Rightarrow> Inr (length pre + length (dhcp_tlv (takeWhile (\<lambda>cv. fst cv \<noteq> code) xs)) + 2,
                              of_nat (length v)))"
  using assms
proof (induction xs arbitrary: pre)
  case Nil
  then show ?case
    by (subst recovery_dhcp_get_option_at.simps) (simp add: rd_def nth_append)
next
  case (Cons cv xs)
  obtain c v where cv: "cv = (c, v)" by fastforce
  have wf: "c \<noteq> 0" "c \<noteq> 255" "length v < 256" using Cons.prems by (auto simp: cv wf_option_def)
  let ?pre = "pre @ c # of_nat (length v) # v"
  have "recovery_dhcp_get_option_at (?pre @ dhcp_tlv xs @ 255 # post)
           (length (?pre @ dhcp_tlv xs @ 255 # post)) code (length ?pre) =
         Some (case map_of xs code of None \<Rightarrow> Inl (- ENOENT)
               | Some v \<Rightarrow> Inr (length ?pre + length (dhcp_tlv (takeWhile (\<lambda>cv. fst cv \<noteq> code) xs)) + 2,
                              of_nat (length v)))"
    using Cons.prems by (intro Cons.IH) (simp add: cv)
  then show ?case
    using wf
    by (subst recovery_dhcp_get_option_at.simps)
       (auto simp: cv rd_def nth_append unat_of_nat_u8 ac_simps split: option.splits)
qed


lemma takeWhile_map_of:
  "map_of xs code = Some v \<Longrightarrow>
   xs = takeWhile (\<lambda>cv. fst cv \<noteq> code) xs @ (code, v) # tl (dropWhile (\<lambda>cv. fst cv \<noteq> code) xs)"
  by (induction xs) (auto split: if_splits)

lemma dhcp_option_bytes_tlv:
  assumes "list_all wf_option xs" "length pre = DHCP_OPTIONS_OFS"
  shows "dhcp_option_bytes (pre @ dhcp_tlv xs @ 255 # post) code = map_of xs code"
proof (cases "map_of xs code")
  case None
  with get_option_at_tlv [OF assms(1), of pre post code] show ?thesis
    by (simp add: dhcp_option_bytes_def recovery_dhcp_get_option_def assms(2))
next
  case (Some v)
  let ?a = "takeWhile (\<lambda>cv. fst cv \<noteq> code) xs" and ?b = "tl (dropWhile (\<lambda>cv. fst cv \<noteq> code) xs)"
  have xs: "xs = ?a @ (code, v) # ?b" by (rule takeWhile_map_of [OF Some])
  then have v: "length v < 256" using assms(1) 
    by (metis list.pred_inject(2) list_all_append snd_conv wf_option_def)
  have "drop (length pre + length (dhcp_tlv ?a) + 2) (pre @ dhcp_tlv xs @ 255 # post) =
        v @ dhcp_tlv ?b @ 255 # post"
    by (subst xs) simp
  then have tk: "take (length v) (drop (length pre + length (dhcp_tlv ?a) + 2)
        (pre @ dhcp_tlv xs @ 255 # post)) = v"
    by (metis append_eq_conv_conj)
  show ?thesis
    unfolding dhcp_option_bytes_def recovery_dhcp_get_option_def assms(2) [symmetric]
      get_option_at_tlv [OF assms(1)]
    by (simp only: Some option.case sum.case prod.case tk unat_of_nat_u8 [OF v])
qed

section \<open>The option writer\<close>

lemma length_ip4_bytes: "length (ip4_bytes a) = 4"
  by (cases a) simp

lemma length_htonl_bytes: "length (htonl_bytes v) = 4"
  by (simp add: htonl_bytes_def)

lemma overwrite_append:
  "length xs \<le> k \<Longrightarrow> overwrite (length w) xs (w @ replicate k z) = w @ xs @ replicate (k - length xs) z"
  by (simp add: overwrite_def)

lemma wr_append:
  "0 < k \<Longrightarrow> wr (w @ replicate k z) (length w) v = Some (w @ v # replicate (k - 1) z)"
  by (cases k) (auto simp: wr_def list_update_append)

text \<open>
  The buffer after some options have been written: their encoding, then zeros. Each writer
  appends one entry and returns the offset behind it.
\<close>

definition opts_buf :: "(u8 \<times> bytes) list \<Rightarrow> bytes" where
  "opts_buf xs = dhcp_tlv xs @ replicate (DHCP_OPTIONS_LEN - length (dhcp_tlv xs)) 0"

definition opts_off :: "(u8 \<times> bytes) list \<Rightarrow> int" where
  "opts_off xs = int (length (dhcp_tlv xs))"

lemma put_head_eq:
  assumes "length (dhcp_tlv xs) + 2 + unat l \<le> DHCP_OPTIONS_LEN"
  shows "recovery_dhcp_put_option_head (opts_buf xs) (opts_off xs) c l =
    Some (opts_off xs + 2, (dhcp_tlv xs @ [c, l]) @
      replicate (DHCP_OPTIONS_LEN - length (dhcp_tlv xs) - 2) 0)"
proof -
  let ?k = "DHCP_OPTIONS_LEN - length (dhcp_tlv xs)"
  have k: "2 \<le> ?k" using assms by simp
  have 1: "wr (opts_buf xs) (length (dhcp_tlv xs)) c =
      Some ((dhcp_tlv xs @ [c]) @ replicate (?k - 1) 0)"
    using k wr_append [of ?k "dhcp_tlv xs" 0 c] by (simp add: opts_buf_def)
  have 2: "wr ((dhcp_tlv xs @ [c]) @ replicate (?k - 1) 0) (length (dhcp_tlv xs) + 1) l =
      Some ((dhcp_tlv xs @ [c]) @ l # replicate (?k - 1 - 1) 0)"
    using k wr_append [of "?k - 1" "dhcp_tlv xs @ [c]" 0 l] by simp
  have n: "nat (opts_off xs) = length (dhcp_tlv xs)" "nat (opts_off xs + 1) = length (dhcp_tlv xs) + 1"
    by (simp_all add: opts_off_def)
  have g: "\<not> (opts_off xs < 0 \<or> opts_off xs + 2 + uint l > int DHCP_OPTIONS_LEN)"
    using assms uint_nat [of l] unfolding opts_off_def by linarith
  show ?thesis
    using 2 by (simp add: recovery_dhcp_put_option_head_def g 1 n)
qed

lemma put_u8_eq:
  assumes "length (dhcp_tlv xs) + 3 \<le> DHCP_OPTIONS_LEN"
  shows "recovery_dhcp_put_u8_option (opts_buf xs) (opts_off xs) c v =
           Some (opts_off (xs @ [(c, [v])]), opts_buf (xs @ [(c, [v])]))"
proof -
  let ?w = "dhcp_tlv xs @ [c, 1]" and ?k = "DHCP_OPTIONS_LEN - length (dhcp_tlv xs) - 2"
  have "wr (?w @ replicate ?k 0) (length ?w) v = Some (?w @ v # replicate (?k - 1) 0)"
    using assms by (intro wr_append) simp
  moreover have "nat (opts_off xs + 2) = length ?w" by (simp add: opts_off_def)
  ultimately have "wr (?w @ replicate ?k 0) (nat (opts_off xs + 2)) v = Some (opts_buf (xs @ [(c, [v])]))"
    by (simp add: opts_buf_def)
  with put_head_eq [of xs 1 c] assms show ?thesis
    by (simp add: recovery_dhcp_put_u8_option_def) (simp add: opts_off_def)
qed

lemma put_slice:
  assumes "length (dhcp_tlv xs) + 6 \<le> DHCP_OPTIONS_LEN" "length v = 4"
  shows "wr_slice ((dhcp_tlv xs @ [c, 4]) @ replicate (DHCP_OPTIONS_LEN - length (dhcp_tlv xs) - 2) 0)
           (nat (opts_off xs + 2)) v = Some (opts_buf (xs @ [(c, v)]))"
proof -
  let ?w = "dhcp_tlv xs @ [c, 4]" and ?k = "DHCP_OPTIONS_LEN - length (dhcp_tlv xs) - 2"
  have n: "nat (opts_off xs + 2) = length ?w" by (simp add: opts_off_def)
  have "overwrite (length ?w) v (?w @ replicate ?k 0) = ?w @ v @ replicate (?k - length v) 0"
    using assms by (intro overwrite_append) simp
  also have "\<dots> = opts_buf (xs @ [(c, v)])"
    using assms by (simp add: opts_buf_def add.commute)
  finally show ?thesis
    unfolding wr_slice_def n using assms by simp
qed

lemma put_u32_eq:
  assumes "length (dhcp_tlv xs) + 6 \<le> DHCP_OPTIONS_LEN"
  shows "recovery_dhcp_put_u32_option (opts_buf xs) (opts_off xs) c v =
           Some (opts_off (xs @ [(c, htonl_bytes v)]), opts_buf (xs @ [(c, htonl_bytes v)]))"
  using put_head_eq [of xs 4 c] put_slice [OF assms, of "htonl_bytes v" c] assms
  by (simp add: recovery_dhcp_put_u32_option_def length_htonl_bytes) (simp add: opts_off_def length_htonl_bytes)

lemma put_ip4_eq:
  assumes "length (dhcp_tlv xs) + 6 \<le> DHCP_OPTIONS_LEN"
  shows "recovery_dhcp_put_ip4_option (opts_buf xs) (opts_off xs) c a =
           Some (opts_off (xs @ [(c, ip4_bytes a)]), opts_buf (xs @ [(c, ip4_bytes a)]))"
  using put_head_eq [of xs 4 c] put_slice [OF assms, of "ip4_bytes a" c] assms
  by (simp add: recovery_dhcp_put_ip4_option_def length_ip4_bytes) (simp add: opts_off_def length_ip4_bytes)

definition reply_opts :: "dhcp_server \<Rightarrow> u8 \<Rightarrow> bool \<Rightarrow> (u8 \<times> bytes) list" where
  "reply_opts srv t assign =
     [(53, [t]), (54, ip4_bytes (server_ip srv))] @
     (if assign then [(51, htonl_bytes 86400), (58, htonl_bytes 43200), (59, htonl_bytes 75600)] else []) @
     (if t \<noteq> 6 then [(1, ip4_bytes (netmask srv)), (3, ip4_bytes (router srv)),
                     (28, ip4_bytes (broadcast srv)), (6, ip4_bytes (dns srv))] else [])"

lemma length_reply_opts: "length (dhcp_tlv (reply_opts srv t a)) \<le> 51"
  by (simp add: reply_opts_def length_htonl_bytes length_ip4_bytes)

lemma wf_reply_opts: "list_all wf_option (reply_opts srv t a)"
  by (simp add: reply_opts_def wf_option_def length_htonl_bytes length_ip4_bytes)

lemma put_first:
  "recovery_dhcp_put_u8_option (replicate DHCP_OPTIONS_LEN 0) 0 c v =
     Some (opts_off [(c, [v])], opts_buf [(c, [v])])"
  using put_u8_eq [of "[]" c v] by (simp add: opts_buf_def opts_off_def dhcp_sizes)

lemma reply_options_eq:
  "dhcp_reply_options srv t a (replicate DHCP_OPTIONS_LEN 0) =
     Some (opts_off (reply_opts srv t a), opts_buf (reply_opts srv t a))"
  by (simp add: dhcp_reply_options_def put_first [unfolded DHCP_OPTIONS_LEN_def] put_ip4_eq put_u32_eq
      DHCP_OPTIONS_LEN_def       length_htonl_bytes length_ip4_bytes reply_opts_def RECOVERY_DHCP_LEASE_SECS_def)


section \<open>Replies\<close>

lemma pad_options_eq:
  "length w + k = DHCP_OPTIONS_LEN \<Longrightarrow>
   dhcp_pad_options (w @ replicate k 0) (length w) = Some (DHCP_OPTIONS_LEN, w @ replicate k 0)"
proof (induction k arbitrary: w)
  case 0
  then show ?case by (subst dhcp_pad_options.simps) (simp add: dhcp_sizes)
next
  case (Suc k)
  have "dhcp_pad_options ((w @ [0]) @ replicate k 0) (length (w @ [0])) =
      Some (DHCP_OPTIONS_LEN, (w @ [0]) @ replicate k 0)"
    using Suc.prems by (intro Suc.IH) simp
  moreover have "wr (w @ replicate (Suc k) 0) (length w) 0 = Some (w @ 0 # replicate k 0)"
    using wr_append [of "Suc k" w 0 0] by simp
  ultimately show ?case
    using Suc.prems by (subst dhcp_pad_options.simps) (simp add: dhcp_sizes)
qed

text \<open>A message whose fields have the sizes of the C struct.\<close>

definition wf_msg :: "dhcp_msg \<Rightarrow> bool" where
  "wf_msg r \<longleftrightarrow> length (xid r) = 4 \<and> length (secs r) = 2 \<and> length (chaddr r) = 16 \<and>
     length (sname r) = 64 \<and> length (bootfile r) = 128 \<and> length (cookie r) = 4"

lemma wf_msg_of: "DHCP_OPTIONS_OFS \<le> length b \<Longrightarrow> wf_msg (dhcp_msg_of b)"
  by (simp add: wf_msg_def dhcp_msg_of_def dhcp_sizes)

lemma ip4_of_bytes [simp]: "ip4_of (ip4_bytes a @ xs) = a"
  by (cases a) simp

lemma wf_reply_header: "wf_msg req \<Longrightarrow> wf_msg (dhcp_reply_header srv req a)"
  by (simp add: wf_msg_def dhcp_reply_header_def dhcp_sizes dhcp_magic_cookie_def)

lemma dhcp_msg_bytes_split:
  "dhcp_msg_bytes r = dhcp_msg_bytes (r\<lparr>options := []\<rparr>) @ options r"
  by (simp add: dhcp_msg_bytes_def)

lemma length_header: "wf_msg r \<Longrightarrow> length (dhcp_msg_bytes (r\<lparr>options := []\<rparr>)) = DHCP_OPTIONS_OFS"
  by (simp add: dhcp_msg_bytes_def wf_msg_def length_ip4_bytes dhcp_sizes)

lemma msg_roundtrip:
  assumes "wf_msg r" "length (options r) = DHCP_OPTIONS_LEN"
  shows "dhcp_msg_of (dhcp_msg_bytes r) = r"
proof -
  obtain x0 x1 x2 x3 where x: "xid r = [x0, x1, x2, x3]"
    using assms(1) by (auto simp: wf_msg_def length_Suc_conv numeral_eq_Suc)
  obtain s0 s1 where s: "secs r = [s0, s1]"
    using assms(1) by (auto simp: wf_msg_def length_Suc_conv numeral_eq_Suc)
  obtain c0 c1 c2 c3 y0 y1 y2 y3 where c: "ciaddr r = (c0, c1, c2, c3)" and y: "yiaddr r = (y0, y1, y2, y3)"
    by (metis surj_pair)
  obtain i0 i1 i2 i3 g0 g1 g2 g3 where i: "siaddr r = (i0, i1, i2, i3)" and g: "giaddr r = (g0, g1, g2, g3)"
    by (metis surj_pair)
  show ?thesis
    using assms
    by (simp add: dhcp_msg_of_def dhcp_msg_bytes_def x s c y i g wf_msg_def dhcp_sizes)
qed

text \<open>The packet a reply is: header, encoded options, terminator, padding.\<close>

definition dhcp_reply :: "dhcp_server \<Rightarrow> dhcp_msg \<Rightarrow> u8 \<Rightarrow> bool \<Rightarrow> dhcp_msg" where
  "dhcp_reply srv req t a =
     (dhcp_reply_header srv req a)\<lparr>options :=
        dhcp_tlv (reply_opts srv t a) @ 255 #
        replicate (DHCP_OPTIONS_LEN - Suc (length (dhcp_tlv (reply_opts srv t a)))) 0\<rparr>"

lemma send_reply_eq:
  assumes "wf_msg req"
  shows "recovery_dhcp_send_reply alloc_ok send_ok srv req t a =
     Some (if alloc_ok then (if send_ok then 0 else - EIO, [dhcp_msg_bytes (dhcp_reply srv req t a)])
           else (- ENOMEM, []))"
proof -
  let ?T = "dhcp_tlv (reply_opts srv t a)" and ?h = "dhcp_reply_header srv req a"
  let ?k = "DHCP_OPTIONS_LEN - Suc (length ?T)"
  have len: "length (?T @ [255]) + ?k = DHCP_OPTIONS_LEN" and k: "DHCP_OPTIONS_LEN - length ?T = Suc ?k"
    using length_reply_opts [of srv t a] by (simp_all add: dhcp_sizes)
  have w: "wr (opts_buf (reply_opts srv t a)) (length ?T) 255 = Some ((?T @ [255]) @ replicate ?k 0)"
    unfolding opts_buf_def k using wr_append [of "Suc ?k" ?T 0 255] by simp
  have p: "dhcp_pad_options ((?T @ [255]) @ replicate ?k 0) (length ?T + 1) =
      Some (DHCP_OPTIONS_LEN, (?T @ [255]) @ replicate ?k 0)"
    using pad_options_eq [OF len] by simp
  have "length (dhcp_msg_bytes (dhcp_reply srv req t a)) = DHCP_OPTIONS_OFS + DHCP_OPTIONS_LEN"
    using length_header [OF wf_reply_header [OF assms], of srv a] len
    by (subst dhcp_msg_bytes_split) (simp add: dhcp_reply_def)
  then have "recovery_dhcp_finalize_options (?h\<lparr>options := opts_buf (reply_opts srv t a)\<rparr>) (length ?T) =
      Some (dhcp_msg_bytes (dhcp_reply srv req t a))"
    using w p by (simp add: recovery_dhcp_finalize_options_def dhcp_reply_def)
  then show ?thesis
    using reply_options_eq [of srv t a]
    by (simp add: recovery_dhcp_send_reply_def Let_def dhcp_reply_header_def opts_off_def)
qed

section \<open>The server's decision\<close>

definition dhcp_opt_u8 :: "bytes \<Rightarrow> u8 \<Rightarrow> u8 option" where
  "dhcp_opt_u8 pkt code = (case dhcp_option_bytes pkt code of Some [v] \<Rightarrow> Some v | _ \<Rightarrow> None)"

definition dhcp_opt_ip4 :: "bytes \<Rightarrow> u8 \<Rightarrow> ip4 option" where
  "dhcp_opt_ip4 pkt code =
     (case dhcp_option_bytes pkt code of Some [a, b, c, d] \<Rightarrow> Some (a, b, c, d) | _ \<Rightarrow> None)"

text \<open>
  Which reply a packet deserves: its message type and whether it assigns the address.
\<close>

definition dhcp_request_ok :: "dhcp_server \<Rightarrow> bytes \<Rightarrow> bool option" where
  "dhcp_request_ok srv pkt =
     (if (\<exists>ip. dhcp_opt_ip4 pkt 54 = Some ip \<and> ip \<noteq> server_ip srv) then None
      else case dhcp_opt_ip4 pkt 50 of
             Some ip \<Rightarrow> Some (ip = client_ip srv)
           | None \<Rightarrow> Some (ciaddr (dhcp_msg_of pkt) \<in> {ip4_any, client_ip srv}))"

definition dhcp_decision :: "dhcp_server \<Rightarrow> bytes \<Rightarrow> (u8 \<times> bool) option" where
  "dhcp_decision srv pkt =
     (if length pkt < 240 \<or> take 3 pkt \<noteq> [1, 1, 6] \<or> take 4 (drop 236 pkt) \<noteq> dhcp_magic_cookie
      then None
      else case dhcp_opt_u8 pkt 53 of
          None \<Rightarrow> None
        | Some t \<Rightarrow>
            if t = 1 then Some (2, True)
            else if t = 3 then (case dhcp_request_ok srv pkt of None \<Rightarrow> None
                                | Some True \<Rightarrow> Some (5, True) | Some False \<Rightarrow> Some (6, False))
            else if t = 8 then Some (5, False)
            else None)"

lemma take_1_drop: "o' < length m \<Longrightarrow> take 1 (drop o' m) = [m ! o']"
  by (simp add: take_Suc_conv_app_nth)

lemma take_4_drop:
  "o' + 4 \<le> length m \<Longrightarrow> take 4 (drop o' m) = [m ! o', m ! (o' + 1), m ! (o' + 2), m ! (o' + 3)]"
  by (simp add: take_Suc_conv_app_nth numeral_eq_Suc)

lemma get_u8_option_eq:
  "\<exists>e. recovery_dhcp_get_u8_option pkt (length pkt) code =
     Some (case dhcp_opt_u8 pkt code of None \<Rightarrow> Inl e | Some v \<Rightarrow> Inr v)"
proof -
  obtain r where r: "recovery_dhcp_get_option pkt (length pkt) code = Some r"
      and b: "\<forall>o' l. r = Inr (o', l) \<longrightarrow> o' + unat l \<le> length pkt"
    using get_option_total [of "length pkt" pkt code] by auto
  show ?thesis
  proof (cases r)
    case (Inl e)
    with r show ?thesis
      by (auto simp: recovery_dhcp_get_u8_option_def dhcp_opt_u8_def dhcp_option_bytes_def)
  next
    case (Inr ol)
    obtain o' l where ol: "ol = (o', l)" by fastforce
    have bd: "o' + unat l \<le> length pkt" using b Inr ol by simp
    show ?thesis
    proof (cases "l = 1")
      case True
      with r Inr ol bd show ?thesis
        by (simp add: recovery_dhcp_get_u8_option_def dhcp_opt_u8_def dhcp_option_bytes_def rd_in
            take_1_drop [simplified])
    next
      case False
      then have "unat l \<noteq> 1" by (metis unat_1 word_eq_of_nat of_nat_1)
      then have "length (take (unat l) (drop o' pkt)) \<noteq> 1" using bd by simp
      then have "dhcp_opt_u8 pkt code = None"
        using r Inr ol by (auto simp: dhcp_opt_u8_def dhcp_option_bytes_def split: list.splits
            dest: arg_cong [where f = length])
      with r Inr ol False show ?thesis by (simp add: recovery_dhcp_get_u8_option_def)
    qed
  qed
qed

lemma get_ip4_option_eq:
  "\<exists>e. recovery_dhcp_get_ip4_option pkt (length pkt) code =
     Some (case dhcp_opt_ip4 pkt code of None \<Rightarrow> Inl e | Some v \<Rightarrow> Inr v)"
proof -
  obtain r where r: "recovery_dhcp_get_option pkt (length pkt) code = Some r"
      and b: "\<forall>o' l. r = Inr (o', l) \<longrightarrow> o' + unat l \<le> length pkt"
    using get_option_total [of "length pkt" pkt code] by auto
  show ?thesis
  proof (cases r)
    case (Inl e)
    with r show ?thesis
      by (auto simp: recovery_dhcp_get_ip4_option_def dhcp_opt_ip4_def dhcp_option_bytes_def)
  next
    case (Inr ol)
    obtain o' l where ol: "ol = (o', l)" by fastforce
    have bd: "o' + unat l \<le> length pkt" using b Inr ol by simp
    show ?thesis
    proof (cases "l = 4")
      case True
      with r Inr ol bd show ?thesis
        by (simp add: recovery_dhcp_get_ip4_option_def dhcp_opt_ip4_def dhcp_option_bytes_def
            rd_slice_in take_4_drop)
    next
      case False
      then have "unat l \<noteq> 4" by (metis word_eq_of_nat of_nat_numeral)
      then have "length (take (unat l) (drop o' pkt)) \<noteq> 4" using bd by simp
      then have "dhcp_opt_ip4 pkt code = None"
        using r Inr ol by (auto simp: dhcp_opt_ip4_def dhcp_option_bytes_def split: list.splits
            dest: arg_cong [where f = length])
      with r Inr ol False show ?thesis by (simp add: recovery_dhcp_get_ip4_option_def)
    qed
  qed
qed

lemma classify_request_eq:
  "recovery_dhcp_classify_request srv (dhcp_msg_of pkt) pkt (length pkt) =
     Some (case dhcp_request_ok srv pkt of
             None \<Rightarrow> RECOVERY_DHCP_REQUEST_IGNORE
           | Some ok \<Rightarrow> if ok then RECOVERY_DHCP_REQUEST_ACK else RECOVERY_DHCP_REQUEST_NAK)"
proof -
  obtain e1 where e1: "recovery_dhcp_get_ip4_option pkt (length pkt) 54 =
      Some (case dhcp_opt_ip4 pkt 54 of None \<Rightarrow> Inl e1 | Some v \<Rightarrow> Inr v)"
    using get_ip4_option_eq by blast
  obtain e2 where e2: "recovery_dhcp_get_ip4_option pkt (length pkt) 50 =
      Some (case dhcp_opt_ip4 pkt 50 of None \<Rightarrow> Inl e2 | Some v \<Rightarrow> Inr v)"
    using get_ip4_option_eq by blast
  show ?thesis
    by (auto simp: recovery_dhcp_classify_request_def e1 e2 dhcp_request_ok_def split: option.splits)
qed

lemma header_bytes:
  "240 \<le> length pkt \<Longrightarrow>
   (op (dhcp_msg_of pkt) = 1 \<and> htype (dhcp_msg_of pkt) = 1 \<and> hlen (dhcp_msg_of pkt) = 6) =
   (take 3 pkt = [1, 1, 6])"
  by (cases pkt; cases "tl pkt"; cases "tl (tl pkt)") (auto simp: dhcp_msg_of_def)

text \<open>
  C26: the receive callback answers a packet exactly as the decision of the protocol says:
  nothing for a foreign port, a malformed header or a request for another server, an OFFER or
  ACK that assigns the client address, a NAK, or an ACK to an INFORM. The answer is one packet
  with the reply's fields and options, and for no packet at all, however short, long or
  corrupt its options are, does the callback read outside the received bytes.
\<close>

theorem dhcp_recv_decides:
  "recovery_dhcp_recv allowed alloc_ok send_ok arg rx_srv p port =
     Some (case (case arg of None \<Rightarrow> rx_srv | Some s \<Rightarrow> Some s) of
             None \<Rightarrow> []
           | Some srv \<Rightarrow>
               if allowed srv \<and> port = 68 \<and> alloc_ok
               then (case dhcp_decision srv (take 1500 p) of
                       None \<Rightarrow> []
                     | Some (t, a) \<Rightarrow>
                         [dhcp_msg_bytes (dhcp_reply srv (dhcp_msg_of (take 1500 p)) t a)])
               else [])"
  (is "?lhs = Some _")
proof (cases "case arg of None \<Rightarrow> rx_srv | Some s \<Rightarrow> Some s")
  case None
  then show ?thesis by (simp add: recovery_dhcp_recv_def)
next
  case (Some srv)
  define pkt where "pkt = take 1500 p"
  obtain e where e: "recovery_dhcp_get_u8_option pkt (length pkt) 53 =
      Some (case dhcp_opt_u8 pkt 53 of None \<Rightarrow> Inl e | Some v \<Rightarrow> Inr v)"
    using get_u8_option_eq by blast
  have wf: "240 \<le> length pkt \<Longrightarrow> wf_msg (dhcp_msg_of pkt)"
    using wf_msg_of [of pkt] by (simp add: dhcp_sizes)
  have ck: "cookie (dhcp_msg_of pkt) = take 4 (drop 236 pkt)" by (simp add: dhcp_msg_of_def)
  show ?thesis
  proof (cases "length pkt < 240 \<or> take 3 pkt \<noteq> [1, 1, 6] \<or> take 4 (drop 236 pkt) \<noteq> dhcp_magic_cookie")
    case True
    then have "dhcp_decision srv pkt = None" by (simp add: dhcp_decision_def)
    moreover have "?lhs = Some []"
      using True Some header_bytes [of pkt] unfolding recovery_dhcp_recv_def Let_def RECOVERY_DHCP_MAX_MSG_LEN_def
        pkt_def [symmetric] ck
      by (auto simp: dhcp_sizes)
    ultimately show ?thesis using Some by (simp add: pkt_def)
  next
    case False
    then have hdr: "op (dhcp_msg_of pkt) = 1" "htype (dhcp_msg_of pkt) = 1" "hlen (dhcp_msg_of pkt) = 6"
      using header_bytes [of pkt] by auto
    note send = send_reply_eq [OF wf]
    show ?thesis
      using False hdr Some unfolding recovery_dhcp_recv_def Let_def RECOVERY_DHCP_MAX_MSG_LEN_def
        pkt_def [symmetric] ck e
      by (auto simp: dhcp_sizes send classify_request_eq dhcp_decision_def split: option.splits)
  qed
qed


text \<open>
  C27: a reply is 308 bytes long, casting it back to the message struct gives the reply that
  was built, and the server's own option parser finds in it exactly the options that were
  written, so that no option overran its buffer or hid another.
\<close>

theorem dhcp_reply_roundtrip:
  assumes "240 \<le> length pkt"
  shows "length (dhcp_msg_bytes (dhcp_reply srv (dhcp_msg_of pkt) t a)) = 308 \<and>
         dhcp_option_bytes (dhcp_msg_bytes (dhcp_reply srv (dhcp_msg_of pkt) t a)) code =
           map_of (reply_opts srv t a) code \<and>
         dhcp_msg_of (dhcp_msg_bytes (dhcp_reply srv (dhcp_msg_of pkt) t a)) =
           dhcp_reply srv (dhcp_msg_of pkt) t a"
proof -
  let ?req = "dhcp_msg_of pkt" and ?h = "dhcp_reply_header srv (dhcp_msg_of pkt) a"
  let ?r = "dhcp_reply srv ?req t a" and ?T = "dhcp_tlv (reply_opts srv t a)"
  let ?z = "replicate (DHCP_OPTIONS_LEN - Suc (length ?T)) (0 :: u8)"
  have wf: "wf_msg ?h" using assms by (intro wf_reply_header wf_msg_of) (simp add: dhcp_sizes)
  then have wfr: "wf_msg ?r" by (simp add: wf_msg_def dhcp_reply_def)
  have opts: "length (options ?r) = DHCP_OPTIONS_LEN"
    using length_reply_opts [of srv t a] by (simp add: dhcp_reply_def dhcp_sizes)
  have split: "dhcp_msg_bytes ?r = dhcp_msg_bytes (?h\<lparr>options := []\<rparr>) @ ?T @ 255 # ?z"
    by (subst dhcp_msg_bytes_split) (simp add: dhcp_reply_def)
  have "length (dhcp_msg_bytes ?r) = 308"
    using length_header [OF wfr] opts by (subst dhcp_msg_bytes_split) (simp add: dhcp_sizes)
  moreover have "dhcp_option_bytes (dhcp_msg_bytes ?r) code = map_of (reply_opts srv t a) code"
    unfolding split by (rule dhcp_option_bytes_tlv [OF wf_reply_opts length_header [OF wf]])
  moreover have "dhcp_msg_of (dhcp_msg_bytes ?r) = ?r"
    by (rule msg_roundtrip [OF wfr opts])
  ultimately show ?thesis by blast
qed

section \<open>Addresses\<close>

lemma bit_u8_high: "8 \<le> n \<Longrightarrow> \<not> bit (b :: u8) n"
  using bit_imp_le_length [of b n] by auto

lemma scalar_roundtrip: "recovery_dhcp_scalar_to_ip4 (recovery_dhcp_ip4_to_scalar a) = a"
proof -
  obtain b0 b1 b2 b3 where a: "a = (b0, b1, b2, b3)" by (metis surj_pair)
  show ?thesis
    by (auto simp: a recovery_dhcp_scalar_to_ip4_def bit_simps bit_u8_high intro!: bit_eqI)
qed

lemma ip4_roundtrip: "recovery_dhcp_ip4_to_scalar (recovery_dhcp_scalar_to_ip4 v) = v"
proof (rule bit_eqI)
  fix n assume "possible_bit TYPE(u32) n"
  then consider "n < 8" | "8 \<le> n" "n < 16" | "16 \<le> n" "n < 24" | "24 \<le> n" "n < 32"
    by fastforce
  then show "bit (recovery_dhcp_ip4_to_scalar (recovery_dhcp_scalar_to_ip4 v)) n = bit v n"
    by cases (auto simp: recovery_dhcp_scalar_to_ip4_def bit_simps)
qed

text \<open>
  C28: for a netmask of at most 30 bits the offered address lies in the subnet of the server and
  has host number 2; it is the server's own address exactly when the server itself has host
  number 2, which the code does not exclude.
\<close>

theorem dhcp_offer_in_subnet:
  assumes "recovery_dhcp_ip4_to_scalar nm AND 3 = 0"
    and "recovery_dhcp_server_init True True ip nm gw = (r, srv)"
  shows "r = 0 \<and> has_pcb srv \<and>
     recovery_dhcp_ip4_to_scalar (client_ip srv) AND recovery_dhcp_ip4_to_scalar nm =
       recovery_dhcp_ip4_to_scalar ip AND recovery_dhcp_ip4_to_scalar nm \<and>
     recovery_dhcp_ip4_to_scalar (client_ip srv) AND NOT (recovery_dhcp_ip4_to_scalar nm) = 2 \<and>
     (client_ip srv = ip \<longleftrightarrow>
        recovery_dhcp_ip4_to_scalar ip AND NOT (recovery_dhcp_ip4_to_scalar nm) = 2)"
proof -
  let ?s = "recovery_dhcp_ip4_to_scalar ip" and ?m = "recovery_dhcp_ip4_to_scalar nm"
  have srv: "r = 0" "has_pcb srv" "client_ip srv = recovery_dhcp_scalar_to_ip4 ((?s AND ?m) OR 2)"
    using assms(2) by (auto simp: recovery_dhcp_server_init_def Let_def RECOVERY_DHCP_CLIENT_HOST_def)
  have c: "recovery_dhcp_ip4_to_scalar (client_ip srv) = (?s AND ?m) OR 2"
    by (simp add: srv ip4_roundtrip)
  have b3: "bit (3 :: u32) n \<longleftrightarrow> n = 0 \<or> n = 1" and b2: "bit (2 :: u32) n \<longleftrightarrow> n = 1" for n
  proof -
    have m3: "(3 :: u32) = mask 2" by (simp add: mask_eq_exp_minus_1)
    show "bit (3 :: u32) n \<longleftrightarrow> n = 0 \<or> n = 1" unfolding m3 bit_mask_iff by auto
    show "bit (2 :: u32) n \<longleftrightarrow> n = 1" by (auto simp: bit_2_iff)
  qed
  have m: "\<not> bit ?m 0" "\<not> bit ?m 1"
    using assms(1) by (metis b3 bit_0_eq bit_and_iff bot_apply bot_bool_def)+
  have sub: "((?s AND ?m) OR 2) AND ?m = ?s AND ?m"
    by (rule bit_eqI) (use m in \<open>auto simp: bit_simps b2\<close>)
  have host: "((?s AND ?m) OR 2) AND NOT ?m = 2"
    by (rule bit_eqI) (use m in \<open>auto simp: bit_simps b2\<close>)
  have "client_ip srv = ip \<longleftrightarrow> (?s AND ?m) OR 2 = ?s"
    using c scalar_roundtrip by (metis)
  also have "\<dots> \<longleftrightarrow> ?s AND NOT ?m = 2"
  proof
    assume "(?s AND ?m) OR 2 = ?s"
    then show "?s AND NOT ?m = 2" using host by simp
  next
    assume "?s AND NOT ?m = 2"
    moreover have "?s = (?s AND ?m) OR (?s AND NOT ?m)"
      by (rule bit_eqI) (auto simp: bit_simps)
    ultimately show "(?s AND ?m) OR 2 = ?s" by simp
  qed
  finally show ?thesis using srv(1,2) sub host by (simp add: c)
qed


theorem dhcp_reply_roundtrip_witness:
  "240 \<le> length (replicate 300 (1 :: u8)) \<and>
   (\<forall>srv. dhcp_option_bytes (dhcp_msg_bytes (dhcp_reply srv (dhcp_msg_of (replicate 300 1)) 5 True)) 54 =
     Some (ip4_bytes (server_ip srv)))"
  using dhcp_reply_roundtrip [of "replicate 300 1" _ 5 True 54] by (simp add: reply_opts_def)

theorem dhcp_offer_in_subnet_witness:
  "client_ip (snd (recovery_dhcp_server_init True True (192, 168, 0, 2) (255, 255, 255, 0) (0, 0, 0, 0)))
     = (192, 168, 0, 2) \<and>
   client_ip (snd (recovery_dhcp_server_init True True (192, 168, 0, 1) (255, 255, 255, 0) (0, 0, 0, 0)))
     \<noteq> (192, 168, 0, 1)"
proof -
  let ?nm = "(255, 255, 255, 0) :: ip4" and ?init = "\<lambda>ip. recovery_dhcp_server_init True True ip (255, 255, 255, 0) (0, 0, 0, 0)"
  have 1: "recovery_dhcp_ip4_to_scalar ?nm AND 3 = 0" by simp
  have 2: "recovery_dhcp_ip4_to_scalar (192, 168, 0, 2) AND NOT (recovery_dhcp_ip4_to_scalar ?nm) = 2"
    "recovery_dhcp_ip4_to_scalar (192, 168, 0, 1) AND NOT (recovery_dhcp_ip4_to_scalar ?nm) = 1" by simp_all
  have 3: "client_ip (snd (?init ip)) = ip \<longleftrightarrow>
      recovery_dhcp_ip4_to_scalar ip AND NOT (recovery_dhcp_ip4_to_scalar ?nm) = 2" for ip
    using dhcp_offer_in_subnet [OF 1 surjective_pairing [of "?init ip"]] by blast
  show ?thesis unfolding 3 2 by simp
qed

end
