(* ===== verification/NetLwip.thy ===== *)
theory NetLwip
  imports Dhcp Backup
begin

text \<open>
  The recovery additions to \<^verbatim>\<open>net/lwip/net-lwip.c\<close>: the filter that takes DHCP frames out of the receive
  path, the receive loop, the routing hooks, the network interfaces and their addresses, with the
  address parser of lwIP (\<^verbatim>\<open>ip4addr_aton\<close>).
\<close>

section \<open>Frames for the DHCP server\<close>

abbreviation (input) "SIZEOF_ETH_HDR \<equiv> (14 :: nat)"
abbreviation (input) "SIZEOF_VLAN_HDR \<equiv> (4 :: nat)"
abbreviation (input) "SIZEOF_IP_HDR \<equiv> (20 :: nat)"
abbreviation (input) "SIZEOF_UDP_HDR \<equiv> (8 :: nat)"
abbreviation (input) "IP_HLEN \<equiv> (20 :: nat)"
abbreviation (input) "IP_HLEN_MAX \<equiv> (60 :: nat)"
abbreviation (input) "IP_PROTO_UDP \<equiv> (17 :: u8)"
abbreviation (input) "ETHTYPE_IP \<equiv> (0x0800 :: u16)"
abbreviation (input) "ETHTYPE_VLAN \<equiv> (0x8100 :: u16)"
abbreviation (input) "ETHTYPE_QINQ \<equiv> (0x9100 :: u16)"
abbreviation (input) "ETHTYPE_8021AD \<equiv> (0x88a8 :: u16)"
abbreviation (input) "IP_MF \<equiv> (0x2000 :: u16)"
abbreviation (input) "IP_OFFMASK \<equiv> (0x1fff :: u16)"
abbreviation (input) "LWIP_IANA_PORT_DHCP_SERVER \<equiv> (67 :: u16)"

definition RECOVERY_DHCP_MAX_VLAN_TAGS :: nat where "RECOVERY_DHCP_MAX_VLAN_TAGS = 2"

text \<open>A 16-bit field in network byte order.\<close>

definition ntohs :: "u8 \<Rightarrow> u8 \<Rightarrow> u16" where
  "ntohs a b = of_nat (256 * unat a + unat b)"

definition rd16 :: "bytes \<Rightarrow> nat \<Rightarrow> u16 option" where
  "rd16 m p = do { a \<leftarrow> rd m p; b \<leftarrow> rd m (p + 1); Some (ntohs a b) }"

definition net_lwip_recovery_vlan_type :: "u16 \<Rightarrow> bool" where
  "net_lwip_recovery_vlan_type eth_type \<longleftrightarrow>
     eth_type = ETHTYPE_VLAN \<or> eth_type = ETHTYPE_QINQ \<or> eth_type = ETHTYPE_8021AD"

text \<open>
  The loop over the VLAN tags: \<^term>\<open>Some None\<close> refuses the frame, otherwise the offset after the tags
  and the type that follows them.
\<close>

fun skip_vlan_tags :: "bytes \<Rightarrow> nat \<Rightarrow> nat \<Rightarrow> nat \<Rightarrow> u16 \<Rightarrow> (nat \<times> u16) option option" where
  "skip_vlan_tags packet len 0 offset eth_type = Some (Some (offset, eth_type))"
| "skip_vlan_tags packet len (Suc n) offset eth_type =
    (if \<not> net_lwip_recovery_vlan_type eth_type then Some (Some (offset, eth_type))
     else if len < offset + SIZEOF_VLAN_HDR then Some None
     else do {
       prio_vid \<leftarrow> rd16 packet offset;
       if prio_vid AND 0x0fff \<noteq> 0 then Some None
       else do {
         tpid \<leftarrow> rd16 packet (offset + 2);
         skip_vlan_tags packet len n (offset + SIZEOF_VLAN_HDR) tpid
       }
     })"

text \<open>
  The frame filter in front of lwIP: \<open>hook\<close> is whether a hook is registered, \<open>alloc_ok\<close> the outcome of
  \<^verbatim>\<open>pbuf_alloc\<close>. The result says what the hook is called with (payload, source address, source port),
  or that lwIP gets the frame; the outer \<^term>\<open>None\<close> is a read outside the frame. \<^verbatim>\<open>pbuf_take\<close> of
  as many bytes as were allocated does not fail.
\<close>

definition net_lwip_dispatch_recovery_dhcp ::
    "bool \<Rightarrow> bool \<Rightarrow> bytes \<Rightarrow> nat \<Rightarrow> (bytes \<times> ip4 \<times> u16) option option" where
  "net_lwip_dispatch_recovery_dhcp hook alloc_ok packet len =
    (if \<not> hook \<or> len < SIZEOF_ETH_HDR + SIZEOF_IP_HDR + SIZEOF_UDP_HDR then Some None
     else do {
       eth_type \<leftarrow> rd16 packet 12;
       tags \<leftarrow> skip_vlan_tags packet len RECOVERY_DHCP_MAX_VLAN_TAGS SIZEOF_ETH_HDR eth_type;
       case tags of
         None \<Rightarrow> Some None
       | Some (offset, eth_type) \<Rightarrow>
           if eth_type \<noteq> ETHTYPE_IP \<or> len < offset + (SIZEOF_IP_HDR + SIZEOF_UDP_HDR) then Some None
           else do {
             v_hl \<leftarrow> rd packet offset;
             proto \<leftarrow> rd packet (offset + 9);
             let ip_hlen = unat ((v_hl AND 0x0f) * 4) in
             if drop_bit 4 v_hl \<noteq> 4 \<or> ip_hlen < IP_HLEN \<or> ip_hlen > IP_HLEN_MAX \<or> proto \<noteq> IP_PROTO_UDP then Some None
             else do {
               ip_len \<leftarrow> rd16 packet (offset + 2);
               ip_offset \<leftarrow> rd16 packet (offset + 6);
               if ip_offset AND (IP_MF OR IP_OFFMASK) \<noteq> 0 \<or> unat ip_len < ip_hlen + SIZEOF_UDP_HDR \<or>
                  unat ip_len > len - offset then Some None
               else if len < offset + ip_hlen + SIZEOF_UDP_HDR then Some None
               else do {
                 src \<leftarrow> rd16 packet (offset + ip_hlen);
                 dest \<leftarrow> rd16 packet (offset + ip_hlen + 2);
                 if src \<noteq> LWIP_IANA_PORT_DHCP_CLIENT \<or> dest \<noteq> LWIP_IANA_PORT_DHCP_SERVER then Some None
                 else do {
                   udp_len \<leftarrow> rd16 packet (offset + ip_hlen + 4);
                   if unat udp_len < SIZEOF_UDP_HDR \<or> unat udp_len > unat ip_len - ip_hlen \<or>
                      len < offset + ip_hlen + unat udp_len then Some None
                   else if unat udp_len - SIZEOF_UDP_HDR = 0 then Some None
                   else if \<not> alloc_ok then Some None
                   else do {
                     payload \<leftarrow> rd_slice packet (offset + ip_hlen + SIZEOF_UDP_HDR) (unat udp_len - SIZEOF_UDP_HDR);
                     src_ip \<leftarrow> rd_slice packet (offset + 12) 4;
                     Some (Some (payload, ip4_of src_ip, src))
                   }
                 }
               }
             }
           }
     })"

section \<open>What a frame for the DHCP server looks like\<close>

text \<open>
  A frame by its layers: the two MAC addresses, the tags as pairs of type and control field, the IP
  header with its options, the UDP header, the payload, and padding.
\<close>

definition be16 :: "u16 \<Rightarrow> bytes" where
  "be16 n = [of_nat (unat n div 256), of_nat (unat n mod 256)]"

definition eth_frame :: "bytes \<Rightarrow> (u16 \<times> u16) list \<Rightarrow> bytes \<Rightarrow> bytes" where
  "eth_frame macs tags pdu = macs @ concat (map (\<lambda>(t, p). be16 t @ be16 p) tags) @ be16 ETHTYPE_IP @ pdu"

definition udp_datagram :: "u8 \<Rightarrow> u16 \<Rightarrow> u16 \<Rightarrow> u16 \<Rightarrow> u8 \<Rightarrow> u16 \<Rightarrow> bytes \<Rightarrow> bytes \<Rightarrow> bytes \<Rightarrow> u16 \<Rightarrow> u16 \<Rightarrow> bytes" where
  "udp_datagram tos ip_len ident frag ttl chksum src dst opts udp_len udp_chksum =
     [of_nat (0x40 + (5 + length opts div 4)), tos] @ be16 ip_len @ be16 ident @ be16 frag @ [ttl, 17] @ be16 chksum @
     src @ dst @ opts @ be16 68 @ be16 67 @ be16 udp_len @ be16 udp_chksum"

lemma be16_length [simp]: "length (be16 n) = 2" by (simp add: be16_def)

lemma ntohs_be16: "ntohs (of_nat (unat n div 256)) (of_nat (unat n mod 256)) = n"
proof -
  have "unat n div 256 < 256" using unsigned_less [where 'a = nat, of n] by (intro less_mult_imp_div_less) simp
  then have "unat (of_nat (unat n div 256) :: u8) = unat n div 256" "unat (of_nat (unat n mod 256) :: u8) = unat n mod 256"
    by (simp_all add: unat_of_nat_small)
  then show ?thesis by (simp only: ntohs_def mult_div_mod_eq) simp
qed

lemma unat_ntohs: "unat (ntohs a b) = 256 * unat a + unat b"
  using unat_u8_less [of a] unat_u8_less [of b] unfolding ntohs_def by (intro unat_of_nat_small) simp

lemma be16_ntohs: "be16 (ntohs a b) = [a, b]"
  using unat_u8_less [of b] by (simp add: be16_def unat_ntohs)

lemma be16_inj: "be16 x @ r = be16 y @ s \<longleftrightarrow> x = y \<and> r = s"
proof
  assume e: "be16 x @ r = be16 y @ s"
  then have "ntohs (hd (be16 x @ r)) (hd (tl (be16 x @ r))) = ntohs (hd (be16 y @ s)) (hd (tl (be16 y @ s)))" by simp
  then have "x = y" by (simp add: be16_def ntohs_be16)
  with e show "x = y \<and> r = s" by simp
qed simp

lemma drop_nth2: "k + 2 \<le> length m \<Longrightarrow> drop k m = m ! k # m ! (k + 1) # drop (k + 2) m"
  by (metis Cons_nth_drop_Suc Suc_1 Suc_eq_plus1 Suc_le_lessD add_Suc_right less_Suc_eq not_less_eq)

lemma rd16_in: "k + 2 \<le> length m \<Longrightarrow> rd16 m k = Some (ntohs (m ! k) (m ! (k + 1)))"
  by (simp add: rd16_def rd_def)

lemma rd16_iff: "rd16 m k = Some x \<longleftrightarrow> (\<exists>r. drop k m = be16 x @ r)"
proof
  assume "rd16 m k = Some x"
  then have "k + 2 \<le> length m" "x = ntohs (m ! k) (m ! (k + 1))" by (auto simp: rd16_def rd_def split: if_splits)
  then show "\<exists>r. drop k m = be16 x @ r" using drop_nth2 [of k m] by (simp add: be16_ntohs)
next
  assume "\<exists>r. drop k m = be16 x @ r"
  then obtain r where r: "drop k m = be16 x @ r" by blast
  from arg_cong [OF this, of length] have l: "k + 2 \<le> length m" by simp
  with r have "be16 (ntohs (m ! k) (m ! (k + 1))) @ drop (k + 2) m = be16 x @ r" using drop_nth2 [of k m] by (simp add: be16_ntohs)
  then show "rd16 m k = Some x" using rd16_in [OF l] by (simp add: be16_inj)
qed

lemma rd16_drop: "rd16 m k = Some x \<Longrightarrow> drop k m = be16 x @ drop (k + 2) m"
proof -
  assume "rd16 m k = Some x"
  then obtain r where r: "drop k m = be16 x @ r" by (auto simp: rd16_iff)
  have "drop (k + 2) m = drop 2 (drop k m)" by (simp add: add.commute)
  with r show ?thesis by simp
qed

lemma rd16_of: "drop k m = be16 x @ r \<Longrightarrow> rd16 m k = Some x \<and> r = drop (k + 2) m"
  by (metis rd16_iff rd16_drop be16_inj)

section \<open>Skipping tags\<close>

definition tag_bytes :: "(u16 \<times> u16) list \<Rightarrow> bytes" where
  "tag_bytes tags = concat (map (\<lambda>(t, p). be16 t @ be16 p) tags)"

definition tags_ok :: "(u16 \<times> u16) list \<Rightarrow> bool" where
  "tags_ok tags \<longleftrightarrow> list_all (\<lambda>(t, p). net_lwip_recovery_vlan_type t \<and> p AND 0x0fff = 0) tags"

lemma tag_bytes_length [simp]: "length (tag_bytes tags) = 4 * length tags"
  by (induction tags) (auto simp: tag_bytes_def)

lemma skip_tags_found:
  "skip_vlan_tags m (length m) n k t = Some (Some (k', t')) \<Longrightarrow> k \<le> length m \<Longrightarrow>
   \<exists>tags. length tags \<le> n \<and> tags_ok tags \<and> k' = k + 4 * length tags \<and> k' \<le> length m \<and>
     be16 t @ drop k m = tag_bytes tags @ be16 t' @ drop k' m"
proof (induction m "length m" n k t rule: skip_vlan_tags.induct)
  case (1 m k t)
  then show ?case by (intro exI [of _ "[]"]) (simp add: tags_ok_def tag_bytes_def)
next
  case (2 m n k t)
  show ?case
  proof (cases "net_lwip_recovery_vlan_type t")
    case True
    then obtain p u where l: "k + 4 \<le> length m" and p: "rd16 m k = Some p" "p AND 0x0fff = 0" and u: "rd16 m (k + 2) = Some u"
      and r: "skip_vlan_tags m (length m) n (k + 4) u = Some (Some (k', t'))"
      using 2(2) by (auto split: if_splits bind_splits)
    obtain tags where t: "length tags \<le> n" "tags_ok tags" "k' = k + 4 + 4 * length tags" "k' \<le> length m"
      "be16 u @ drop (k + 4) m = tag_bytes tags @ be16 t' @ drop k' m"
      using 2(1) [OF _ _ p(1) _ u r] True l p(2) by auto
    have "be16 t @ drop k m = be16 t @ be16 p @ be16 u @ drop (k + 4) m"
      using rd16_drop [OF p(1)] rd16_drop [OF u] by (simp add: numeral_eq_Suc)
    then show ?thesis using t True p(2) by (intro exI [of _ "(t, p) # tags"]) (simp add: tags_ok_def tag_bytes_def)
  qed (use 2(2,3) in \<open>auto intro!: exI [of _ "[]"] simp: tags_ok_def tag_bytes_def\<close>)
qed

lemma skip_tags_frame:
  "be16 t @ drop k m = tag_bytes tags @ be16 t' @ r \<Longrightarrow> length tags \<le> n \<Longrightarrow> tags_ok tags \<Longrightarrow> \<not> net_lwip_recovery_vlan_type t' \<Longrightarrow>
   skip_vlan_tags m (length m) n k t = Some (Some (k + 4 * length tags, t'))"
proof (induction tags arbitrary: n k t)
  case Nil
  then show ?case by (cases n) (simp_all add: tag_bytes_def be16_inj)
next
  case (Cons tp tags)
  obtain u p where tp: "tp = (u, p)" by fastforce
  obtain n' where n: "n = Suc n'" using Cons(3) by (cases n) auto
  have "be16 t @ drop k m = be16 u @ be16 p @ tag_bytes tags @ be16 t' @ r" using Cons(2) tp by (simp add: tag_bytes_def)
  then have u: "t = u" and d: "drop k m = be16 p @ tag_bytes tags @ be16 t' @ r" by (simp_all only: be16_inj)
  obtain x s where x: "tag_bytes tags @ be16 t' @ r = be16 x @ s"
    by (cases tags) (auto simp: tag_bytes_def)
  from rd16_of [OF d] have p: "rd16 m k = Some p" "drop (k + 2) m = be16 x @ s" using x by simp_all
  from rd16_of [OF p(2)] have q: "rd16 m (k + 2) = Some x" "drop (k + 4) m = s" by (simp_all add: numeral_eq_Suc)
  have "length (drop k m) = length (be16 p @ be16 x @ s)" using d x by simp
  then have l: "k + 4 \<le> length m" by simp
  have "skip_vlan_tags m (length m) n' (k + 4) x = Some (Some (k + 4 + 4 * length tags, t'))"
    using Cons(1) [of x "k + 4" n'] x q Cons(3-5) n by (simp add: tags_ok_def)
  then show ?case using u p q l n tp Cons(4) by (simp add: tags_ok_def)
qed

lemma skip_tags_total: "k \<le> length m \<Longrightarrow> \<exists>r. skip_vlan_tags m (length m) n k t = Some r"
proof (induction n arbitrary: k t)
  case (Suc n)
  then show ?case by (cases "k + 4 \<le> length m") (simp_all add: rd16_in)
qed simp

section \<open>The IP packet\<close>

text \<open>The part of the filter that looks at the packet after the tags.\<close>

definition udp_of_ip :: "bool \<Rightarrow> bytes \<Rightarrow> (bytes \<times> ip4 \<times> u16) option option" where
  "udp_of_ip alloc_ok P = do {
     v_hl \<leftarrow> rd P 0;
     proto \<leftarrow> rd P 9;
     let hl = unat ((v_hl AND 0x0f) * 4) in
     if drop_bit 4 v_hl \<noteq> 4 \<or> hl < 20 \<or> hl > 60 \<or> proto \<noteq> 17 then Some None
     else do {
       ip_len \<leftarrow> rd16 P 2;
       frag \<leftarrow> rd16 P 6;
       if frag AND 0x3fff \<noteq> 0 \<or> unat ip_len < hl + 8 \<or> unat ip_len > length P then Some None
       else if length P < hl + 8 then Some None
       else do {
         src \<leftarrow> rd16 P hl;
         dest \<leftarrow> rd16 P (hl + 2);
         if src \<noteq> 68 \<or> dest \<noteq> 67 then Some None
         else do {
           udp_len \<leftarrow> rd16 P (hl + 4);
           if unat udp_len < 8 \<or> unat udp_len > unat ip_len - hl \<or> length P < hl + unat udp_len then Some None
           else if unat udp_len - 8 = 0 then Some None
           else if \<not> alloc_ok then Some None
           else do {
             payload \<leftarrow> rd_slice P (hl + 8) (unat udp_len - 8);
             src_ip \<leftarrow> rd_slice P 12 4;
             Some (Some (payload, ip4_of src_ip, src))
           }
         }
       }
     }
   }"

lemma rd_drop: "rd (drop k m) j = rd m (k + j)" by (auto simp: rd_def)

lemma rd16_drop_add: "rd16 (drop k m) j = rd16 m (k + j)" by (simp add: rd16_def rd_drop add.assoc)

lemma rd_slice_drop: "k \<le> length m \<Longrightarrow> rd_slice (drop k m) j n = rd_slice m (k + j) n"
  by (auto simp: rd_slice_def add.commute)

lemma dispatch_eq:
  "net_lwip_dispatch_recovery_dhcp hook alloc_ok m (length m) =
    (if \<not> hook \<or> length m < 42 then Some None
     else do {
       t \<leftarrow> rd16 m 12;
       tags \<leftarrow> skip_vlan_tags m (length m) 2 14 t;
       case tags of None \<Rightarrow> Some None
       | Some (k, t) \<Rightarrow> if t \<noteq> 0x0800 \<or> length m < k + 28 then Some None else udp_of_ip alloc_ok (drop k m)
     })"
proof -
  have "(0x2000 OR 0x1fff :: u16) = 0x3fff" by simp
  then show ?thesis
    unfolding net_lwip_dispatch_recovery_dhcp_def udp_of_ip_def RECOVERY_DHCP_MAX_VLAN_TAGS_def
    by (auto simp: rd_drop rd16_drop_add rd_slice_drop Let_def add.assoc less_diff_conv2 intro!: Option.bind_cong split: option.split)
qed

lemma vhl_split: "unat ((v AND 0x0f) * 4) = 4 * (unat v mod 16)" "unat (drop_bit 4 v) = unat v div 16" for v :: u8
proof -
  have "v AND 0x0f = take_bit 4 v" using take_bit_eq_mask [of 4 v] by (simp add: mask_eq_exp_minus_1)
  then have "unat (v AND 0x0f) = take_bit 4 (unat v)" by (simp only: unsigned_take_bit_eq)
  then have m: "unat (v AND 0x0f) = unat v mod 16" by (simp add: take_bit_eq_mod)
  then have "v AND 0x0f = of_nat (unat v mod 16)" by (rule word_eq_of_nat)
  then have "(v AND 0x0f) * 4 = of_nat (4 * (unat v mod 16))" by simp
  moreover have "4 * (unat v mod 16) < 2 ^ LENGTH(8)" using mod_less_divisor [of 16 "unat v"] by simp
  ultimately show "unat ((v AND 0x0f) * 4) = 4 * (unat v mod 16)" using unat_of_nat_small by metis
  show "unat (drop_bit 4 v) = unat v div 16" using drop_bit_eq_div [of 4 "unat v"] by (simp only: unat_drop_bit_eq) simp
qed

lemma vhl_iff: "drop_bit 4 v = 4 \<and> unat ((v AND 0x0f) * 4) = 4 * q \<and> q < 16 \<longleftrightarrow> v = of_nat (64 + q) \<and> q < 16" for v :: u8
proof
  assume a: "drop_bit 4 v = 4 \<and> unat ((v AND 0x0f) * 4) = 4 * q \<and> q < 16"
  then have "unat (drop_bit 4 v) = 4" by simp
  then have "unat v div 16 = 4" "unat v mod 16 = q" using a vhl_split [of v] by auto
  then have "unat v = 64 + q" by presburger
  then show "v = of_nat (64 + q) \<and> q < 16" using word_eq_of_nat a by blast
next
  assume a: "v = of_nat (64 + q) \<and> q < 16"
  then have u: "unat v = 64 + q" using unat_of_nat_small [of "64 + q", where 'a = 8] by simp
  moreover have "(64 + q) div 16 = 4" "(64 + q) mod 16 = q" using conjunct2 [OF a] by presburger+
  ultimately have "unat (drop_bit 4 v) = 4" "unat ((v AND 0x0f) * 4) = 4 * q" using vhl_split [of v] by metis+
  then show "drop_bit 4 v = 4 \<and> unat ((v AND 0x0f) * 4) = 4 * q \<and> q < 16"
    using a word_eq_of_nat [of "drop_bit 4 v" 4] by simp
qed


definition ip_udp :: "bytes \<Rightarrow> bytes \<Rightarrow> ip4 \<Rightarrow> bool" where
  "ip_udp P payload src \<longleftrightarrow>
    (\<exists>tos ip_len ident frag ttl chksum dst opts udp_len udp_chksum rest.
       P = udp_datagram tos ip_len ident frag ttl chksum (ip4_bytes src) dst opts udp_len udp_chksum @ payload @ rest \<and>
       length dst = 4 \<and> length opts \<le> 40 \<and> length opts mod 4 = 0 \<and> frag AND 0x3fff = 0 \<and>
       unat udp_len = 8 + length payload \<and> payload \<noteq> [] \<and>
       28 + length opts + length payload \<le> unat ip_len \<and>
       unat ip_len \<le> 28 + length opts + length payload + length rest)"

lemma ip4_bytes_of: "length xs = 4 \<Longrightarrow> ip4_bytes (ip4_of xs) = xs"
  by (cases xs rule: ip4_of.cases) auto

lemma ip4_bytes_read: "ip4_of (ip4_bytes a @ r) = a" "length (ip4_bytes a) = 4"
  by (cases a; simp)+

lemma udp_of_ip_frame:
  assumes P: "P = udp_datagram tos ip_len ident frag ttl chksum (ip4_bytes src) dst opts udp_len udp_chksum @ payload @ rest"
    and c: "length dst = 4" "length opts \<le> 40" "length opts mod 4 = 0" "frag AND 0x3fff = 0"
      "unat udp_len = 8 + length payload" "payload \<noteq> []" "28 + length opts + length payload \<le> unat ip_len"
      "unat ip_len \<le> 28 + length opts + length payload + length rest"
  shows "udp_of_ip True P = Some (Some (payload, src, 68))"
proof -
  define q where "q = 5 + length opts div 4"
  have q: "q < 16" "4 * q = 20 + length opts" using c(2,3) by (auto simp: q_def)
  have v: "drop_bit 4 (of_nat (64 + q) :: u8) = 4" "unat ((of_nat (64 + q) AND 0x0f :: u8) * 4) = 20 + length opts"
    using vhl_iff [of "of_nat (64 + q)" q] q by auto
  let ?tail = "be16 68 @ be16 67 @ be16 udp_len @ be16 udp_chksum @ payload @ rest"
  have P2: "P = of_nat (64 + q) # tos # be16 ip_len @ be16 ident @ be16 frag @ ttl # 17 # be16 chksum @ ip4_bytes src @ dst @ opts @ ?tail"
    using P by (simp add: udp_datagram_def q_def add.assoc)
  have d: "drop 2 P = be16 ip_len @ drop 4 P" "drop 6 P = be16 frag @ drop 8 P" "drop 12 P = ip4_bytes src @ dst @ opts @ ?tail"
    unfolding P2 by (simp_all add: be16_def)
  have d20: "drop (20 + length opts) P = ?tail"
    using d(3) drop_drop [of "8 + length opts" 12 P] c(1) by (simp add: ip4_bytes_read add.commute)
  have l: "length P = 28 + length opts + length payload + length rest"
    unfolding P2 using c(1) by (simp add: ip4_bytes_read)
  have sh: "drop (j + (20 + length opts)) P = drop j ?tail" for j using d20 by (metis drop_drop)
  have d22: "drop (22 + length opts) P = be16 67 @ be16 udp_len @ be16 udp_chksum @ payload @ rest"
    "drop (24 + length opts) P = be16 udp_len @ be16 udp_chksum @ payload @ rest" "drop (28 + length opts) P = payload @ rest"
    using sh [of 2] sh [of 4] sh [of 8] by (simp_all add: be16_def)
  have f: "rd16 P 2 = Some ip_len" "rd16 P 6 = Some frag" "rd16 P (20 + length opts) = Some 68"
    "rd16 P (22 + length opts) = Some 67" "rd16 P (24 + length opts) = Some udp_len"
    using rd16_of [OF d(1)] rd16_of [OF d(2)] rd16_of [OF d20] rd16_of [OF d22(1)] rd16_of [OF d22(2)] by simp_all
  have b: "rd P 0 = Some (of_nat (64 + q))" "rd P 9 = Some 17"
    unfolding P2 by (simp_all add: rd_def be16_def)
  have s: "rd_slice P 12 4 = Some (ip4_bytes src)" "rd_slice P (28 + length opts) (length payload) = Some payload"
    using l c(1) by (simp_all add: rd_slice_def d(3) d22(3) ip4_bytes_read)
  have n: "20 + length opts + 2 = 22 + length opts" "20 + length opts + 4 = 24 + length opts" "20 + length opts + 8 = 28 + length opts" by simp_all
  have i: "ip4_of (ip4_bytes src) = src" using ip4_bytes_read(1) [of src "[]"] by simp
  show ?thesis unfolding udp_of_ip_def b Let_def bind.bind_lunit v f n
    using c l by (simp add: s i f del: of_nat_add)
qed

text \<open>Reads that succeed, step by step.\<close>

lemma defined_steps:
  "c \<noteq> None \<Longrightarrow> (\<And>x. f x \<noteq> None) \<Longrightarrow> Option.bind c f \<noteq> None"
  "(d \<Longrightarrow> c \<noteq> None) \<Longrightarrow> (\<not> d \<Longrightarrow> c' \<noteq> None) \<Longrightarrow> (if d then c else c') \<noteq> None"
  "k < length m \<Longrightarrow> rd m k \<noteq> None" "k + 2 \<le> length m \<Longrightarrow> rd16 m k \<noteq> None" "k + n \<le> length m \<Longrightarrow> rd_slice m k n \<noteq> None"
  "Some x \<noteq> None"
  by (auto simp: rd_def rd16_in rd_slice_def)

lemma ip_udpI:
  assumes "P = udp_datagram tos ip_len ident frag ttl chksum (ip4_bytes src) dst opts udp_len udp_chksum @ payload @ rest"
    and "length dst = 4" "length opts \<le> 40" "length opts mod 4 = 0" "frag AND 0x3fff = 0"
      "unat udp_len = 8 + length payload" "payload \<noteq> []" "28 + length opts + length payload \<le> unat ip_len"
      "unat ip_len \<le> 28 + length opts + length payload + length rest"
  shows "ip_udp P payload src"
  unfolding ip_udp_def by (intro exI conjI) (rule assms)+

lemma udp_of_ip_ip_udp: "ip_udp P payload src \<Longrightarrow> udp_of_ip True P = Some (Some (payload, src, 68))"
  unfolding ip_udp_def by (elim exE conjE) (rule udp_of_ip_frame)

lemma udp_of_ip_total: "28 \<le> length P \<Longrightarrow> udp_of_ip al P \<noteq> None"
  unfolding udp_of_ip_def Let_def by (intro defined_steps; auto)

lemma udp_of_ip_alloc: "udp_of_ip al P = Some (Some r) \<Longrightarrow> al"
  unfolding udp_of_ip_def Let_def by (auto split: if_splits bind_splits)

lemma udp_of_ip_found:
  assumes run: "udp_of_ip al P = Some (Some (payload, src, port))"
  shows "ip_udp P payload src \<and> port = 68"
proof -
  define hl where "hl = unat ((P ! 0 AND 0x0f) * 4)"
  obtain ip_len frag udp_len sip where g: "9 < length P" "drop_bit 4 (P ! 0) = 4" "20 \<le> hl" "hl \<le> 60" "P ! 9 = 17"
      "rd16 P 2 = Some ip_len" "rd16 P 6 = Some frag" "frag AND 0x3fff = 0" "hl + 8 \<le> unat ip_len" "unat ip_len \<le> length P"
      "rd16 P hl = Some 68" "rd16 P (hl + 2) = Some 67" "port = 68"
      "rd16 P (hl + 4) = Some udp_len" "8 < unat udp_len" "unat udp_len \<le> unat ip_len - hl"
      "rd_slice P (hl + 8) (unat udp_len - 8) = Some payload" "rd_slice P 12 4 = Some sip" "src = ip4_of sip"
    using run unfolding udp_of_ip_def Let_def hl_def by (auto simp: rd_def split: if_splits bind_splits)
  define q where "q = unat (P ! 0) mod 16"
  have q: "hl = 4 * q" "q < 16" using vhl_split [of "P ! 0"] by (simp_all add: hl_def q_def)
  then have v: "P ! 0 = of_nat (64 + q)" using vhl_iff [of "P ! 0" q] g(2) by (simp add: hl_def)
  define opts dst where "opts = take (hl - 20) (drop 20 P)" and "dst = take 4 (drop 16 P)"
  have l: "hl + 8 \<le> length P" using g by simp
  have lo: "length opts = hl - 20" "length dst = 4" "length sip = 4" "sip = take 4 (drop 12 P)"
    using l g(3,18) by (auto simp: opts_def dst_def rd_slice_def split: if_splits)
  have pay: "payload = take (unat udp_len - 8) (drop (hl + 8) P)" "length payload = unat udp_len - 8"
    using g(17) by (auto simp: rd_slice_def split: if_splits)
  have d: "drop 0 P = P ! 0 # P ! 1 # drop 2 P" "drop 8 P = P ! 8 # P ! 9 # drop 10 P"
    "drop 4 P = be16 (ntohs (P ! 4) (P ! 5)) @ drop 6 P" "drop 10 P = be16 (ntohs (P ! 10) (P ! 11)) @ drop 12 P"
    using drop_nth2 [of 0 P] drop_nth2 [of 8 P] drop_nth2 [of 4 P] drop_nth2 [of 10 P] l g(3) by (simp_all add: be16_ntohs numeral_eq_Suc)
  have d2: "drop 2 P = be16 ip_len @ drop 4 P" "drop 6 P = be16 frag @ drop 8 P" "drop hl P = be16 68 @ drop (hl + 2) P"
    "drop (hl + 2) P = be16 67 @ drop (hl + 4) P" "drop (hl + 4) P = be16 udp_len @ drop (hl + 6) P"
    using rd16_drop [OF g(6)] rd16_drop [OF g(7)] rd16_drop [OF g(11)] rd16_drop [OF g(12)] rd16_drop [OF g(14)]
    by (simp_all add: numeral_eq_Suc)
  have d3: "drop (hl + 6) P = be16 (ntohs (P ! (hl + 6)) (P ! (hl + 7))) @ drop (hl + 8) P"
    using drop_nth2 [of "hl + 6" P] l by (simp add: be16_ntohs numeral_eq_Suc)
  have d4: "drop 12 P = sip @ drop 16 P" "drop 16 P = dst @ drop 20 P" "drop 20 P = opts @ drop hl P" "drop (hl + 8) P = payload @ drop (hl + unat udp_len) P"
    using lo pay append_take_drop_id [of 4 "drop 12 P"] append_take_drop_id [of 4 "drop 16 P"] append_take_drop_id [of "hl - 20" "drop 20 P"]
      append_take_drop_id [of "unat udp_len - 8" "drop (hl + 8) P"] g(3,15) by (simp_all add: opts_def dst_def add.commute)
  have eq: "P = udp_datagram (P ! 1) ip_len (ntohs (P ! 4) (P ! 5)) frag (P ! 8) (ntohs (P ! 10) (P ! 11)) (ip4_bytes src) dst opts udp_len
      (ntohs (P ! (hl + 6)) (P ! (hl + 7))) @ payload @ drop (hl + unat udp_len) P"
  proof -
    have "64 + q = 0x40 + (5 + length opts div 4)" using lo(1) q g(3) by simp
    moreover have "P = P ! 0 # P ! 1 # be16 ip_len @ be16 (ntohs (P ! 4) (P ! 5)) @ be16 frag @ P ! 8 # P ! 9 #
        be16 (ntohs (P ! 10) (P ! 11)) @ sip @ dst @ opts @ be16 68 @ be16 67 @ be16 udp_len @
        be16 (ntohs (P ! (hl + 6)) (P ! (hl + 7))) @ payload @ drop (hl + unat udp_len) P"
      using d d2 d3 d4 by (simp only: drop_0 append.assoc [symmetric])
    ultimately show ?thesis using v g(5,19) ip4_bytes_of [OF lo(3)] unfolding udp_datagram_def by simp
  qed
  have c: "length opts \<le> 40" "length opts mod 4 = 0" "unat udp_len = 8 + length payload" "payload \<noteq> []"
    "28 + length opts + length payload \<le> unat ip_len"
    "unat ip_len \<le> 28 + length opts + length payload + length (drop (hl + unat udp_len) P)"
    using lo(1) pay g q by (auto simp: mod_eq_0_iff_dvd)
  show ?thesis using ip_udpI [OF eq lo(2) c(1,2) g(8) c(3-6)] g(13) by simp
qed


text \<open>A frame that carries a DHCP request: untagged or with up to two priority tags.\<close>

definition dhcp_frame :: "bytes \<Rightarrow> bytes \<Rightarrow> ip4 \<Rightarrow> bool" where
  "dhcp_frame m payload src \<longleftrightarrow>
    (\<exists>macs tags P. m = eth_frame macs tags P \<and> length macs = 12 \<and> length tags \<le> 2 \<and> tags_ok tags \<and> ip_udp P payload src)"

lemma udp_datagram_length [simp]:
  "length (udp_datagram tos ip_len ident frag ttl chksum src dst opts udp_len udp_chksum) = 20 + length src + length dst + length opts"
  by (simp add: udp_datagram_def)

lemma ip_udp_length: "ip_udp P payload src \<Longrightarrow> 28 \<le> length P"
  unfolding ip_udp_def by (auto simp: ip4_bytes_read)

lemma dispatch_frame:
  assumes "dhcp_frame m payload src"
  shows "net_lwip_dispatch_recovery_dhcp True True m (length m) = Some (Some (payload, src, 68))"
proof -
  obtain macs tags P where m: "m = eth_frame macs tags P" "length macs = 12" "length tags \<le> 2" "tags_ok tags" "ip_udp P payload src"
    using assms unfolding dhcp_frame_def by blast
  have d: "drop 12 m = tag_bytes tags @ be16 0x0800 @ P" using m(1,2) by (simp add: eth_frame_def tag_bytes_def)
  obtain t r where t: "tag_bytes tags @ be16 0x0800 @ P = be16 t @ r" by (cases tags) (auto simp: tag_bytes_def)
  have r: "rd16 m 12 = Some t" "be16 t @ drop 14 m = tag_bytes tags @ be16 0x0800 @ P"
    using rd16_of [OF d [unfolded t]] t by simp_all
  have nv: "\<not> net_lwip_recovery_vlan_type 0x0800" by (simp add: net_lwip_recovery_vlan_type_def)
  have sk: "skip_vlan_tags m (length m) 2 14 t = Some (Some (14 + 4 * length tags, 0x0800))"
    by (rule skip_tags_frame [OF r(2) m(3,4) nv])
  have P: "drop (14 + 4 * length tags) m = P"
    using arg_cong [OF d, of "drop (2 + 4 * length tags)"] by (simp add: add.commute)
  have l: "length m = 14 + 4 * length tags + length P" using arg_cong [OF d, of length] m(1,2) by (simp add: eth_frame_def)
  have g: "\<not> length m < 42" "\<not> length m < 14 + 4 * length tags + 28" using ip_udp_length [OF m(5)] l by simp_all
  show ?thesis by (simp only: dispatch_eq r(1) sk P udp_of_ip_ip_udp [OF m(5)] bind.bind_lunit option.case prod.case g simp_thms if_False)
qed

lemma dispatch_found:
  assumes "net_lwip_dispatch_recovery_dhcp hook al m (length m) = Some (Some (payload, src, port))"
  shows "hook \<and> al \<and> port = 68 \<and> dhcp_frame m payload src"
proof -
  obtain t k where c: "hook" "42 \<le> length m" "rd16 m 12 = Some t" "skip_vlan_tags m (length m) 2 14 t = Some (Some (k, 0x0800))"
      "udp_of_ip al (drop k m) = Some (Some (payload, src, port))"
    using assms unfolding dispatch_eq by (auto split: if_splits bind_splits option.splits prod.splits)
  obtain tags where t: "length tags \<le> 2" "tags_ok tags" "be16 t @ drop 14 m = tag_bytes tags @ be16 0x0800 @ drop k m"
    using skip_tags_found [OF c(4)] c(2) by auto
  have "m = eth_frame (take 12 m) tags (drop k m)"
    using rd16_drop [OF c(3)] t(3) append_take_drop_id [of 12 m] by (simp add: eth_frame_def tag_bytes_def)
  moreover have "length (take 12 m) = 12" using c(2) by simp
  ultimately have "dhcp_frame m payload src" using udp_of_ip_found [OF c(5)] t(1,2) unfolding dhcp_frame_def by blast
  then show ?thesis using udp_of_ip_found [OF c(5)] udp_of_ip_alloc [OF c(5)] c(1) by blast
qed

lemma dispatch_defined: "net_lwip_dispatch_recovery_dhcp hook al m (length m) \<noteq> None"
proof (cases "\<not> hook \<or> length m < 42")
  case False
  then obtain t tags where t: "rd16 m 12 = Some t" "skip_vlan_tags m (length m) 2 14 t = Some tags"
    using rd16_in [of 12 m] skip_tags_total [of 14 m] by fastforce
  show ?thesis
  proof (cases tags)
    case (Some kt)
    obtain k u where "kt = (k, u)" by fastforce
    then show ?thesis using False t Some udp_of_ip_total [of "drop k m" al] by (auto simp: dispatch_eq)
  qed (use False t in \<open>simp add: dispatch_eq\<close>)
qed (auto simp: dispatch_eq)

text \<open>
  C7: the frame filter in front of lwIP takes exactly the well-formed DHCP client frames: untagged
  or with at most two priority tags, an unfragmented IPv4 header with or without options, UDP from
  port 68 to port 67 with a non-empty payload inside the packet. The callback gets that payload
  and the sender's address. No frame, however short or inconsistent its length fields are, makes
  the filter read outside the received bytes.
\<close>

theorem dispatch_dhcp_frames:
  "\<exists>r. net_lwip_dispatch_recovery_dhcp hook alloc_ok m (length m) = Some r \<and>
     (\<forall>payload src port. r = Some (payload, src, port) \<longleftrightarrow> hook \<and> alloc_ok \<and> port = 68 \<and> dhcp_frame m payload src)"
proof -
  obtain r where r: "net_lwip_dispatch_recovery_dhcp hook alloc_ok m (length m) = Some r" using dispatch_defined by blast
  have "r = Some (payload, src, port) \<longleftrightarrow> hook \<and> alloc_ok \<and> port = 68 \<and> dhcp_frame m payload src" for payload src port
  proof
    assume "r = Some (payload, src, port)"
    then show "hook \<and> alloc_ok \<and> port = 68 \<and> dhcp_frame m payload src" using r dispatch_found [of hook alloc_ok m payload src port] by simp
  next
    assume "hook \<and> alloc_ok \<and> port = 68 \<and> dhcp_frame m payload src"
    then show "r = Some (payload, src, port)" using r dispatch_frame [of m payload src] by simp
  qed
  with r show ?thesis by blast
qed

section \<open>Hooks, routing and the receive loop\<close>

text \<open>
  The hook variables. The callbacks are fixed functions of the recovery server, so that only whether
  one is registered, and the argument of the DHCP callback, are state.
\<close>

record lwip_hooks =
  recovery_dhcp_hook :: bool
  recovery_dhcp_hook_arg :: "dhcp_server option"
  recovery_poll_hook :: bool
  recovery_route_hook :: bool

definition net_lwip_set_recovery_dhcp_hook :: "bool \<Rightarrow> dhcp_server option \<Rightarrow> lwip_hooks \<Rightarrow> lwip_hooks" where
  "net_lwip_set_recovery_dhcp_hook recv arg h = h\<lparr>recovery_dhcp_hook := recv, recovery_dhcp_hook_arg := arg\<rparr>"

definition net_lwip_set_recovery_poll_hook :: "bool \<Rightarrow> lwip_hooks \<Rightarrow> lwip_hooks" where
  "net_lwip_set_recovery_poll_hook poll h = h\<lparr>recovery_poll_hook := poll\<rparr>"

definition net_lwip_set_recovery_route_hook :: "bool \<Rightarrow> lwip_hooks \<Rightarrow> lwip_hooks" where
  "net_lwip_set_recovery_route_hook enable h = h\<lparr>recovery_route_hook := enable\<rparr>"

text \<open>An interface: its index, whether it is up, and its addresses.\<close>

record lwip_netif =
  netif_idx :: nat
  netif_up :: bool
  netif_ip :: ip4
  netif_mask :: ip4
  netif_gw :: ip4

fun ip4_and :: "ip4 \<Rightarrow> ip4 \<Rightarrow> ip4" where
  "ip4_and (a, b, c, d) (a', b', c', d') = (a AND a', b AND b', c AND c', d AND d')"

definition ip4_addr_net_eq :: "ip4 \<Rightarrow> ip4 \<Rightarrow> ip4 \<Rightarrow> bool" where
  "ip4_addr_net_eq x y nm \<longleftrightarrow> ip4_and x nm = ip4_and y nm"

text \<open>\<open>input\<close> is the interface of the packet being processed (\<^verbatim>\<open>ip_current_input_netif\<close>).\<close>

definition net_lwip_recovery_route_src ::
    "lwip_hooks \<Rightarrow> lwip_netif option \<Rightarrow> ip4 option \<Rightarrow> ip4 option \<Rightarrow> lwip_netif option" where
  "net_lwip_recovery_route_src h input src dest =
    (case (src, dest) of
       (Some s, Some d) \<Rightarrow>
         if \<not> recovery_route_hook h then None
         else (case input of
                 None \<Rightarrow> None
               | Some n \<Rightarrow>
                   if \<not> netif_up n \<or> netif_ip n = ip4_any then None
                   else if s \<noteq> netif_ip n \<or> \<not> ip4_addr_net_eq d (netif_ip n) (netif_mask n) then None
                   else Some n)
     | _ \<Rightarrow> None)"

record tcp_pcb =
  pcb_listen :: bool
  pcb_netif_idx :: nat

definition net_lwip_recovery_tcp_inpkt :: "lwip_hooks \<Rightarrow> lwip_netif option \<Rightarrow> tcp_pcb option \<Rightarrow> tcp_pcb option" where
  "net_lwip_recovery_tcp_inpkt h input pcb =
    (case pcb of
       None \<Rightarrow> None
     | Some p \<Rightarrow>
         if \<not> recovery_route_hook h \<or> pcb_listen p \<or> pcb_netif_idx p \<noteq> 0 then Some p
         else (case input of
                 None \<Rightarrow> Some p
               | Some n \<Rightarrow> if \<not> netif_up n then Some p else Some (p\<lparr>pcb_netif_idx := netif_idx n\<rparr>)))"

text \<open>
  What the receive loop does with a frame, in order. The driver's queue holds the results of its
  \<^verbatim>\<open>recv\<close> method: a frame or an error code; an empty queue is \<^verbatim>\<open>-EAGAIN\<close>.
\<close>

datatype rx_action = PollHook | ToDhcp bytes ip4 u16 | ToLwip bytes | FreePkt bytes

definition ETH_PACKETS_BATCH_RECV :: nat where "ETH_PACKETS_BATCH_RECV = 32"

definition net_lwip_run_recovery_poll_hook :: "lwip_hooks \<Rightarrow> rx_action list" where
  "net_lwip_run_recovery_poll_hook h = (if recovery_poll_hook h then [PollHook] else [])"

text \<open>
  \<open>mem\<close> tells for a frame whether its copy for the DHCP server and its copy for lwIP can be allocated;
  \<open>len\<close> is the C variable of that name.
\<close>

fun rx_batch ::
    "lwip_hooks \<Rightarrow> (bytes \<Rightarrow> bool \<times> bool) \<Rightarrow> nat \<Rightarrow> int \<Rightarrow> (int + bytes) list \<Rightarrow>
      (int \<times> rx_action list \<times> (int + bytes) list) option" where
  "rx_batch h mem 0 len q = Some (len, [], q)"
| "rx_batch h mem (Suc n) len [] = Some (- EAGAIN, net_lwip_run_recovery_poll_hook h, [])"
| "rx_batch h mem (Suc n) len (Inl e # q) = Some (e, net_lwip_run_recovery_poll_hook h, q)"
| "rx_batch h mem (Suc n) len (Inr packet # q) =
    (if length packet = 0 then Some (0, net_lwip_run_recovery_poll_hook h @ [FreePkt packet], q)
     else do {
       d \<leftarrow> net_lwip_dispatch_recovery_dhcp (recovery_dhcp_hook h) (fst (mem packet)) packet (length packet);
       (len, acts, q) \<leftarrow> rx_batch h mem n (int (length packet)) q;
       let mine = (case d of
                     Some (payload, src, port) \<Rightarrow> [ToDhcp payload src port]
                   | None \<Rightarrow> if snd (mem packet) then [ToLwip packet] else []) in
       Some (len, net_lwip_run_recovery_poll_hook h @ mine @ [FreePkt packet] @ acts, q)
     })"

definition net_lwip_rx_frames ::
    "lwip_hooks \<Rightarrow> (bytes \<Rightarrow> bool \<times> bool) \<Rightarrow> bool \<Rightarrow> (int + bytes) list \<Rightarrow>
      (int \<times> rx_action list \<times> (int + bytes) list) option" where
  "net_lwip_rx_frames h mem active q =
    (if \<not> active then Some (- EINVAL, [], q)
     else do {
       (len, acts, q) \<leftarrow> rx_batch h mem ETH_PACKETS_BATCH_RECV 0 q;
       Some (if len = - EAGAIN then 0 else len, acts, q)
     })"

section \<open>Every frame is handed on once and freed once\<close>

definition handed_on :: "lwip_hooks \<Rightarrow> (bytes \<Rightarrow> bool \<times> bool) \<Rightarrow> bytes \<Rightarrow> rx_action list \<Rightarrow> bool" where
  "handed_on h mem m mine \<longleftrightarrow>
    (if m = [] then mine = []
     else if recovery_dhcp_hook h \<and> fst (mem m) \<and> (\<exists>payload src. dhcp_frame m payload src)
     then (\<exists>payload src. dhcp_frame m payload src \<and> mine = [ToDhcp payload src 68])
     else mine = (if snd (mem m) then [ToLwip m] else []))"

definition frame_actions :: "lwip_hooks \<Rightarrow> (bytes \<Rightarrow> bool \<times> bool) \<Rightarrow> bytes \<Rightarrow> rx_action list \<Rightarrow> bool" where
  "frame_actions h mem m acts \<longleftrightarrow>
    (\<exists>mine. handed_on h mem m mine \<and> acts = net_lwip_run_recovery_poll_hook h @ mine @ [FreePkt m])"

lemma handed_on_dispatch:
  assumes "net_lwip_dispatch_recovery_dhcp (recovery_dhcp_hook h) (fst (mem m)) m (length m) = Some d" "m \<noteq> []"
  shows "handed_on h mem m (case d of Some (payload, src, port) \<Rightarrow> [ToDhcp payload src port] | None \<Rightarrow> if snd (mem m) then [ToLwip m] else [])"
proof (cases d)
  case None
  have "\<not> (recovery_dhcp_hook h \<and> fst (mem m) \<and> dhcp_frame m payload src)" for payload src
    using assms(1) None dispatch_frame [of m payload src] by auto
  then have "\<not> (recovery_dhcp_hook h \<and> fst (mem m) \<and> (\<exists>payload src. dhcp_frame m payload src))" by blast
  then show ?thesis using None assms(2) by (simp only: handed_on_def option.case if_False)
next
  case (Some x)
  obtain payload src port where x: "x = (payload, src, port)" by (rule prod_cases3)
  have f: "recovery_dhcp_hook h \<and> fst (mem m) \<and> (\<exists>payload src. dhcp_frame m payload src)" "port = 68" "dhcp_frame m payload src"
    using dispatch_found [of "recovery_dhcp_hook h" "fst (mem m)" m payload src port] assms(1) Some x by blast+
  show ?thesis unfolding handed_on_def Some x option.case prod.case f(2) using f(1,3) assms(2) by (simp only: if_True if_False simp_thms) blast
qed

lemma rx_batch_spec:
  "\<exists>frames acts stop q' ret. rx_batch h mem n len q = Some (ret, concat acts @ stop, q') \<and>
     list_all2 (frame_actions h mem) frames acts \<and> length frames \<le> n \<and>
     stop \<in> {[], net_lwip_run_recovery_poll_hook h} \<and>
     (\<exists>rest. q = map Inr frames @ rest \<and> (rest = q' \<or> (\<exists>e. rest = Inl e # q')))"
proof (induction h mem n len q rule: rx_batch.induct)
  case (1 h mem len q)
  show ?case by (rule exI [of _ "[]"], rule exI [of _ "[]"]) simp
next
  case (2 h mem n len)
  show ?case by (rule exI [of _ "[]"], rule exI [of _ "[]"]) simp
next
  case (3 h mem n len e q)
  show ?case by (rule exI [of _ "[]"], rule exI [of _ "[]"]) auto
next
  case (4 h mem n len m q)
  show ?case
  proof (cases "m = []")
    case True
    have "frame_actions h mem m (net_lwip_run_recovery_poll_hook h @ [FreePkt m])" using True by (simp add: frame_actions_def handed_on_def)
    then show ?thesis using True
      by (intro exI [of _ "[m]"] exI [of _ "[net_lwip_run_recovery_poll_hook h @ [FreePkt m]]"] exI [of _ "[]"] exI [of _ q] exI [of _ 0]) simp
  next
    case False
    obtain d where d: "net_lwip_dispatch_recovery_dhcp (recovery_dhcp_hook h) (fst (mem m)) m (length m) = Some d"
      using dispatch_defined by blast
    obtain frames acts stop q' ret rest where r: "rx_batch h mem n (int (length m)) q = Some (ret, concat acts @ stop, q')"
      "list_all2 (frame_actions h mem) frames acts" "length frames \<le> n" "stop \<in> {[], net_lwip_run_recovery_poll_hook h}"
      "q = map Inr frames @ rest" "rest = q' \<or> (\<exists>e. rest = Inl e # q')"
      using 4(1) [OF _ d] False unfolding length_0_conv by blast
    let ?a = "net_lwip_run_recovery_poll_hook h @
      (case d of Some (payload, src, port) \<Rightarrow> [ToDhcp payload src port] | None \<Rightarrow> if snd (mem m) then [ToLwip m] else []) @ [FreePkt m]"
    have "rx_batch h mem (Suc n) len (Inr m # q) = Some (ret, concat (?a # acts) @ stop, q')"
      using False d r(1) by (simp add: Let_def)
    moreover have "frame_actions h mem m ?a" using handed_on_dispatch [of h mem m d] d False unfolding frame_actions_def by blast
    then have "list_all2 (frame_actions h mem) (m # frames) (?a # acts)" using r(2) by simp
    moreover have "Inr m # q = map Inr (m # frames) @ rest" using r(5) by simp
    moreover have "length (m # frames) \<le> Suc n" using r(3) by simp
    ultimately show ?thesis using r(4,6) by blast
  qed
qed


section \<open>IPv4 addresses in text\<close>

abbreviation (input) char_val :: "char \<Rightarrow> nat" where "char_val c \<equiv> of_char c"

definition lwip_isdigit :: "char \<Rightarrow> bool" where
  "lwip_isdigit c \<longleftrightarrow> 48 \<le> char_val c \<and> char_val c \<le> 57"

definition lwip_isxdigit :: "char \<Rightarrow> bool" where
  "lwip_isxdigit c \<longleftrightarrow> lwip_isdigit c \<or> 97 \<le> char_val c \<and> char_val c \<le> 102 \<or> 65 \<le> char_val c \<and> char_val c \<le> 70"

definition lwip_islower :: "char \<Rightarrow> bool" where
  "lwip_islower c \<longleftrightarrow> 97 \<le> char_val c \<and> char_val c \<le> 122"

definition lwip_isspace :: "char \<Rightarrow> bool" where
  "lwip_isspace c \<longleftrightarrow> char_val c \<in> {32, 12, 10, 13, 9, 11}"

text \<open>The inner loop of \<^verbatim>\<open>ip4addr_aton\<close>: the digits of one number, in 32-bit arithmetic.\<close>

fun aton_digits :: "nat \<Rightarrow> u32 \<Rightarrow> string \<Rightarrow> u32 \<times> string" where
  "aton_digits base val [] = (val, [])"
| "aton_digits base val (c # cs) =
    (if lwip_isdigit c then
       if base = 8 \<and> char_val c - 48 \<ge> 8 then (val, c # cs)
       else aton_digits base (val * of_nat base + of_nat (char_val c - 48)) cs
     else if base = 16 \<and> lwip_isxdigit c
     then aton_digits base (push_bit 4 val OR of_nat (char_val c + 10 - (if lwip_islower c then 97 else 65))) cs
     else (val, c # cs))"

text \<open>One number with its base prefix; the first character has been checked to be a digit.\<close>

definition aton_number :: "string \<Rightarrow> u32 \<times> string" where
  "aton_number s =
    (case s of
       [] \<Rightarrow> (0, [])
     | c # cs \<Rightarrow>
         if c \<noteq> CHR ''0'' then aton_digits 10 0 s
         else if cs \<noteq> [] \<and> (hd cs = CHR ''x'' \<or> hd cs = CHR ''X'') then aton_digits 16 0 (tl cs)
         else aton_digits 8 0 cs)"

lemma aton_digits_length: "length (snd (aton_digits base val s)) \<le> length s"
  by (induction base val s rule: aton_digits.induct) auto

lemma aton_number_length: "length (snd (aton_number s)) \<le> length s"
proof (cases s)
  case (Cons c cs)
  show ?thesis using aton_digits_length [of 10 0 s] aton_digits_length [of 16 0 "tl cs"] aton_digits_length [of 8 0 cs]
    by (auto simp: aton_number_def Cons)
qed (simp add: aton_number_def)

text \<open>The outer loop: the parts before the last number, the last number, and what follows it.\<close>

function aton_parts :: "u32 list \<Rightarrow> string \<Rightarrow> (u32 list \<times> u32 \<times> string) option" where
  "aton_parts parts s =
    (if s = [] \<or> \<not> lwip_isdigit (hd s) then None
     else let (val, r) = aton_number s in
       if r \<noteq> [] \<and> hd r = CHR ''.''
       then (if length parts \<ge> 3 then None else aton_parts (parts @ [val]) (tl r))
       else Some (parts, val, r))"
  by pat_completeness auto
termination
proof (relation "measure (\<lambda>(parts, s). length s)")
  fix parts :: "u32 list" and s :: string and x val r
  assume a: "\<not> (s = [] \<or> \<not> lwip_isdigit (hd s))" "x = aton_number s" "(val, r) = x" "r \<noteq> [] \<and> hd r = CHR ''.''"
  then have "length r \<le> length s" using aton_number_length [of s] by (metis snd_conv)
  then show "((parts @ [val], tl r), parts, s) \<in> measure (\<lambda>(parts, s). length s)" using a(4) by (cases r) auto
qed simp

declare aton_parts.simps [simp del]

definition ip4addr_aton :: "string \<Rightarrow> ip4 option" where
  "ip4addr_aton cp =
    (case aton_parts [] cp of
       None \<Rightarrow> None
     | Some (parts, val, r) \<Rightarrow>
         if r \<noteq> [] \<and> \<not> lwip_isspace (hd r) then None
         else map_option recovery_dhcp_scalar_to_ip4
           (case parts of
              [] \<Rightarrow> Some val
            | [a] \<Rightarrow> if val > 0xffffff \<or> a > 0xff then None else Some (val OR push_bit 24 a)
            | [a, b] \<Rightarrow> if val > 0xffff \<or> a > 0xff \<or> b > 0xff then None
                       else Some (val OR (push_bit 24 a OR push_bit 16 b))
            | [a, b, c] \<Rightarrow> if val > 0xff \<or> a > 0xff \<or> b > 0xff \<or> c > 0xff then None
                          else Some (val OR (push_bit 24 a OR push_bit 16 b OR push_bit 8 c))
            | _ \<Rightarrow> None))"

section \<open>Dotted quads are read back\<close>

fun dec_string :: "nat \<Rightarrow> string" where
  "dec_string n = (if n < 10 then [char_of (48 + n)] else dec_string (n div 10) @ [char_of (48 + n mod 10)])"

declare dec_string.simps [simp del]

fun ip4_string :: "ip4 \<Rightarrow> string" where
  "ip4_string (a, b, c, d) =
     dec_string (unat a) @ CHR ''.'' # dec_string (unat b) @ CHR ''.'' # dec_string (unat c) @ CHR ''.'' # dec_string (unat d)"

lemma digit_char: "d < 10 \<Longrightarrow> lwip_isdigit (char_of (48 + d)) \<and> char_val (char_of (48 + d)) = 48 + d" for d :: nat
  by (simp add: lwip_isdigit_def)

lemma aton_dec: "aton_digits 10 v (dec_string n @ r) = aton_digits 10 (v * 10 ^ length (dec_string n) + of_nat n) r"
proof (induction n arbitrary: v r rule: dec_string.induct)
  case (1 n)
  show ?case
  proof (cases "n < 10")
    case True
    then show ?thesis using digit_char [of n] by (simp add: dec_string.simps [of n])
  next
    case False
    let ?k = "length (dec_string (n div 10))"
    have "aton_digits 10 v (dec_string n @ r) =
        aton_digits 10 (v * 10 ^ ?k + of_nat (n div 10)) (char_of (48 + n mod 10) # r)"
      using 1(1) [OF False] False by (simp add: dec_string.simps [of n])
    also have "\<dots> = aton_digits 10 ((v * 10 ^ ?k + of_nat (n div 10)) * 10 + of_nat (n mod 10)) r"
      using digit_char [of "n mod 10"] by simp
    also have "(v * 10 ^ ?k + of_nat (n div 10)) * 10 + of_nat (n mod 10) = v * 10 ^ Suc ?k + (of_nat (n div 10) * 10 + of_nat (n mod 10))"
      by (simp add: algebra_simps)
    also have "of_nat (n div 10) * 10 + of_nat (n mod 10) = (of_nat n :: u32)"
      by (metis div_mult_mod_eq of_nat_add of_nat_mult of_nat_numeral)
    finally show ?thesis using False by (simp add: dec_string.simps [of n])
  qed
qed

lemma dec_string_head: "\<exists>c cs. dec_string n = c # cs \<and> lwip_isdigit c \<and> (c = CHR ''0'' \<longrightarrow> n = 0)"
proof (induction n rule: dec_string.induct)
  case (1 n)
  show ?case
  proof (cases "n < 10")
    case True
    have "char_of (48 + n) = CHR ''0'' \<Longrightarrow> n = 0" using digit_char [OF True] by auto
    then show ?thesis using True digit_char [of n] by (simp add: dec_string.simps [of n])
  next
    case False
    then show ?thesis using 1 by (auto simp: dec_string.simps [of n])
  qed
qed

lemma aton_number_dec:
  assumes "r = [] \<or> hd r = CHR ''.''"
  shows "aton_number (dec_string n @ r) = (of_nat n, r)"
proof -
  obtain c cs where c: "dec_string n = c # cs" "lwip_isdigit c" "c = CHR ''0'' \<longrightarrow> n = 0" using dec_string_head by blast
  have stop: "aton_digits base v r = (v, r)" if "base \<noteq> 16" for base v
    using assms that by (cases r) (auto simp: lwip_isdigit_def)
  show ?thesis
  proof (cases "n = 0")
    case True
    moreover have "dec_string 0 = ''0''" by code_simp
    ultimately have "dec_string n = ''0''" by simp
    then show ?thesis using True assms stop [of 8 0] by (cases r) (auto simp: aton_number_def)
  next
    case False
    then have "c \<noteq> CHR ''0''" using c(3) by blast
    then have "aton_number (dec_string n @ r) = aton_digits 10 0 (dec_string n @ r)" using c(1) by (simp add: aton_number_def)
    then show ?thesis using stop [of 10] by (simp add: aton_dec)
  qed
qed

lemma aton_parts_dec:
  "length parts < 3 \<Longrightarrow> aton_parts parts (dec_string n @ CHR ''.'' # r) = aton_parts (parts @ [of_nat n]) r"
  "aton_parts parts (dec_string n) = Some (parts, of_nat n, [])"
  using dec_string_head [of n] aton_number_dec [of "CHR ''.'' # r" n] aton_number_dec [of "[]" n]
  by (auto simp: aton_parts.simps [of parts "dec_string n @ CHR ''.'' # r"] aton_parts.simps [of parts "dec_string n"])

lemma u8_in_u32: "of_nat (unat (a :: u8)) = (ucast a :: u32)" "\<not> (0xff :: u32) < ucast (a :: u8)"
proof -
  show "of_nat (unat a) = (ucast a :: u32)" by (simp add: unsigned_ucast_eq)
  have "unat (ucast a :: u32) \<le> 255" using unat_u8_less [of a] by (simp add: unsigned_ucast_eq take_bit_nat_eq_self)
  then show "\<not> (0xff :: u32) < ucast a" by (simp add: word_less_nat_alt)
qed

lemma aton_string: "ip4addr_aton (ip4_string ip) = Some ip"
proof -
  obtain a b c d where ip: "ip = (a, b, c, d)" by (rule prod_cases4)
  have "aton_parts [] (ip4_string ip) = Some ([ucast a, ucast b, ucast c], ucast d, [])"
    unfolding ip ip4_string.simps by (simp add: aton_parts_dec u8_in_u32(1) del: of_nat_unat)
  then have "ip4addr_aton (ip4_string ip) =
      Some (recovery_dhcp_scalar_to_ip4 (ucast d OR (push_bit 24 (ucast a) OR push_bit 16 (ucast b) OR push_bit 8 (ucast c))))"
    by (simp add: ip4addr_aton_def u8_in_u32(2))
  also have "ucast d OR (push_bit 24 (ucast a) OR push_bit 16 (ucast b) OR push_bit 8 (ucast c)) = recovery_dhcp_ip4_to_scalar ip"
    unfolding ip by (simp add: ac_simps)
  finally show ?thesis by (simp add: scalar_roundtrip)
qed

text \<open>
  C40: the address parser reads back every IPv4 address written as a dotted quad.
\<close>

theorem ip4_text_roundtrip: "ip4addr_aton (ip4_string ip) = Some ip"
  by (rule aton_string)

section \<open>Interfaces\<close>

text \<open>
  The network state: the hooks, the list of interfaces (the newest first, as \<^verbatim>\<open>netif_add\<close> links
  them), the default interface, the use count of the Ethernet layer and whether it is running.
\<close>

record lwip_state =
  hooks :: lwip_hooks
  netif_list :: "lwip_netif list"
  netif_default :: "nat option"
  net_lwip_eth_started :: int
  eth_running :: bool

definition net_lwip_get_netif :: "lwip_state \<Rightarrow> lwip_netif option" where
  "net_lwip_get_netif s = (case netif_list s of [] \<Rightarrow> None | n # _ \<Rightarrow> Some n)"

text \<open>\<open>idx\<close> is \<^verbatim>\<open>dev_seq\<close> of the device. An address that does not parse stays zero.\<close>

definition get_udev_ipv4_info :: "int \<Rightarrow> (string \<Rightarrow> string option) \<Rightarrow> (ip4 \<times> ip4 \<times> ip4) option" where
  "get_udev_ipv4_info idx env_get =
    (if idx < 0 \<or> idx > 99 then None
     else
       let suffix = (if idx \<noteq> 0 then dec_string (nat idx) else '''');
           addr = (\<lambda>var. case env_get (var @ suffix) of
                           None \<Rightarrow> ip4_any
                         | Some s \<Rightarrow> (case ip4addr_aton s of Some ip \<Rightarrow> ip | None \<Rightarrow> ip4_any)) in
       Some (addr ''ipaddr'', addr ''netmask'', addr ''gatewayip''))"

definition netif_remove :: "lwip_netif \<Rightarrow> lwip_state \<Rightarrow> lwip_state" where
  "netif_remove n s =
     s\<lparr>netif_list := filter (\<lambda>m. netif_idx m \<noteq> netif_idx n) (netif_list s),
       netif_default := (if netif_default s = Some (netif_idx n) then None else netif_default s)\<rparr>"

text \<open>
  \<open>started\<close> is the result of starting the device, \<open>mem\<close> that of the allocation, \<open>num\<close> the index lwIP
  gives the interface, or \<^term>\<open>None\<close> when \<^verbatim>\<open>netif_add\<close> fails. The hardware address is not part of
  the model.
\<close>

definition new_netif_core ::
    "int option \<Rightarrow> bool \<Rightarrow> bool \<Rightarrow> int \<Rightarrow> bool \<Rightarrow> nat option \<Rightarrow> (string \<Rightarrow> string option) \<Rightarrow> lwip_state \<Rightarrow>
      lwip_netif option \<times> lwip_state" where
  "new_netif_core udev with_ip shared started mem num env_get s =
    (case udev of
       None \<Rightarrow> (None, s)
     | Some idx \<Rightarrow>
         if started < 0 then (None, s)
         else
           let s = (if shared then s else case net_lwip_get_netif s of Some n \<Rightarrow> netif_remove n s | None \<Rightarrow> s) in
           case (if with_ip then get_udev_ipv4_info idx env_get else Some (ip4_any, ip4_any, ip4_any)) of
             None \<Rightarrow> (None, s)
           | Some (ip, nm, gw) \<Rightarrow>
               if \<not> mem then (None, s)
               else (case num of
                       None \<Rightarrow> (None, s)
                     | Some k \<Rightarrow>
                         let n = \<lparr>netif_idx = k, netif_up = True, netif_ip = ip, netif_mask = nm, netif_gw = gw\<rparr>;
                             s = s\<lparr>netif_list := n # netif_list s\<rparr> in
                         (Some n, if shared then s else s\<lparr>netif_default := Some k\<rparr>)))"

definition net_lwip_new_netif_multi ::
    "int option \<Rightarrow> int \<Rightarrow> bool \<Rightarrow> nat option \<Rightarrow> (string \<Rightarrow> string option) \<Rightarrow> lwip_state \<Rightarrow> lwip_netif option \<times> lwip_state" where
  "net_lwip_new_netif_multi udev = new_netif_core udev True True"

definition net_lwip_remove_netif :: "lwip_netif \<Rightarrow> lwip_state \<Rightarrow> lwip_state" where
  "net_lwip_remove_netif = netif_remove"

text \<open>\<open>init\<close> is the result of \<^verbatim>\<open>eth_init\<close>.\<close>

definition net_lwip_eth_start :: "int \<Rightarrow> lwip_state \<Rightarrow> int \<times> lwip_state" where
  "net_lwip_eth_start init s =
    (let n = net_lwip_eth_started s; s = s\<lparr>net_lwip_eth_started := n + 1\<rparr> in
     if n > 0 then (0, s)
     else if init < 0 then (init, s\<lparr>net_lwip_eth_started := net_lwip_eth_started s - 1, eth_running := False\<rparr>)
     else (0, s\<lparr>eth_running := True\<rparr>))"

definition net_lwip_eth_stop :: "lwip_state \<Rightarrow> lwip_state" where
  "net_lwip_eth_stop s =
    (if net_lwip_eth_started s = 0 then s
     else
       let s = s\<lparr>net_lwip_eth_started := net_lwip_eth_started s - 1\<rparr> in
       if net_lwip_eth_started s \<noteq> 0 then s else s\<lparr>eth_running := False\<rparr>)"

lemma eth_start_stop:
  assumes "net_lwip_eth_start init s = (r, s')" "0 \<le> net_lwip_eth_started s"
  shows "(r < 0 \<longrightarrow> net_lwip_eth_started s' = net_lwip_eth_started s) \<and>
    (0 \<le> r \<longrightarrow> r = 0 \<and> net_lwip_eth_started (net_lwip_eth_stop s') = net_lwip_eth_started s) \<and>
    hooks s' = hooks s \<and> netif_list s' = netif_list s \<and> netif_default s' = netif_default s"
  using assms by (auto simp: net_lwip_eth_start_def net_lwip_eth_stop_def Let_def split: if_splits)

lemma eth_stop_keeps [simp]:
  "hooks (net_lwip_eth_stop s) = hooks s" "netif_list (net_lwip_eth_stop s) = netif_list s"
  "netif_default (net_lwip_eth_stop s) = netif_default s"
  by (simp_all add: net_lwip_eth_stop_def Let_def)

lemma netif_multi_spec:
  "net_lwip_new_netif_multi udev started mem num env_get s = (r, s') \<Longrightarrow>
    (r = None \<longrightarrow> s' = s) \<and>
    (\<forall>n. r = Some n \<longrightarrow> s' = s\<lparr>netif_list := n # netif_list s\<rparr> \<and> num = Some (netif_idx n) \<and> netif_up n \<and>
       (\<exists>idx. udev = Some idx \<and> get_udev_ipv4_info idx env_get = Some (netif_ip n, netif_mask n, netif_gw n)))"
  by (auto simp: net_lwip_new_netif_multi_def new_netif_core_def Let_def split: option.splits if_splits)

end
