(* ===== verification/MainLoop.thy ===== *)
theory MainLoop
  imports FlashImage Leds NetLwip
begin

text \<open>
  \<^verbatim>\<open>run_http_recovery\<close> of \<^verbatim>\<open>net/lwip/httpd_recovery.c\<close> and the command of \<^verbatim>\<open>cmd/http_recovery.c\<close>: network
  set-up and shutdown, the main loop that serves packets, drives the LEDs, flashes accepted
  uploads and resets the board. The loop is a function of the list of what each iteration reads from
  outside; the packets are the queue in the server state.
\<close>

section \<open>Addresses and the active Ethernet device\<close>

abbreviation (input) "RECOVERY_STATIC_IPADDR \<equiv> ''192.168.0.1''"
abbreviation (input) "RECOVERY_STATIC_NETMASK \<equiv> ''255.255.255.0''"
abbreviation (input) "RECOVERY_STATIC_GATEWAY \<equiv> ''0.0.0.0''"
abbreviation (input) "RECOVERY_1G_ETH_ALIAS \<equiv> ''eth0''"
abbreviation (input) "RECOVERY_1G_ETH_SEQ \<equiv> (0 :: int)"
abbreviation (input) "RECOVERY_ETHACT_SAVE_LEN \<equiv> (64 :: nat)"

text \<open>
  Setting a variable, with the result of \<^verbatim>\<open>env_set\<close> as a function of the name; a failure changes
  nothing, and a \<^term>\<open>None\<close> value deletes the variable.
\<close>

type_synonym envs = "string \<Rightarrow> string option"

definition env_set :: "(string \<Rightarrow> int) \<Rightarrow> string \<Rightarrow> string option \<Rightarrow> envs \<Rightarrow> int \<times> envs" where
  "env_set outcome name v e = (if outcome name = 0 then (0, e(name := v)) else (outcome name, e))"

definition recovery_prepare_static_network :: "(string \<Rightarrow> int) \<Rightarrow> envs \<Rightarrow> envs" where
  "recovery_prepare_static_network outcome e =
    (let ipaddr = e ''ipaddr''; nm = e ''netmask''; gatewayip = e ''gatewayip'';
         e = snd (env_set outcome ''ipaddr'' (Some (case ipaddr of Some s \<Rightarrow> s | None \<Rightarrow> RECOVERY_STATIC_IPADDR)) e);
         e = snd (env_set outcome ''netmask'' (Some (case nm of Some s \<Rightarrow> s | None \<Rightarrow> RECOVERY_STATIC_NETMASK)) e) in
     snd (env_set outcome ''gatewayip'' (Some (case gatewayip of Some s \<Rightarrow> s | None \<Rightarrow> RECOVERY_STATIC_GATEWAY)) e))"

text \<open>The command checks the same three variables before it starts the server.\<close>

definition http_recovery_defaults :: "(string \<Rightarrow> int) \<Rightarrow> envs \<Rightarrow> envs" where
  "http_recovery_defaults outcome e =
    (let e = (if e ''ipaddr'' = None then snd (env_set outcome ''ipaddr'' (Some ''192.168.0.1'') e) else e);
         e = (if e ''netmask'' = None then snd (env_set outcome ''netmask'' (Some ''255.255.255.0'') e) else e) in
     if e ''gatewayip'' = None then snd (env_set outcome ''gatewayip'' (Some ''0.0.0.0'') e) else e)"

text \<open>A device is its sequence number; \<open>by_seq\<close> is \<^verbatim>\<open>uclass_get_device_by_seq\<close> for Ethernet.\<close>

definition recovery_netdev_is_1g :: "int option \<Rightarrow> bool" where
  "recovery_netdev_is_1g dv \<longleftrightarrow> dv = Some RECOVERY_1G_ETH_SEQ"

definition recovery_get_1g_eth :: "(int \<Rightarrow> int + int option) \<Rightarrow> int + int option" where
  "recovery_get_1g_eth by_seq =
    (case by_seq RECOVERY_1G_ETH_SEQ of
       Inl ret \<Rightarrow> Inl ret
     | Inr dv \<Rightarrow> if \<not> recovery_netdev_is_1g dv then Inl (- ENODEV) else Inr dv)"

record ethact_save =
  save_valid :: bool
  save_ethact :: string

definition recovery_select_1g_eth ::
    "(int \<Rightarrow> int + int option) \<Rightarrow> (string \<Rightarrow> int) \<Rightarrow> envs \<Rightarrow> int \<times> ethact_save \<times> envs" where
  "recovery_select_1g_eth by_seq outcome e =
    (let save = (case e ''ethact'' of
                   Some s \<Rightarrow> \<lparr>save_valid = True, save_ethact = strlcpy RECOVERY_ETHACT_SAVE_LEN s\<rparr>
                 | None \<Rightarrow> \<lparr>save_valid = False, save_ethact = []\<rparr>) in
     case recovery_get_1g_eth by_seq of
       Inl ret \<Rightarrow> (ret, save, e)
     | Inr dv \<Rightarrow>
         let (ret, e) = env_set outcome ''ethact'' (Some RECOVERY_1G_ETH_ALIAS) e in
         if ret \<noteq> 0 then (ret, save, e) else (0, save, e))"

definition recovery_restore_ethact :: "(string \<Rightarrow> int) \<Rightarrow> ethact_save \<Rightarrow> envs \<Rightarrow> envs" where
  "recovery_restore_ethact outcome save e =
     snd (env_set outcome ''ethact'' (if save_valid save then Some (save_ethact save) else None) e)"

section \<open>The recovery network\<close>

record net_ctx =
  ctx_udev :: "int option"
  ctx_netif :: "lwip_netif option"
  ctx_dhcp :: dhcp_server

text \<open>
  The state of the recovery mode around the upload server: \<open>rw\<close> is the state of the server, \<open>rx_srv\<close>
  says that \<^verbatim>\<open>recovery_rx_srv\<close> points to the DHCP server of the only entry of \<^verbatim>\<open>recovery_nets\<close>.
\<close>

record ('d, 'm) recovery =
  rw :: "'d rworld"
  lwip :: lwip_state
  net0 :: net_ctx
  recovery_net_count :: nat
  rx_srv :: bool
  status_leds :: status_led_ctrl
  link_leds :: led_ctrl
  led_state :: led_globals
  gpio_regs :: regs
  mdio_bus :: 'm

abbreviation upd_rw :: "('d rworld \<Rightarrow> 'd rworld) \<Rightarrow> ('d, 'm) recovery \<Rightarrow> ('d, 'm) recovery" where
  "upd_rw f s \<equiv> s\<lparr>rw := f (rw s)\<rparr>"

abbreviation upd_env :: "(envs \<Rightarrow> envs) \<Rightarrow> ('d, 'm) recovery \<Rightarrow> ('d, 'm) recovery" where
  "upd_env f s \<equiv> s\<lparr>rw := (rw s)\<lparr>env := f (env (rw s))\<rparr>\<rparr>"

text \<open>
  What the hardware and the libraries answer during start-up: the device tree, the MDIO bus probe, the
  Ethernet devices, the results of \<^verbatim>\<open>env_set\<close>, \<^verbatim>\<open>eth_init\<close> and the device start, the outcome of the
  allocations, the index of the new interface, and the open TCP connections at clean-up.
\<close>

record boot_in =
  dtree :: fdt
  mdio_probe :: "ofnode \<Rightarrow> int"
  eth_by_seq :: "int \<Rightarrow> int + int option"
  env_result :: "string \<Rightarrow> int"
  eth_init_ret :: int
  dev_start_ret :: int
  netif_mem :: bool
  netif_num :: "nat option"
  pcb_mem :: bool
  pcb_bound :: bool
  boot_clock :: u64
  open_pcbs :: "conn list"

definition recovery_net_setup :: "boot_in \<Rightarrow> ('d, 'm) recovery \<Rightarrow> int \<times> ('d, 'm) recovery" where
  "recovery_net_setup bi s =
    (case recovery_get_1g_eth (eth_by_seq bi) of
       Inl ret \<Rightarrow> (0, s\<lparr>recovery_net_count := 0\<rparr>)
     | Inr dv \<Rightarrow>
         let (nif, l) = net_lwip_new_netif_multi dv (dev_start_ret bi) (netif_mem bi) (netif_num bi) (env (rw s)) (lwip s);
             s = s\<lparr>lwip := l\<rparr> in
         case nif of
           None \<Rightarrow> (0, s\<lparr>recovery_net_count := 0\<rparr>)
         | Some n \<Rightarrow>
             let n' = (if netif_ip n = ip4_any \<or> netif_mask n = ip4_any
                       then n\<lparr>netif_ip := the (ip4addr_aton RECOVERY_STATIC_IPADDR),
                              netif_mask := the (ip4addr_aton RECOVERY_STATIC_NETMASK),
                              netif_gw := the (ip4addr_aton RECOVERY_STATIC_GATEWAY)\<rparr>
                       else n);
                 (r, srv) = recovery_dhcp_server_init (pcb_mem bi) (pcb_bound bi) (netif_ip n') (netif_mask n') (netif_gw n');
                 l = l\<lparr>netif_list := n' # tl (netif_list l), netif_default := Some (netif_idx n')\<rparr> in
             (1, s\<lparr>lwip := l, net0 := \<lparr>ctx_udev = dv, ctx_netif = Some n', ctx_dhcp = srv\<rparr>,
                   recovery_net_count := 1\<rparr>))"

definition recovery_net_teardown :: "('d, 'm) recovery \<Rightarrow> ('d, 'm) recovery" where
  "recovery_net_teardown s =
    (let s = (if recovery_net_count s = 0 then s
              else
                let l = (case ctx_netif (net0 s) of None \<Rightarrow> lwip s | Some n \<Rightarrow> net_lwip_remove_netif n (lwip s)) in
                s\<lparr>lwip := l,
                  net0 := \<lparr>ctx_udev = None, ctx_netif = None, ctx_dhcp = recovery_dhcp_server_stop (ctx_dhcp (net0 s))\<rparr>\<rparr>) in
     s\<lparr>recovery_net_count := 0, rx_srv := False\<rparr>)"

definition recovery_cancel_timeouts :: "'d rworld \<Rightarrow> 'd rworld" where
  "recovery_cancel_timeouts w =
     upd_ext (\<lambda>n. n\<lparr>reboot_timer := False\<rparr>)
       (w\<lparr>flash_request := False, reboot_post_pending := False, reboot_request := False\<rparr>)"

text \<open>Aborting a connection reports \<^verbatim>\<open>ERR_ABRT\<close> to the HTTP server.\<close>

definition recovery_abort_tcp_list :: "'d board \<Rightarrow> conn list \<Rightarrow> 'd rworld \<Rightarrow> 'd rworld" where
  "recovery_abort_tcp_list b cs w = fold (\<lambda>c. handle_event b (Closed c ERR_ABRT)) cs w"

definition recovery_lwip_cleanup :: "'d board \<Rightarrow> conn list \<Rightarrow> 'd rworld \<Rightarrow> 'd rworld" where
  "recovery_lwip_cleanup b cs w = (recovery_abort_tcp_list b cs w)\<lparr>recovery_httpd_started := False\<rparr>"

section \<open>The main loop\<close>

text \<open>
  What an iteration reads from outside: a key, the outcome of the allocation of the read-back buffer,
  and the clock at the status LED updates of the receive loop, of the flash operation and of the
  loop itself. Packets come from the queue of the server state.
\<close>

record loop_in =
  key :: "int option"
  buffer_ok :: bool
  rx_times :: "u64 list"
  flash_times :: "u64 list"
  status_time :: u64
  link_time :: u64
  link_time2 :: u64

datatype loop_exit = AbortByUser | BoardReset

definition status_polls :: "u64 list \<Rightarrow> ('d, 'm) recovery \<Rightarrow> ('d, 'm) recovery" where
  "status_polls ts s =
    (let (c, r) = fold (\<lambda>t (c, r). recovery_status_led_poll t c r) ts (status_leds s, gpio_regs s) in
     s\<lparr>status_leds := c, gpio_regs := r\<rparr>)"

text \<open>
  \<open>sync_part\<close> and \<open>sync_all\<close> are the board's \<^verbatim>\<open>sync_factory_part\<close> and \<^verbatim>\<open>sync_factory\<close>; \<open>rdm\<close> is the MDIO
  read. \<^verbatim>\<open>airoha_recovery_poll_link\<close> is empty.
\<close>

definition recovery_rx :: "'d board \<Rightarrow> loop_in \<Rightarrow> ('d, 'm) recovery \<Rightarrow> ('d, 'm) recovery" where
  "recovery_rx b i s =
    (let s = (if recovery_net_count s = 0 then s
              else
                let s = s\<lparr>rx_srv := has_pcb (ctx_dhcp (net0 s))\<rparr>;
                    s = (if recovery_poll_hook (hooks (lwip s)) then status_polls (rx_times i) s else s) in
                upd_rw (net_lwip_rx b) s) in
     s\<lparr>rx_srv := False\<rparr>)"

definition recovery_poll_leds ::
    "('m \<Rightarrow> int \<Rightarrow> nat \<Rightarrow> int \<times> 'm) \<Rightarrow> bool \<Rightarrow> loop_in \<Rightarrow> ('d, 'm) recovery \<Rightarrow> ('d, 'm) recovery" where
  "recovery_poll_leds rdm use_status_leds i s =
    (let s = (if use_status_leds then status_polls [status_time i] s else s);
         (c, r, m) = recovery_led_poll rdm (link_time i) (link_time2 i) (lan_activity_ms (rw s)) (led_state s)
                       (link_leds s) (gpio_regs s) (mdio_bus s) in
     s\<lparr>link_leds := c, gpio_regs := r, mdio_bus := m\<rparr>)"

definition recovery_flash ::
    "'d board \<Rightarrow> (string option \<Rightarrow> 'd rworld \<Rightarrow> int \<times> 'd rworld) \<Rightarrow> ('d rworld \<Rightarrow> int \<times> 'd rworld) \<Rightarrow> bool \<Rightarrow>
      'd rworld \<Rightarrow> 'd rworld" where
  "recovery_flash b sync_part sync_all mem_ok w =
    (if flash_request w then
       let (rc, w) = flash_image b (recovery_service_runtime b) sync_part sync_all mem_ok (w\<lparr>flash_request := False\<rparr>) in
       if rc = 0 then upd_ext (\<lambda>n. n\<lparr>reboot_timer := True\<rparr>) (w\<lparr>reboot_request := False\<rparr>) else w
     else w)"

definition recovery_iteration ::
    "'d board \<Rightarrow> (string option \<Rightarrow> 'd rworld \<Rightarrow> int \<times> 'd rworld) \<Rightarrow> ('d rworld \<Rightarrow> int \<times> 'd rworld) \<Rightarrow>
      ('m \<Rightarrow> int \<Rightarrow> nat \<Rightarrow> int \<times> 'm) \<Rightarrow> bool \<Rightarrow> loop_in \<Rightarrow> ('d, 'm) recovery \<Rightarrow> loop_exit option \<times> ('d, 'm) recovery" where
  "recovery_iteration b sync_part sync_all rdm use_status_leds i s =
    (if key i = Some 3 then (Some AbortByUser, s)
     else
       let s = recovery_rx b i s;
           s = recovery_poll_leds rdm use_status_leds i s;
           s = (if flash_request (rw s) then status_polls (flash_times i) s else s);
           s = upd_rw (recovery_flash b sync_part sync_all (buffer_ok i)) s in
       (if reboot_request (rw s) then Some BoardReset else None, s))"

fun recovery_loop ::
    "'d board \<Rightarrow> (string option \<Rightarrow> 'd rworld \<Rightarrow> int \<times> 'd rworld) \<Rightarrow> ('d rworld \<Rightarrow> int \<times> 'd rworld) \<Rightarrow>
      ('m \<Rightarrow> int \<Rightarrow> nat \<Rightarrow> int \<times> 'm) \<Rightarrow> bool \<Rightarrow> loop_in list \<Rightarrow> ('d, 'm) recovery \<Rightarrow> loop_exit option \<times> ('d, 'm) recovery" where
  "recovery_loop b sp sa rdm use [] s = (None, s)"
| "recovery_loop b sp sa rdm use (i # is) s =
    (case recovery_iteration b sp sa rdm use i s of
       (Some e, s) \<Rightarrow> (Some e, s)
     | (None, s) \<Rightarrow> recovery_loop b sp sa rdm use is s)"

section \<open>run\_http\_recovery\<close>

text \<open>The variables at the start of a run.\<close>

definition recovery_reset_state :: "'d rworld \<Rightarrow> 'd rworld" where
  "recovery_reset_state w =
    (recovery_cancel_timeouts w)
      \<lparr>recv_off := 0, recv_total := 0, post_ok := False, flash_request := False, reboot_request := False, prog_phase := 0,
       prog_done := 0, prog_total := 0, prog_erase_done := 0, prog_erase_total := 0, prog_write_done := 0,
       prog_write_total := 0, recovery_ubi_attach_error := 0\<rparr>"

definition recovery_leds_off :: "boot_in \<Rightarrow> ('d, 'm) recovery \<Rightarrow> ('d, 'm) recovery" where
  "recovery_leds_off bi s =
    (let (c, r) = recovery_status_led_stop (status_leds s) (gpio_regs s);
         c = recovery_status_led_release c;
         (g, r) = recovery_led_stop (dtree bi) (led_state s) r in
     s\<lparr>status_leds := c, gpio_regs := r, led_state := g, link_leds := recovery_led_ctrl_free (link_leds s)\<rparr>)"

definition recovery_shutdown :: "'d board \<Rightarrow> boot_in \<Rightarrow> ethact_save \<Rightarrow> ('d, 'm) recovery \<Rightarrow> ('d, 'm) recovery" where
  "recovery_shutdown b bi save s =
    (let s = s\<lparr>lwip := (lwip s)\<lparr>hooks := net_lwip_set_recovery_poll_hook False (hooks (lwip s))\<rparr>\<rparr>;
         s = upd_rw recovery_cancel_timeouts s;
         s = s\<lparr>lwip := (lwip s)\<lparr>hooks := net_lwip_set_recovery_route_hook False (hooks (lwip s))\<rparr>\<rparr>;
         s = s\<lparr>lwip := (lwip s)\<lparr>hooks := net_lwip_set_recovery_dhcp_hook False None (hooks (lwip s))\<rparr>\<rparr>;
         s = recovery_net_teardown s;
         s = upd_rw (recovery_lwip_cleanup b (open_pcbs bi)) s;
         s = s\<lparr>lwip := net_lwip_eth_stop (lwip s)\<rparr>;
         s = upd_env (recovery_restore_ethact (env_result bi) save) s in
     recovery_leds_off bi s)"

text \<open>
  The result is \<^term>\<open>None\<close> only where LED set-up reads past a register table (see the GPIO helpers). Otherwise
  it is the exit of the function: its return value, a board reset, or, with the inputs used up, still
  running.
\<close>

datatype run_exit = Returned int | Resetting | Running

definition recovery_serve_setup ::
    "bool \<Rightarrow> ('d, 'm) recovery \<Rightarrow> ('d, 'm) recovery" where
  "recovery_serve_setup use_status_leds s =
    (let h = hooks (lwip s);
         h = (if recovery_net_count s \<noteq> 0 \<and> has_pcb (ctx_dhcp (net0 s)) then net_lwip_set_recovery_dhcp_hook True None h else h);
         h = net_lwip_set_recovery_route_hook True h;
         s = upd_rw (\<lambda>w. if \<not> recovery_httpd_started w then w\<lparr>recovery_httpd_started := True\<rparr> else w) s;
         h = (if use_status_leds then net_lwip_set_recovery_poll_hook True h else h) in
     s\<lparr>lwip := (lwip s)\<lparr>hooks := h\<rparr>\<rparr>)"

text \<open>From the start of the Ethernet layer on.\<close>

definition recovery_serve ::
    "'d board \<Rightarrow> (string option \<Rightarrow> 'd rworld \<Rightarrow> int \<times> 'd rworld) \<Rightarrow> ('d rworld \<Rightarrow> int \<times> 'd rworld) \<Rightarrow>
      ('m \<Rightarrow> int \<Rightarrow> nat \<Rightarrow> int \<times> 'm) \<Rightarrow> boot_in \<Rightarrow> loop_in list \<Rightarrow> bool \<Rightarrow> ethact_save \<Rightarrow> ('d, 'm) recovery \<Rightarrow>
      run_exit \<times> ('d, 'm) recovery" where
  "recovery_serve b sync_part sync_all rdm bi inputs use_status_leds save s =
    (let (rc, l) = net_lwip_eth_start (eth_init_ret bi) (lwip s); s = s\<lparr>lwip := l\<rparr> in
     if rc < 0 then
       let s = upd_rw (recovery_lwip_cleanup b (open_pcbs bi)) s;
           s = upd_env (recovery_restore_ethact (env_result bi) save) s in
       (Returned rc, recovery_leds_off bi s)
     else
       let (rc, s) = recovery_net_setup bi s in
       if rc \<le> 0 then
         let s = upd_rw (recovery_lwip_cleanup b (open_pcbs bi)) s;
             s = recovery_leds_off bi s;
             s = s\<lparr>lwip := net_lwip_eth_stop (lwip s)\<rparr> in
         (Returned (- ENODEV), upd_env (recovery_restore_ethact (env_result bi) save) s)
       else
         let s = recovery_serve_setup use_status_leds s in
         (case recovery_loop b sync_part sync_all rdm use_status_leds inputs s of
            (None, s) \<Rightarrow> (Running, s)
          | (Some BoardReset, s) \<Rightarrow> (Resetting, s)
          | (Some AbortByUser, s) \<Rightarrow> (Returned 0, recovery_shutdown b bi save s)))"

definition run_http_recovery ::
    "'d board \<Rightarrow> (string option \<Rightarrow> 'd rworld \<Rightarrow> int \<times> 'd rworld) \<Rightarrow> ('d rworld \<Rightarrow> int \<times> 'd rworld) \<Rightarrow>
      ('m \<Rightarrow> int \<Rightarrow> nat \<Rightarrow> int \<times> 'm) \<Rightarrow> boot_in \<Rightarrow> loop_in list \<Rightarrow> ('d, 'm) recovery \<Rightarrow> (run_exit \<times> ('d, 'm) recovery) option" where
  "run_http_recovery b sync_part sync_all rdm bi inputs s = do {
     let s = upd_rw recovery_reset_state s;
     (rc, sl, r) \<leftarrow> recovery_status_led_init (dtree bi) (boot_clock bi) (gpio_regs s);
     let use_status_leds = (rc = 0);
     (rc, ll, g, r) \<leftarrow> recovery_led_init (dtree bi) (mdio_probe bi) (led_state s) r;
     let s = s\<lparr>status_leds := sl, link_leds := ll, led_state := g, gpio_regs := r\<rparr>;
     let s = upd_env (recovery_prepare_static_network (env_result bi)) s;
     let (rc, save, e) = recovery_select_1g_eth (eth_by_seq bi) (env_result bi) (env (rw s));
     let s = upd_env (\<lambda>_. e) s;
     if rc \<noteq> 0 then Some (Returned rc, recovery_leds_off bi s)
     else Some (recovery_serve b sync_part sync_all rdm bi inputs use_status_leds save s)
   }"

text \<open>The \<^verbatim>\<open>http_recovery\<close> command.\<close>

definition do_http_recovery ::
    "'d board \<Rightarrow> (string option \<Rightarrow> 'd rworld \<Rightarrow> int \<times> 'd rworld) \<Rightarrow> ('d rworld \<Rightarrow> int \<times> 'd rworld) \<Rightarrow>
      ('m \<Rightarrow> int \<Rightarrow> nat \<Rightarrow> int \<times> 'm) \<Rightarrow> boot_in \<Rightarrow> loop_in list \<Rightarrow> ('d, 'm) recovery \<Rightarrow> (run_exit \<times> ('d, 'm) recovery) option" where
  "do_http_recovery b sync_part sync_all rdm bi inputs s =
     run_http_recovery b sync_part sync_all rdm bi inputs (upd_env (http_recovery_defaults (env_result bi)) s)"

section \<open>Who asks for a reboot\<close>

text \<open>The reboot variables, and the events still to come.\<close>

definition rb :: "'d rworld \<Rightarrow> bool \<times> bool \<times> bool \<times> net_event list list" where
  "rb w = (reboot_post_pending w, reboot_timer (ext w), reboot_request w, inbox (ext w))"

definition rebooting :: "'d rworld \<Rightarrow> bool" where
  "rebooting w \<longleftrightarrow> reboot_timer (ext w) \<or> reboot_request w"

definition asks_reboot :: "net_event \<Rightarrow> bool" where
  "asks_reboot ev \<longleftrightarrow> (\<exists>c n body. ev = PostRequest c ''/reboot'' n body)"

lemma rb_ctl: "ctl w' = ctl w \<Longrightarrow> inbox (ext w') = inbox (ext w) \<Longrightarrow> rb w' = rb w"
  by (simp add: ctl_def rb_def)

lemma rb_upd [simp]:
  "rb (w\<lparr>post_ok := p\<rparr>) = rb w" "rb (w\<lparr>prog_phase := n\<rparr>) = rb w" "rb (w\<lparr>lan_activity_ms := t\<rparr>) = rb w"
  "rb (w\<lparr>dev := d\<rparr>) = rb w" "rb (w\<lparr>usecount := u\<rparr>) = rb w" "rb (w\<lparr>flash_request := f\<rparr>) = rb w"
  "rb (respond c u' w) = rb w" "rb (set_hs c hs w) = rb w"
  by (simp_all add: rb_def respond_def set_hs_def upd_ext_def)

lemma rb_same [simp]: "rb (http_state_free c w) = rb w" "rb (httpd_post_finished c w) = rb w"
proof -
  have "inbox (ext (http_state_free c w)) = inbox (ext w)"
    by (simp add: http_state_free_def fs_close_custom_def recovery_close_mtd_backup_def put_mtd_device_def upd_ext_def Let_def split: option.split)
  then show "rb (http_state_free c w) = rb w" by (rule rb_ctl [OF state_free_ctl(1)])
  show "rb (httpd_post_finished c w) = rb w" by (simp add: httpd_post_finished_def)
qed

lemma rb_copy: "rb (snd (copy_pbufs qs w)) = rb w"
  by (induction qs w rule: copy_pbufs.induct) (auto simp: Let_def rb_def case_prod_beta)

lemma rb_receive: "rb (snd (httpd_post_receive_data p w)) = rb w"
  by (simp add: httpd_post_receive_data_def Let_def case_prod_beta rb_copy split: option.split)

lemma rb_finished: "rb (snd (http_handle_post_finished c hs w)) = rb w"
  by (simp add: http_handle_post_finished_def)

lemma rb_rxpbuf: "rb (snd (http_post_rxpbuf c hs p w)) = rb w"
  using rb_receive [of p w]
  by (auto simp: http_post_rxpbuf_def Let_def case_prod_beta rb_finished split: option.splits)

lemma rb_begin: "uri \<noteq> ''/reboot'' \<Longrightarrow> rb (snd (httpd_post_begin b c uri n w)) = rb w"
proof (cases "recovery_busy w")
  case False
  assume u: "uri \<noteq> ''/reboot''"
  obtain ret w1 where s: "select_target b uri (reset_upload w) = (ret, w1)" by (cases "select_target b uri (reset_upload w)")
  obtain mx w2 where m: "recovery_calc_target_max b (current_target w1) w1 = (mx, w2)"
    by (cases "recovery_calc_target_max b (current_target w1) w1")
  have "rb (reset_upload w) = rb w" by (simp add: rb_def reset_upload_def)
  then have r1: "rb w1 = rb w" using select_target_ctl [OF s] rb_ctl by metis
  have "core w2 = core w1" using calc_target_max_keeps [OF m] unfolding keeps_def by blast
  then have r2: "rb w2 = rb w" using core_ctl [of w2 w1] rb_ctl r1 by metis
  show ?thesis using u False r1 r2 unfolding httpd_post_begin_def Let_def s prod.case m
    by (auto simp: rb_def respond_def upd_ext_def split: option.split)
qed (simp add: httpd_post_begin_def)

lemma rb_request: "uri \<noteq> ''/reboot'' \<or> recovery_busy w \<Longrightarrow> rb (snd (http_post_request b c uri n body hs w)) = rb w"
proof -
  assume a: "uri \<noteq> ''/reboot'' \<or> recovery_busy w"
  have "rb (snd (httpd_post_begin b c uri n w)) = rb w"
    using a rb_begin [of uri b c n w] by (cases "recovery_busy w") (auto simp: httpd_post_begin_def)
  then show ?thesis
    by (auto simp: http_post_request_def Let_def case_prod_beta rb_rxpbuf split: option.splits)
qed

lemma rb_close: "\<not> reboot_post_pending w \<Longrightarrow> rb (http_close c hs r w) = rb w"
  by (auto simp: http_close_def http_post_response_notify_def http_post_connection_closed_def Let_def case_prod_beta
      httpd_post_response_complete_def)

lemma rb_event:
  assumes "\<not> reboot_post_pending w" "\<not> asks_reboot ev \<or> recovery_busy w"
    and d: "\<forall>m\<in>set (brd_mtds b). driver_ok content m"
  shows "\<not> reboot_post_pending (handle_event b ev w) \<and> rebooting (handle_event b ev w) = rebooting w \<and>
    inbox (ext (handle_event b ev w)) = inbox (ext w)"
proof -
  have e: "\<not> reboot_post_pending w' \<and> rebooting w' = rebooting w \<and> inbox (ext w') = inbox (ext w)" if "rb w' = rb w" for w' :: "'a rworld"
    using that assms(1) by (auto simp: rb_def rebooting_def)
  have x: "rb (upd_ext f w') = rb w'" if "\<And>n. reboot_timer (f n) = reboot_timer n" "\<And>n. inbox (f n) = inbox n" for f and w' :: "'a rworld"
    using that by (simp add: rb_def upd_ext_def)
  show ?thesis
  proof (cases ev)
    case (PostRequest c uri n body)
    have "uri \<noteq> ''/reboot'' \<or> recovery_busy w" using assms(2) PostRequest by (auto simp: asks_reboot_def)
    from rb_request [OF this] show ?thesis
      by (intro e) (auto simp: handle_event_def PostRequest case_prod_beta Let_def split: option.splits)
  next
    case (PostData c qs)
    show ?thesis by (intro e) (auto simp: handle_event_def PostData case_prod_beta Let_def rb_rxpbuf split: option.splits)
  next
    case (FileOpen c mem about name)
    obtain f w1 where o1: "fs_open_custom b mem about name w = (f, w1)" by (cases "fs_open_custom b mem about name w")
    obtain u where "w1 = w\<lparr>usecount := u\<rparr>" using fs_open_frame [OF d o1] by blast
    then have "rb w1 = rb w" by simp
    then show ?thesis by (intro e) (auto simp: handle_event_def FileOpen o1 x split: option.splits)
  next
    case (FileRead c n)
    have "rb (w\<lparr>dev := y\<rparr>) = rb w" for y by (simp add: rb_def)
    then show ?thesis by (intro e) (auto simp: handle_event_def FileRead x case_prod_beta Let_def split: option.splits)
  next
    case RebootTimer
    then show ?thesis using assms(1) by (auto simp: handle_event_def reboot_delay_cb_def upd_ext_def rebooting_def)
  next
    case (Tick t)
    show ?thesis by (intro e) (simp add: handle_event_def Tick x)
  qed (use assms(1) in \<open>intro e; auto simp: handle_event_def rb_close split: option.splits\<close>)+
qed

section \<open>Flashing leaves the reboot state alone\<close>

definition no_asks :: "'d rworld \<Rightarrow> bool" where
  "no_asks w \<longleftrightarrow> (\<forall>evs\<in>set (inbox (ext w)). \<forall>ev\<in>set evs. \<not> asks_reboot ev)"

text \<open>The invariant of a flash operation: no reboot is under way; with \<open>any\<close>, whatever is queued.\<close>

definition flash_quiet :: "('d \<Rightarrow> int \<Rightarrow> u8) \<Rightarrow> 'd board \<Rightarrow> bool \<Rightarrow> 'd rworld \<Rightarrow> bool" where
  "flash_quiet content b any w \<longleftrightarrow>
     server_inv content b w \<and> \<not> reboot_post_pending w \<and> \<not> rebooting w \<and> (any \<or> no_asks w)"

lemma mtds_ok: "server_inv content b w \<Longrightarrow> \<forall>m\<in>set (brd_mtds b). driver_ok content m"
  by (simp add: server_inv_def)

lemma rb_events:
  "server_inv content b w \<Longrightarrow> \<not> reboot_post_pending w \<Longrightarrow> 0 < prog_phase w \<or> (\<forall>ev\<in>set evs. \<not> asks_reboot ev) \<Longrightarrow>
   \<not> reboot_post_pending (fold (handle_event b) evs w) \<and> rebooting (fold (handle_event b) evs w) = rebooting w \<and>
   inbox (ext (fold (handle_event b) evs w)) = inbox (ext w)"
proof (induction evs arbitrary: w)
  case (Cons ev evs)
  let ?w = "handle_event b ev w"
  have e: "\<not> reboot_post_pending ?w \<and> rebooting ?w = rebooting w \<and> inbox (ext ?w) = inbox (ext w)"
    using rb_event [OF Cons.prems(2) _ mtds_ok [OF Cons.prems(1)], of ev] Cons.prems(3) by (auto simp: recovery_busy_def)
  have "0 < prog_phase w \<Longrightarrow> 0 < prog_phase ?w"
    using handle_event_kept [OF Cons.prems(1), of ev] by (simp add: kept_def)
  then have "0 < prog_phase ?w \<or> (\<forall>ev\<in>set evs. \<not> asks_reboot ev)" using Cons.prems(3) by auto
  from Cons.IH [OF handle_event_server_inv [OF Cons.prems(1)] _ this] e show ?case by simp
qed simp

lemma rb_rx:
  assumes "server_inv content b w" "\<not> reboot_post_pending w" "0 < prog_phase w \<or> no_asks w"
  shows "\<not> reboot_post_pending (net_lwip_rx b w) \<and> rebooting (net_lwip_rx b w) = rebooting w \<and>
    inbox (ext (net_lwip_rx b w)) = tl (inbox (ext w))"
proof (cases "inbox (ext w)")
  case (Cons evs later)
  let ?w = "upd_ext (\<lambda>n. n\<lparr>inbox := later\<rparr>) w"
  have "server_inv content b ?w" using assms(1) by (simp add: server_inv_inbox)
  moreover have "\<not> reboot_post_pending ?w" "rebooting ?w = rebooting w" "prog_phase ?w = prog_phase w" "inbox (ext ?w) = later"
    using assms(2) by (simp_all add: upd_ext_def rebooting_def)
  moreover have "0 < prog_phase w \<or> (\<forall>ev\<in>set evs. \<not> asks_reboot ev)" using assms(3) Cons by (auto simp: no_asks_def)
  ultimately have "\<not> reboot_post_pending (fold (handle_event b) evs ?w) \<and> rebooting (fold (handle_event b) evs ?w) = rebooting w \<and>
      inbox (ext (fold (handle_event b) evs ?w)) = later" using rb_events [of content b ?w evs] by simp
  then show ?thesis using Cons by (simp add: net_lwip_rx_def)
qed (use assms(2) in \<open>simp add: net_lwip_rx_def\<close>)

lemma no_asks_tl: "no_asks w \<Longrightarrow> inbox (ext w') = tl (inbox (ext w)) \<Longrightarrow> no_asks w'"
  unfolding no_asks_def by (cases "inbox (ext w)") auto

lemma flash_quiet_plain:
  assumes "flash_quiet content b any w" "plain w' = plain w"
  shows "flash_quiet content b any w'"
proof -
  have "rb w' = rb w" using plain_ctl [OF assms(2)] rb_ctl [of w' w] by simp
  then show ?thesis using assms server_inv_plain [OF _ assms(2)]
    by (auto simp: flash_quiet_def rb_def rebooting_def no_asks_def)
qed

lemma flash_quiet_phase:
  assumes "flash_quiet content b any w" "\<not> post_ok w" "\<not> flash_request w"
  shows "flash_quiet content b any (w\<lparr>prog_phase := n\<rparr>)"
proof -
  have "rb (w\<lparr>prog_phase := n\<rparr>) = rb w" by simp
  then show ?thesis using assms(1) server_inv_phase [OF _ assms(2,3)] by (simp add: flash_quiet_def rb_def rebooting_def no_asks_def)
qed

interpretation fq: flash_server "recovery_service_runtime b" content "flash_quiet content b any"
proof unfold_locales
  fix w assume w: "flash_quiet content b any w"
  have s: "server_inv content b w" using w by (simp add: flash_quiet_def)
  show "flash_quiet content b any (w\<lparr>dev := d\<rparr>)" for d by (rule flash_quiet_plain [OF w]) simp
  show "flash_quiet content b any (w\<lparr>prog_erase_done := n\<rparr>)" for n by (rule flash_quiet_plain [OF w]) simp
  show "flash_quiet content b any (w\<lparr>prog_write_done := n\<rparr>)" for n by (rule flash_quiet_plain [OF w]) simp
  show "flash_quiet content b any (w\<lparr>prog_done := n\<rparr>)" for n by (rule flash_quiet_plain [OF w]) simp
  show "flash_quiet content b any w'" if "plain w' = plain w" for w' by (rule flash_quiet_plain [OF w that])
  show "flash_quiet content b any (w\<lparr>prog_phase := n\<rparr>)" if "\<not> post_ok w" "\<not> flash_request w" for n
    by (rule flash_quiet_phase [OF w that])
  show "flash_quiet content b any (w\<lparr>env := e\<rparr>)" for e
    using w server_inv_env [OF s] by (simp add: flash_quiet_def rebooting_def no_asks_def)
  assume p: "0 < prog_phase w"
  show "kept content w (recovery_service_runtime b w)" using rt.svc_kept [OF s p] .
  show "\<not> post_ok w \<and> \<not> flash_request w" using fs.inv_idle [OF s p] .
  have "any \<or> no_asks (net_lwip_rx b w)"
    using w p rb_rx [OF s] no_asks_tl [of w "net_lwip_rx b w"] by (auto simp: flash_quiet_def)
  then show "flash_quiet content b any (recovery_service_runtime b w)"
    using w p rb_rx [OF s] rx_server_inv [OF s] by (simp add: flash_quiet_def recovery_service_runtime_def)
qed

text \<open>
  What the server relies on of the board methods called after a firmware upload: beside the flash, the
  UBI device and the counters they change at most the environment (\<^verbatim>\<open>ubi_volume_read\<close> sets
  \<^verbatim>\<open>filesize\<close>).
\<close>

definition sync_ok :: "(string option \<Rightarrow> ('d, 'x) world \<Rightarrow> int \<times> ('d, 'x) world) \<Rightarrow> (('d, 'x) world \<Rightarrow> int \<times> ('d, 'x) world) \<Rightarrow> bool" where
  "sync_ok sync_part sync_all \<longleftrightarrow>
     (\<forall>p w. beyond_env (snd (sync_part p w)) = beyond_env w) \<and> (\<forall>w. beyond_env (snd (sync_all w)) = beyond_env w)"

lemma sync_okD:
  assumes "sync_ok sync_part sync_all"
  shows "\<And>p w. beyond_env (snd (sync_part p w)) = beyond_env w" "\<And>w. beyond_env (snd (sync_all w)) = beyond_env w"
  using assms by (simp_all add: sync_ok_def)

text \<open>A flash operation that starts with no reboot under way ends so.\<close>

lemma flash_image_quiet:
  assumes "server_inv content b w" "flash_request w" "\<not> rebooting w" "any \<or> no_asks w"
    and sync: "sync_ok sync_part sync_all"
    and run: "flash_image b (recovery_service_runtime b) sync_part sync_all mem_ok (w\<lparr>flash_request := False\<rparr>) = (ret, w')"
  shows "flash_quiet content b any w' \<and> \<not> post_ok w' \<and> \<not> flash_request w'"
proof -
  have ci: "conns_inv b (conns (ext w)) w" using assms(1) by (simp add: server_inv_def http_inv_def)
  have np: "\<not> reboot_post_pending w" using conns_invD(5) [OF ci assms(2)] by simp
  let ?w = "w\<lparr>flash_request := False\<rparr>"
  have "flash_quiet content b any (?w\<lparr>post_ok := False\<rparr>)"
    using take_request_inv [OF assms(1,2)] np assms(3,4) by (simp add: flash_quiet_def rebooting_def no_asks_def)
  from fq.flash_image_idle [OF this _ mtds_ok [OF assms(1)] sync_okD [OF sync] run] show ?thesis
    by (simp add: fq.idle_def)
qed

section \<open>The outcome of a flash request\<close>

definition done_told :: "int \<times> ('d, 'x) world \<Rightarrow> bool" where
  "done_told r \<longleftrightarrow> (fst r = 0 \<longrightarrow> prog_phase (snd r) = 3)"

lemma done_told_steps:
  "done_told q \<Longrightarrow> done_told (if e \<noteq> 0 then flash_fail e t w else q)"
  "done_told q \<Longrightarrow> done_told (if e \<noteq> 0 then (e, w) else q)"
  "done_told (flash_fail (- EINVAL) t w)" "done_told (flash_fail (- EFBIG) t w)" "done_told (- EINVAL, w)"
  "done_told q \<Longrightarrow> done_told (if v \<noteq> Some 0 then (case v of Some r \<Rightarrow> r | None \<Rightarrow> - EINVAL, w) else q)"
  "done_told (f y) \<Longrightarrow> done_told (Let y f)" "(\<And>a b. done_told (g a b)) \<Longrightarrow> done_told (case z of (a, b) \<Rightarrow> g a b)"
  "done_told q \<Longrightarrow> (\<And>m. done_told (h m)) \<Longrightarrow> done_told (case x of None \<Rightarrow> q | Some m \<Rightarrow> h m)"
  by (auto simp: done_told_def flash_fail_def Let_def split: option.split prod.split)

lemma done_told_if: "done_told p \<Longrightarrow> done_told q \<Longrightarrow> done_told (if c then p else q)"
  by simp

lemma flash_ubi_done:
  assumes "sync_ok sync_part sync_all"
  shows "done_told (flash_ubi b svc sync_part img n t w)"
  unfolding flash_ubi_def
  by (intro done_told_steps done_told_if) (simp add: done_told_def beyond_phase [OF sync_okD(1) [OF assms]])

lemma flash_mtd_done:
  assumes "sync_ok sync_part sync_all"
  shows "done_told (flash_mtd svc sync_all mem_ok img n t w)"
  unfolding flash_mtd_def
  by (intro done_told_steps done_told_if) (simp add: done_told_def beyond_phase [OF sync_okD(2) [OF assms]])

lemma flash_image_done:
  assumes sync: "sync_ok sync_part sync_all"
    and "flash_image b svc sync_part sync_all mem_ok w = (0, w')"
  shows "prog_phase w' = 3"
proof -
  have "done_told (flash_image b svc sync_part sync_all mem_ok w)"
    unfolding flash_image_def by (intro done_told_steps done_told_if flash_ubi_done [OF sync] flash_mtd_done [OF sync])
  then show ?thesis using assms(2) by (simp add: done_told_def)
qed

text \<open>The state after a successful flash, until the board resets.\<close>

definition armed :: "'d rworld \<Rightarrow> bool" where
  "armed w \<longleftrightarrow> prog_phase w = 3 \<and> \<not> post_ok w \<and> \<not> flash_request w \<and> \<not> reboot_post_pending w \<and> rebooting w"

lemma arm_timer_inv:
  "server_inv content b w \<Longrightarrow> server_inv content b (upd_ext (\<lambda>n. n\<lparr>reboot_timer := True\<rparr>) (w\<lparr>reboot_request := False\<rparr>))"
proof -
  let ?w = "upd_ext (\<lambda>n. n\<lparr>reboot_timer := True\<rparr>) (w\<lparr>reboot_request := False\<rparr>)"
  assume i: "server_inv content b w"
  have "http_inv b ?w" using i by (auto simp: server_inv_def http_inv_def conns_inv_def conn_ok_def upd_ext_def)
  moreover have "files_inv content ?w = files_inv content w" by (rule files_inv_same) (simp add: upd_ext_def)
  ultimately show ?thesis using i by (simp add: server_inv_def)
qed

lemma recovery_flash_inv:
  assumes "server_inv content b w"
    and sync: "sync_ok sync_part sync_all"
  shows "server_inv content b (recovery_flash b sync_part sync_all mem_ok w)"
proof (cases "flash_request w")
  case True
  obtain r w' where f: "flash_image b (recovery_service_runtime b) sync_part sync_all mem_ok (w\<lparr>flash_request := False\<rparr>) = (r, w')"
    by (rule prod.exhaust)
  have "fs.idle content b w'"
    by (rule fs.flash_image_idle [OF _ _ mtds_ok [OF assms(1)] sync_okD [OF sync] f]) (use take_request_inv [OF assms(1) True] in simp_all)
  then have i: "server_inv content b w'" by (simp add: fs.idle_def)
  show ?thesis using arm_timer_inv [OF i] i True f by (simp add: recovery_flash_def)
qed (use assms(1) in \<open>simp add: recovery_flash_def\<close>)

lemma recovery_flash_outcome:
  assumes "server_inv content b w" "flash_request w" "\<not> rebooting w" "any \<or> no_asks w"
    and sync: "sync_ok sync_part sync_all"
  shows "(armed (recovery_flash b sync_part sync_all mem_ok w) \<or>
     prog_phase (recovery_flash b sync_part sync_all mem_ok w) = -1 \<and>
     \<not> recovery_busy (recovery_flash b sync_part sync_all mem_ok w) \<and> \<not> rebooting (recovery_flash b sync_part sync_all mem_ok w)) \<and>
     (any \<or> no_asks (recovery_flash b sync_part sync_all mem_ok w))"
proof -
  obtain r w' where f: "flash_image b (recovery_service_runtime b) sync_part sync_all mem_ok (w\<lparr>flash_request := False\<rparr>) = (r, w')"
    by (rule prod.exhaust)
  have q: "flash_quiet content b any w'" "\<not> post_ok w'" "\<not> flash_request w'" using flash_image_quiet [OF assms(1-4) sync f] by auto
  show ?thesis
  proof (cases "r = 0")
    case True
    then have "prog_phase w' = 3" using flash_image_done [OF sync] f by blast
    then show ?thesis using True f q assms(2)
      by (auto simp: recovery_flash_def armed_def rebooting_def upd_ext_def flash_quiet_def no_asks_def)
  next
    case False
    then have "prog_phase w' = -1" using flash_image_failed [OF f] by blast
    then show ?thesis using False f q assms(2)
      by (auto simp: recovery_flash_def recovery_busy_def rebooting_def flash_quiet_def)
  qed
qed



section \<open>The loop\<close>

lemma status_polls_rw [simp]: "rw (status_polls ts s) = rw s" "lwip (status_polls ts s) = lwip s"
  "recovery_net_count (status_polls ts s) = recovery_net_count s"
  by (simp_all add: status_polls_def case_prod_beta)

text \<open>What an iteration does to the server state.\<close>

definition next_rw ::
    "'d board \<Rightarrow> (string option \<Rightarrow> 'd rworld \<Rightarrow> int \<times> 'd rworld) \<Rightarrow> ('d rworld \<Rightarrow> int \<times> 'd rworld) \<Rightarrow> bool \<Rightarrow> bool \<Rightarrow> 'd rworld \<Rightarrow> 'd rworld" where
  "next_rw b sp sa mem_ok net w = recovery_flash b sp sa mem_ok (if net then net_lwip_rx b w else w)"

lemma iteration_rw:
  assumes "recovery_iteration b sp sa rdm use i s = (e, s')"
  shows "(key i = Some 3 \<longrightarrow> e = Some AbortByUser \<and> s' = s) \<and>
    (key i \<noteq> Some 3 \<longrightarrow>
       rw s' = next_rw b sp sa (buffer_ok i) (recovery_net_count s \<noteq> 0) (rw s) \<and>
       e = (if reboot_request (rw s') then Some BoardReset else None) \<and> recovery_net_count s' = recovery_net_count s)"
proof -
  have r: "rw (recovery_rx b i s) = (if recovery_net_count s \<noteq> 0 then net_lwip_rx b (rw s) else rw s)"
    "recovery_net_count (recovery_rx b i s) = recovery_net_count s" for s :: "('a, 'b) recovery"
    by (simp_all add: recovery_rx_def Let_def)
  have l: "rw (recovery_poll_leds rdm use i s) = rw s" "recovery_net_count (recovery_poll_leds rdm use i s) = recovery_net_count s" for s :: "('a, 'b) recovery"
    by (simp_all add: recovery_poll_leds_def Let_def case_prod_beta)
  show ?thesis using assms r l by (auto simp: recovery_iteration_def Let_def next_rw_def if_distrib [of rw] cong: if_cong)
qed

lemma next_rw_inv:
  "server_inv content b w \<Longrightarrow> sync_ok sp sa \<Longrightarrow> server_inv content b (next_rw b sp sa mem_ok net w)"
  unfolding next_rw_def by (intro recovery_flash_inv) (auto intro: rx_server_inv)

text \<open>No reboot is under way, except after a successful flash, as long as none is asked for.\<close>

definition calm :: "'d rworld \<Rightarrow> bool" where
  "calm w \<longleftrightarrow> \<not> reboot_post_pending w \<and> (rebooting w \<longrightarrow> prog_phase w = 3) \<and> no_asks w"

lemma rx_calm:
  assumes "server_inv content b w" "calm w"
  shows "calm (net_lwip_rx b w)"
proof -
  have "\<not> reboot_post_pending (net_lwip_rx b w) \<and> rebooting (net_lwip_rx b w) = rebooting w \<and> no_asks (net_lwip_rx b w)"
    using rb_rx [OF assms(1)] no_asks_tl [of w] assms(2) by (auto simp: calm_def)
  moreover have "prog_phase (net_lwip_rx b w) = 3" if "rebooting w"
    using rx_kept [OF assms(1)] that assms(2) by (simp add: calm_def kept_def)
  ultimately show ?thesis by (simp add: calm_def)
qed

lemma next_rw_calm:
  assumes "server_inv content b w" "calm w" "sync_ok sp sa"
  shows "calm (next_rw b sp sa mem_ok net w)"
proof -
  let ?w = "if net then net_lwip_rx b w else w"
  have i: "server_inv content b ?w" "calm ?w" using assms(1,2) rx_server_inv rx_calm by auto
  show ?thesis
  proof (cases "flash_request ?w")
    case True
    have ci: "conns_inv b (conns (ext ?w)) ?w" using i(1) by (simp add: server_inv_def http_inv_def)
    have "\<not> rebooting ?w" using conns_invD(5) [OF ci True] i(2) by (auto simp: calm_def)
    moreover have "False \<or> no_asks ?w" using i(2) by (simp add: calm_def)
    ultimately show ?thesis using recovery_flash_outcome [OF i(1) True _ _ assms(3), of False mem_ok]
      unfolding next_rw_def calm_def armed_def recovery_busy_def by blast
  qed (use i(2) in \<open>simp add: next_rw_def recovery_flash_def\<close>)
qed

lemma loop_invs:
  assumes "server_inv content b (rw s)" "sync_ok sp sa" "recovery_loop b sp sa rdm use inputs s = (e, s')"
  shows "server_inv content b (rw s') \<and> (calm (rw s) \<longrightarrow> calm (rw s')) \<and>
    (e = Some BoardReset \<longrightarrow> reboot_request (rw s')) \<and> (e = Some AbortByUser \<longrightarrow> (\<exists>i\<in>set inputs. key i = Some 3))"
  using assms
proof (induction inputs arbitrary: s)
  case (Cons i "is")
  obtain e1 s1 where s1: "recovery_iteration b sp sa rdm use i s = (e1, s1)" by (rule prod.exhaust)
  note it = iteration_rw [OF s1]
  have n: "server_inv content b (rw s1)" "calm (rw s) \<longrightarrow> calm (rw s1)"
    using it Cons.prems(1) next_rw_inv [OF Cons.prems(1,2)] next_rw_calm [OF Cons.prems(1) _ Cons.prems(2)] by (cases "key i = Some 3"; simp)+
  show ?case
  proof (cases e1)
    case None
    then have "recovery_loop b sp sa rdm use is s1 = (e, s')" using Cons.prems(3) s1 by simp
    from Cons.IH [OF n(1) Cons.prems(2) this] show ?thesis using n(2) by auto
  next
    case (Some x)
    then have "e = Some x" "s' = s1" using Cons.prems(3) s1 by simp_all
    then show ?thesis using Some n it by (cases "key i = Some 3") (auto split: if_splits)
  qed
qed simp

text \<open>
  C12: the main loop keeps the server invariant over any number of iterations, any packets and any
  keys. It resets the board only after a successful flash or when a request for /reboot was among
  the packets, and it returns only when Ctrl-C was pressed.
\<close>

theorem recovery_loop_sound:
  assumes "server_inv content b (rw s)" and "sync_ok sync_part sync_all"
    and "\<not> reboot_post_pending (rw s)" and "\<not> rebooting (rw s)"
    and "recovery_loop b sync_part sync_all rdm use_leds inputs s = (e, s')"
  shows "server_inv content b (rw s') \<and>
    (e = Some BoardReset \<longrightarrow> prog_phase (rw s') = 3 \<or> (\<exists>evs\<in>set (inbox (ext (rw s))). \<exists>c n body. PostRequest c ''/reboot'' n body \<in> set evs)) \<and>
    (e = Some AbortByUser \<longrightarrow> (\<exists>i\<in>set inputs. key i = Some 3))"
proof -
  note r = loop_invs [OF assms(1,2,5)]
  have "prog_phase (rw s') = 3 \<or> (\<exists>evs\<in>set (inbox (ext (rw s))). \<exists>c n body. PostRequest c ''/reboot'' n body \<in> set evs)"
    if "e = Some BoardReset"
  proof (cases "no_asks (rw s)")
    case True
    then have "calm (rw s')" using r assms(3,4) by (auto simp: calm_def)
    then show ?thesis using r that by (simp add: calm_def rebooting_def)
  qed (auto simp: no_asks_def asks_reboot_def)
  then show ?thesis using r by blast
qed

section \<open>After a successful flash\<close>

lemma rx_armed:
  assumes "server_inv content b w" "armed w"
  shows "armed (net_lwip_rx b w) \<and> content (dev (net_lwip_rx b w)) = content (dev w) \<and>
    inbox (ext (net_lwip_rx b w)) = tl (inbox (ext w))"
proof -
  have p: "0 < prog_phase w" using assms(2) by (simp add: armed_def)
  have "\<not> reboot_post_pending w" using assms(2) by (simp add: armed_def)
  from rb_rx [OF assms(1) this] p
  have r: "\<not> reboot_post_pending (net_lwip_rx b w)" "rebooting (net_lwip_rx b w) = rebooting w"
    "inbox (ext (net_lwip_rx b w)) = tl (inbox (ext w))" by simp_all
  have k: "prog_phase (net_lwip_rx b w) = prog_phase w" "content (dev (net_lwip_rx b w)) = content (dev w)"
    using rx_kept [OF assms(1) p] by (simp_all add: kept_def)
  have "\<not> post_ok (net_lwip_rx b w) \<and> \<not> flash_request (net_lwip_rx b w)"
    by (rule fs.inv_idle [OF rx_server_inv [OF assms(1)]]) (use k p in simp)
  then show ?thesis using r k assms(2) by (simp add: armed_def)
qed

lemma timer_event: "rebooting w \<Longrightarrow> reboot_request (handle_event b RebootTimer w)"
  by (auto simp: rebooting_def handle_event_def reboot_delay_cb_def upd_ext_def)

lemma request_stays:
  assumes "server_inv content b w" "armed w" "reboot_request w"
  shows "reboot_request (handle_event b ev w)"
proof -
  have b: "recovery_busy w" "\<not> reboot_post_pending w" using assms(2) by (simp_all add: recovery_busy_def armed_def)
  have "snd (snd (rb (handle_event b ev w))) = snd (snd (rb w)) \<or> ev = RebootTimer"
  proof (cases ev)
    case (PostRequest c uri n body)
    then show ?thesis using rb_request [of uri w b c n body] b(1)
      by (auto simp: handle_event_def case_prod_beta Let_def split: option.splits)
  next
    case (PostData c qs)
    then show ?thesis by (auto simp: handle_event_def case_prod_beta Let_def rb_rxpbuf split: option.splits)
  next
    case (FileOpen c mem about name)
    obtain f w1 where o1: "fs_open_custom b mem about name w = (f, w1)" by (cases "fs_open_custom b mem about name w")
    obtain u where "w1 = w\<lparr>usecount := u\<rparr>" using fs_open_frame [OF mtds_ok [OF assms(1)] o1] by blast
    then show ?thesis by (auto simp: handle_event_def FileOpen o1 rb_def upd_ext_def split: option.splits)
  next
    case (FileRead c n)
    then show ?thesis by (auto simp: handle_event_def rb_def upd_ext_def case_prod_beta Let_def split: option.splits)
  next
    case (Tick t)
    then show ?thesis by (simp add: handle_event_def rb_def upd_ext_def)
  qed (use b in \<open>auto simp: handle_event_def rb_close split: option.splits\<close>)
  then show ?thesis using assms(3) timer_event [of w b] by (auto simp: rb_def rebooting_def)
qed

lemma armed_event:
  assumes "server_inv content b w" "armed w"
  shows "armed (handle_event b ev w)"
proof -
  have p: "0 < prog_phase w" "\<not> reboot_post_pending w" using assms(2) by (simp_all add: armed_def)
  have "recovery_busy w" using p(1) by (simp add: recovery_busy_def)
  then have r: "\<not> reboot_post_pending (handle_event b ev w)" "rebooting (handle_event b ev w) = rebooting w"
    using rb_event [OF p(2) _ mtds_ok [OF assms(1)], of ev] by simp_all
  have k: "prog_phase (handle_event b ev w) = prog_phase w" using handle_event_kept [OF assms(1) p(1)] by (simp add: kept_def)
  have "\<not> post_ok (handle_event b ev w) \<and> \<not> flash_request (handle_event b ev w)"
    by (rule fs.inv_idle [OF handle_event_server_inv [OF assms(1)]]) (use k p in simp)
  then show ?thesis using r k assms(2) by (simp add: armed_def)
qed

lemma events_reset:
  "server_inv content b w \<Longrightarrow> armed w \<Longrightarrow> RebootTimer \<in> set evs \<or> reboot_request w \<Longrightarrow> reboot_request (fold (handle_event b) evs w)"
proof (induction evs arbitrary: w)
  case (Cons ev evs)
  have "rebooting w" using Cons.prems(2) by (simp add: armed_def)
  then have "RebootTimer \<in> set evs \<or> reboot_request (handle_event b ev w)"
    using Cons.prems(3) request_stays [OF Cons.prems(1,2), of ev] timer_event [of w b] by auto
  then show ?case using Cons.IH [OF handle_event_server_inv [OF Cons.prems(1)] armed_event [OF Cons.prems(1,2)]] by simp
qed simp

lemma rx_reset:
  assumes "server_inv content b w" "armed w" "inbox (ext w) = evs # later" "RebootTimer \<in> set evs"
  shows "reboot_request (net_lwip_rx b w)"
proof -
  let ?w = "upd_ext (\<lambda>n. n\<lparr>inbox := later\<rparr>) w"
  have "server_inv content b ?w" using assms(1) by (simp add: server_inv_inbox)
  moreover have "armed ?w" using assms(2) by (simp add: armed_def rebooting_def upd_ext_def)
  ultimately show ?thesis using events_reset [of content b ?w evs] assms(3,4) by (simp add: net_lwip_rx_def)
qed

text \<open>
  C4: after a successful flash the board resets: until the reboot timer fires no packet starts
  another upload or flash operation and no byte of the flash changes, and in the iteration in which
  the timer fires the loop ends with the reset.
\<close>

theorem flashed_board_resets:
  assumes "server_inv content b (rw s)" and "armed (rw s)" and "recovery_net_count s \<noteq> 0"
    and "k < length inputs" and "\<forall>i\<in>set inputs. key i \<noteq> Some 3"
    and "k < length (inbox (ext (rw s)))" and "RebootTimer \<in> set (inbox (ext (rw s)) ! k)"
  shows "\<exists>s'. recovery_loop b sync_part sync_all rdm use_leds inputs s = (Some BoardReset, s') \<and>
    prog_phase (rw s') = 3 \<and> content (dev (rw s')) = content (dev (rw s))"
  using assms
proof (induction inputs arbitrary: s k)
  case (Cons i "is")
  obtain e1 s1 where s1: "recovery_iteration b sync_part sync_all rdm use_leds i s = (e1, s1)" by (rule prod.exhaust)
  note it = iteration_rw [OF s1]
  note r = rx_armed [OF Cons.prems(1,2)]
  have n: "rw s1 = net_lwip_rx b (rw s)"
    using it Cons.prems(3,5) r by (simp add: next_rw_def recovery_flash_def armed_def)
  have e1: "e1 = (if reboot_request (rw s1) then Some BoardReset else None)" "recovery_net_count s1 = recovery_net_count s"
    using it Cons.prems(5) by simp_all
  have a: "armed (rw s1)" "content (dev (rw s1)) = content (dev (rw s))" "inbox (ext (rw s1)) = tl (inbox (ext (rw s)))"
    using r n by simp_all
  obtain evs later where q: "inbox (ext (rw s)) = evs # later" using Cons.prems(6) by (cases "inbox (ext (rw s))") auto
  show ?case
  proof (cases "reboot_request (rw s1)")
    case True
    then show ?thesis using s1 e1(1) a by (intro exI [of _ s1]) (simp add: armed_def)
  next
    case False
    have k: "k \<noteq> 0" using False rx_reset [OF Cons.prems(1,2) q] Cons.prems(7) n q by (cases k) auto
    then obtain j where j: "k = Suc j" by (cases k) auto
    have "\<exists>s'. recovery_loop b sync_part sync_all rdm use_leds is s1 = (Some BoardReset, s') \<and>
        prog_phase (rw s') = 3 \<and> content (dev (rw s')) = content (dev (rw s1))"
      by (rule Cons.IH [of s1 j]) (use Cons.prems rx_server_inv [OF Cons.prems(1)] n a e1(2) q j in auto)
    then show ?thesis using s1 e1(1) False a(2) by auto
  qed
qed simp


text \<open>A running server for the concrete instances, and an iteration in which no key is pressed.\<close>

definition sample_loop_in :: "int option \<Rightarrow> loop_in" where
  "sample_loop_in k = \<lparr>key = k, buffer_ok = True, rx_times = [], flash_times = [], status_time = 0, link_time = 0, link_time2 = 0\<rparr>"

definition sample_recovery :: "(int \<Rightarrow> u8) rworld \<Rightarrow> (int \<Rightarrow> u8, unit) recovery" where
  "sample_recovery w =
    \<lparr>rw = w,
     lwip = \<lparr>hooks = \<lparr>recovery_dhcp_hook = False, recovery_dhcp_hook_arg = None, recovery_poll_hook = False, recovery_route_hook = False\<rparr>,
             netif_list = [], netif_default = None, net_lwip_eth_started = 0, eth_running = False\<rparr>,
     net0 = \<lparr>ctx_udev = None, ctx_netif = None,
             ctx_dhcp = \<lparr>server_ip = ip4_any, client_ip = ip4_any, netmask = ip4_any, router = ip4_any, broadcast = ip4_any, dns = ip4_any, has_pcb = False\<rparr>\<rparr>,
     recovery_net_count = 1, rx_srv = False, status_leds = zero_status_led_ctrl, link_leds = zero_led_ctrl,
     led_state = initial_led_globals, gpio_regs = (\<lambda>_. 0), mdio_bus = ()\<rparr>"

definition sample_flashed :: "(int \<Rightarrow> u8) rworld" where
  "sample_flashed = upd_ext (\<lambda>n. n\<lparr>reboot_timer := True, inbox := [[Accepted 1], [RebootTimer]]\<rparr>)
     ((server_start Map.empty (\<lambda>_. 0) (\<lambda>_. 0xff))\<lparr>prog_phase := 3\<rparr>)"

lemma sample_flashed_inv: "server_inv (\<lambda>d. d) sample_board sample_flashed"
  by (simp add: server_inv_def ram_ok_def sample_board_def sample_part_ok http_inv_def conns_inv_def files_inv_def
      sample_flashed_def upd_ext_def server_start_def initial_world_def)

theorem flashed_board_resets_witness:
  "\<exists>s'. recovery_loop sample_board (\<lambda>_ w. (0, w)) (\<lambda>w. (0, w)) (\<lambda>m _ _. (0, m)) False [sample_loop_in None, sample_loop_in (Some 13)]
      (sample_recovery sample_flashed) = (Some BoardReset, s') \<and> prog_phase (rw s') = 3 \<and> dev (rw s') = (\<lambda>_. 0xff)"
proof -
  let ?s = "sample_recovery sample_flashed"
  have s: "rw ?s = sample_flashed" "recovery_net_count ?s \<noteq> 0" by (simp_all add: sample_recovery_def)
  have i: "server_inv (\<lambda>d. d) sample_board (rw ?s)" using sample_flashed_inv s(1) by simp
  have a: "armed (rw ?s)" "inbox (ext (rw ?s)) = [[Accepted 1], [RebootTimer]]" "dev (rw ?s) = (\<lambda>_. 0xff)"
    unfolding s(1) by (simp_all add: sample_flashed_def armed_def rebooting_def upd_ext_def server_start_def initial_world_def)
  show ?thesis
    using flashed_board_resets [OF i a(1) s(2), of 1 "[sample_loop_in None, sample_loop_in (Some 13)]" "\<lambda>_ w. (0, w)" "\<lambda>w. (0, w)" "\<lambda>m _ _. (0, m)" False]
      a(2,3) by (simp add: sample_loop_in_def)
qed

theorem recovery_loop_sound_witness:
  "\<exists>s'. recovery_loop sample_board (\<lambda>_ w. (0, w)) (\<lambda>w. (0, w)) (\<lambda>m _ _. (0, m)) False [sample_loop_in None, sample_loop_in (Some 3)]
      (sample_recovery (server_start Map.empty (\<lambda>_. 0) (\<lambda>_. 0xff))) = (Some AbortByUser, s') \<and> server_inv (\<lambda>d. d) sample_board (rw s')"
proof -
  let ?s = "sample_recovery (server_start Map.empty (\<lambda>_. 0) (\<lambda>_. 0xff))"
  obtain e s' where r: "recovery_loop sample_board (\<lambda>_ w. (0, w)) (\<lambda>w. (0, w)) (\<lambda>m _ _. (0, m)) False
      [sample_loop_in None, sample_loop_in (Some 3)] ?s = (e, s')" by (rule prod.exhaust)
  have i: "server_inv (\<lambda>d. d) sample_board (rw ?s)" "sync_ok (\<lambda>_ w. (0, w)) (\<lambda>w. (0, w))"
      "\<not> reboot_post_pending (rw ?s)" "\<not> rebooting (rw ?s)"
    by (simp_all add: server_inv_def ram_ok_def sample_board_def sample_part_ok http_inv_def conns_inv_def files_inv_def sync_ok_def
        sample_recovery_def rebooting_def server_start_def initial_world_def)
  have "e = Some AbortByUser"
    using r by (auto simp: recovery_iteration_def sample_loop_in_def Let_def recovery_rx_def recovery_poll_leds_def recovery_flash_def
        sample_recovery_def net_lwip_rx_def server_start_def initial_world_def case_prod_beta)
  then show ?thesis using recovery_loop_sound [OF i r] r by simp
qed

section \<open>Addresses of the recovery network\<close>

definition env_addr :: "envs \<Rightarrow> string \<Rightarrow> ip4" where
  "env_addr e v = (case e v of None \<Rightarrow> ip4_any | Some s \<Rightarrow> (case ip4addr_aton s of Some ip \<Rightarrow> ip | None \<Rightarrow> ip4_any))"

lemma udev0_info: "get_udev_ipv4_info 0 e = Some (env_addr e ''ipaddr'', env_addr e ''netmask'', env_addr e ''gatewayip'')"
  by (simp add: get_udev_ipv4_info_def env_addr_def)

lemma static_addrs: "ip4addr_aton ''192.168.0.1'' = Some (192, 168, 0, 1)" "ip4addr_aton ''255.255.255.0'' = Some (255, 255, 255, 0)"
    "ip4addr_aton ''0.0.0.0'' = Some (0, 0, 0, 0)"
  by code_simp+

lemma net_setup_spec:
  assumes "recovery_net_setup bi s = (r, s')"
  shows "rw s' = rw s \<and> (r \<noteq> 1 \<longrightarrow> r = 0 \<and> recovery_net_count s' = 0 \<and> lwip s' = lwip s) \<and>
    (r = 1 \<longrightarrow> (\<exists>n. recovery_net_count s' = 1 \<and> ctx_netif (net0 s') = Some n \<and> netif_num bi = Some (netif_idx n) \<and>
       lwip s' = (lwip s)\<lparr>netif_list := n # netif_list (lwip s), netif_default := Some (netif_idx n)\<rparr> \<and>
       ctx_dhcp (net0 s') = snd (recovery_dhcp_server_init (pcb_mem bi) (pcb_bound bi) (netif_ip n) (netif_mask n) (netif_gw n)) \<and>
       (if env_addr (env (rw s)) ''ipaddr'' = ip4_any \<or> env_addr (env (rw s)) ''netmask'' = ip4_any
        then (netif_ip n, netif_mask n, netif_gw n) = ((192, 168, 0, 1), (255, 255, 255, 0), ip4_any)
        else (netif_ip n, netif_mask n, netif_gw n) =
          (env_addr (env (rw s)) ''ipaddr'', env_addr (env (rw s)) ''netmask'', env_addr (env (rw s)) ''gatewayip''))))"
proof (cases "recovery_get_1g_eth (eth_by_seq bi)")
  case (Inr dv)
  have dv: "dv = Some 0" using Inr by (auto simp: recovery_get_1g_eth_def recovery_netdev_is_1g_def split: sum.splits if_splits)
  obtain nif l where m: "net_lwip_new_netif_multi dv (dev_start_ret bi) (netif_mem bi) (netif_num bi) (env (rw s)) (lwip s) = (nif, l)"
    by (rule prod.exhaust)
  note sp = netif_multi_spec [OF m]
  show ?thesis
  proof (cases nif)
    case None
    then show ?thesis using assms Inr m sp by (auto simp: recovery_net_setup_def)
  next
    case (Some n)
    have n: "l = (lwip s)\<lparr>netif_list := n # netif_list (lwip s)\<rparr>" "netif_num bi = Some (netif_idx n)"
      "netif_ip n = env_addr (env (rw s)) ''ipaddr''" "netif_mask n = env_addr (env (rw s)) ''netmask''"
      "netif_gw n = env_addr (env (rw s)) ''gatewayip''"
      using sp Some dv by (auto simp: udev0_info)
    define n' where "n' = (if netif_ip n = ip4_any \<or> netif_mask n = ip4_any
      then n\<lparr>netif_ip := (192, 168, 0, 1), netif_mask := (255, 255, 255, 0), netif_gw := (0, 0, 0, 0)\<rparr> else n)"
    have "recovery_net_setup bi s = (1, s\<lparr>lwip := l\<lparr>netif_list := n' # tl (netif_list l), netif_default := Some (netif_idx n')\<rparr>,
        net0 := \<lparr>ctx_udev = dv, ctx_netif = Some n',
          ctx_dhcp = snd (recovery_dhcp_server_init (pcb_mem bi) (pcb_bound bi) (netif_ip n') (netif_mask n') (netif_gw n'))\<rparr>,
        recovery_net_count := 1\<rparr>)"
      unfolding recovery_net_setup_def Inr sum.case m prod.case Let_def Some option.case static_addrs option.sel n'_def [symmetric]
      by (simp add: case_prod_beta)
    moreover have "netif_idx n' = netif_idx n" by (simp add: n'_def)
    ultimately show ?thesis using assms n by (auto simp: n'_def ip4_any_def)
  qed
qed (use assms in \<open>auto simp: recovery_net_setup_def\<close>)

lemma dhcp_defaults:
  "client_ip (snd (recovery_dhcp_server_init p q (192, 168, 0, 1) (255, 255, 255, 0) gw)) = (192, 168, 0, 2)"
  by (simp add: recovery_dhcp_server_init_def Let_def recovery_dhcp_scalar_to_ip4_def RECOVERY_DHCP_CLIENT_HOST_def)

lemma dhcp_init_ip:
  "server_ip (snd (recovery_dhcp_server_init p q ip nm gw)) = ip" "netmask (snd (recovery_dhcp_server_init p q ip nm gw)) = nm"
  by (simp_all add: recovery_dhcp_server_init_def Let_def)

text \<open>
  C22: the recovery interface always gets a non-zero address and mask, and the DHCP server announces
  them. Addresses from the environment are used as given; with no (valid) address, or with the
  defaults, the server is 192.168.0.1/24 and the client is offered 192.168.0.2, as documented.
\<close>

theorem recovery_net_addresses:
  assumes "recovery_net_setup bi s = (1, s')"
  shows "\<exists>n. ctx_netif (net0 s') = Some n \<and> netif_list (lwip s') = n # netif_list (lwip s) \<and>
    netif_ip n \<noteq> ip4_any \<and> netif_mask n \<noteq> ip4_any \<and>
    server_ip (ctx_dhcp (net0 s')) = netif_ip n \<and> netmask (ctx_dhcp (net0 s')) = netif_mask n \<and>
    (\<forall>ip nm. env (rw s) ''ipaddr'' = Some (ip4_string ip) \<and> env (rw s) ''netmask'' = Some (ip4_string nm) \<and> ip \<noteq> ip4_any \<and> nm \<noteq> ip4_any \<longrightarrow>
       netif_ip n = ip \<and> netif_mask n = nm) \<and>
    ((case env (rw s) ''ipaddr'' of None \<Rightarrow> True | Some v \<Rightarrow> ip4addr_aton v = None) \<or> env (rw s) ''ipaddr'' = Some ''192.168.0.1'' \<and>
       env (rw s) ''netmask'' = Some ''255.255.255.0'' \<longrightarrow>
       netif_ip n = (192, 168, 0, 1) \<and> netif_mask n = (255, 255, 255, 0) \<and> client_ip (ctx_dhcp (net0 s')) = (192, 168, 0, 2))"
proof -
  let ?e = "env (rw s)"
  obtain n where n: "ctx_netif (net0 s') = Some n" "lwip s' = (lwip s)\<lparr>netif_list := n # netif_list (lwip s), netif_default := Some (netif_idx n)\<rparr>"
      "ctx_dhcp (net0 s') = snd (recovery_dhcp_server_init (pcb_mem bi) (pcb_bound bi) (netif_ip n) (netif_mask n) (netif_gw n))"
      "if env_addr ?e ''ipaddr'' = ip4_any \<or> env_addr ?e ''netmask'' = ip4_any
        then (netif_ip n, netif_mask n, netif_gw n) = ((192, 168, 0, 1), (255, 255, 255, 0), ip4_any)
        else (netif_ip n, netif_mask n, netif_gw n) = (env_addr ?e ''ipaddr'', env_addr ?e ''netmask'', env_addr ?e ''gatewayip'')"
    using net_setup_spec [OF assms] by auto
  have t: "netif_ip n \<noteq> ip4_any \<and> netif_mask n \<noteq> ip4_any" using n(4) by (auto simp: ip4_any_def split: if_splits)
  have s: "netif_ip n = ip \<and> netif_mask n = nm"
    if "?e ''ipaddr'' = Some (ip4_string ip)" "?e ''netmask'' = Some (ip4_string nm)" "ip \<noteq> ip4_any" "nm \<noteq> ip4_any" for ip nm
    using n(4) that aton_string by (simp add: env_addr_def)
  have d: "netif_ip n = (192, 168, 0, 1) \<and> netif_mask n = (255, 255, 255, 0)"
    if "(case ?e ''ipaddr'' of None \<Rightarrow> True | Some v \<Rightarrow> ip4addr_aton v = None) \<or> ?e ''ipaddr'' = Some ''192.168.0.1'' \<and> ?e ''netmask'' = Some ''255.255.255.0''"
    using n(4) that by (auto simp: env_addr_def static_addrs ip4_any_def split: option.splits if_splits)
  show ?thesis using n(1,2) t s d dhcp_defaults dhcp_init_ip by (intro exI [of _ n]) (auto simp: n(3))
qed

definition sample_boot :: boot_in where
  "sample_boot =
    \<lparr>dtree = \<lparr>of_path = (\<lambda>_. None), of_string = (\<lambda>_ _. None), of_subnodes = (\<lambda>_. []), of_phandle_args = (\<lambda>_ _ _ _. Inl (- ENOENT)),
       of_compatible = (\<lambda>_. False)\<rparr>, mdio_probe = (\<lambda>_. 0), eth_by_seq = (\<lambda>n. Inr (Some n)), env_result = (\<lambda>_. 0), eth_init_ret = 0, dev_start_ret = 0,
     netif_mem = True, netif_num = Some 1, pcb_mem = True, pcb_bound = True, boot_clock = 0, open_pcbs = []\<rparr>"

lemma sample_net_setup: "fst (recovery_net_setup sample_boot s) = 1"
  by (simp add: recovery_net_setup_def sample_boot_def recovery_get_1g_eth_def recovery_netdev_is_1g_def net_lwip_new_netif_multi_def
      new_netif_core_def udev0_info Let_def case_prod_beta)

theorem recovery_net_addresses_witness:
  "\<exists>s'. recovery_net_setup sample_boot (sample_recovery (server_start Map.empty (\<lambda>_. 0) (\<lambda>_. 0xff))) = (1, s') \<and>
     client_ip (ctx_dhcp (net0 s')) = (192, 168, 0, 2)"
proof -
  let ?s = "sample_recovery (server_start Map.empty (\<lambda>_. 0) (\<lambda>_. 0xff))"
  obtain r s' where n: "recovery_net_setup sample_boot ?s = (r, s')" by (rule prod.exhaust)
  have "r = 1" using n sample_net_setup [of ?s] by simp
  moreover have "env (rw ?s) ''ipaddr'' = None" by (simp add: sample_recovery_def server_start_def initial_world_def)
  ultimately show ?thesis using recovery_net_addresses [of sample_boot ?s s'] n by auto
qed

section \<open>Every exit gives back what was taken\<close>

lemma leds_off_keeps [simp]:
  "rw (recovery_leds_off bi s) = rw s" "lwip (recovery_leds_off bi s) = lwip s"
  "recovery_net_count (recovery_leds_off bi s) = recovery_net_count s"
  by (simp_all add: recovery_leds_off_def Let_def case_prod_beta)

lemma iteration_net:
  "recovery_iteration b sp sa rdm use i s = (e, s') \<Longrightarrow> lwip s' = lwip s \<and> net0 s' = net0 s \<and> recovery_net_count s' = recovery_net_count s"
proof -
  assume a: "recovery_iteration b sp sa rdm use i s = (e, s')"
  have p: "net0 (status_polls ts s) = net0 s" for ts and s :: "('a, 'b) recovery" by (simp add: status_polls_def case_prod_beta)
  have r: "lwip (recovery_rx b i s) = lwip s \<and> net0 (recovery_rx b i s) = net0 s \<and> recovery_net_count (recovery_rx b i s) = recovery_net_count s"
    for s :: "('a, 'b) recovery" by (simp add: recovery_rx_def Let_def p)
  have l: "lwip (recovery_poll_leds rdm use i s) = lwip s \<and> net0 (recovery_poll_leds rdm use i s) = net0 s \<and>
      recovery_net_count (recovery_poll_leds rdm use i s) = recovery_net_count s"
    for s :: "('a, 'b) recovery" by (simp add: recovery_poll_leds_def Let_def case_prod_beta p)
  show ?thesis using a r l p by (auto simp: recovery_iteration_def Let_def split: if_splits)
qed

lemma loop_net:
  "recovery_loop b sp sa rdm use inputs s = (e, s') \<Longrightarrow> lwip s' = lwip s \<and> net0 s' = net0 s \<and> recovery_net_count s' = recovery_net_count s"
proof (induction inputs arbitrary: s)
  case (Cons i "is")
  obtain e1 s1 where s1: "recovery_iteration b sp sa rdm use i s = (e1, s1)" by (rule prod.exhaust)
  show ?case using Cons.prems Cons.IH [of s1] iteration_net [OF s1] s1 by (cases e1) auto
qed simp

lemma cleanup_env: "env (recovery_lwip_cleanup b cs w) = env w"
proof -
  have h: "env (http_close c hs r w) = env w" for c hs r and w :: "'a rworld"
  proof -
    have f: "env (http_state_free c w) = env w" for w :: "'a rworld"
      by (simp add: http_state_free_def fs_close_custom_def recovery_close_mtd_backup_def put_mtd_device_def upd_ext_def Let_def split: option.split)
    have p: "env (httpd_post_finished c w) = env w" "env (httpd_post_response_complete r w) = env w" for w :: "'a rworld"
      by (simp_all add: httpd_post_finished_def httpd_post_response_complete_def respond_def upd_ext_def)
    show ?thesis
      by (simp add: http_close_def http_post_response_notify_def http_post_connection_closed_def Let_def f p set_hs_def upd_ext_def)
  qed
  have "env (handle_event b (Closed c e) w) = env w" for c e and w :: "'a rworld"
    by (simp add: handle_event_def h split: option.split)
  then have "env (recovery_abort_tcp_list b cs w) = env w" for w
    unfolding recovery_abort_tcp_list_def by (induction cs arbitrary: w) simp_all
  then show ?thesis by (simp add: recovery_lwip_cleanup_def)
qed

text \<open>The active Ethernet device is put back.\<close>

lemma select_restore:
  assumes "recovery_select_1g_eth by_seq outcome e = (r, save, e1)" "outcome ''ethact'' = 0"
    "\<And>v. e ''ethact'' = Some v \<Longrightarrow> length v < 64"
  shows "(r \<noteq> 0 \<longrightarrow> e1 = e) \<and> recovery_restore_ethact outcome save e2 ''ethact'' = e ''ethact''"
  using assms by (auto simp: recovery_select_1g_eth_def recovery_restore_ethact_def env_set_def strlcpy_def Let_def
      split: option.splits sum.splits)

lemma prepare_ethact: "recovery_prepare_static_network outcome e ''ethact'' = e ''ethact''"
  by (simp add: recovery_prepare_static_network_def env_set_def Let_def)

lemma shutdown_net:
  assumes "netif_list (lwip s) = n # ns" "ctx_netif (net0 s) = Some n" "netif_idx n \<notin> netif_idx ` set ns" "recovery_net_count s = 1"
  shows "netif_list (lwip (recovery_shutdown b bi save s)) = ns \<and>
    hooks (lwip (recovery_shutdown b bi save s)) =
      \<lparr>recovery_dhcp_hook = False, recovery_dhcp_hook_arg = None, recovery_poll_hook = False, recovery_route_hook = False\<rparr> \<and>
    net_lwip_eth_started (lwip (recovery_shutdown b bi save s)) = net_lwip_eth_started (net_lwip_eth_stop (lwip s)) \<and>
    recovery_net_count (recovery_shutdown b bi save s) = 0 \<and>
    env (rw (recovery_shutdown b bi save s)) ''ethact'' = recovery_restore_ethact (env_result bi) save (env (rw s)) ''ethact''"
proof -
  have f: "filter (\<lambda>m. netif_idx m \<noteq> netif_idx n) ns = ns" using assms(3) by (simp add: filter_id_conv image_iff) metis
  have c: "env (recovery_cancel_timeouts w) = env w" for w :: "'a rworld" by (simp add: recovery_cancel_timeouts_def upd_ext_def)
  show ?thesis using assms f
    by (simp add: recovery_shutdown_def Let_def recovery_net_teardown_def net_lwip_remove_netif_def netif_remove_def
        net_lwip_set_recovery_poll_hook_def net_lwip_set_recovery_route_hook_def net_lwip_set_recovery_dhcp_hook_def
        net_lwip_eth_stop_def cleanup_env c)
qed

definition hooks_off :: lwip_hooks where
  "hooks_off = \<lparr>recovery_dhcp_hook = False, recovery_dhcp_hook_arg = None, recovery_poll_hook = False, recovery_route_hook = False\<rparr>"

text \<open>The part after a successful interface set-up.\<close>

lemma serve_balanced:
  assumes ns: "recovery_net_setup bi s = (1, s1)"
    and fresh: "\<And>k. netif_num bi = Some k \<Longrightarrow> k \<notin> netif_idx ` set (netif_list (lwip s))"
    and lp: "recovery_loop b sp sa rdm use inputs (recovery_serve_setup use s1) = (e, s2)"
  shows "netif_list (lwip (recovery_shutdown b bi save s2)) = netif_list (lwip s) \<and>
    hooks (lwip (recovery_shutdown b bi save s2)) = hooks_off \<and>
    net_lwip_eth_started (lwip (recovery_shutdown b bi save s2)) = net_lwip_eth_started (net_lwip_eth_stop (lwip s)) \<and>
    recovery_net_count (recovery_shutdown b bi save s2) = 0 \<and>
    env (rw (recovery_shutdown b bi save s2)) ''ethact'' = recovery_restore_ethact (env_result bi) save (env (rw s2)) ''ethact''"
proof -
  obtain n where n: "recovery_net_count s1 = 1" "ctx_netif (net0 s1) = Some n" "netif_num bi = Some (netif_idx n)"
      "lwip s1 = (lwip s)\<lparr>netif_list := n # netif_list (lwip s), netif_default := Some (netif_idx n)\<rparr>"
    using net_setup_spec [OF ns] by auto
  let ?s = "recovery_serve_setup use s1"
  have s: "netif_list (lwip ?s) = n # netif_list (lwip s)" "net_lwip_eth_started (lwip ?s) = net_lwip_eth_started (lwip s)"
    "ctx_netif (net0 ?s) = Some n" "recovery_net_count ?s = 1"
    using n by (simp_all add: recovery_serve_setup_def Let_def)
  have l: "lwip s2 = lwip ?s" "net0 s2 = net0 ?s" "recovery_net_count s2 = recovery_net_count ?s" using loop_net [OF lp] by auto
  have e: "net_lwip_eth_started (net_lwip_eth_stop (lwip s2)) = net_lwip_eth_started (net_lwip_eth_stop (lwip s))"
    using s(2) l(1) by (simp add: net_lwip_eth_stop_def Let_def)
  show ?thesis
    using shutdown_net [of s2 n "netif_list (lwip s)" b bi save] s l fresh [OF n(3)] e by (simp add: hooks_off_def)
qed

lemma recovery_serve_balanced:
  assumes run: "recovery_serve b sp sa rdm bi inputs use save s = (Returned r, s')"
    and h: "hooks (lwip s) = hooks_off" and st: "0 \<le> net_lwip_eth_started (lwip s)" and c: "recovery_net_count s = 0"
    and fresh: "\<forall>k. netif_num bi = Some k \<longrightarrow> k \<notin> netif_idx ` set (netif_list (lwip s))"
    and re: "\<And>e2. recovery_restore_ethact (env_result bi) save e2 ''ethact'' = v"
  shows "netif_list (lwip s') = netif_list (lwip s) \<and> hooks (lwip s') = hooks_off \<and>
     net_lwip_eth_started (lwip s') = net_lwip_eth_started (lwip s) \<and> recovery_net_count s' = 0 \<and> env (rw s') ''ethact'' = v"
proof -
  obtain r3 l where es: "net_lwip_eth_start (eth_init_ret bi) (lwip s) = (r3, l)" by (rule prod.exhaust)
  let ?s3 = "s\<lparr>lwip := l\<rparr>"
  obtain r4 s4 where ns: "recovery_net_setup bi ?s3 = (r4, s4)" by (rule prod.exhaust)
  obtain x s5 where lp: "recovery_loop b sp sa rdm use inputs (recovery_serve_setup use s4) = (x, s5)" by (rule prod.exhaust)
  let ?s4 = "recovery_leds_off bi (upd_rw (recovery_lwip_cleanup b (open_pcbs bi)) s4)"
  note st = eth_start_stop [OF es st] and sp = net_setup_spec [OF ns]
  consider "r3 < 0" "s' = recovery_leds_off bi (upd_env (recovery_restore_ethact (env_result bi) save) (upd_rw (recovery_lwip_cleanup b (open_pcbs bi)) ?s3))"
    | "0 \<le> r3" "r4 \<le> 0" "s' = upd_env (recovery_restore_ethact (env_result bi) save) (?s4\<lparr>lwip := net_lwip_eth_stop (lwip ?s4)\<rparr>)"
    | "0 \<le> r3" "0 < r4" "s' = recovery_shutdown b bi save s5"
    using run unfolding recovery_serve_def es prod.case Let_def ns lp
    by (auto split: if_splits option.splits loop_exit.splits)
  then show ?thesis
  proof cases
    case 1
    then show ?thesis using st re h c by simp
  next
    case 2
    then have "lwip s4 = l" "recovery_net_count s4 = 0" using sp by auto
    then show ?thesis using 2 st re h by simp
  next
    case 3
    have r4: "r4 = 1" using sp 3(2) by auto
    have f: "\<And>k. netif_num bi = Some k \<Longrightarrow> k \<notin> netif_idx ` set (netif_list (lwip ?s3))" using fresh st by simp
    show ?thesis using serve_balanced [OF ns [unfolded r4] f lp, of save] 3(1,3) st re by simp
  qed
qed



end
