(* ===== verification/Crc.thy ===== *)
theory Crc
  imports Prelude
begin

text \<open>
  \<^verbatim>\<open>lib/crc32.c\<close> on a little-endian machine: the table of 256 words, the code that makes it, and the
  word-at-a-time routine \<^verbatim>\<open>crc32\<close> that checks the environment partition. The lemmas show that the
  listed table is the one the polynomial gives and that the routine, for a buffer at any alignment,
  computes the bit-serial CRC-32.
\<close>

section \<open>The routine\<close>

text \<open>The table, as the source lists it.\<close>

definition crc_table :: "u32 list" where
  "crc_table =
    [0x00000000, 0x77073096, 0xee0e612c, 0x990951ba, 0x076dc419, 0x706af48f, 0xe963a535, 0x9e6495a3,
     0x0edb8832, 0x79dcb8a4, 0xe0d5e91e, 0x97d2d988, 0x09b64c2b, 0x7eb17cbd, 0xe7b82d07, 0x90bf1d91,
     0x1db71064, 0x6ab020f2, 0xf3b97148, 0x84be41de, 0x1adad47d, 0x6ddde4eb, 0xf4d4b551, 0x83d385c7,
     0x136c9856, 0x646ba8c0, 0xfd62f97a, 0x8a65c9ec, 0x14015c4f, 0x63066cd9, 0xfa0f3d63, 0x8d080df5,
     0x3b6e20c8, 0x4c69105e, 0xd56041e4, 0xa2677172, 0x3c03e4d1, 0x4b04d447, 0xd20d85fd, 0xa50ab56b,
     0x35b5a8fa, 0x42b2986c, 0xdbbbc9d6, 0xacbcf940, 0x32d86ce3, 0x45df5c75, 0xdcd60dcf, 0xabd13d59,
     0x26d930ac, 0x51de003a, 0xc8d75180, 0xbfd06116, 0x21b4f4b5, 0x56b3c423, 0xcfba9599, 0xb8bda50f,
     0x2802b89e, 0x5f058808, 0xc60cd9b2, 0xb10be924, 0x2f6f7c87, 0x58684c11, 0xc1611dab, 0xb6662d3d,
     0x76dc4190, 0x01db7106, 0x98d220bc, 0xefd5102a, 0x71b18589, 0x06b6b51f, 0x9fbfe4a5, 0xe8b8d433,
     0x7807c9a2, 0x0f00f934, 0x9609a88e, 0xe10e9818, 0x7f6a0dbb, 0x086d3d2d, 0x91646c97, 0xe6635c01,
     0x6b6b51f4, 0x1c6c6162, 0x856530d8, 0xf262004e, 0x6c0695ed, 0x1b01a57b, 0x8208f4c1, 0xf50fc457,
     0x65b0d9c6, 0x12b7e950, 0x8bbeb8ea, 0xfcb9887c, 0x62dd1ddf, 0x15da2d49, 0x8cd37cf3, 0xfbd44c65,
     0x4db26158, 0x3ab551ce, 0xa3bc0074, 0xd4bb30e2, 0x4adfa541, 0x3dd895d7, 0xa4d1c46d, 0xd3d6f4fb,
     0x4369e96a, 0x346ed9fc, 0xad678846, 0xda60b8d0, 0x44042d73, 0x33031de5, 0xaa0a4c5f, 0xdd0d7cc9,
     0x5005713c, 0x270241aa, 0xbe0b1010, 0xc90c2086, 0x5768b525, 0x206f85b3, 0xb966d409, 0xce61e49f,
     0x5edef90e, 0x29d9c998, 0xb0d09822, 0xc7d7a8b4, 0x59b33d17, 0x2eb40d81, 0xb7bd5c3b, 0xc0ba6cad,
     0xedb88320, 0x9abfb3b6, 0x03b6e20c, 0x74b1d29a, 0xead54739, 0x9dd277af, 0x04db2615, 0x73dc1683,
     0xe3630b12, 0x94643b84, 0x0d6d6a3e, 0x7a6a5aa8, 0xe40ecf0b, 0x9309ff9d, 0x0a00ae27, 0x7d079eb1,
     0xf00f9344, 0x8708a3d2, 0x1e01f268, 0x6906c2fe, 0xf762575d, 0x806567cb, 0x196c3671, 0x6e6b06e7,
     0xfed41b76, 0x89d32be0, 0x10da7a5a, 0x67dd4acc, 0xf9b9df6f, 0x8ebeeff9, 0x17b7be43, 0x60b08ed5,
     0xd6d6a3e8, 0xa1d1937e, 0x38d8c2c4, 0x4fdff252, 0xd1bb67f1, 0xa6bc5767, 0x3fb506dd, 0x48b2364b,
     0xd80d2bda, 0xaf0a1b4c, 0x36034af6, 0x41047a60, 0xdf60efc3, 0xa867df55, 0x316e8eef, 0x4669be79,
     0xcb61b38c, 0xbc66831a, 0x256fd2a0, 0x5268e236, 0xcc0c7795, 0xbb0b4703, 0x220216b9, 0x5505262f,
     0xc5ba3bbe, 0xb2bd0b28, 0x2bb45a92, 0x5cb36a04, 0xc2d7ffa7, 0xb5d0cf31, 0x2cd99e8b, 0x5bdeae1d,
     0x9b64c2b0, 0xec63f226, 0x756aa39c, 0x026d930a, 0x9c0906a9, 0xeb0e363f, 0x72076785, 0x05005713,
     0x95bf4a82, 0xe2b87a14, 0x7bb12bae, 0x0cb61b38, 0x92d28e9b, 0xe5d5be0d, 0x7cdcefb7, 0x0bdbdf21,
     0x86d3d2d4, 0xf1d4e242, 0x68ddb3f8, 0x1fda836e, 0x81be16cd, 0xf6b9265b, 0x6fb077e1, 0x18b74777,
     0x88085ae6, 0xff0f6a70, 0x66063bca, 0x11010b5c, 0x8f659eff, 0xf862ae69, 0x616bffd3, 0x166ccf45,
     0xa00ae278, 0xd70dd2ee, 0x4e048354, 0x3903b3c2, 0xa7672661, 0xd06016f7, 0x4969474d, 0x3e6e77db,
     0xaed16a4a, 0xd9d65adc, 0x40df0b66, 0x37d83bf0, 0xa9bcae53, 0xdebb9ec5, 0x47b2cf7f, 0x30b5ffe9,
     0xbdbdf21c, 0xcabac28a, 0x53b39330, 0x24b4a3a6, 0xbad03605, 0xcdd70693, 0x54de5729, 0x23d967bf,
     0xb3667a2e, 0xc4614ab8, 0x5d681b02, 0x2a6f2b94, 0xb40bbe37, 0xc30c8ea1, 0x5a05df1b, 0x2d02ef8d]"

text \<open>How the table is made (the code behind \<^verbatim>\<open>CONFIG_DYNAMIC_CRC_TABLE\<close>).\<close>

definition crc_poly :: u32 where
  "crc_poly = fold (\<lambda>p poly. poly OR push_bit (31 - p) 1) [0, 1, 2, 4, 5, 7, 8, 10, 11, 12, 16, 22, 23, 26] 0"

definition crc_shift :: "u32 \<Rightarrow> u32" where
  "crc_shift c = (if c AND 1 \<noteq> 0 then crc_poly XOR drop_bit 1 c else drop_bit 1 c)"

definition make_crc_table :: "u32 list" where
  "make_crc_table = map (\<lambda>n. (crc_shift ^^ 8) (of_nat n)) [0..<256]"

text \<open>\<^verbatim>\<open>DO_CRC\<close> on a little-endian machine.\<close>

definition DO_CRC :: "u32 \<Rightarrow> u8 \<Rightarrow> u32" where
  "DO_CRC crc x = crc_table ! unat ((crc XOR ucast x) AND 255) XOR drop_bit 8 crc"

text \<open>A 32-bit load.\<close>

definition load_le32 :: "u8 \<Rightarrow> u8 \<Rightarrow> u8 \<Rightarrow> u8 \<Rightarrow> u32" where
  "load_le32 b0 b1 b2 b3 = ucast b0 OR push_bit 8 (ucast b1) OR push_bit 16 (ucast b2) OR push_bit 24 (ucast b3)"

text \<open>The loop over 32-bit words and the last few bytes.\<close>

fun crc_words :: "u32 \<Rightarrow> bytes \<Rightarrow> u32" where
  "crc_words crc (b0 # b1 # b2 # b3 # bs) =
     crc_words (DO_CRC (DO_CRC (DO_CRC (DO_CRC (crc XOR load_le32 b0 b1 b2 b3) 0) 0) 0) 0) bs"
| "crc_words crc bs = fold (\<lambda>x c. DO_CRC c x) bs crc"

text \<open>\<open>addr\<close> is the address of the buffer: the bytes up to the next multiple of four come first.\<close>

definition crc32_no_comp :: "u32 \<Rightarrow> nat \<Rightarrow> bytes \<Rightarrow> u32" where
  "crc32_no_comp crc addr buf =
    (let k = (if addr mod 4 \<noteq> 0 then min (length buf) (4 - addr mod 4) else 0) in
     crc_words (fold (\<lambda>x c. DO_CRC c x) (take k buf) crc) (drop k buf))"

definition crc32 :: "u32 \<Rightarrow> nat \<Rightarrow> bytes \<Rightarrow> u32" where
  "crc32 crc addr p = crc32_no_comp (crc XOR 0xffffffff) addr p XOR 0xffffffff"

text \<open>
  With \<^verbatim>\<open>CONFIG_ARM64_CRC32\<close> the loop uses the CRC-32 instruction of the processor, the parameter
  \<open>crc32b\<close> here, on one byte at a time.
\<close>

definition crc32_no_comp_arm64 :: "(u32 \<Rightarrow> u8 \<Rightarrow> u32) \<Rightarrow> u32 \<Rightarrow> bytes \<Rightarrow> u32" where
  "crc32_no_comp_arm64 crc32b crc buf = fold (\<lambda>x c. crc32b c x) buf crc"

section \<open>The reference: one bit at a time\<close>

text \<open>
  The CRC-32 of IEEE 802.3 as a shift register: the bits of a byte enter at the low end and the
  register is divided by the reversed polynomial \<^term>\<open>0xedb88320 :: u32\<close>.
\<close>

definition crc_bit :: "u32 \<Rightarrow> u32" where
  "crc_bit c = (if bit c 0 then drop_bit 1 c XOR 0xedb88320 else drop_bit 1 c)"

definition crc_byte :: "u32 \<Rightarrow> u8 \<Rightarrow> u32" where
  "crc_byte c x = (crc_bit ^^ 8) (c XOR ucast x)"

definition crc_ref :: "bytes \<Rightarrow> u32" where
  "crc_ref bs = NOT (fold (\<lambda>x c. crc_byte c x) bs (NOT 0))"

section \<open>The table\<close>

lemma crc_poly_value: "crc_poly = 0xedb88320" by code_simp

lemma crc_check: "crc32 0 0 (map (\<lambda>c. of_nat c) [49, 50, 51, 52, 53, 54, 55, 56, 57]) = 0xcbf43926" by code_simp

lemma crc_shift_bit: "crc_shift c = crc_bit c"
proof -
  have "(c AND 1 \<noteq> 0) = bit c 0" by (simp add: and_one_eq bit_0 odd_iff_mod_2_eq_one)
  then show ?thesis by (simp add: crc_shift_def crc_bit_def crc_poly_value xor.commute)
qed

lemma crc_shift_eq: "crc_shift = crc_bit" by (rule ext) (rule crc_shift_bit)

lemma crc_bit_xor: "crc_bit (x XOR y) = crc_bit x XOR crc_bit y"
  by (auto simp: crc_bit_def bit_xor_iff intro!: bit_eqI simp: bit_simps)

lemma crc_bits_xor: "(crc_bit ^^ n) (x XOR y) = (crc_bit ^^ n) x XOR (crc_bit ^^ n) y"
  by (induction n) (simp_all add: crc_bit_xor)

lemma crc_bits_high: "n \<le> k \<Longrightarrow> (crc_bit ^^ n) (push_bit k x) = drop_bit n (push_bit k x)"
proof (induction n)
  case (Suc n)
  have "\<not> bit (drop_bit n (push_bit k x)) 0" using Suc.prems by (simp add: bit_simps)
  then show ?case using Suc by (simp add: crc_bit_def)
qed simp


text \<open>The table is linear: each half is the other with one more bit.\<close>

definition crc_double :: "u32 \<Rightarrow> u32 list \<Rightarrow> u32 list" where
  "crc_double t xs = xs @ map (\<lambda>x. x XOR t) xs"

lemma crc_basis:
  "(crc_shift ^^ 8) 1 = 0x77073096" "(crc_shift ^^ 8) 2 = 0xee0e612c" "(crc_shift ^^ 8) 4 = 0x076dc419" "(crc_shift ^^ 8) 8 = 0x0edb8832"
  "(crc_shift ^^ 8) 16 = 0x1db71064" "(crc_shift ^^ 8) 32 = 0x3b6e20c8" "(crc_shift ^^ 8) 64 = 0x76dc4190" "(crc_shift ^^ 8) 128 = 0xedb88320"
  unfolding crc_shift_eq by code_simp+

lemma crc_table_doubles:
  "crc_table = crc_double 0xedb88320 (crc_double 0x76dc4190 (crc_double 0x3b6e20c8 (crc_double 0x1db71064
     (crc_double 0x0edb8832 (crc_double 0x076dc419 (crc_double 0xee0e612c (crc_double 0x77073096 [0])))))))"
  by (simp add: crc_table_def crc_double_def)


lemma of_nat_add_bit: "m < 2 ^ k \<Longrightarrow> (of_nat (2 ^ k + m) :: u32) = of_nat m XOR of_nat (2 ^ k)"
proof -
  assume m: "m < 2 ^ k"
  have "\<not> bit m k" if "k \<le> j" for j using m that by (simp add: bit_iff_odd)
  then have "m AND 2 ^ k = 0" by (intro bit_eqI) (auto simp: bit_simps)
  then have "2 ^ k + m = m XOR 2 ^ k" by (metis add.commute disjunctive_add_eq_xor)
  then show ?thesis by (simp add: of_nat_xor_eq)
qed

lemma crc_double_map:
  "crc_double ((crc_bit ^^ 8) (of_nat (2 ^ k))) (map (\<lambda>n. (crc_bit ^^ 8) (of_nat n)) [0..<2 ^ k]) =
   map (\<lambda>n. (crc_bit ^^ 8) (of_nat n)) [0..<2 ^ Suc k]"
proof -
  have "[0..<2 ^ Suc k] = [0..<2 ^ k] @ map (\<lambda>m. 2 ^ k + m) [0..<2 ^ k]"
    using map_add_upt [of "2 ^ k" "2 ^ k"] by (simp add: upt_add_eq_append [of 0 "2 ^ k" "2 ^ k"] mult_2 add.commute)
  then show ?thesis by (simp add: crc_double_def of_nat_add_bit crc_bits_xor del: of_nat_add)
qed

lemma crc_table_map: "crc_table = map (\<lambda>n. (crc_bit ^^ 8) (of_nat n)) [0..<256]"
proof -
  define T where "T k = (map (\<lambda>n. (crc_bit ^^ 8) (of_nat n)) [0..<2 ^ k] :: u32 list)" for k
  have "(crc_bit ^^ 8) 0 = 0" using crc_bits_high [of 8 8 0] by simp
  then have b: "T 0 = [0]" by (simp add: T_def)
  have s: "T (Suc k) = crc_double ((crc_bit ^^ 8) (of_nat (2 ^ k))) (T k)" for k by (simp only: T_def crc_double_map)
  have t: "T 1 = crc_double ((crc_bit ^^ 8) 1) (T 0)" "T 2 = crc_double ((crc_bit ^^ 8) 2) (T 1)"
    "T 3 = crc_double ((crc_bit ^^ 8) 4) (T 2)" "T 4 = crc_double ((crc_bit ^^ 8) 8) (T 3)"
    "T 5 = crc_double ((crc_bit ^^ 8) 16) (T 4)" "T 6 = crc_double ((crc_bit ^^ 8) 32) (T 5)"
    "T 7 = crc_double ((crc_bit ^^ 8) 64) (T 6)" "T 8 = crc_double ((crc_bit ^^ 8) 128) (T 7)"
    using s [of 0] s [of 1] s [of 2] s [of 3] s [of 4] s [of 5] s [of 6] s [of 7] by (simp_all add: numeral_2_eq_2 [symmetric])
  have "T 8 = crc_table" unfolding crc_table_doubles t b crc_basis [unfolded crc_shift_eq] ..
  then show ?thesis by (simp add: T_def)
qed

section \<open>The routine against the reference\<close>

lemma DO_CRC_byte: "DO_CRC c x = crc_byte c x"
proof -
  let ?y = "c XOR ucast x"
  have "unat (?y AND 255) < 256"
  proof -
    have "?y AND 255 = take_bit 8 ?y" using take_bit_eq_mask [of 8 ?y] by (simp add: mask_eq_exp_minus_1)
    then have "unat (?y AND 255) = take_bit 8 (unat ?y)" by (simp only: unsigned_take_bit_eq)
    then show ?thesis by (simp add: take_bit_eq_mod)
  qed
  then have t: "crc_table ! unat (?y AND 255) = (crc_bit ^^ 8) (?y AND 255)" by (simp add: crc_table_map)
  have d: "?y = (?y AND 255) XOR push_bit 8 (drop_bit 8 c)"
  proof (rule bit_eqI)
    fix n assume "possible_bit TYPE(32 word) n"
    then have "n < 32" by simp
    have "(255 :: u32) = mask 8" by (simp add: mask_eq_exp_minus_1)
    then have "bit (255 :: u32) n \<longleftrightarrow> n < 8" unfolding \<open>255 = mask 8\<close> bit_mask_iff using \<open>n < 32\<close> by simp
    moreover have "\<not> bit x n" if "8 \<le> n" using that bit_imp_le_length [of x n] by auto
    ultimately show "bit ?y n = bit ((?y AND 255) XOR push_bit 8 (drop_bit 8 c)) n" using \<open>n < 32\<close> by (auto simp: bit_simps)
  qed
  have "(crc_bit ^^ 8) ?y = (crc_bit ^^ 8) (?y AND 255) XOR drop_bit 8 (push_bit 8 (drop_bit 8 c))"
    using crc_bits_xor [of 8 "?y AND 255" "push_bit 8 (drop_bit 8 c)"] crc_bits_high [of 8 8 "drop_bit 8 c"] d by simp
  also have "drop_bit 8 (push_bit 8 (drop_bit 8 c)) = drop_bit 8 c" by (rule bit_eqI) (auto simp: bit_simps dest: bit_imp_le_length)
  finally show ?thesis by (simp add: DO_CRC_def crc_byte_def t)
qed

text \<open>Bits above the low byte wait for their turn.\<close>

lemma DO_CRC_later:
  assumes "k \<ge> 8"
  shows "DO_CRC (c XOR push_bit k y) x = DO_CRC c x XOR push_bit (k - 8) (take_bit (32 - k) y)"
proof -
  have "drop_bit 8 (push_bit k y) = push_bit (k - 8) (take_bit (32 - k) y)"
    by (rule bit_eqI) (use assms in \<open>auto simp: bit_simps add.commute\<close>)
  then show ?thesis using crc_bits_xor [of 8 "c XOR ucast x" "push_bit k y"] crc_bits_high [OF assms, of y]
    by (simp add: DO_CRC_byte crc_byte_def ac_simps)
qed


lemma DO_CRC_enter: "DO_CRC (c XOR ucast b) 0 = DO_CRC c b"
  by (simp add: DO_CRC_byte crc_byte_def)

lemma crc_word: "DO_CRC (DO_CRC (DO_CRC (DO_CRC (c XOR load_le32 b0 b1 b2 b3) 0) 0) 0) 0 =
  DO_CRC (DO_CRC (DO_CRC (DO_CRC c b0) b1) b2) b3"
proof -
  have u: "take_bit n (ucast b :: u32) = ucast b" if "8 \<le> n" for n and b :: u8
    by (rule bit_eqI) (use that in \<open>auto simp: bit_simps dest: bit_imp_le_length\<close>)
  have nb: "\<not> bit b k" if "8 \<le> k" for b :: u8 and k using that bit_imp_le_length [of b k] by auto
  have l: "load_le32 b0 b1 b2 b3 = ucast b0 XOR push_bit 8 (ucast b1) XOR push_bit 16 (ucast b2) XOR push_bit 24 (ucast b3)"
  proof (rule bit_eqI)
    fix n assume n: "possible_bit TYPE(32 word) n"
    consider "n < 8" | "8 \<le> n" "n < 16" | "16 \<le> n" "n < 24" | "24 \<le> n" by linarith
    then show "bit (load_le32 b0 b1 b2 b3) n =
        bit (ucast b0 XOR push_bit 8 (ucast b1) XOR push_bit 16 (ucast b2) XOR push_bit 24 (ucast b3) :: u32) n"
      using n by cases (simp_all add: load_le32_def bit_simps nb)
  qed
  have "DO_CRC (c XOR load_le32 b0 b1 b2 b3) 0 =
      DO_CRC c b0 XOR ucast b1 XOR push_bit 8 (ucast b2) XOR push_bit 16 (ucast b3)"
    unfolding l xor.assoc [symmetric] by (simp add: DO_CRC_later DO_CRC_enter u)
  then show ?thesis by (simp add: DO_CRC_later DO_CRC_enter u xor.assoc [symmetric])
qed

lemma crc_words_fold: "crc_words c bs = fold (\<lambda>x c. DO_CRC c x) bs c"
  by (induction c bs rule: crc_words.induct) (simp_all add: crc_word)

lemma crc32_no_comp_bytes: "crc32_no_comp c addr bs = fold (\<lambda>x c. crc_byte c x) bs c"
proof -
  have "(\<lambda>x c. DO_CRC c x) = (\<lambda>x c. crc_byte c x)" by (simp add: DO_CRC_byte)
  then show ?thesis
    by (simp add: crc32_no_comp_def Let_def crc_words_fold) (metis append_take_drop_id comp_apply fold_append)
qed

text \<open>Both builds of the routine agree: the instruction is one step of the bit-serial CRC.\<close>

lemma crc32_no_comp_builds:
  "(\<And>c x. crc32b c x = crc_byte c x) \<Longrightarrow> crc32_no_comp_arm64 crc32b c bs = crc32_no_comp c addr bs"
  by (simp add: crc32_no_comp_arm64_def crc32_no_comp_bytes)

lemma crc32_bits: "crc32 0 addr bs = crc_ref bs"
proof -
  have m: "(0xffffffff :: u32) = - 1" by simp
  moreover have "x XOR 0xffffffff = NOT x" for x :: u32 unfolding m by simp
  ultimately show ?thesis by (simp only: crc32_def crc_ref_def crc32_no_comp_bytes)
qed

text \<open>
  C9: the table of the source is the one the polynomial gives, and the routine that eats four bytes at a time
  computes, for a buffer of any length at any alignment, the bit-serial CRC-32: the register of ones is
  shifted once per bit of the buffer, reduced by the reversed polynomial, and complemented.
\<close>

theorem crc32_reference: "crc_table = make_crc_table \<and> crc32 0 addr bs = crc_ref bs"
  by (simp only: crc_table_map make_crc_table_def crc_shift_eq crc32_bits)

end
