(* ===== verification/Uenv.thy ===== *)
theory Uenv
  imports Crc Target
begin

text \<open>
  The one-shot recovery flag in the environment partition (\<^verbatim>\<open>board/airoha/an7581/an7581_rfb.c\<close>): reading
  the block, checking its CRC, dropping the entry \<^verbatim>\<open>recovery_trigger=1\<close> in place, and writing and
  verifying the block. The lemmas relate the in-place loop to filtering the list of entries, and the
  whole operation to the environment that is stored on the flash before and after.
\<close>

section \<open>The environment block\<close>

definition XG2010G_UENV_SIZE :: nat where "XG2010G_UENV_SIZE = 0x4000"
definition XG2010G_UENV_ERASE_SIZE :: nat where "XG2010G_UENV_ERASE_SIZE = 0x40000"
definition XG2010G_UENV_DATA_SIZE :: nat where "XG2010G_UENV_DATA_SIZE = XG2010G_UENV_SIZE - 4"

text \<open>A character array as bytes.\<close>

definition chars :: "string \<Rightarrow> bytes" where
  "chars s = map of_char s"

definition xg2010g_uenv_is_recovery_trigger :: "bytes \<Rightarrow> nat \<Rightarrow> bool" where
  "xg2010g_uenv_is_recovery_trigger entry len =
    (let name = chars ''recovery_trigger='' in
     len = length name + 1 \<and> take (length name) entry = name \<and> entry ! length name = of_char (CHR ''1''))"

text \<open>Storing and loading the checksum with \<^verbatim>\<open>memcpy\<close>.\<close>

definition store_le32 :: "u32 \<Rightarrow> bytes" where
  "store_le32 c = map (\<lambda>i. ucast (drop_bit (8 * i) c)) [0..<4]"

definition load_crc :: "bytes \<Rightarrow> u32" where
  "load_crc bs = load_le32 (bs ! 0) (bs ! 1) (bs ! 2) (bs ! 3)"

text \<open>
  The loop over the entries. It works in place: \<open>src\<close> and \<open>dst\<close> are the positions of the two
  pointers in the data area, whose end is the end of the list.
\<close>

definition strnlen :: "bytes \<Rightarrow> nat" where
  "strnlen s = length (takeWhile (\<lambda>c. c \<noteq> 0) s)"

function uenv_scan :: "nat \<Rightarrow> nat \<Rightarrow> bool \<Rightarrow> bytes \<Rightarrow> int \<times> nat \<times> bool \<times> bytes" where
  "uenv_scan src dst triggered data =
    (if src < length data \<and> data ! src \<noteq> 0 then
       let len = strnlen (drop src data) in
       if src + len = length data then (-EINVAL, dst, triggered, data)
       else if xg2010g_uenv_is_recovery_trigger (drop src data) len
       then uenv_scan (src + len + 1) dst True data
       else uenv_scan (src + len + 1) (dst + len + 1) triggered
              (overwrite dst (take (len + 1) (drop src data)) data)
     else (0, dst, triggered, data))"
  by auto
termination by (relation "measure (\<lambda>(src, dst, t, data). length data - src)") auto

declare uenv_scan.simps [simp del]

text \<open>
  The loop that programs the block page by page. The caller has checked that \<^verbatim>\<open>writesize\<close> is not zero,
  with which the loop would not end; the model stops there.
\<close>

function uenv_write_pages :: "'d mtd_info \<Rightarrow> bytes \<Rightarrow> nat \<Rightarrow> 'd \<Rightarrow> int \<times> 'd" where
  "uenv_write_pages mtd buf ofs d =
    (if ofs < XG2010G_UENV_ERASE_SIZE then
       let len = min (mtd_writesize mtd) (XG2010G_UENV_ERASE_SIZE - ofs);
           ((ret, retlen), d) = mtd_write mtd (int ofs) (take len (drop ofs buf)) d in
       if ret \<noteq> 0 then (ret, d)
       else if retlen \<noteq> len then (-EIO, d)
       else if len = 0 then (-EINVAL, d)
       else uenv_write_pages mtd buf (ofs + len) d
     else (0, d))"
  by pat_completeness auto
termination by (relation "measure (\<lambda>(mtd, buf, ofs, d). XG2010G_UENV_ERASE_SIZE - ofs)") auto

declare uenv_write_pages.simps [simp del]

definition xg2010g_uenv_write_block :: "'d mtd_info \<Rightarrow> bytes \<Rightarrow> 'd \<Rightarrow> int \<times> 'd" where
  "xg2010g_uenv_write_block mtd buf d =
    (let (ret, d) = mtd_erase mtd 0 XG2010G_UENV_ERASE_SIZE d in
     if ret \<noteq> 0 then (ret, d) else uenv_write_pages mtd buf 0 d)"

text \<open>
  The block in RAM after the flag was dropped: the data area is cleared behind the entries that are
  kept and gets a new checksum; \<open>addr\<close> is the address of the block.
\<close>

definition uenv_seal :: "nat \<Rightarrow> nat \<Rightarrow> bytes \<Rightarrow> bytes \<Rightarrow> bytes" where
  "uenv_seal addr dst data block =
    (let data = take dst data @ replicate (length data - dst) 0 in
     store_le32 (crc32 0 (addr + 4) data) @ data @ drop (4 + length data) block)"

text \<open>Reading back what was written.\<close>

definition uenv_verify :: "'d mtd_info \<Rightarrow> bytes \<Rightarrow> 'd \<Rightarrow> int \<times> 'd" where
  "uenv_verify mtd block d =
    (let ((ret, verify), d) = mtd_read mtd 0 XG2010G_UENV_SIZE d in
     if ret \<noteq> 0 \<and> ret \<noteq> -EUCLEAN \<or> length verify \<noteq> XG2010G_UENV_SIZE
     then (if ret = 0 then -EIO else ret, d)
     else (if verify \<noteq> take XG2010G_UENV_SIZE block then -EIO else 0, d))"

text \<open>
  What happens between the allocation of the two buffers and the label \<^verbatim>\<open>out\<close>: the code, the flag and the
  state behind the driver.
\<close>

definition uenv_consume :: "nat \<Rightarrow> 'd mtd_info \<Rightarrow> 'd \<Rightarrow> int \<times> bool \<times> 'd" where
  "uenv_consume addr mtd d =
    (let ((ret, block), d) = mtd_read mtd 0 XG2010G_UENV_ERASE_SIZE d in
     if ret \<noteq> 0 \<and> ret \<noteq> -EUCLEAN \<or> length block \<noteq> XG2010G_UENV_ERASE_SIZE
     then (if ret = 0 then -EIO else ret, False, d)
     else
       let data = take XG2010G_UENV_DATA_SIZE (drop 4 block) in
       if load_crc block \<noteq> crc32 0 (addr + 4) data then (-EBADMSG, False, d)
       else
         let (ret, dst, triggered, data) = uenv_scan 0 0 False data in
         if ret \<noteq> 0 then (ret, triggered, d)
         else if \<not> triggered then (0, False, d)
         else
           let block = uenv_seal addr dst data block;
               (ret, d) = xg2010g_uenv_write_block mtd block d in
           if ret \<noteq> 0 then (ret, True, d)
           else let (ret, d) = uenv_verify mtd block d in (ret, True, d))"

text \<open>\<open>mem\<close> is the address of the block when both buffers could be allocated.\<close>

definition xg2010g_uenv_consume_recovery_trigger ::
    "'d board \<Rightarrow> nat option \<Rightarrow> ('d, 'x) world \<Rightarrow> int \<times> bool \<times> ('d, 'x) world" where
  "xg2010g_uenv_consume_recovery_trigger b mem w =
    (case get_mtd b ''uenv'' w of
       (Inl err, w) \<Rightarrow> (err, False, w)
     | (Inr mtd, w) \<Rightarrow>
         let (ret, triggered, d) =
           (if mtd_size mtd < XG2010G_UENV_ERASE_SIZE \<or> mtd_writesize mtd = 0 \<or>
               XG2010G_UENV_ERASE_SIZE mod mtd_writesize mtd \<noteq> 0 then (-EINVAL, False, dev w)
            else case mem of None \<Rightarrow> (-ENOMEM, False, dev w) | Some addr \<Rightarrow> uenv_consume addr mtd (dev w)) in
         (ret, if ret \<noteq> 0 then False else triggered, put_mtd_device mtd (w\<lparr>dev := d\<rparr>)))"

section \<open>The environment as a list of entries\<close>

text \<open>
  What the data area means: entries that end with a NUL, up to an empty one; \<^term>\<open>None\<close> when the last
  entry is not terminated.
\<close>

function env_entries :: "bytes \<Rightarrow> bytes list option" where
  "env_entries bs =
    (if bs = [] \<or> hd bs = 0 then Some []
     else if dropWhile (\<lambda>c. c \<noteq> 0) bs = [] then None
     else map_option (Cons (takeWhile (\<lambda>c. c \<noteq> 0) bs)) (env_entries (tl (dropWhile (\<lambda>c. c \<noteq> 0) bs))))"
  by auto
termination
proof (relation "measure length")
  fix bs :: bytes
  assume "dropWhile (\<lambda>c. c \<noteq> 0) bs \<noteq> []"
  then show "(tl (dropWhile (\<lambda>c. c \<noteq> 0) bs), bs) \<in> measure length"
    using length_dropWhile_le [of "\<lambda>c. c \<noteq> 0" bs] by (cases "dropWhile (\<lambda>c. c \<noteq> 0) bs") auto
qed simp

declare env_entries.simps [simp del]

definition env_text :: "bytes list \<Rightarrow> bytes" where
  "env_text es = concat (map (\<lambda>e. e @ [0]) es)"

definition trigger_entry :: bytes where
  "trigger_entry = chars ''recovery_trigger=1''"

text \<open>The environment a partition stores: the entries when the checksum is right.\<close>

definition env_stored :: "bytes \<Rightarrow> bytes list option" where
  "env_stored bs =
    (let data = take XG2010G_UENV_DATA_SIZE (drop 4 bs) in
     if load_crc bs = crc_ref data then env_entries data else None)"

section \<open>Entries\<close>

definition entry_ok :: "bytes \<Rightarrow> bool" where
  "entry_ok e \<longleftrightarrow> e \<noteq> [] \<and> 0 \<notin> set e"

lemma env_text_simps [simp]: "env_text [] = []" "env_text (e # es) = e @ 0 # env_text es"
  by (simp_all add: env_text_def)

lemma takeWhile_entry: "0 \<notin> set e \<Longrightarrow> takeWhile (\<lambda>c. c \<noteq> 0) (e @ 0 # r) = e"
  "0 \<notin> set e \<Longrightarrow> dropWhile (\<lambda>c. c \<noteq> 0) (e @ 0 # r) = 0 # r"
  by (induction e) auto

lemma env_entries_text:
  "\<forall>e\<in>set es. entry_ok e \<Longrightarrow> r = [] \<or> hd r = 0 \<Longrightarrow> env_entries (env_text es @ r) = Some es"
proof (induction es)
  case Nil
  then show ?case by (simp add: env_entries.simps [of r])
next
  case (Cons e es)
  then have "e \<noteq> []" "0 \<notin> set e" "hd (e @ 0 # env_text es @ r) \<noteq> 0"
    by (auto simp: entry_ok_def hd_append dest: hd_in_set)
  with Cons show ?case by (simp add: env_entries.simps [of "e @ _"] takeWhile_entry)
qed

lemma split_entry: "dropWhile (\<lambda>c. c \<noteq> 0) bs \<noteq> [] \<Longrightarrow>
    bs = takeWhile (\<lambda>c. c \<noteq> 0) bs @ 0 # tl (dropWhile (\<lambda>c. c \<noteq> (0::u8)) bs)"
  by (induction bs) auto

lemma env_entriesD:
  "env_entries bs = Some es \<Longrightarrow> \<exists>r. bs = env_text es @ r \<and> (r = [] \<or> hd r = 0) \<and> (\<forall>e\<in>set es. entry_ok e)"
proof (induction bs arbitrary: es rule: env_entries.induct)
  case (1 bs)
  show ?case
  proof (cases "bs = [] \<or> hd bs = 0")
    case True
    then show ?thesis using 1 by (simp add: env_entries.simps [of bs])
  next
    case False
    let ?e = "takeWhile (\<lambda>c. c \<noteq> 0) bs" and ?r = "tl (dropWhile (\<lambda>c. c \<noteq> 0) bs)"
    have d: "dropWhile (\<lambda>c. c \<noteq> 0) bs \<noteq> []" using 1(2) False by (auto simp: env_entries.simps [of bs] split: if_splits)
    obtain es' where es: "es = ?e # es'" "env_entries ?r = Some es'"
      using 1(2) False d by (auto simp: env_entries.simps [of bs] split: if_splits)
    obtain r where "?r = env_text es' @ r" "r = [] \<or> hd r = 0" "\<forall>e\<in>set es'. entry_ok e"
      using 1(1) [OF False d es(2)] by blast
    moreover have "entry_ok ?e" using False by (cases bs) (auto simp: entry_ok_def dest: set_takeWhileD)
    ultimately show ?thesis using split_entry [OF d] es(1) by (metis append_Cons append_assoc env_text_simps(2) set_ConsD)
  qed
qed

lemma prefix_char_iff:
  "length e = Suc (length p) \<Longrightarrow> take (length p) (e @ r) = p \<and> (e @ r) ! length p = c \<longleftrightarrow> e = p @ [c]"
  by (cases e rule: rev_cases) (auto simp: nth_append)

lemma trigger_entry_iff:
  "xg2010g_uenv_is_recovery_trigger (e @ r) (length e) \<longleftrightarrow> e = trigger_entry"
proof -
  define p where "p = chars ''recovery_trigger=''"
  have t: "trigger_entry = p @ [of_char (CHR ''1'')]" by (simp add: trigger_entry_def chars_def p_def)
  show ?thesis using prefix_char_iff [of e p r "of_char (CHR ''1'')"]
    unfolding xg2010g_uenv_is_recovery_trigger_def t p_def [symmetric] Let_def by auto
qed

lemma overwrite_down:
  assumes "dst \<le> src" "src + n \<le> length data"
  shows "drop (src + n) (overwrite dst (take n (drop src data)) data) = drop (src + n) data"
    "take (dst + n) (overwrite dst (take n (drop src data)) data) = take dst data @ take n (drop src data)"
proof -
  let ?x = "take n (drop src data)"
  have n: "length ?x = n" and f: "dst + n \<le> length data" using assms by simp_all
  have o: "overwrite dst ?x data = take dst data @ ?x @ drop (dst + n) data"
    using f unfolding overwrite_def n by simp
  show "take (dst + n) (overwrite dst ?x data) = take dst data @ ?x" unfolding o using f n by simp
  have "drop (src + n) (take dst data @ ?x @ drop (dst + n) data) = drop (src - dst) (drop (dst + n) data)"
    using assms n by simp
  also have "\<dots> = drop (src + n) data" using assms(1) by (simp add: add.assoc)
  finally show "drop (src + n) (overwrite dst ?x data) = drop (src + n) data" unfolding o .
qed

text \<open>Dropping the flag in place is filtering the list of entries.\<close>

lemma uenv_scan_filter:
  assumes "dst \<le> src" "src \<le> length data"
  shows "case env_entries (drop src data) of
      None \<Rightarrow> fst (uenv_scan src dst t data) = -EINVAL
    | Some es \<Rightarrow> \<exists>data'. uenv_scan src dst t data =
        (0, dst + length (env_text (filter (\<lambda>e. e \<noteq> trigger_entry) es)), t \<or> trigger_entry \<in> set es, data') \<and>
        length data' = length data \<and>
        take (dst + length (env_text (filter (\<lambda>e. e \<noteq> trigger_entry) es))) data' =
          take dst data @ env_text (filter (\<lambda>e. e \<noteq> trigger_entry) es)"
  using assms
proof (induction src dst t data rule: uenv_scan.induct)
  case (1 src dst t data)
  let ?s = "drop src data"
  let ?e = "takeWhile (\<lambda>c. c \<noteq> 0) ?s"
  show ?case
  proof (cases "src < length data \<and> data ! src \<noteq> 0")
    case False
    then have "?s = [] \<or> hd ?s = 0" using "1.prems" by (cases "src < length data") (auto simp: hd_drop_conv_nth)
    then have "env_entries ?s = Some []" by (simp add: env_entries.simps [of ?s])
    then show ?thesis using False by (auto simp: uenv_scan.simps [of src dst t data])
  next
    case True
    have ne: "\<not> (?s = [] \<or> hd ?s = 0)" using True by (auto simp: hd_drop_conv_nth)
    have len: "strnlen ?s = length ?e" by (simp add: strnlen_def)
    show ?thesis
    proof (cases "src + strnlen ?s = length data")
      case atend: True
      then have "?e = ?s" using True len takeWhile_eq_take [of "\<lambda>c. c \<noteq> 0" ?s] by (simp add: strnlen_def)
      then have "dropWhile (\<lambda>c. c \<noteq> 0) ?s = []" by (simp add: takeWhile_eq_all_conv dropWhile_eq_Nil_conv)
      then have "env_entries ?s = None" using ne by (simp add: env_entries.simps [of ?s])
      then show ?thesis using True atend by (simp add: uenv_scan.simps [of src dst t data])
    next
      case ended: False
      have "length ?e \<noteq> length ?s" using ended True len by (simp add: less_imp_le_nat le_add_diff_inverse2 [symmetric]) linarith
      then have d: "dropWhile (\<lambda>c. c \<noteq> 0) ?s \<noteq> []" by (metis append_Nil2 takeWhile_dropWhile_id)
      let ?r = "tl (dropWhile (\<lambda>c. c \<noteq> 0) ?s)"
      have s: "?s = ?e @ 0 # ?r" by (rule split_entry [OF d])
      have eok: "entry_ok ?e" using ne by (cases ?s) (auto simp: entry_ok_def dest: set_takeWhileD)
      have le: "src + length ?e + 1 \<le> length data" using arg_cong [OF s, of length] True by simp
      have r: "drop (src + length ?e + 1) data = ?r"
      proof -
        have "drop (src + length ?e + 1) data = drop (length ?e + 1) ?s" by (simp add: add.commute add.left_commute)
        also have "\<dots> = ?r" by (subst s) simp
        finally show ?thesis .
      qed
      have es: "env_entries ?s = map_option (Cons ?e) (env_entries ?r)" using ne d by (subst env_entries.simps) (simp only: if_False)
      have trg: "xg2010g_uenv_is_recovery_trigger ?s (strnlen ?s) \<longleftrightarrow> ?e = trigger_entry"
        using trigger_entry_iff [of ?e "0 # ?r"] s len by simp
      let ?n = "length ?e + 1"
      show ?thesis
      proof (cases "?e = trigger_entry")
        case tr: True
        have "uenv_scan src dst t data = uenv_scan (src + length ?e + 1) dst True data"
          using True ended trg tr len by (simp add: uenv_scan.simps [of src dst t data] Let_def)
        moreover note "1.IH"(1) [OF True refl ended iffD2 [OF trg tr]]
        ultimately show ?thesis using "1.prems" le tr unfolding es len r by (auto split: option.splits)
      next
        case tr: False
        let ?data = "overwrite dst (take ?n ?s) data"
        note o = overwrite_down [of dst src ?n data]
        have "take ?n ?s = ?e @ [0]" by (subst s) simp
        have "uenv_scan src dst t data = uenv_scan (src + length ?e + 1) (dst + length ?e + 1) t ?data"
          using True ended trg tr len by (simp add: uenv_scan.simps [of src dst t data] Let_def)
        moreover have "drop (src + length ?e + 1) ?data = ?r" "take (dst + length ?e + 1) ?data = take dst data @ ?e @ [0]"
          using o "1.prems" le r \<open>take ?n ?s = _\<close> by (simp_all add: add.assoc)
        moreover note "1.IH"(2) [OF True refl ended, unfolded trg, OF tr]
        ultimately show ?thesis using "1.prems" le tr unfolding es len by (auto split: option.splits simp: ac_simps)
      qed
    qed
  qed
qed

section \<open>The stored environment\<close>

lemma load_store_le32: "load_crc (store_le32 c @ r) = c"
proof -
  have u: "[0..<4] = [0, 1, 2, 3 :: nat]" by (simp add: upt_rec)
  have "load_crc (store_le32 c @ r) =
      load_le32 (ucast (drop_bit 0 c)) (ucast (drop_bit 8 c)) (ucast (drop_bit 16 c)) (ucast (drop_bit 24 c))"
    by (simp add: load_crc_def store_le32_def u)
  also have "\<dots> = c"
  proof (rule bit_eqI)
    fix n assume n: "possible_bit TYPE(32 word) n"
    consider "n < 8" | "8 \<le> n" "n < 16" | "16 \<le> n" "n < 24" | "24 \<le> n" by linarith
    then show "bit (load_le32 (ucast (drop_bit 0 c)) (ucast (drop_bit 8 c)) (ucast (drop_bit 16 c)) (ucast (drop_bit 24 c))) n = bit c n"
      using n by cases (auto simp: load_le32_def bit_simps)
  qed
  finally show ?thesis .
qed

lemma length_store_le32 [simp]: "length (store_le32 c) = 4"
  by (simp add: store_le32_def)

lemma env_stored_take:
  assumes "XG2010G_UENV_SIZE \<le> length bs"
  shows "env_stored (take XG2010G_UENV_SIZE bs) = env_stored bs"
proof -
  have "load_crc (take XG2010G_UENV_SIZE bs) = load_crc bs" by (simp add: load_crc_def XG2010G_UENV_SIZE_def)
  moreover have "take XG2010G_UENV_DATA_SIZE (drop 4 (take XG2010G_UENV_SIZE bs)) = take XG2010G_UENV_DATA_SIZE (drop 4 bs)"
    by (simp add: XG2010G_UENV_DATA_SIZE_def XG2010G_UENV_SIZE_def drop_take)
  ultimately show ?thesis by (simp only: env_stored_def Let_def)
qed

lemma env_stored_sealed:
  "length d = XG2010G_UENV_DATA_SIZE \<Longrightarrow> env_stored (store_le32 (crc_ref d) @ d @ r) = env_entries d"
  by (simp add: env_stored_def load_store_le32)

lemma uenv_seal_stored:
  assumes "length data = XG2010G_UENV_DATA_SIZE" "take dst data = env_text es" "dst \<le> length data" "\<forall>e\<in>set es. entry_ok e"
  shows "env_stored (uenv_seal addr dst data block) = Some es"
proof -
  let ?d = "env_text es @ replicate (length data - dst) 0"
  have l: "length ?d = XG2010G_UENV_DATA_SIZE" using assms(1-3) by (metis length_append length_replicate length_take min.absorb2 le_add_diff_inverse)
  have s: "uenv_seal addr dst data block = store_le32 (crc_ref ?d) @ ?d @ drop (4 + length ?d) block"
    by (simp only: uenv_seal_def Let_def assms(2) crc32_bits)
  have "replicate (length data - dst) 0 = [] \<or> hd (replicate (length data - dst) (0 :: u8)) = 0" by (cases "length data - dst") simp_all
  then have "env_entries ?d = Some es" by (rule env_entries_text [OF assms(4)])
  then show ?thesis unfolding s env_stored_sealed [OF l] .
qed

lemma uenv_seal_length:
  "length data = XG2010G_UENV_DATA_SIZE \<Longrightarrow> dst \<le> length data \<Longrightarrow> XG2010G_UENV_SIZE \<le> length block \<Longrightarrow>
   length (uenv_seal addr dst data block) = length block"
  by (simp add: uenv_seal_def Let_def XG2010G_UENV_DATA_SIZE_def XG2010G_UENV_SIZE_def)

section \<open>Writing the block\<close>

lemma uenv_write_pages_frame:
  assumes "driver_ok content m" "uenv_write_pages m buf ofs d = (ret, d')" "length buf = XG2010G_UENV_ERASE_SIZE"
  shows "same_outside (content d) (content d') (int (mtd_offset m)) (int (mtd_offset m) + int XG2010G_UENV_ERASE_SIZE)"
  using assms
proof (induction m buf ofs d rule: uenv_write_pages.induct)
  case (1 m buf ofs d)
  let ?n = "min (mtd_writesize m) (XG2010G_UENV_ERASE_SIZE - ofs)"
  show ?case
  proof (cases "ofs < XG2010G_UENV_ERASE_SIZE")
    case False
    then show ?thesis using 1 by (simp add: uenv_write_pages.simps [of m buf ofs d])
  next
    case True
    obtain r n d1 where w: "mtd_write m (int ofs) (take ?n (drop ofs buf)) d = ((r, n), d1)" by (metis prod.exhaust)
    have f: "same_outside (content d) (content d1) (int (mtd_offset m)) (int (mtd_offset m) + int XG2010G_UENV_ERASE_SIZE)"
      using same_outside_mono [OF mtdcore.write_frame [OF "1.prems"(1) w]] True "1.prems"(3) by simp
    show ?thesis
    proof (cases "r \<noteq> 0 \<or> n \<noteq> ?n \<or> ?n = 0")
      case stop: True
      then have "d' = d1" using "1.prems"(2) True w by (auto simp: uenv_write_pages.simps [of m buf ofs d] Let_def split: if_splits)
      then show ?thesis using f by simp
    next
      case go: False
      then have "uenv_write_pages m buf (ofs + ?n) d1 = (ret, d')"
        using "1.prems"(2) True w by (simp add: uenv_write_pages.simps [of m buf ofs d] Let_def split: if_splits)
      then show ?thesis using "1.IH" [OF True refl w [symmetric] refl] go "1.prems" same_outside_trans [OF f] by auto
    qed
  qed
qed

lemma uenv_write_block_frame:
  assumes "driver_ok content m" "xg2010g_uenv_write_block m buf d = (ret, d')" "length buf = XG2010G_UENV_ERASE_SIZE"
  shows "same_outside (content d) (content d') (int (mtd_offset m)) (int (mtd_offset m) + int XG2010G_UENV_ERASE_SIZE)"
proof -
  obtain r d1 where e: "mtd_erase m 0 XG2010G_UENV_ERASE_SIZE d = (r, d1)" by (metis prod.exhaust)
  note f = mtdcore.erase_frame [OF assms(1) e]
  show ?thesis
  proof (cases "r = 0")
    case True
    then have "uenv_write_pages m buf 0 d1 = (ret, d')" using assms(2) e by (simp add: xg2010g_uenv_write_block_def)
    then show ?thesis using uenv_write_pages_frame [OF assms(1) _ assms(3)] f same_outside_trans by fastforce
  next
    case False
    then show ?thesis using assms(2) e f by (simp add: xg2010g_uenv_write_block_def)
  qed
qed

lemma uenv_verify_stored:
  assumes "driver_ok content m" "uenv_verify m block d = (ret, d')"
  shows "content d' = content d"
    "ret = 0 \<Longrightarrow> view content d (int (mtd_offset m)) XG2010G_UENV_SIZE = take XG2010G_UENV_SIZE block"
proof -
  obtain r buf d1 where v: "mtd_read m 0 XG2010G_UENV_SIZE d = ((r, buf), d1)" by (metis prod.exhaust)
  have d': "d' = d1" using assms(2) v by (auto simp: uenv_verify_def split: if_splits)
  show "content d' = content d" using mtdcore.read_same [OF assms(1) v] d' by simp
  assume "ret = 0"
  then have "(r = 0 \<or> r = -EUCLEAN) \<and> length buf = XG2010G_UENV_SIZE \<and> buf = take XG2010G_UENV_SIZE block"
    using assms(2) v by (auto simp: uenv_verify_def split: if_splits)
  then show "view content d (int (mtd_offset m)) XG2010G_UENV_SIZE = take XG2010G_UENV_SIZE block"
    using mtdcore.read_data [OF assms(1) v] by auto
qed

lemma uenv_replaced:
  assumes ok: "driver_ok content m" and wb: "xg2010g_uenv_write_block m blk d = (er, d2)"
    and vf: "uenv_verify m blk d2 = (vr, d3)" and l: "length blk = XG2010G_UENV_ERASE_SIZE"
    and out: "(ret, d') = (if er \<noteq> 0 then (er, d2) else (vr, d3))"
  shows "same_outside (content d) (content d') (int (mtd_offset m)) (int (mtd_offset m) + int XG2010G_UENV_ERASE_SIZE) \<and>
    (ret = 0 \<longrightarrow> env_stored (view content d' (int (mtd_offset m)) XG2010G_UENV_SIZE) = env_stored blk)"
proof -
  note v = uenv_verify_stored [OF ok vf]
  have "content d' = content d2" using out v(1) by (auto split: if_splits)
  then have "view content d' (int (mtd_offset m)) XG2010G_UENV_SIZE = take XG2010G_UENV_SIZE blk" if "ret = 0"
    using that out v(2) by (auto simp: view_def split: if_splits)
  then show ?thesis using uenv_write_block_frame [OF ok wb l] \<open>content d' = _\<close> env_stored_take [of blk] l
    by (simp add: XG2010G_UENV_ERASE_SIZE_def XG2010G_UENV_SIZE_def)
qed

section \<open>Consuming the flag\<close>

text \<open>What a run on the partition \<open>m\<close> does, from the stored environment before to the one after.\<close>

definition uenv_outcome :: "('d \<Rightarrow> int \<Rightarrow> u8) \<Rightarrow> 'd mtd_info \<Rightarrow> int \<Rightarrow> bool \<Rightarrow> 'd \<Rightarrow> 'd \<Rightarrow> bool" where
  "uenv_outcome content m ret triggered d d' \<longleftrightarrow>
    (let base = int (mtd_offset m);
         before = env_stored (view content d base XG2010G_UENV_SIZE);
         after = env_stored (view content d' base XG2010G_UENV_SIZE) in
     same_outside (content d) (content d') base (base + int XG2010G_UENV_ERASE_SIZE) \<and>
     (ret = 0 \<longrightarrow> (\<exists>es. before = Some es \<and> triggered = (trigger_entry \<in> set es) \<and>
        after = Some (filter (\<lambda>e. e \<noteq> trigger_entry) es))) \<and>
     (before = None \<or> trigger_entry \<notin> set (the before) \<longrightarrow> content d' = content d))"

lemma uenv_consume_outcome:
  assumes ok: "driver_ok content m" and run: "uenv_consume addr m d = (ret, triggered, d')"
  shows "uenv_outcome content m ret triggered d d'"
proof -
  let ?b = "int (mtd_offset m)"
  obtain r block d1 where rd0: "mtd_read m 0 XG2010G_UENV_ERASE_SIZE d = ((r, block), d1)" by (metis prod.exhaust)
  have c1: "content d1 = content d" by (rule mtdcore.read_same [OF ok rd0])
  let ?data = "take XG2010G_UENV_DATA_SIZE (drop 4 block)"
  have quiet: "uenv_outcome content m ret' t' d d1" if "ret' \<noteq> 0" for ret' t'
    using that c1 by (simp add: uenv_outcome_def Let_def)
  show ?thesis
  proof (cases "r \<noteq> 0 \<and> r \<noteq> -EUCLEAN \<or> length block \<noteq> XG2010G_UENV_ERASE_SIZE")
    case True
    then show ?thesis using run rd0 quiet by (auto simp: uenv_consume_def split: if_splits)
  next
    case False
    have bl: "block = view content d ?b XG2010G_UENV_ERASE_SIZE" using mtdcore.read_data [OF ok rd0] False by auto
    have "XG2010G_UENV_ERASE_SIZE = XG2010G_UENV_SIZE + (XG2010G_UENV_ERASE_SIZE - XG2010G_UENV_SIZE)"
      by (simp add: XG2010G_UENV_ERASE_SIZE_def XG2010G_UENV_SIZE_def)
    then have "view content d ?b XG2010G_UENV_SIZE = take XG2010G_UENV_SIZE block"
      unfolding bl by (metis append_eq_conv_conj length_view view_append)
    moreover have ll: "XG2010G_UENV_SIZE \<le> length block" using False by (simp add: XG2010G_UENV_ERASE_SIZE_def XG2010G_UENV_SIZE_def)
    ultimately have before: "env_stored (view content d ?b XG2010G_UENV_SIZE) = env_stored block" by (simp add: env_stored_take)
    have dl: "length ?data = XG2010G_UENV_DATA_SIZE" using ll by (simp add: XG2010G_UENV_DATA_SIZE_def XG2010G_UENV_SIZE_def)
    show ?thesis
    proof (cases "load_crc block = crc_ref ?data")
      case crc: False
      then show ?thesis using run rd0 False quiet by (auto simp: uenv_consume_def crc32_bits split: if_splits)
    next
      case crc: True
      obtain sr dst t data where sc: "uenv_scan 0 0 False ?data = (sr, dst, t, data)" by (metis prod.exhaust)
      have eb: "env_stored block = env_entries ?data" using crc by (simp add: env_stored_def)
      note spec = uenv_scan_filter [of 0 0 ?data False]
      show ?thesis
      proof (cases "env_entries ?data")
        case None
        then have "sr \<noteq> 0" using spec sc by simp
        then show ?thesis using run rd0 False crc sc quiet by (auto simp: uenv_consume_def crc32_bits Let_def)
      next
        case (Some es)
        let ?es = "filter (\<lambda>e. e \<noteq> trigger_entry) es"
        have s: "sr = 0" "t = (trigger_entry \<in> set es)" "dst = length (env_text ?es)" "length data = XG2010G_UENV_DATA_SIZE"
          "take dst data = env_text ?es"
          using spec sc Some dl by auto
        have eok: "\<forall>e\<in>set ?es. entry_ok e" using env_entriesD [OF Some] by auto
        show ?thesis
        proof (cases t)
          case False
          then have "ret = 0" "\<not> triggered" "d' = d1"
            using run rd0 \<open>\<not> (r \<noteq> 0 \<and> _ \<or> _)\<close> crc sc s(1) by (auto simp: uenv_consume_def crc32_bits Let_def)
          moreover have "?es = es" using False s(2) by (metis (mono_tags, lifting) filter_True)
          moreover have "view content d1 ?b XG2010G_UENV_SIZE = view content d ?b XG2010G_UENV_SIZE" by (simp add: view_def c1)
          ultimately show ?thesis using before eb Some s(2) False c1 by (simp add: uenv_outcome_def)
        next
          case True
          have dle: "dst \<le> length data" using s(3,5) by (metis length_take min.cobounded1)
          let ?blk = "uenv_seal addr dst data block"
          obtain er d2 where wb: "xg2010g_uenv_write_block m ?blk d1 = (er, d2)" by (metis prod.exhaust)
          obtain vr d3 where vf: "uenv_verify m ?blk d2 = (vr, d3)" by (metis prod.exhaust)
          have bl2: "length ?blk = XG2010G_UENV_ERASE_SIZE" using uenv_seal_length [OF s(4) dle ll] False by simp
          have out: "triggered" "(ret, d') = (if er \<noteq> 0 then (er, d2) else (vr, d3))"
            using run rd0 False crc sc s(1) True wb vf by (auto simp: uenv_consume_def crc32_bits Let_def split: if_splits)
          have "same_outside (content d) (content d') ?b (?b + int XG2010G_UENV_ERASE_SIZE) \<and>
            (ret = 0 \<longrightarrow> env_stored (view content d' ?b XG2010G_UENV_SIZE) = env_stored ?blk)"
            using uenv_replaced [OF ok wb vf bl2 out(2)] c1 by simp
          then show ?thesis using out(1) uenv_seal_stored [OF s(4,5) dle eok] before eb Some s(2) True
            by (auto simp: uenv_outcome_def Let_def)
        qed
      qed
    qed
  qed
qed

text \<open>
  C8: the one-shot flag is consumed exactly once and nothing else is lost. The operation reports the flag only
  if the stored environment has a valid checksum and holds the entry \<^verbatim>\<open>recovery_trigger=1\<close>, and then the
  partition stores, with a valid checksum, exactly the other entries in their order; it reports no
  error without the flag only if the entry is absent. Unless a valid environment with the entry is
  stored the flash is not changed; no byte outside the 256 KiB block ever changes, an error never
  reports the flag, and the reference to the MTD device is dropped on every path.
\<close>

theorem uenv_trigger_consumed:
  assumes ok: "\<forall>m\<in>set (brd_mtds b). driver_ok content m"
    and run: "xg2010g_uenv_consume_recovery_trigger b mem w = (ret, triggered, w')"
  shows "keeps w w' \<and> ubi w' = ubi w \<and> (ret \<noteq> 0 \<longrightarrow> \<not> triggered) \<and>
    (case get_mtd_device_nm (brd_of_dev b) (brd_mtds b) ''uenv'' of
       Inl e \<Rightarrow> ret = e \<and> w' = w
     | Inr m \<Rightarrow> uenv_outcome content m ret triggered (dev w) (dev w'))"
proof -
  obtain r w1 where g: "get_mtd b ''uenv'' w = (r, w1)" by (metis prod.exhaust)
  from g show ?thesis
  proof (cases rule: get_mtd_cases)
    case (1 e)
    then show ?thesis using run g by (auto simp: xg2010g_uenv_consume_recovery_trigger_def get_mtd_def split: sum.splits)
  next
    case (2 m)
    have nm: "get_mtd_device_nm (brd_of_dev b) (brd_mtds b) ''uenv'' = Inr m"
      using g 2 by (auto simp: get_mtd_def split: sum.splits)
    let ?bad = "mtd_size m < XG2010G_UENV_ERASE_SIZE \<or> mtd_writesize m = 0 \<or> XG2010G_UENV_ERASE_SIZE mod mtd_writesize m \<noteq> 0"
    let ?run = "if ?bad then (-EINVAL, False, dev w1)
      else case mem of None \<Rightarrow> (-ENOMEM, False, dev w1) | Some addr \<Rightarrow> uenv_consume addr m (dev w1)"
    obtain r2 t2 d2 where p: "?run = (r2, t2, d2)" by (metis prod.exhaust)
    have "(ret, triggered, w') = (r2, if r2 \<noteq> 0 then False else t2, put_mtd_device m (w1\<lparr>dev := d2\<rparr>))"
      using run unfolding xg2010g_uenv_consume_recovery_trigger_def g 2(1) prod.case sum.case p Let_def by (rule sym)
    then have e: "ret = r2" "triggered = (r2 = 0 \<and> t2)" "w' = put_mtd_device m (w1\<lparr>dev := d2\<rparr>)" by (auto split: if_splits)
    have k: "keeps w w'" "ubi w' = ubi w" "dev w' = d2"
      using e(3) 2 by (auto simp: keeps_def put_refs fun_eq_iff)
    have still: "uenv_outcome content m r2 t2 (dev w) (dev w1)" if "r2 \<noteq> 0" using that 2 by (simp add: uenv_outcome_def Let_def)
    have "uenv_outcome content m r2 t2 (dev w) d2"
    proof (cases "?bad \<or> mem = None")
      case True
      then have "d2 = dev w1" "r2 \<noteq> 0" using p by (auto split: if_splits)
      then show ?thesis using still by simp
    next
      case False
      then obtain addr where "uenv_consume addr m (dev w) = (r2, t2, d2)" using p 2 by auto
      then show ?thesis by (rule uenv_consume_outcome [OF bspec [OF ok 2(6)]])
    qed
    then have "uenv_outcome content m ret triggered (dev w) (dev w')"
      unfolding k(3) e(1,2) uenv_outcome_def Let_def by auto
    then show ?thesis using k e nm by auto
  qed
qed

text \<open>A partition whose driver never fails, with one page, for the concrete instance below.\<close>

definition sample_uenv :: "(int \<Rightarrow> u8) mtd_info" where
  "sample_uenv = (sample_part ''uenv'' 0 0x40000)\<lparr>mtd_writesize := 0x40000\<rparr>"

definition sample_uenv_data :: bytes where
  "sample_uenv_data = env_text [trigger_entry] @ replicate (XG2010G_UENV_DATA_SIZE - 19) 0"

definition sample_uenv_image :: bytes where
  "sample_uenv_image = store_le32 (crc_ref sample_uenv_data) @ sample_uenv_data @ replicate 0x3c000 0xff"

definition sample_uenv_flash :: "int \<Rightarrow> u8" where
  "sample_uenv_flash x = (if 0 \<le> x \<and> x < 0x40000 then sample_uenv_image ! nat x else 0xff)"

definition sample_uenv_board :: "(int \<Rightarrow> u8) board" where
  "sample_uenv_board = sample_board\<lparr>brd_mtds := [sample_uenv]\<rparr>"

lemma sample_uenv_ok: "driver_ok (\<lambda>d. d) sample_uenv"
  using sample_part_ok [of "''uenv''" 0 "0x40000"] by (simp add: sample_uenv_def driver_ok_def)

lemma view_list: "length xs = n \<Longrightarrow> (\<And>i. i < n \<Longrightarrow> c d (a + int i) = xs ! i) \<Longrightarrow> view c d a n = xs"
  by (rule nth_equalityI) (simp_all add: view_def)

lemma sample_uenv_io:
  "mtd_read sample_uenv 0 n d = (if n \<le> 0x40000 then ((0, view (\<lambda>d. d) d 0 n), d) else ((-EINVAL, []), d))"
  "mtd_erase sample_uenv 0 0x40000 d = (0, \<lambda>x. if 0 \<le> x \<and> x < 0x40000 then 0xff else d x)"
  "length buf = 0x40000 \<Longrightarrow> mtd_write sample_uenv 0 buf d =
     ((0, 0x40000), \<lambda>x. if 0 \<le> x \<and> x < 0x40000 then buf ! nat x else d x)"
  by (simp_all add: mtd_read_def mtd_erase_def mtd_write_def sample_uenv_def sample_part_def ram_chip_def part_read_def
      part_erase_def part_write_def view_def fun_eq_iff)

lemma sample_uenv_write:
  assumes "length buf = 0x40000"
  shows "xg2010g_uenv_write_block sample_uenv buf d = (0, \<lambda>x. if 0 \<le> x \<and> x < 0x40000 then buf ! nat x else d x)"
proof -
  have w: "mtd_writesize sample_uenv = 0x40000" by (simp add: sample_uenv_def)
  have "uenv_write_pages sample_uenv buf 0 d' = (0, \<lambda>x. if 0 \<le> x \<and> x < 0x40000 then buf ! nat x else d' x)" for d'
    using assms by (simp add: uenv_write_pages.simps [of _ _ 0] uenv_write_pages.simps [of _ _ "0x40000"] w
        XG2010G_UENV_ERASE_SIZE_def sample_uenv_io(3))
  then show ?thesis by (simp add: xg2010g_uenv_write_block_def XG2010G_UENV_ERASE_SIZE_def sample_uenv_io(2) fun_eq_iff)
qed

lemma sample_uenv_lengths: "length sample_uenv_data = XG2010G_UENV_DATA_SIZE" "length sample_uenv_image = 0x40000"
  by (simp_all add: sample_uenv_image_def sample_uenv_data_def XG2010G_UENV_DATA_SIZE_def XG2010G_UENV_SIZE_def trigger_entry_def chars_def)

lemma sample_uenv_entries: "env_entries sample_uenv_data = Some [trigger_entry]"
  unfolding sample_uenv_data_def
  by (rule env_entries_text) (simp_all add: entry_ok_def trigger_entry_def chars_def XG2010G_UENV_DATA_SIZE_def XG2010G_UENV_SIZE_def)

lemma sample_uenv_consume: "\<exists>d. uenv_consume 0x1000 sample_uenv sample_uenv_flash = (0, True, d)"
proof -
  note len = sample_uenv_lengths
  have v: "view (\<lambda>d. d) sample_uenv_flash 0 0x40000 = sample_uenv_image"
    by (rule view_list) (simp_all add: len sample_uenv_flash_def)
  have dt: "take XG2010G_UENV_DATA_SIZE (drop 4 sample_uenv_image) = sample_uenv_data"
    using len(1) by (simp add: sample_uenv_image_def)
  have crc: "load_crc sample_uenv_image = crc_ref sample_uenv_data" by (simp add: sample_uenv_image_def load_store_le32)
  obtain data where sc: "uenv_scan 0 0 False sample_uenv_data = (0, 0, True, data)" and dl: "length data = XG2010G_UENV_DATA_SIZE"
    using uenv_scan_filter [of 0 0 sample_uenv_data False] len(1) by (auto simp: sample_uenv_entries)
  let ?blk = "uenv_seal 0x1000 0 data sample_uenv_image"
  have bl: "length ?blk = 0x40000" using uenv_seal_length [of data 0 sample_uenv_image] dl len by (simp add: XG2010G_UENV_SIZE_def)
  let ?d = "\<lambda>x. if 0 \<le> x \<and> x < 0x40000 then ?blk ! nat x else sample_uenv_flash x"
  have "view (\<lambda>d. d) ?d 0 XG2010G_UENV_SIZE = take XG2010G_UENV_SIZE ?blk"
    by (rule view_list) (simp_all add: bl XG2010G_UENV_SIZE_def)
  then have vf: "uenv_verify sample_uenv ?blk ?d = (0, ?d)"
    by (simp add: uenv_verify_def sample_uenv_io(1) XG2010G_UENV_SIZE_def bl)
  have r: "mtd_read sample_uenv 0 XG2010G_UENV_ERASE_SIZE sample_uenv_flash = ((0, sample_uenv_image), sample_uenv_flash)"
    by (simp add: sample_uenv_io(1) XG2010G_UENV_ERASE_SIZE_def v)
  have "uenv_consume 0x1000 sample_uenv sample_uenv_flash = (0, True, ?d)"
    unfolding uenv_consume_def r prod.case Let_def dt crc crc32_bits sc sample_uenv_write [OF bl] vf
    by (simp add: len(2) XG2010G_UENV_ERASE_SIZE_def)
  then show ?thesis by blast
qed

theorem uenv_trigger_consumed_witness:
  "\<exists>w'. xg2010g_uenv_consume_recovery_trigger sample_uenv_board (Some 0x1000)
      (initial_world Map.empty (\<lambda>_. 0) sample_uenv_flash ()) = (0, True, w') \<and>
    env_stored (view (\<lambda>d. d) (dev w') 0 XG2010G_UENV_SIZE) = Some []"
proof -
  let ?w = "initial_world Map.empty (\<lambda>_. 0) sample_uenv_flash ()"
  have nm: "get_mtd_device_nm (brd_of_dev sample_uenv_board) (brd_mtds sample_uenv_board) ''uenv'' = Inr sample_uenv"
    by (simp add: get_mtd_device_nm_def mtd_device_matches_name_def sample_uenv_board_def sample_board_def sample_uenv_def sample_part_def ram_chip_def)
  have "\<exists>w'. xg2010g_uenv_consume_recovery_trigger sample_uenv_board (Some 0x1000) ?w = (0, True, w')"
    using sample_uenv_consume by (auto simp: xg2010g_uenv_consume_recovery_trigger_def get_mtd_def nm initial_world_def
        sample_uenv_def sample_part_def XG2010G_UENV_ERASE_SIZE_def)
  then obtain w' where run: "xg2010g_uenv_consume_recovery_trigger sample_uenv_board (Some 0x1000) ?w = (0, True, w')" by blast
  have "\<forall>m\<in>set (brd_mtds sample_uenv_board). driver_ok (\<lambda>d. d) m" using sample_uenv_ok by (simp add: sample_uenv_board_def)
  from uenv_trigger_consumed [OF this run]
  have o: "uenv_outcome (\<lambda>d. d) sample_uenv 0 True sample_uenv_flash (dev w')" by (simp add: nm initial_world_def)
  have "env_stored (view (\<lambda>d. d) sample_uenv_flash 0 XG2010G_UENV_SIZE) = Some [trigger_entry]"
  proof -
    have "view (\<lambda>d. d) sample_uenv_flash 0 XG2010G_UENV_SIZE = take XG2010G_UENV_SIZE sample_uenv_image"
      by (rule view_list) (simp_all add: sample_uenv_lengths sample_uenv_flash_def XG2010G_UENV_SIZE_def)
    then show ?thesis using env_stored_take [of sample_uenv_image] env_stored_sealed [OF sample_uenv_lengths(1)] sample_uenv_entries
      by (simp add: sample_uenv_lengths(2) XG2010G_UENV_SIZE_def sample_uenv_image_def)
  qed
  then show ?thesis using run o by (auto simp: uenv_outcome_def Let_def sample_uenv_def sample_part_def)
qed

end
