(* ===== verification/Dsd.thy ===== *)
theory Dsd
  imports Uenv
begin

text \<open>
  The factory addresses (\<^verbatim>\<open>board/airoha/an7581/an7581_rfb.c\<close>): the text at the start of the calibration
  partition \<^verbatim>\<open>dsd\<close>, the search for a variable in it, and Ethernet addresses in text
  (\<^verbatim>\<open>lib/net_utils.c\<close>, \<^verbatim>\<open>lib/vsprintf.c\<close>, \<^verbatim>\<open>env/common.c\<close>). The lemmas relate the search to splitting the
  text into lines and show that printing and parsing an address are inverse.
\<close>

section \<open>Ethernet addresses\<close>

text \<open>\<^verbatim>\<open>sizeof(lan_str)\<close>: \<^verbatim>\<open>ARP_HLEN_ASCII\<close> and a NUL.\<close>

definition ARP_HLEN :: nat where "ARP_HLEN = 6"
definition ARP_HLEN_ASCII :: nat where "ARP_HLEN_ASCII = ARP_HLEN * 2 + (ARP_HLEN - 1)"

definition is_zero_ethaddr :: "bytes \<Rightarrow> bool" where
  "is_zero_ethaddr a = (a ! 0 OR a ! 1 OR a ! 2 OR a ! 3 OR a ! 4 OR a ! 5 = 0)"

definition is_multicast_ethaddr :: "bytes \<Rightarrow> bool" where
  "is_multicast_ethaddr a = (1 AND a ! 0 \<noteq> 0)"

definition is_valid_ethaddr :: "bytes \<Rightarrow> bool" where
  "is_valid_ethaddr a = (\<not> is_multicast_ethaddr a \<and> \<not> is_zero_ethaddr a)"

text \<open>The parser: one hexadecimal number per byte, cut to eight bits, with any one character between two.\<close>

fun enetaddr_parts :: "nat \<Rightarrow> string \<Rightarrow> bytes" where
  "enetaddr_parts 0 s = []"
| "enetaddr_parts (Suc n) s =
    (let (v, rest) = hextoul s in ucast v # enetaddr_parts n (case rest of [] \<Rightarrow> [] | c # cs \<Rightarrow> cs))"

definition string_to_enetaddr :: "string option \<Rightarrow> bytes" where
  "string_to_enetaddr addr = (case addr of None \<Rightarrow> replicate 6 0 | Some s \<Rightarrow> enetaddr_parts 6 s)"

text \<open>\<^verbatim>\<open>%pM\<close>.\<close>

definition hex_asc :: string where
  "hex_asc = ''0123456789abcdef''"

definition hex_byte_pack :: "u8 \<Rightarrow> string" where
  "hex_byte_pack b = [hex_asc ! unat (drop_bit 4 b), hex_asc ! unat (b AND 15)]"

fun mac_address_string :: "bytes \<Rightarrow> string" where
  "mac_address_string [] = []"
| "mac_address_string [b] = hex_byte_pack b"
| "mac_address_string (b # bs) = hex_byte_pack b @ CHR '':'' # mac_address_string bs"

section \<open>The calibration partition\<close>

definition XG2010G_DSD_ENV_SIZE :: nat where "XG2010G_DSD_ENV_SIZE = 0x1000"

definition xg2010g_read_dsd_data ::
    "'d board \<Rightarrow> nat \<Rightarrow> nat \<Rightarrow> ('d, 'x) world \<Rightarrow> (int \<times> bytes) \<times> ('d, 'x) world" where
  "xg2010g_read_dsd_data b offset n w =
    (case get_mtd b ''dsd'' w of
       (Inl err, w) \<Rightarrow> ((err, []), w)
     | (Inr mtd, w) \<Rightarrow>
         let ((ret, buf), d) = mtd_read mtd (int offset) n (dev w);
             w = put_mtd_device mtd (w\<lparr>dev := d\<rparr>) in
         if ret \<noteq> 0 then ((ret, buf), w)
         else if length buf \<noteq> n then ((-EIO, buf), w)
         else ((0, buf), w))"

text \<open>
  The search through the lines, from the current line on. The value is cut to what fits before the NUL
  and loses its trailing carriage returns.
\<close>

function dsd_scan :: "bytes \<Rightarrow> nat \<Rightarrow> bytes \<Rightarrow> int + bytes" where
  "dsd_scan key value_len cur =
    (if cur = [] then Inl (-ENOENT)
     else
       let line = takeWhile (\<lambda>c. c \<noteq> 10) cur in
       if length key < length line \<and> take (length key) cur = key then
         let copy_len = length line - length key;
             copy_len = (if value_len \<le> copy_len then value_len - 1 else copy_len);
             value = take copy_len (drop (length key) cur) in
         Inr (rev (dropWhile (\<lambda>c. c = 13) (rev value)))
       else if length line = length cur then Inl (-ENOENT)
       else dsd_scan key value_len (drop (length line + 1) cur))"
  by auto
termination by (relation "measure (\<lambda>(key, n, cur). length cur)") auto

declare dsd_scan.simps [simp del]

definition xg2010g_dsd_get_var :: "bytes \<Rightarrow> string \<Rightarrow> nat \<Rightarrow> int + bytes" where
  "xg2010g_dsd_get_var buf key value_len =
    (if value_len = 0 then Inl (-EINVAL) else dsd_scan (chars key) value_len buf)"

text \<open>The C string in a character array.\<close>

definition c_string :: "bytes \<Rightarrow> string" where
  "c_string bs = map (\<lambda>b. char_of (unat b)) (takeWhile (\<lambda>c. c \<noteq> 0) bs)"

text \<open>\<open>mem_ok\<close> says whether the allocation succeeds. The results are the LAN and the WAN address.\<close>

definition xg2010g_get_dsd_ethaddrs ::
    "'d board \<Rightarrow> bool \<Rightarrow> ('d, 'x) world \<Rightarrow> (int + bytes \<times> bytes) \<times> ('d, 'x) world" where
  "xg2010g_get_dsd_ethaddrs b mem_ok w =
    (if \<not> mem_ok then (Inl (-ENOMEM), w)
     else
       let ((ret, buf), w) = xg2010g_read_dsd_data b 0 XG2010G_DSD_ENV_SIZE w in
       if ret \<noteq> 0 then (Inl ret, w)
       else case xg2010g_dsd_get_var buf ''lan_mac='' (ARP_HLEN_ASCII + 1) of
         Inl ret \<Rightarrow> (Inl ret, w)
       | Inr lan_str \<Rightarrow>
           (case xg2010g_dsd_get_var buf ''wan_mac='' (ARP_HLEN_ASCII + 1) of
              Inl ret \<Rightarrow> (Inl ret, w)
            | Inr wan_str \<Rightarrow>
                let lan_mac = string_to_enetaddr (Some (c_string lan_str));
                    wan_mac = string_to_enetaddr (Some (c_string wan_str)) in
                if \<not> is_valid_ethaddr lan_mac \<or> \<not> is_valid_ethaddr wan_mac then (Inl (-EINVAL), w)
                else (Inr (lan_mac, wan_mac), w)))"

definition xg2010g_get_dsd_recovery_ethaddr ::
    "'d board \<Rightarrow> bool \<Rightarrow> ('d, 'x) world \<Rightarrow> (int + bytes) \<times> ('d, 'x) world" where
  "xg2010g_get_dsd_recovery_ethaddr b mem_ok w =
    (if \<not> mem_ok then (Inl (-ENOMEM), w)
     else
       let ((ret, buf), w) = xg2010g_read_dsd_data b 0 XG2010G_DSD_ENV_SIZE w in
       if ret \<noteq> 0 then (Inl ret, w)
       else
         let v = xg2010g_dsd_get_var buf ''lan_mac='' (ARP_HLEN_ASCII + 1);
             v = (case v of Inl _ \<Rightarrow> xg2010g_dsd_get_var buf ''wan_mac='' (ARP_HLEN_ASCII + 1) | Inr s \<Rightarrow> Inr s) in
         case v of
           Inl ret \<Rightarrow> (Inl ret, w)
         | Inr mac_str \<Rightarrow>
             let mac = string_to_enetaddr (Some (c_string mac_str)) in
             if \<not> is_valid_ethaddr mac then (Inl (-EINVAL), w) else (Inr mac, w))"

section \<open>The recovery address\<close>

definition eth_env_get_enetaddr :: "(string \<Rightarrow> string option) \<Rightarrow> string \<Rightarrow> bool \<times> bytes" where
  "eth_env_get_enetaddr e name = (let a = string_to_enetaddr (e name) in (is_valid_ethaddr a, a))"

definition xg2010g_get_runtime_ethaddr ::
    "'d board \<Rightarrow> bool \<Rightarrow> ('d, 'x) world \<Rightarrow> (int + bytes) \<times> ('d, 'x) world" where
  "xg2010g_get_runtime_ethaddr b mem_ok w =
    (case xg2010g_get_dsd_recovery_ethaddr b mem_ok w of
       (Inr mac, w) \<Rightarrow> (Inr mac, w)
     | (Inl ret, w) \<Rightarrow>
         let (ok, mac) = eth_env_get_enetaddr (env w) ''ethaddr'' in
         if ok \<and> is_valid_ethaddr mac then (Inr mac, w)
         else
           let (ok, mac) = eth_env_get_enetaddr (env w) ''eth1addr'' in
           if ok \<and> is_valid_ethaddr mac then (Inr mac, w)
           else (Inl ret, w))"

section \<open>Reference definitions\<close>

fun split_on :: "u8 \<Rightarrow> bytes \<Rightarrow> bytes list" where
  "split_on c [] = [[]]"
| "split_on c (x # xs) =
    (if x = c then [] # split_on c xs else (case split_on c xs of [] \<Rightarrow> [[x]] | l # ls \<Rightarrow> (x # l) # ls))"

text \<open>The value of the first line that starts with the key and has something behind it.\<close>

definition dsd_value :: "bytes \<Rightarrow> string \<Rightarrow> bytes option" where
  "dsd_value buf key =
    map_option (drop (length key))
      (find (\<lambda>l. length key < length l \<and> take (length key) l = chars key) (split_on 10 buf))"

text \<open>What the board makes of such a value.\<close>

definition value_mac :: "bytes \<Rightarrow> bytes" where
  "value_mac v = string_to_enetaddr (Some (c_string (rev (dropWhile (\<lambda>c. c = 13) (rev (take ARP_HLEN_ASCII v))))))"

section \<open>Lines\<close>

lemma split_on_line:
  "split_on c xs = (let l = takeWhile (\<lambda>x. x \<noteq> c) xs in
     if length l = length xs then [l] else l # split_on c (drop (length l + 1) xs))"
proof (induction xs)
  case (Cons x xs)
  have "split_on c xs \<noteq> []" by (cases xs) (auto split: list.splits)
  then show ?case using Cons by (auto simp: Let_def split: list.splits)
qed simp

lemma dsd_scan_find:
  assumes "0 < n"
  shows "dsd_scan key n buf =
    (case find (\<lambda>l. length key < length l \<and> take (length key) l = key) (split_on 10 buf) of
       None \<Rightarrow> Inl (-ENOENT)
     | Some l \<Rightarrow> Inr (rev (dropWhile (\<lambda>c. c = 13) (rev (take (n - 1) (drop (length key) l))))))"
  using assms
proof (induction key n buf rule: dsd_scan.induct)
  case (1 key n cur)
  let ?l = "takeWhile (\<lambda>c. c \<noteq> 10) cur" and ?k = "length key"
  have sp: "split_on 10 cur = (if length ?l = length cur then [?l] else ?l # split_on 10 (drop (length ?l + 1) cur))"
    unfolding Let_def by (subst split_on_line) (simp add: Let_def)
  have l: "?l = take (length ?l) cur" by (metis takeWhile_eq_take)
  show ?case
  proof (cases "cur = []")
    case True
    then show ?thesis by (simp add: dsd_scan.simps [of key n "[]"])
  next
    case ne: False
    have t: "take ?k cur = take ?k ?l" if "?k < length ?l" using that by (subst l) (simp add: min_def)
    show ?thesis
    proof (cases "?k < length ?l \<and> take ?k cur = key")
      case True
      let ?c = "if n \<le> length ?l - ?k then n - 1 else length ?l - ?k"
      have "take ?c (drop ?k cur) = take (n - 1) (drop ?k ?l)"
      proof -
        have "drop ?k ?l = take (length ?l - ?k) (drop ?k cur)" by (metis l drop_take)
        moreover have "n - 1 = length ?l - ?k \<or> n \<le> length ?l - ?k \<or> length ?l - ?k < n - 1" by linarith
        ultimately show ?thesis by (auto simp: min_def)
      qed
      then show ?thesis using True t ne by (simp add: dsd_scan.simps [of key n cur] sp Let_def)
    next
      case no: False
      show ?thesis
      proof (cases "length ?l = length cur")
        case True
        then show ?thesis using no t ne by (auto simp: dsd_scan.simps [of key n cur] sp Let_def)
      next
        case False
        then have "dsd_scan key n cur = dsd_scan key n (drop (length ?l + 1) cur)"
          using no ne by (auto simp: dsd_scan.simps [of key n cur] Let_def)
        moreover have "find (\<lambda>l. ?k < length l \<and> take ?k l = key) (split_on 10 cur) =
            find (\<lambda>l. ?k < length l \<and> take ?k l = key) (split_on 10 (drop (length ?l + 1) cur))"
          using no t False by (auto simp: sp)
        moreover note "1.IH" [OF ne refl no False "1.prems"]
        ultimately show ?thesis by simp
      qed
    qed
  qed
qed

lemma length_chars [simp]: "length (chars s) = length s"
  by (simp add: chars_def)

lemma dsd_get_var_value:
  "xg2010g_dsd_get_var buf k (ARP_HLEN_ASCII + 1) =
    (case dsd_value buf k of
       None \<Rightarrow> Inl (-ENOENT)
     | Some v \<Rightarrow> Inr (rev (dropWhile (\<lambda>c. c = 13) (rev (take ARP_HLEN_ASCII v)))))"
  using dsd_scan_find [of "ARP_HLEN_ASCII + 1" "chars k" buf]
  by (simp add: xg2010g_dsd_get_var_def dsd_value_def split: option.splits)

section \<open>Addresses in text\<close>

lemma hex_asc_digits:
  "\<forall>k\<in>set [0..<16]. decode_digit (hex_asc ! k) = k \<and> hex_asc ! k \<notin> {CHR ''x'', CHR ''X'', CHR 0x0d, CHR 0x00}"
  by code_simp

lemma of_char_u8: "unat (of_char c :: u8) = of_char c"
  unfolding of_nat_of_char [symmetric, where 'a = u8] by (rule unat_of_nat_small) (use nat_of_char_less_256 [of c] in simp)

lemma of_char_u8_eq: "of_char c = (of_char d :: u8) \<longleftrightarrow> c = d"
  by (metis of_char_u8 of_char_eq_iff)

lemma hex_asc_digit:
  assumes "k < 16"
  shows "decode_digit (hex_asc ! k) = k" "hex_asc ! k \<noteq> CHR ''x''" "hex_asc ! k \<noteq> CHR ''X''"
    "of_char (hex_asc ! k) \<noteq> (13 :: u8)" "of_char (hex_asc ! k) \<noteq> (0 :: u8)"
proof -
  have h: "decode_digit (hex_asc ! k) = k \<and> hex_asc ! k \<notin> {CHR ''x'', CHR ''X'', CHR 0x0d, CHR 0x00}"
    using assms hex_asc_digits by simp
  then show "decode_digit (hex_asc ! k) = k" "hex_asc ! k \<noteq> CHR ''x''" "hex_asc ! k \<noteq> CHR ''X''" by simp_all
  show "of_char (hex_asc ! k) \<noteq> (13 :: u8)" using h of_char_u8_eq [of "hex_asc ! k" "CHR 0x0d"] by simp
  show "of_char (hex_asc ! k) \<noteq> (0 :: u8)" using h of_char_u8_eq [of "hex_asc ! k" "CHR 0x00"] by simp
qed

lemma nibbles: "unat (drop_bit 4 b) < 16" "unat (b AND 15) < 16" "unat (drop_bit 4 b) * 16 + unat (b AND 15) = unat b" for b :: u8
proof -
  have d: "unat (drop_bit 4 b) = unat b div 16" by (simp add: drop_bit_eq_div unat_div_distrib)
  have "b AND 15 = take_bit 4 b" by (simp add: take_bit_eq_mask mask_eq_exp_minus_1)
  then have a: "unat (b AND 15) = unat b mod 16" by (simp only: unsigned_take_bit_eq) (simp add: take_bit_eq_mod)
  show "unat (drop_bit 4 b) < 16" using unat_u8_less [of b] d by simp
  show "unat (b AND 15) < 16" "unat (drop_bit 4 b) * 16 + unat (b AND 15) = unat b" using a d by simp_all
qed

lemma hextoul_pack:
  assumes "r = [] \<or> \<not> decode_digit (hd r) < 16"
  shows "hextoul (hex_byte_pack b @ r) = (ucast b, r)"
proof -
  let ?h = "hex_asc ! unat (drop_bit 4 b)" and ?l = "hex_asc ! unat (b AND 15)"
  note hx = hex_asc_digit [OF nibbles(1) [of b]] and lx = hex_asc_digit [OF nibbles(2) [of b]]
  have "hextoul (?h # ?l # r) = hex_digits (?h # ?l # r) 0" using lx by (auto simp: hextoul_def split: char.split bool.split)
  moreover have "hex_digits r v = (v, r)" for v using assms by (cases r) auto
  moreover have "(of_nat (unat (drop_bit 4 b)) * 16 + of_nat (unat (b AND 15)) :: u64) = of_nat (unat b)"
    using arg_cong [OF nibbles(3) [of b], of "of_nat :: nat \<Rightarrow> u64"] by simp
  ultimately show ?thesis using hx lx nibbles [of b] by (simp add: hex_byte_pack_def)
qed

lemma u8_u64_u8: "ucast (ucast b :: u64) = (b :: u8)"
  by (rule bit_eqI) (auto simp: bit_simps)

lemma enetaddr_parts_text: "enetaddr_parts (length mac) (mac_address_string mac) = mac"
proof (induction mac rule: mac_address_string.induct)
  case (2 b)
  show ?case using hextoul_pack [of "[]" b] by (simp add: u8_u64_u8)
next
  case (3 b c bs)
  have "\<not> decode_digit (CHR '':'') < 16" by (simp add: decode_digit_def isxdigit_def Let_def)
  then show ?case using 3 hextoul_pack [of "CHR '':'' # mac_address_string (c # bs)" b] by (simp add: u8_u64_u8)
qed simp

lemma mac_text_chars:
  assumes "length mac = 6"
  shows "length (mac_address_string mac) = 17" "(0 :: u8) \<notin> set (chars (mac_address_string mac))"
    "last (chars (mac_address_string mac)) \<noteq> 13"
proof -
  obtain a b c d e f where m: "mac = [a, b, c, d, e, f]" using assms by (auto simp: eval_nat_numeral length_Suc_conv)
  have h: "of_char (hex_asc ! unat (drop_bit 4 x)) \<noteq> (0 :: u8)" "of_char (hex_asc ! unat (x AND 15)) \<noteq> (0 :: u8)"
    "of_char (hex_asc ! unat (x AND 15)) \<noteq> (13 :: u8)" for x :: u8
    by (simp_all add: hex_asc_digit nibbles del: of_char_eq_iff)
  show "length (mac_address_string mac) = 17" by (simp add: m hex_byte_pack_def)
  have "list_all (\<lambda>c. c \<noteq> (0 :: u8)) (chars (mac_address_string mac))" by (simp add: m hex_byte_pack_def chars_def h)
  then show "(0 :: u8) \<notin> set (chars (mac_address_string mac))" by (auto simp: list_all_iff)
  show "last (chars (mac_address_string mac)) \<noteq> 13" using h by (simp add: m hex_byte_pack_def chars_def)
qed

lemma c_string_chars: "0 \<notin> set (chars s) \<Longrightarrow> c_string (chars s) = s"
proof -
  assume "0 \<notin> set (chars s)"
  then have "takeWhile (\<lambda>c. c \<noteq> 0) (chars s) = chars s" by (auto simp: takeWhile_eq_all_conv)
  moreover have "char_of (unat (of_char c :: u8)) = c" for c
    by (simp add: of_char_u8)
  ultimately show ?thesis unfolding c_string_def by (simp only: chars_def map_map comp_def list.map_ident)
qed

lemma value_mac_text:
  assumes "length mac = 6"
  shows "value_mac (chars (mac_address_string mac) @ v) = mac"
proof -
  note m = mac_text_chars [OF assms]
  let ?t = "chars (mac_address_string mac)"
  have "take ARP_HLEN_ASCII (?t @ v) = ?t" using m(1) by (simp add: ARP_HLEN_ASCII_def ARP_HLEN_def)
  moreover have "dropWhile (\<lambda>c. c = 13) (rev ?t) = rev ?t"
    using m(1,3) by (cases ?t rule: rev_cases) auto
  ultimately show ?thesis using enetaddr_parts_text [of mac] assms c_string_chars [OF m(2)]
    by (simp add: value_mac_def string_to_enetaddr_def)
qed

section \<open>Reading the addresses\<close>

lemma read_dsd_spec:
  assumes ok: "\<forall>m\<in>set (brd_mtds b). driver_ok content m"
    and run: "xg2010g_read_dsd_data b ofs n w = ((ret, buf), w')"
  shows "keeps w w' \<and> ubi w' = ubi w \<and> content (dev w') = content (dev w)"
    "ret = 0 \<Longrightarrow> \<exists>m. get_mtd_device_nm (brd_of_dev b) (brd_mtds b) ''dsd'' = Inr m \<and>
        buf = view content (dev w) (int (mtd_offset m) + int ofs) n"
proof -
  obtain r w1 where g: "get_mtd b ''dsd'' w = (r, w1)" by (metis prod.exhaust)
  have nz: "e \<noteq> 0" if "r = Inl e" for e
    using that g by (auto simp: get_mtd_def get_mtd_device_nm_def Let_def split: sum.splits list.splits if_splits)
  from g have "(keeps w w' \<and> ubi w' = ubi w \<and> content (dev w') = content (dev w)) \<and> (ret = 0 \<longrightarrow>
      (\<exists>m. get_mtd_device_nm (brd_of_dev b) (brd_mtds b) ''dsd'' = Inr m \<and> buf = view content (dev w) (int (mtd_offset m) + int ofs) n))"
  proof (cases rule: get_mtd_cases)
    case (1 e)
    then show ?thesis using run g nz by (auto simp: xg2010g_read_dsd_data_def)
  next
    case (2 m)
    obtain r2 bf d where rd0: "mtd_read m (int ofs) n (dev w1) = ((r2, bf), d)" by (metis prod.exhaust)
    have e: "buf = bf" "w' = put_mtd_device m (w1\<lparr>dev := d\<rparr>)" "ret = 0 \<Longrightarrow> r2 = 0 \<and> length bf = n"
      using run g 2(1) rd0 by (auto simp: xg2010g_read_dsd_data_def Let_def split: if_splits)
    note ok1 = bspec [OF ok 2(6)]
    have "content d = content (dev w)" using mtdcore.read_same [OF ok1 rd0] 2(3) by simp
    moreover have "buf = view content (dev w) (int (mtd_offset m) + int ofs) n" if "ret = 0"
      using mtdcore.read_data [OF ok1 rd0] e that 2(3) by simp
    moreover have "get_mtd_device_nm (brd_of_dev b) (brd_mtds b) ''dsd'' = Inr m"
      using g 2 by (auto simp: get_mtd_def split: sum.splits)
    moreover have "keeps w w'" "ubi w' = ubi w" "dev w' = d" using e(2) 2 by (auto simp: keeps_def put_refs fun_eq_iff)
    ultimately show ?thesis by auto
  qed
  then show "keeps w w' \<and> ubi w' = ubi w \<and> content (dev w') = content (dev w)"
    "ret = 0 \<Longrightarrow> \<exists>m. get_mtd_device_nm (brd_of_dev b) (brd_mtds b) ''dsd'' = Inr m \<and>
        buf = view content (dev w) (int (mtd_offset m) + int ofs) n" by blast+
qed

lemma read_dsd_keeps: "xg2010g_read_dsd_data b ofs n w = (r, w') \<Longrightarrow> keeps w w' \<and> ubi w' = ubi w"
proof -
  assume run: "xg2010g_read_dsd_data b ofs n w = (r, w')"
  obtain g w1 where g: "get_mtd b ''dsd'' w = (g, w1)" by (metis prod.exhaust)
  from g show ?thesis
  proof (cases rule: get_mtd_cases)
    case (1 e)
    then show ?thesis using run g by (auto simp: xg2010g_read_dsd_data_def)
  next
    case (2 m)
    then have "\<exists>d. w' = put_mtd_device m (w1\<lparr>dev := d\<rparr>)"
      using run g by (auto simp: xg2010g_read_dsd_data_def Let_def split: if_splits prod.splits)
    then show ?thesis using 2 by (auto simp: keeps_def put_refs fun_eq_iff)
  qed
qed

lemma dsd_ethaddrs_keeps: "xg2010g_get_dsd_ethaddrs b mem_ok w = (r, w') \<Longrightarrow> keeps w w' \<and> ubi w' = ubi w"
  using read_dsd_keeps [of b 0 XG2010G_DSD_ENV_SIZE w]
  by (auto simp: xg2010g_get_dsd_ethaddrs_def Let_def split: if_splits sum.splits prod.splits)

lemma dsd_recovery_ethaddr_keeps: "xg2010g_get_dsd_recovery_ethaddr b mem_ok w = (r, w') \<Longrightarrow> keeps w w' \<and> ubi w' = ubi w"
  using read_dsd_keeps [of b 0 XG2010G_DSD_ENV_SIZE w]
  by (auto simp: xg2010g_get_dsd_recovery_ethaddr_def Let_def split: if_splits sum.splits prod.splits)

lemma length_enetaddr: "length (enetaddr_parts n s) = n"
  by (induction n arbitrary: s) (auto split: prod.splits)

lemma length_value_mac: "length (value_mac v) = 6"
  by (simp add: value_mac_def string_to_enetaddr_def length_enetaddr)

lemma dsd_ethaddrs_values:
  assumes "xg2010g_get_dsd_ethaddrs b mem_ok w = (Inr (lan, wan), w')"
    and "xg2010g_read_dsd_data b 0 XG2010G_DSD_ENV_SIZE w = ((ret, buf), w1)"
  shows "w' = w1 \<and> ret = 0 \<and> is_valid_ethaddr lan \<and> is_valid_ethaddr wan \<and>
    (\<exists>v. dsd_value buf ''lan_mac='' = Some v \<and> lan = value_mac v) \<and>
    (\<exists>v. dsd_value buf ''wan_mac='' = Some v \<and> wan = value_mac v)"
  using assms unfolding xg2010g_get_dsd_ethaddrs_def dsd_get_var_value Let_def value_mac_def
  by (auto split: if_splits option.splits)

lemma dsd_ethaddrs_found:
  assumes "xg2010g_read_dsd_data b 0 XG2010G_DSD_ENV_SIZE w = ((0, buf), w1)"
    and "dsd_value buf ''lan_mac='' = Some v" "dsd_value buf ''wan_mac='' = Some v'"
    and "is_valid_ethaddr (value_mac v)" "is_valid_ethaddr (value_mac v')"
  shows "xg2010g_get_dsd_ethaddrs b True w = (Inr (value_mac v, value_mac v'), w1)"
  using assms(4,5) unfolding xg2010g_get_dsd_ethaddrs_def dsd_get_var_value Let_def assms(1) value_mac_def by (simp add: assms(2,3))

text \<open>
  C19: reading the factory addresses changes no byte of the flash and drops the reference it takes; when it
  succeeds, both addresses are valid and are what the first line of the partition's text that starts
  with \<^verbatim>\<open>lan_mac=\<close> (or \<^verbatim>\<open>wan_mac=\<close>) and has a value says. A value that starts with an address in the
  usual notation gives exactly that address, whatever follows it on the line.
\<close>

theorem dsd_ethaddrs_exact:
  assumes ok: "\<forall>m\<in>set (brd_mtds b). driver_ok content m"
    and run: "xg2010g_get_dsd_ethaddrs b mem_ok w = (r, w')"
  shows "keeps w w' \<and> ubi w' = ubi w \<and> content (dev w') = content (dev w) \<and>
    (\<forall>lan wan. r = Inr (lan, wan) \<longrightarrow> is_valid_ethaddr lan \<and> is_valid_ethaddr wan \<and>
       (\<exists>m v v'. get_mtd_device_nm (brd_of_dev b) (brd_mtds b) ''dsd'' = Inr m \<and>
          dsd_value (view content (dev w) (int (mtd_offset m)) XG2010G_DSD_ENV_SIZE) ''lan_mac='' = Some v \<and> lan = value_mac v \<and>
          dsd_value (view content (dev w) (int (mtd_offset m)) XG2010G_DSD_ENV_SIZE) ''wan_mac='' = Some v' \<and> wan = value_mac v')) \<and>
    (\<forall>mac v. length mac = 6 \<longrightarrow> value_mac (chars (mac_address_string mac) @ v) = mac)"
proof -
  obtain ret buf w1 where rd0: "xg2010g_read_dsd_data b 0 XG2010G_DSD_ENV_SIZE w = ((ret, buf), w1)" by (metis prod.exhaust)
  note s = read_dsd_spec [OF ok rd0]
  have "content (dev w') = content (dev w)"
  proof (cases mem_ok)
    case True
    then have "w' = w1" using run rd0 by (auto simp: xg2010g_get_dsd_ethaddrs_def Let_def split: if_splits sum.splits)
    then show ?thesis using s(1) by simp
  qed (use run in \<open>simp add: xg2010g_get_dsd_ethaddrs_def\<close>)
  moreover have "is_valid_ethaddr lan \<and> is_valid_ethaddr wan \<and>
       (\<exists>m v v'. get_mtd_device_nm (brd_of_dev b) (brd_mtds b) ''dsd'' = Inr m \<and>
          dsd_value (view content (dev w) (int (mtd_offset m)) XG2010G_DSD_ENV_SIZE) ''lan_mac='' = Some v \<and> lan = value_mac v \<and>
          dsd_value (view content (dev w) (int (mtd_offset m)) XG2010G_DSD_ENV_SIZE) ''wan_mac='' = Some v' \<and> wan = value_mac v')"
    if "r = Inr (lan, wan)" for lan wan
    using dsd_ethaddrs_values [OF run [unfolded that] rd0] s(2) by auto
  ultimately show ?thesis using dsd_ethaddrs_keeps [OF run] value_mac_text by simp
qed

section \<open>An instance\<close>

definition sample_dsd_text :: bytes where
  "sample_dsd_text = chars ''lan_mac=00:11:22:33:44:55'' @ 10 # chars ''wan_mac=00:11:22:33:44:56'' @ [13, 10]"

definition sample_dsd_flash :: "int \<Rightarrow> u8" where
  "sample_dsd_flash x =
    (if 0x200000 \<le> x \<and> x < 0x200000 + 53 then sample_dsd_text ! nat (x - 0x200000) else 0xff)"

lemma split_on_append: "c \<notin> set l \<Longrightarrow> split_on c (l @ c # r) = l # split_on c r"
  by (induction l) auto

lemma sample_dsd_view:
  "view (\<lambda>d. d) sample_dsd_flash 0x200000 XG2010G_DSD_ENV_SIZE = sample_dsd_text @ replicate (0x1000 - 53) 0xff"
proof (rule view_list)
  have l: "length sample_dsd_text = 53" by (simp add: sample_dsd_text_def)
  show "length (sample_dsd_text @ replicate (0x1000 - 53) 0xff) = XG2010G_DSD_ENV_SIZE" by (simp add: l XG2010G_DSD_ENV_SIZE_def)
  fix i assume "i < XG2010G_DSD_ENV_SIZE"
  then show "sample_dsd_flash (0x200000 + int i) = (sample_dsd_text @ replicate (0x1000 - 53) 0xff) ! i"
    by (auto simp: sample_dsd_flash_def nth_append l XG2010G_DSD_ENV_SIZE_def)
qed

lemma sample_dsd_values:
  "dsd_value (sample_dsd_text @ r) ''lan_mac='' = Some (chars (mac_address_string [0, 0x11, 0x22, 0x33, 0x44, 0x55]))"
  "dsd_value (sample_dsd_text @ r) ''wan_mac='' = Some (chars (mac_address_string [0, 0x11, 0x22, 0x33, 0x44, 0x56]) @ [13])"
proof -
  define l1 l2 where "l1 = chars ''lan_mac=00:11:22:33:44:55''" and "l2 = chars ''wan_mac=00:11:22:33:44:56'' @ [13]"
  have t: "sample_dsd_text @ r = l1 @ 10 # l2 @ 10 # r" by (simp add: sample_dsd_text_def l1_def l2_def)
  have n: "(10 :: u8) \<notin> set l1" "(10 :: u8) \<notin> set l2" by (simp_all add: l1_def l2_def chars_def)
  have s: "split_on 10 (sample_dsd_text @ r) = l1 # l2 # split_on 10 r" unfolding t using n by (simp add: split_on_append)
  show "dsd_value (sample_dsd_text @ r) ''lan_mac='' = Some (chars (mac_address_string [0, 0x11, 0x22, 0x33, 0x44, 0x55]))"
    unfolding dsd_value_def s by (simp add: l1_def chars_def hex_byte_pack_def hex_asc_def)
  show "dsd_value (sample_dsd_text @ r) ''wan_mac='' = Some (chars (mac_address_string [0, 0x11, 0x22, 0x33, 0x44, 0x56]) @ [13])"
    unfolding dsd_value_def s by (simp add: l1_def l2_def chars_def hex_byte_pack_def hex_asc_def)
qed

theorem dsd_ethaddrs_exact_witness:
  "\<exists>w'. xg2010g_get_dsd_ethaddrs sample_board True (initial_world Map.empty (\<lambda>_. 0) sample_dsd_flash ()) =
      (Inr ([0, 0x11, 0x22, 0x33, 0x44, 0x55], [0, 0x11, 0x22, 0x33, 0x44, 0x56]), w') \<and>
    dev w' = sample_dsd_flash"
proof -
  let ?w = "initial_world Map.empty (\<lambda>_. 0) sample_dsd_flash ()"
  have ok: "\<forall>m\<in>set (brd_mtds sample_board). driver_ok (\<lambda>d. d) m" by (simp add: sample_board_def sample_part_ok)
  have "fst (xg2010g_read_dsd_data sample_board 0 XG2010G_DSD_ENV_SIZE ?w) =
      (0, view (\<lambda>d. d) sample_dsd_flash 0x200000 XG2010G_DSD_ENV_SIZE)"
    by (simp add: xg2010g_read_dsd_data_def get_mtd_sample mtd_read_def sample_part_def ram_chip_def part_read_def
        initial_world_def XG2010G_DSD_ENV_SIZE_def Let_def)
  then obtain w1 where r: "xg2010g_read_dsd_data sample_board 0 XG2010G_DSD_ENV_SIZE ?w =
      ((0, sample_dsd_text @ replicate (0x1000 - 53) 0xff), w1)"
    unfolding sample_dsd_view by (metis prod.collapse)
  have v: "value_mac (chars (mac_address_string [0, 0x11, 0x22, 0x33, 0x44, 0x55])) = [0, 0x11, 0x22, 0x33, 0x44, 0x55]"
    "value_mac (chars (mac_address_string [0, 0x11, 0x22, 0x33, 0x44, 0x56]) @ [13]) = [0, 0x11, 0x22, 0x33, 0x44, 0x56]"
    using value_mac_text [of "[0, 0x11, 0x22, 0x33, 0x44, 0x55]" "[]"] value_mac_text [of "[0, 0x11, 0x22, 0x33, 0x44, 0x56]" "[13]"] by simp_all
  have "is_valid_ethaddr [0, 0x11, 0x22, 0x33, 0x44, 0x55]" "is_valid_ethaddr [0, 0x11, 0x22, 0x33, 0x44, 0x56]"
    by (simp_all add: is_valid_ethaddr_def is_multicast_ethaddr_def is_zero_ethaddr_def)
  then have run: "xg2010g_get_dsd_ethaddrs sample_board True ?w =
      (Inr ([0, 0x11, 0x22, 0x33, 0x44, 0x55], [0, 0x11, 0x22, 0x33, 0x44, 0x56]), w1)"
    using dsd_ethaddrs_found [OF r sample_dsd_values] unfolding v by simp
  show ?thesis using dsd_ethaddrs_exact [OF ok run] run by (simp add: initial_world_def)
qed

end
