(* ===== verification/BoardUbi.thy ===== *)
theory BoardUbi
  imports MainLoop Dsd
begin

text \<open>
  The UBI side of the board file (\<^verbatim>\<open>board/airoha/an7581/an7581_rfb.c\<close>): the fixed layout, attaching and
  probing it, creating and growing volumes, and mirroring the factory addresses into the volume
  \<^verbatim>\<open>factory\<close> with \<^verbatim>\<open>ubi_volume_read\<close> and \<^verbatim>\<open>ubi_volume_write\<close> of \<^verbatim>\<open>cmd/ubi.c\<close>. These are the board operations
  that the recovery server calls; the lemmas show that they keep what the server relies on.
\<close>

section \<open>The layout\<close>

definition XG2010G_UBI_SIZE :: nat where "XG2010G_UBI_SIZE = 0x1b800000"
definition XG2010G_UBI_ERASE_SIZE :: nat where "XG2010G_UBI_ERASE_SIZE = 0x20000"
definition XG2010G_UBI_WRITE_SIZE :: nat where "XG2010G_UBI_WRITE_SIZE = 0x800"
definition XG2010G_UBI_OOB_SIZE :: nat where "XG2010G_UBI_OOB_SIZE = 0x80"
definition XG2010G_FACTORY_WAN_MAC_OFFSET :: nat where "XG2010G_FACTORY_WAN_MAC_OFFSET = 0x5000"
definition XG2010G_FACTORY_LAN_MAC_OFFSET :: nat where "XG2010G_FACTORY_LAN_MAC_OFFSET = 0x6000"
definition XG2010G_FACTORY_SIZE :: nat where "XG2010G_FACTORY_SIZE = XG2010G_FACTORY_LAN_MAC_OFFSET + ARP_HLEN"

record recovery_ubi_geometry =
  geo_size :: nat
  geo_erase_size :: nat
  geo_write_size :: nat
  geo_oob_size :: nat
  geo_ubi_part :: string
  geo_version :: string

definition xg2010g_ubi_geometry :: recovery_ubi_geometry where
  "xg2010g_ubi_geometry =
    \<lparr>geo_size = XG2010G_UBI_SIZE, geo_erase_size = XG2010G_UBI_ERASE_SIZE, geo_write_size = XG2010G_UBI_WRITE_SIZE,
     geo_oob_size = XG2010G_UBI_OOB_SIZE, geo_ubi_part = ''ubi'', geo_version = ''2.0''\<rparr>"

record xg2010g_ubi_layout =
  lay_version :: string
  lay_part :: string

definition xg2010g_ubi_layouts :: "xg2010g_ubi_layout list" where
  "xg2010g_ubi_layouts = [\<lparr>lay_version = geo_version xg2010g_ubi_geometry, lay_part = geo_ubi_part xg2010g_ubi_geometry\<rparr>]"

text \<open>The file-scope variables; the active layout is an entry of the table.\<close>

record ubi_probe =
  active_ubi_layout :: xg2010g_ubi_layout
  ubi_layout_probed :: bool
  ubi_layout_available :: bool

definition initial_probe :: ubi_probe where
  "initial_probe = \<lparr>active_ubi_layout = xg2010g_ubi_layouts ! 0, ubi_layout_probed = False, ubi_layout_available = False\<rparr>"

definition xg2010g_is_compatible :: "'d board \<Rightarrow> bool" where
  "xg2010g_is_compatible b =
    (brd_compat b ''naoki,xg2010g'' \<or> brd_compat b ''econet,xg2010g'' \<or> brd_compat b ''econet,xg2010g-ubi'' \<or>
     brd_compat b ''gemtek,xg2010g'' \<or> brd_compat b ''gemtek,xg2010g-ubi'' \<or> brd_compat b ''gemtek,xr1710g'' \<or>
     brd_compat b ''gemtek,xr1710g-ubi'' \<or> brd_compat b ''econet,xr1710g'' \<or> brd_compat b ''econet,xr1710g-ubi'')"

definition xg2010g_find_ubi_layout :: "string option \<Rightarrow> xg2010g_ubi_layout option" where
  "xg2010g_find_ubi_layout part =
    (case part of None \<Rightarrow> None | Some p \<Rightarrow> find (\<lambda>l. p = lay_part l) xg2010g_ubi_layouts)"

definition xg2010g_ubi_mtd_valid :: "'d mtd_info option \<Rightarrow> bool" where
  "xg2010g_ubi_mtd_valid mtd =
    (case mtd of
       None \<Rightarrow> False
     | Some m \<Rightarrow> mtd_size m = geo_size xg2010g_ubi_geometry \<and> mtd_erasesize m = geo_erase_size xg2010g_ubi_geometry \<and>
         mtd_writesize m = geo_write_size xg2010g_ubi_geometry \<and> mtd_oobsize m = geo_oob_size xg2010g_ubi_geometry)"

section \<open>Attaching\<close>

definition xg2010g_select_ubi :: "'d board \<Rightarrow> string option \<Rightarrow> ('d, 'x) world \<Rightarrow> int \<times> ('d, 'x) world" where
  "xg2010g_select_ubi b part w =
    (case part of
       None \<Rightarrow> (-EINVAL, w)
     | Some p \<Rightarrow>
         if xg2010g_find_ubi_layout part = None then (-EINVAL, w)
         else
           let selected = (case ubi w of Some u \<Rightarrow> ubi_mtd_name u = p | None \<Rightarrow> False) in
           if selected \<and> (case ubi w of Some u \<Rightarrow> \<not> xg2010g_ubi_mtd_valid (ubi_mtd b u) | None \<Rightarrow> False) then (-EINVAL, w)
           else if selected then (0, w)
           else
             let (ret, w) = ubi_part b p w in
             if ret \<noteq> 0 then (ret, w)
             else case ubi w of
               None \<Rightarrow> (-ENODEV, w)
             | Some u \<Rightarrow> (if ubi_mtd_name u = p \<and> xg2010g_ubi_mtd_valid (ubi_mtd b u) then 0 else -EINVAL, w))"

definition xg2010g_detect_ubi_part ::
    "'d board \<Rightarrow> ubi_probe \<Rightarrow> ('d, 'x) world \<Rightarrow> string \<times> ubi_probe \<times> ('d, 'x) world" where
  "xg2010g_detect_ubi_part b ps w =
    (if ubi_layout_probed ps then (lay_part (active_ubi_layout ps), ps, w)
     else
       let ps = \<lparr>active_ubi_layout = xg2010g_ubi_layouts ! 0, ubi_layout_probed = True, ubi_layout_available = False\<rparr>;
           part = lay_part (active_ubi_layout ps) in
       case get_mtd b ''ubi'' w of
         (Inl _, w) \<Rightarrow> (part, ps, w)
       | (Inr mtd, w) \<Rightarrow>
           if \<not> xg2010g_ubi_mtd_valid (Some mtd) then (part, ps, put_mtd_device mtd w)
           else
             let (ret, w) = xg2010g_select_ubi b (Some ''ubi'') (put_mtd_device mtd w) in
             if ret \<noteq> 0 then (part, ps, w)
             else case ubi_open_volume_nm (brd_low b) ''fit'' UBI_READONLY w of
               (Inl _, w) \<Rightarrow> (part, ps, w)
             | (Inr i, w) \<Rightarrow> (part, ps\<lparr>ubi_layout_available := True\<rparr>, ubi_close_volume i UBI_READONLY w))"

definition xg2010g_detect_ubi_version ::
    "'d board \<Rightarrow> ubi_probe \<Rightarrow> ('d, 'x) world \<Rightarrow> string \<times> ubi_probe \<times> ('d, 'x) world" where
  "xg2010g_detect_ubi_version b ps w =
    (let (_, ps, w) = xg2010g_detect_ubi_part b ps w in
     (if ubi_layout_available ps then lay_version (active_ubi_layout ps) else ''unformatted'', ps, w))"

definition env_ubi_get_part :: "'d board \<Rightarrow> ubi_probe \<Rightarrow> ('d, 'x) world \<Rightarrow> string \<times> ubi_probe \<times> ('d, 'x) world" where
  "env_ubi_get_part b ps w = xg2010g_detect_ubi_part b ps w"

section \<open>Volumes\<close>

definition xg2010g_create_ubi_volume :: "'d board \<Rightarrow> string \<Rightarrow> nat \<Rightarrow> ('d, 'x) world \<Rightarrow> int \<times> ('d, 'x) world" where
  "xg2010g_create_ubi_volume b name n w =
    (if name = [] then (-EINVAL, w)
     else case ubi w of
       None \<Rightarrow> (-ENODEV, w)
     | Some u \<Rightarrow>
         if length name > UBI_VOL_NAME_MAX then (-ENAMETOOLONG, w)
         else
           let (ret, u, d) = ubi_create_volume (brd_low b) (mkvol_req name n UBI_STATIC_VOLUME) u (dev w) in
           (ret, w\<lparr>ubi := Some u, dev := d\<rparr>))"

text \<open>The volume behind a descriptor.\<close>

definition desc_vol :: "nat \<Rightarrow> ('d, 'x) world \<Rightarrow> ubi_volume" where
  "desc_vol i w = (case ubi w of Some u \<Rightarrow> (case volumes u ! i of Some vol \<Rightarrow> vol | None \<Rightarrow> zero_volume) | None \<Rightarrow> zero_volume)"

definition xg2010g_resize_ubi_volume :: "'d board \<Rightarrow> string \<Rightarrow> nat \<Rightarrow> ('d, 'x) world \<Rightarrow> int \<times> ('d, 'x) world" where
  "xg2010g_resize_ubi_volume b name n w =
    (if name = [] then (-EINVAL, w)
     else case ubi_open_volume_nm (brd_low b) name UBI_EXCLUSIVE w of
       (Inl err, w) \<Rightarrow> (err, w)
     | (Inr i, w) \<Rightarrow>
         let usable = usable_leb_size (desc_vol i w);
             needed_pebs = (n + usable - 1) div usable;
             (ret, w) = ubi_resize_volume (brd_low b) (\<lambda>_ _ w. w) i (int needed_pebs) w in
         (ret, ubi_close_volume i UBI_EXCLUSIVE w))"

definition xg2010g_ensure_ubi_volume :: "'d board \<Rightarrow> string \<Rightarrow> nat \<Rightarrow> ('d, 'x) world \<Rightarrow> int \<times> ('d, 'x) world" where
  "xg2010g_ensure_ubi_volume b name n w =
    (if name = [] then (-EINVAL, w)
     else case ubi_open_volume_nm (brd_low b) name UBI_READWRITE w of
       (Inl _, w) \<Rightarrow> xg2010g_create_ubi_volume b name n w
     | (Inr i, w) \<Rightarrow>
         let cur_size = reserved_pebs (desc_vol i w) * int (usable_leb_size (desc_vol i w));
             w = ubi_close_volume i UBI_READWRITE w in
         if int n \<le> cur_size then (0, w) else xg2010g_resize_ubi_volume b name n w)"

section \<open>cmd/ubi.c\<close>

text \<open>
  \<open>eba_read\<close> is \<^verbatim>\<open>ubi_eba_read_leb\<close> without a check of the checksum: volume, logical eraseblock, offset and
  length; it returns a code and, when that is 0, as many bytes. The device is attached whenever these
  functions are called.
\<close>

type_synonym 'd eba_read = "nat \<Rightarrow> nat \<Rightarrow> nat \<Rightarrow> nat \<Rightarrow> 'd \<Rightarrow> (int \<times> bytes) \<times> 'd"

abbreviation (input) EBADF :: int where "EBADF \<equiv> 9"

definition ubi_find_volume :: "string \<Rightarrow> ('d, 'x) world \<Rightarrow> nat option" where
  "ubi_find_volume name w = (case ubi w of None \<Rightarrow> None | Some u \<Rightarrow> find_volume name (volumes u) 0)"

text \<open>
  The read loop: the code, the bytes still to read and the bytes read. A volume whose eraseblocks hold
  no data, with which the loop would not end, does not exist; the model stops there.
\<close>

function volume_read_loop ::
    "'d eba_read \<Rightarrow> nat \<Rightarrow> nat \<Rightarrow> nat \<Rightarrow> nat \<Rightarrow> nat \<Rightarrow> nat \<Rightarrow> 'd \<Rightarrow> int \<times> nat \<times> bytes \<times> 'd" where
  "volume_read_loop eba_read vid usable tbuf_size lnum off n d =
    (let len = min n tbuf_size;
         len = (if usable \<le> off + len then usable - off else len);
         ((err, tbuf), d) = eba_read vid lnum off len d in
     if err \<noteq> 0 then (err, n, [], d)
     else if n - len = 0 then (0, 0, take len tbuf, d)
     else if len = 0 then (0, n, [], d)
     else
       let (lnum, off) = (if off + len = usable then (lnum + 1, 0) else (lnum, off + len));
           (err, left, buf, d) = volume_read_loop eba_read vid usable tbuf_size lnum off (n - len) d in
       (err, left, take len tbuf @ buf, d))"
  by pat_completeness auto
termination by (relation "measure (\<lambda>(e, v, u, t, l, off, n, d). n)") auto

text \<open>
  \<^verbatim>\<open>ubi_volume_read\<close> at offset 0. \<open>dst\<close> is what the caller's buffer holds before; the bytes read replace
  its beginning. The environment variable \<^verbatim>\<open>filesize\<close> gets the length in hexadecimal, \<open>hexs\<close>.
\<close>

definition ubi_volume_read ::
    "'d eba_read \<Rightarrow> (nat \<Rightarrow> string) \<Rightarrow> bool \<Rightarrow> string \<Rightarrow> nat \<Rightarrow> bytes \<Rightarrow> ('d, 'x) world \<Rightarrow> int \<times> bytes \<times> ('d, 'x) world" where
  "ubi_volume_read eba_read hexs mem_ok name n dst w =
    (case ubi_find_volume name w of
       None \<Rightarrow> (-ENODEV, dst, w)
     | Some i \<Rightarrow>
         let vol = desc_vol i w in
         if updating vol then (-EBUSY, dst, w)
         else if upd_marker vol then (-EBADF, dst, w)
         else if used_bytes vol = 0 then (0, dst, w)
         else
           let n = (if n = 0 then used_bytes vol else n);
               n = (if n > used_bytes vol then used_bytes vol else n);
               tbuf_size = (if n < usable_leb_size vol
                            then align_up n (case ubi w of Some u \<Rightarrow> min_io_size u | None \<Rightarrow> 1) else usable_leb_size vol) in
           if \<not> mem_ok then (-ENOMEM, dst, w)
           else
             let (err, left, buf, d) =
                   volume_read_loop eba_read (vol_id vol) (usable_leb_size vol) tbuf_size 0 0 n (dev w);
                 w = w\<lparr>dev := d\<rparr>;
                 w = (if left = 0 then w\<lparr>env := (env w)(''filesize'' \<mapsto> hexs n)\<rparr> else w) in
             (err, overwrite 0 buf dst, w))"

definition ubi_volume_continue_write :: "'d ubi_low \<Rightarrow> string \<Rightarrow> bytes \<Rightarrow> ('d, 'x) world \<Rightarrow> int \<times> ('d, 'x) world" where
  "ubi_volume_continue_write low name buf w =
    (case ubi_find_volume name w of
       None \<Rightarrow> (-ENODEV, w)
     | Some i \<Rightarrow>
         if \<not> updating (desc_vol i w) then (-EINVAL, w)
         else
           on_volume i (\<lambda>u vol d.
             let (err, vol, d) = ubi_more_update_data low u vol buf d in
             if err < 0 then (err, vol, d)
             else if err \<noteq> 0 then
               let (err, d) = ubi_check_volume low vol d in
               if err < 0 then (err, vol, d)
               else (0, (if err \<noteq> 0 then vol\<lparr>corrupted := True\<rparr> else vol)\<lparr>checked := True\<rparr>, d)
             else (0, vol, d)) w)"

text \<open>
  The reserved bytes of a volume are an \<^verbatim>\<open>int\<close>; the flash of the board is smaller than its range.
\<close>

definition ubi_volume_begin_write :: "'d ubi_low \<Rightarrow> string \<Rightarrow> bytes \<Rightarrow> nat \<Rightarrow> ('d, 'x) world \<Rightarrow> int \<times> ('d, 'x) world" where
  "ubi_volume_begin_write low name buf full_size w =
    (case ubi_find_volume name w of
       None \<Rightarrow> (-ENODEV, w)
     | Some i \<Rightarrow>
         let (err, w) = on_volume i (\<lambda>u vol d.
               if int (length buf) > reserved_pebs vol * int (leb_size u - data_pad vol) then (-EINVAL, vol, d)
               else ubi_start_update low u vol full_size d) w in
         if err < 0 then (err, w)
         else if full_size = 0 then (0, w)
         else ubi_volume_continue_write low name buf w)"

section \<open>Factory data\<close>

text \<open>The image: two addresses in erased flash.\<close>

definition factory_image :: "bytes \<Rightarrow> bytes \<Rightarrow> bytes" where
  "factory_image lan_mac wan_mac =
    overwrite XG2010G_FACTORY_LAN_MAC_OFFSET lan_mac
      (overwrite XG2010G_FACTORY_WAN_MAC_OFFSET wan_mac (replicate XG2010G_FACTORY_SIZE 0xff))"

text \<open>
  The outcomes of the allocations, what the unused memory for \<^verbatim>\<open>dst\<close> holds, and the low-level reader.
\<close>

record 'd sync_in =
  sync_mem :: bool
  dsd_mem :: bool
  tbuf_mem :: bool
  sync_heap :: bytes
  sync_read :: "'d eba_read"
  sync_hex :: "nat \<Rightarrow> string"

definition xg2010g_sync_factory_part ::
    "'d board \<Rightarrow> 'd sync_in \<Rightarrow> string option \<Rightarrow> ('d, 'x) world \<Rightarrow> int \<times> ('d, 'x) world" where
  "xg2010g_sync_factory_part b si part w =
    (if \<not> xg2010g_is_compatible b then (0, w)
     else
       let (ret, w) = xg2010g_select_ubi b part w in
       if ret \<noteq> 0 then (ret, w)
       else if \<not> sync_mem si then (-ENOMEM, w)
       else case xg2010g_get_dsd_ethaddrs b (dsd_mem si) w of
         (Inl ret, w) \<Rightarrow> (ret, w)
       | (Inr (lan_mac, wan_mac), w) \<Rightarrow>
           let src = factory_image lan_mac wan_mac;
               (ret, dst, w) = ubi_volume_read (sync_read si) (sync_hex si) (tbuf_mem si) ''factory'' XG2010G_FACTORY_SIZE
                 (sync_heap si) w in
           if ret = 0 \<and> src = dst then (0, w)
           else
             let (ret, w) = xg2010g_ensure_ubi_volume b ''factory'' XG2010G_FACTORY_SIZE w in
             if ret \<noteq> 0 then (ret, w)
             else ubi_volume_begin_write (brd_low b) ''factory'' src XG2010G_FACTORY_SIZE w)"

definition xg2010g_sync_factory ::
    "'d board \<Rightarrow> 'd sync_in \<Rightarrow> ubi_probe \<Rightarrow> ('d, 'x) world \<Rightarrow> int \<times> ubi_probe \<times> ('d, 'x) world" where
  "xg2010g_sync_factory b si ps w =
    (let (part, ps, w) = xg2010g_detect_ubi_part b ps w in
     if \<not> ubi_layout_available ps then (-ENODEV, ps, w)
     else let (ret, w) = xg2010g_sync_factory_part b si (Some part) w in (ret, ps, w))"

text \<open>The board operations as the recovery server sees them.\<close>

definition recovery_get_board_ops :: "'d board \<Rightarrow> 'd board" where
  "recovery_get_board_ops b =
    b\<lparr>brd_ops := True, brd_match := xg2010g_is_compatible b,
      brd_ubi := Some (geo_version xg2010g_ubi_geometry, geo_ubi_part xg2010g_ubi_geometry),
      brd_mtd_ubi_valid := (\<lambda>m. xg2010g_ubi_mtd_valid (Some m))\<rparr>"

section \<open>What the board methods keep\<close>

lemma board_select_keeps: "xg2010g_select_ubi b part w = (r, w') \<Longrightarrow> keeps w w'"
  using ubi_part_keeps by (auto simp: xg2010g_select_ubi_def Let_def split: option.splits if_splits prod.splits)

lemma board_select_plain [plains]: "xg2010g_select_ubi b part w = (r, w') \<Longrightarrow> plain w' = plain w"
  by (rule keeps_plain [OF board_select_keeps])

lemma select_ubi_selected:
  assumes "xg2010g_select_ubi b (Some p) w = (0, w')"
  shows "\<exists>u. ubi w' = Some u \<and> ubi_mtd_name u = p \<and> xg2010g_ubi_mtd_valid (ubi_mtd b u)"
  using assms by (auto simp: xg2010g_select_ubi_def Let_def split: option.splits if_splits prod.splits)

lemma close_mtd_name: "ubi w = Some u \<Longrightarrow> ubi (ubi_close_volume i m w) = Some (upd_volume i (close_mode m) u)"
  by (simp add: ubi_close_volume_def upd_ubi_def)

lemma open_fit_device:
  assumes "ubi_open_volume_nm low n m w = (Inr i, w')" "ubi w = Some u"
  shows "\<exists>u'. ubi w' = Some u' \<and> ubi_mtd_name u' = ubi_mtd_name u \<and> n \<in> set (vol_names (volumes u))"
proof -
  obtain j where f: "find_volume n (volumes u) 0 = Some j" and o: "ubi_open_volume low j m w = (Inr i, w')"
    using assms by (auto simp: ubi_open_volume_nm_def split: if_splits option.splits)
  have n: "n \<in> set (vol_names (volumes u))" using f find_volume_None [of n "volumes u" 0] by auto
  have "\<exists>u'. ubi w' = Some u' \<and> ubi_mtd_name u' = ubi_mtd_name u"
    using o assms(2) by (auto simp: ubi_open_volume_def Let_def upd_ubi_def upd_volume_def split: option.splits if_splits prod.splits)
  then show ?thesis using n by blast
qed

lemma detect_keeps: "xg2010g_detect_ubi_part b ps w = (p, ps', w') \<Longrightarrow> keeps w w'"
proof -
  assume run: "xg2010g_detect_ubi_part b ps w = (p, ps', w')"
  obtain r w1 where g: "get_mtd b ''ubi'' w = (r, w1)" by (metis prod.exhaust)
  from g show ?thesis
  proof (cases rule: get_mtd_cases)
    case (1 e)
    then show ?thesis using run g by (auto simp: xg2010g_detect_ubi_part_def Let_def split: if_splits)
  next
    case (2 m)
    obtain r2 w2 where s: "xg2010g_select_ubi b (Some ''ubi'') w = (r2, w2)" by (metis prod.exhaust)
    obtain r3 w3 where o: "ubi_open_volume_nm (brd_low b) ''fit'' UBI_READONLY w2 = (r3, w3)" by (metis prod.exhaust)
    have k: "keeps w w2" "keeps w w3" "keeps w (ubi_close_volume i UBI_READONLY w3)" for i
      using board_select_keeps [OF s] open_nm_keeps [OF o] close_keeps keeps_trans by blast+
    show ?thesis using run g 2 s o k by (auto simp: xg2010g_detect_ubi_part_def Let_def split: if_splits sum.splits)
  qed
qed

lemma board_create_plain [plains]: "xg2010g_create_ubi_volume b n k w = (r, w') \<Longrightarrow> plain w' = plain w"
  by (auto simp: xg2010g_create_ubi_volume_def Let_def split: if_splits option.splits prod.splits)

lemma board_resize_plain [plains]: "xg2010g_resize_ubi_volume b n k w = (r, w') \<Longrightarrow> plain w' = plain w"
  by (auto simp: xg2010g_resize_ubi_volume_def Let_def dest!: open_plain resize_volume_plain split: if_splits sum.splits prod.splits)

lemma board_ensure_plain [plains]: "xg2010g_ensure_ubi_volume b n k w = (r, w') \<Longrightarrow> plain w' = plain w"
  by (auto simp: xg2010g_ensure_ubi_volume_def Let_def dest!: open_plain board_resize_plain board_create_plain
      split: if_splits sum.splits prod.splits)

lemma continue_write_plain: "ubi_volume_continue_write low n buf w = (r, w') \<Longrightarrow> plain w' = plain w"
  by (auto simp: ubi_volume_continue_write_def dest: on_volume_plain' split: option.splits if_splits)

lemma begin_write_plain: "ubi_volume_begin_write low n buf k w = (r, w') \<Longrightarrow> plain w' = plain w"
  by (auto simp: ubi_volume_begin_write_def Let_def dest!: on_volume_plain' continue_write_plain split: option.splits if_splits prod.splits)

lemma beyond_dev [simp]: "beyond_env (w\<lparr>dev := d\<rparr>) = beyond_env w"
  by (rule plain_beyond) simp

lemma beyond_steps:
  "beyond_env (snd (snd p)) = v \<Longrightarrow> beyond_env (snd (snd q)) = v \<Longrightarrow> beyond_env (snd (snd (if c then p else q))) = v"
  "beyond_env (snd (snd (f y))) = v \<Longrightarrow> beyond_env (snd (snd (Let y f))) = v"
  "beyond_env (snd (snd (a, b', w))) = v \<Longrightarrow> beyond_env (snd (snd (a, b', if c then w\<lparr>env := e\<rparr> else w))) = v"
  "(\<And>a b. beyond_env (snd (snd (g a b))) = v) \<Longrightarrow> beyond_env (snd (snd (case z of (a, b) \<Rightarrow> g a b))) = v"
  "beyond_env (snd (snd q)) = v \<Longrightarrow> (\<And>m. beyond_env (snd (snd (h m))) = v) \<Longrightarrow>
    beyond_env (snd (snd (case x of None \<Rightarrow> q | Some m \<Rightarrow> h m))) = v"
  "beyond_env w = v \<Longrightarrow> beyond_env (snd (snd (a, b', w))) = v"
  "beyond_env w = v \<Longrightarrow> beyond_env (w\<lparr>dev := d\<rparr>) = v" "beyond_env w = beyond_env w"
  "beyond_env w = v \<Longrightarrow> beyond_env (if c then w\<lparr>env := e\<rparr> else w) = v"
  by (auto simp: Let_def split: option.split prod.split)

lemma volume_read_beyond: "ubi_volume_read er hx m n k dst w = (r, dst', w') \<Longrightarrow> beyond_env w' = beyond_env w"
proof -
  have "beyond_env (snd (snd (ubi_volume_read er hx m n k dst w))) = beyond_env w"
    unfolding ubi_volume_read_def by (intro beyond_steps)
  moreover assume "ubi_volume_read er hx m n k dst w = (r, dst', w')"
  ultimately show ?thesis by simp
qed

lemma sync_part_beyond: "beyond_env (snd (xg2010g_sync_factory_part b si part w)) = beyond_env w"
proof -
  obtain r1 w1 where s: "xg2010g_select_ubi b part w = (r1, w1)" by (metis prod.exhaust)
  obtain r2 w2 where d: "xg2010g_get_dsd_ethaddrs b (dsd_mem si) w1 = (r2, w2)" by (metis prod.exhaust)
  have k: "beyond_env w1 = beyond_env w" "beyond_env w2 = beyond_env w1"
    using plain_beyond [OF board_select_plain [OF s]] plain_beyond [OF keeps_plain [OF conjunct1 [OF dsd_ethaddrs_keeps [OF d]]]] by simp_all
  show ?thesis
  proof (cases r2)
    case (Inl e)
    then show ?thesis using s d k by (simp add: xg2010g_sync_factory_part_def)
  next
    case (Inr macs)
    obtain lan wan where m: "macs = (lan, wan)" by (cases macs)
    obtain r3 dst w3 where v: "ubi_volume_read (sync_read si) (sync_hex si) (tbuf_mem si) ''factory'' XG2010G_FACTORY_SIZE
        (sync_heap si) w2 = (r3, dst, w3)" by (rule prod_cases3)
    obtain r4 w4 where e: "xg2010g_ensure_ubi_volume b ''factory'' XG2010G_FACTORY_SIZE w3 = (r4, w4)" by (metis prod.exhaust)
    obtain r5 w5 where f: "ubi_volume_begin_write (brd_low b) ''factory'' (factory_image lan wan) XG2010G_FACTORY_SIZE w4 = (r5, w5)"
      by (metis prod.exhaust)
    have "beyond_env w3 = beyond_env w2" "beyond_env w4 = beyond_env w3" "beyond_env w5 = beyond_env w4"
      using volume_read_beyond [OF v] plain_beyond [OF board_ensure_plain [OF e]] plain_beyond [OF begin_write_plain [OF f]] by simp_all
    then show ?thesis using s d k Inr m v e f by (simp add: xg2010g_sync_factory_part_def Let_def)
  qed
qed

lemma sync_all_beyond: "beyond_env (snd (snd (xg2010g_sync_factory b si ps w))) = beyond_env w"
proof -
  obtain p ps1 w1 where d: "xg2010g_detect_ubi_part b ps w = (p, ps1, w1)" by (rule prod_cases3)
  have "beyond_env w1 = beyond_env w" using keeps_plain [OF detect_keeps [OF d]] by (rule plain_beyond)
  then show ?thesis using d sync_part_beyond [of b si "Some p" w1]
    by (auto simp: xg2010g_sync_factory_def split: prod.splits)
qed

section \<open>Writing a volume\<close>

lemma start_update_code:
  assumes "low_ok leb low" "\<And>v l d. fst (low_unmap low v l d) \<le> 0"
    and "ubi_start_update low u vol n d = (err, vol', d')"
  shows "err \<le> 0"
proof -
  have m: "fst (set_update_marker low v x) \<le> 0" "fst (clear_update_marker low v k x) \<le> 0" for v k x
    using low_okD(5) [OF assms(1)] by (auto simp: set_update_marker_def clear_update_marker_def Let_def split: prod.splits)
  have u: "fst (unmap_all low v ls x) \<le> 0" for v ls x
    using assms(2) by (induction ls arbitrary: x) (auto split: prod.splits, (metis fst_conv)+)
  have f: "fst (low_wl_flush low x) \<le> 0" for x using low_okD(4) [OF assms(1)] by (metis prod.collapse)
  have "fst (ubi_start_update low u vol n d) \<le> 0"
    unfolding ubi_start_update_def Let_def case_prod_beta
    using m u f by (auto simp: if_distrib [of fst])
  then show ?thesis using assms(3) by simp
qed

lemma find_volume_same:
  "vs ! i = Some vol \<Longrightarrow> vol_name vol' = vol_name vol \<Longrightarrow> i < length vs \<Longrightarrow>
    find_volume name (vs[i := Some vol']) k = find_volume name vs k"
  by (induction vs arbitrary: i k) (auto split: nat.splits option.splits)

text \<open>The step that feeds the data and checks the volume.\<close>

definition write_data :: "'d ubi_low \<Rightarrow> bytes \<Rightarrow> ubi_device \<Rightarrow> ubi_volume \<Rightarrow> 'd \<Rightarrow> int \<times> ubi_volume \<times> 'd" where
  "write_data low buf u vol d =
    (let (err, vol, d) = ubi_more_update_data low u vol buf d in
     if err < 0 then (err, vol, d)
     else if err \<noteq> 0 then
       let (err, d) = ubi_check_volume low vol d in
       if err < 0 then (err, vol, d)
       else (0, (if err \<noteq> 0 then vol\<lparr>corrupted := True\<rparr> else vol)\<lparr>checked := True\<rparr>, d)
     else (0, vol, d))"

lemma write_data_ok:
  assumes low: "low_ok leb low" "low_reads_ok leb low" and run: "write_data low img u vol d = (0, vol', d')"
  shows "vol_fixed vol' = vol_fixed vol"
    "upd_state leb m img 0 vol d \<Longrightarrow> img \<noteq> [] \<Longrightarrow>
      upd_state leb m img (length img) vol' d' \<and> used_bytes vol' = length img \<and> \<not> updating vol' \<and> \<not> upd_marker vol'"
proof -
  obtain e v1 d1 where mo: "ubi_more_update_data low u vol img d = (e, v1, d1)" by (rule prod_cases3)
  obtain e2 d2 where ck: "ubi_check_volume low v1 d1 = (e2, d2)" by (metis prod.exhaust)
  define v2 where "v2 = (if e2 \<noteq> 0 then v1\<lparr>corrupted := True\<rparr> else v1)\<lparr>checked := True\<rparr>"
  have eq: "(0, vol', d') = (if e < 0 then (e, v1, d1) else if e \<noteq> 0 then if e2 < 0 then (e2, v1, d2) else (0, v2, d2) else (0, v1, d1))"
    using run unfolding write_data_def mo prod.case Let_def ck v2_def by (rule sym)
  have e: "0 \<le> e" using eq by (cases "e < 0") simp_all
  have out: "vol' = v1 \<and> d' = d1 \<or> vol' = v2 \<and> d' = d2"
    using eq by (cases "e < 0"; cases "e = 0"; cases "e2 < 0") simp_all
  show "vol_fixed vol' = vol_fixed vol" using out more_update_fixed [OF mo] by (auto simp: v2_def)
  assume st: "upd_state leb m img 0 vol d" and ne: "img \<noteq> []"
  have "upd_state leb m img (length img) v1 d1 \<and> used_bytes v1 = length img \<and> \<not> updating v1 \<and> \<not> upd_marker v1"
    using ubi_more_update_data_ok [OF low(1) st _ _ ne mo e] ne by simp
  moreover have "leb d2 = leb d1" by (rule check_volume_same [OF low(2) ck])
  ultimately show "upd_state leb m img (length img) vol' d' \<and> used_bytes vol' = length img \<and> \<not> updating vol' \<and> \<not> upd_marker vol'"
    using out by (auto simp: upd_state_def v2_def split: if_splits)
qed

lemma begin_write_stored:
  assumes low: "low_ok leb low" "low_reads_ok leb low" "\<And>v l d. fst (low_unmap low v l d) \<le> 0"
    and u: "ubi w = Some u" "ubi_find_volume name w = Some i" and img: "img \<noteq> []"
    and run: "ubi_volume_begin_write low name img (length img) w = (0, w')"
  shows "\<exists>vol vol'. i < length (volumes u) \<and> volumes u ! i = Some vol \<and> ubi w' = Some (u\<lparr>volumes := (volumes u)[i := Some vol']\<rparr>) \<and>
    vol_fixed vol' = vol_fixed vol \<and>
    (vol_type vol = UBI_STATIC_VOLUME \<and> 0 < usable_leb_size vol \<and> usable_leb_size vol \<le> leb_size u \<longrightarrow>
      leb (dev w') = image_view vol img (leb (dev w)) \<and> used_bytes vol' = length img \<and> \<not> updating vol' \<and> \<not> upd_marker vol')"
proof -
  define f where "f = (\<lambda>u vol d. if int (length img) > reserved_pebs vol * int (leb_size u - data_pad vol) then (-EINVAL, vol, d)
               else ubi_start_update low u vol (length img) d)"
  have fv: "find_volume name (volumes u) 0 = Some i" using u by (simp add: ubi_find_volume_def)
  obtain vol where v: "i < length (volumes u)" "volumes u ! i = Some vol" "vol_name vol = name"
    using find_volume_Some [OF fv] by auto
  obtain r1 w1 where o1: "on_volume i f w = (r1, w1)" by (metis prod.exhaust)
  have "(if r1 < 0 then (r1, w1) else ubi_volume_continue_write low name img w1) = (0, w')"
    using run img unfolding ubi_volume_begin_write_def u(2) option.case f_def [symmetric] Let_def o1 prod.case by (auto split: if_splits)
  then have c: "ubi_volume_continue_write low name img w1 = (0, w')" and r1: "0 \<le> r1" by (auto split: if_splits)
  obtain vol1 d1 where s1: "f u vol (dev w) = (r1, vol1, d1)"
    and w1: "w1 = w\<lparr>dev := d1, ubi := Some (u\<lparr>volumes := (volumes u)[i := Some vol1]\<rparr>)\<rparr>"
    using on_volume_Some [OF o1 u(1) v(2)] by blast
  have st: "ubi_start_update low u vol (length img) (dev w) = (0, vol1, d1)"
    using s1 r1 start_update_code [OF low(1,3), of u vol "length img" "dev w" r1 vol1 d1] by (auto simp: f_def split: if_splits)
  have f1: "vol_fixed vol1 = vol_fixed vol" by (rule start_update_fixed [OF st])
  let ?u1 = "u\<lparr>volumes := (volumes u)[i := Some vol1]\<rparr>"
  have u1: "ubi w1 = Some ?u1" "volumes ?u1 ! i = Some vol1" using w1 v by simp_all
  have "ubi_find_volume name w1 = Some i"
    using fv find_volume_same [OF v(2) vol_fixedD(2) [OF f1] v(1), of name 0] by (simp add: ubi_find_volume_def u1)
  then have "on_volume i (write_data low img) w1 = (0, w')"
    using c unfolding ubi_volume_continue_write_def write_data_def by (auto split: if_splits)
  from on_volume_Some [OF this u1] obtain vol2 d2 where s2: "write_data low img ?u1 vol1 (dev w1) = (0, vol2, d2)"
    and w2: "w' = w1\<lparr>dev := d2, ubi := Some (?u1\<lparr>volumes := (volumes ?u1)[i := Some vol2]\<rparr>)\<rparr>" by blast
  have f2: "vol_fixed vol2 = vol_fixed vol" using write_data_ok(1) [OF low(1,2) s2] f1 by simp
  have "leb (dev w') = image_view vol img (leb (dev w)) \<and> used_bytes vol2 = length img \<and> \<not> updating vol2 \<and> \<not> upd_marker vol2"
    if s: "vol_type vol = UBI_STATIC_VOLUME" "0 < usable_leb_size vol" "usable_leb_size vol \<le> leb_size u"
  proof -
    have us: "upd_state leb (\<lambda>(v, l). if v = vol_id vol \<and> l < nat (reserved_pebs vol) then None else leb (dev w) (v, l)) img 0 vol1 (dev w1)"
      using ubi_start_update_ok [OF low(1) s img st] w1 by simp
    note k = write_data_ok(2) [OF low(1,2) s2 us img]
    have "leb d2 = image_view vol img (leb (dev w))" by (rule upd_state_complete [OF conjunct1 [OF k] vol_fixedD(1,5) [OF f2]])
    then show ?thesis using k w2 by simp
  qed
  then show ?thesis using v f2 w2 by (intro exI [of _ vol] exI [of _ vol2]) simp
qed

section \<open>Synchronising the factory data\<close>

text \<open>A volume that holds an image: its blocks and its length.\<close>

definition volume_holds :: "('d \<Rightarrow> nat \<times> nat \<Rightarrow> bytes option) \<Rightarrow> string \<Rightarrow> bytes \<Rightarrow> ('d, 'x) world \<Rightarrow> bool" where
  "volume_holds leb name img w \<longleftrightarrow>
    (\<exists>u i vol. ubi w = Some u \<and> ubi_find_volume name w = Some i \<and> volumes u ! i = Some vol \<and>
       (vol_type vol = UBI_STATIC_VOLUME \<and> 0 < usable_leb_size vol \<and> usable_leb_size vol \<le> leb_size u \<longrightarrow>
          used_bytes vol = length img \<and> \<not> updating vol \<and> \<not> upd_marker vol \<and>
          (\<forall>l. l * usable_leb_size vol < length img \<longrightarrow>
             leb (dev w) (vol_id vol, l) = Some (take (usable_leb_size vol) (drop (l * usable_leb_size vol) img)))))"

lemma begin_write_holds:
  assumes "low_ok leb low" "low_reads_ok leb low" "\<And>v l d. fst (low_unmap low v l d) \<le> 0" "img \<noteq> []"
    and run: "ubi_volume_begin_write low name img (length img) w = (0, w')"
  shows "volume_holds leb name img w'"
proof -
  obtain i where i: "ubi_find_volume name w = Some i" using run by (auto simp: ubi_volume_begin_write_def split: option.splits)
  then obtain u where u: "ubi w = Some u" by (auto simp: ubi_find_volume_def split: option.splits)
  obtain vol vol' where v: "i < length (volumes u)" "volumes u ! i = Some vol" "ubi w' = Some (u\<lparr>volumes := (volumes u)[i := Some vol']\<rparr>)"
    "vol_fixed vol' = vol_fixed vol" "vol_type vol = UBI_STATIC_VOLUME \<and> 0 < usable_leb_size vol \<and> usable_leb_size vol \<le> leb_size u \<longrightarrow>
      leb (dev w') = image_view vol img (leb (dev w)) \<and> used_bytes vol' = length img \<and> \<not> updating vol' \<and> \<not> upd_marker vol'"
    using begin_write_stored [OF assms(1-3) u i assms(4) run] by blast
  note fx = vol_fixedD(1,2,4,5) [OF v(4)]
  have "ubi_find_volume name w' = Some i"
    using i u find_volume_same [OF v(2) fx(2) v(1), of name 0] by (simp add: ubi_find_volume_def v(3))
  then show ?thesis unfolding volume_holds_def
    using v fx by (intro exI [of _ "u\<lparr>volumes := (volumes u)[i := Some vol']\<rparr>"] exI [of _ i] exI [of _ vol']) (auto simp: image_view_def)
qed

lemma length_factory_image: "length (factory_image lan wan) = XG2010G_FACTORY_SIZE"
  by (simp add: factory_image_def)

lemma factory_image_macs:
  assumes "length lan = 6" "length wan = 6"
  shows "take 6 (drop XG2010G_FACTORY_LAN_MAC_OFFSET (factory_image lan wan)) = lan"
    "take 6 (drop XG2010G_FACTORY_WAN_MAC_OFFSET (factory_image lan wan)) = wan"
proof -
  let ?m = "overwrite XG2010G_FACTORY_WAN_MAC_OFFSET wan (replicate XG2010G_FACTORY_SIZE 0xff)"
  show "take 6 (drop XG2010G_FACTORY_LAN_MAC_OFFSET (factory_image lan wan)) = lan"
    using take_drop_overwrite [of XG2010G_FACTORY_LAN_MAC_OFFSET lan ?m] assms
    by (simp add: factory_image_def XG2010G_FACTORY_SIZE_def ARP_HLEN_def)
  have "take 6 (drop XG2010G_FACTORY_WAN_MAC_OFFSET ?m) = wan"
    using take_drop_overwrite [of XG2010G_FACTORY_WAN_MAC_OFFSET wan "replicate XG2010G_FACTORY_SIZE 0xff"] assms
    by (simp add: XG2010G_FACTORY_SIZE_def ARP_HLEN_def XG2010G_FACTORY_WAN_MAC_OFFSET_def XG2010G_FACTORY_LAN_MAC_OFFSET_def)
  moreover have "take 6 (drop XG2010G_FACTORY_WAN_MAC_OFFSET (factory_image lan wan)) = take 6 (drop XG2010G_FACTORY_WAN_MAC_OFFSET ?m)"
    by (rule nth_equalityI) (auto simp: factory_image_def nth_overwrite XG2010G_FACTORY_SIZE_def ARP_HLEN_def
        XG2010G_FACTORY_WAN_MAC_OFFSET_def XG2010G_FACTORY_LAN_MAC_OFFSET_def)
  ultimately show "take 6 (drop XG2010G_FACTORY_WAN_MAC_OFFSET (factory_image lan wan)) = wan" by simp
qed

text \<open>
  An empty volume reads as success without a byte stored: the caller's buffer keeps what it held.
\<close>

lemma empty_volume_read:
  "ubi_find_volume name w = Some i \<Longrightarrow> \<not> updating (desc_vol i w) \<Longrightarrow> \<not> upd_marker (desc_vol i w) \<Longrightarrow> used_bytes (desc_vol i w) = 0 \<Longrightarrow>
    ubi_volume_read er hx m name n dst w = (0, dst, w)"
  by (simp add: ubi_volume_read_def Let_def)

lemma dsd_ethaddrs_code: "xg2010g_get_dsd_ethaddrs b mem_ok w \<noteq> (Inl 0, w')"
proof
  assume run: "xg2010g_get_dsd_ethaddrs b mem_ok w = (Inl 0, w')"
  obtain ret buf w1 where r: "xg2010g_read_dsd_data b 0 XG2010G_DSD_ENV_SIZE w = ((ret, buf), w1)" by (metis prod.exhaust)
  show False using run unfolding xg2010g_get_dsd_ethaddrs_def r dsd_get_var_value Let_def prod.case
    by (auto split: if_splits option.splits)
qed

lemma sync_part_steps:
  assumes "xg2010g_sync_factory_part b si part w = (0, w')" "xg2010g_is_compatible b"
  shows "\<exists>w1 lan wan w2 r dst w3. xg2010g_select_ubi b part w = (0, w1) \<and>
    xg2010g_get_dsd_ethaddrs b (dsd_mem si) w1 = (Inr (lan, wan), w2) \<and>
    ubi_volume_read (sync_read si) (sync_hex si) (tbuf_mem si) ''factory'' XG2010G_FACTORY_SIZE (sync_heap si) w2 = (r, dst, w3) \<and>
    (r = 0 \<and> dst = factory_image lan wan \<and> w' = w3 \<or>
     (\<exists>w4. xg2010g_ensure_ubi_volume b ''factory'' XG2010G_FACTORY_SIZE w3 = (0, w4) \<and>
        ubi_volume_begin_write (brd_low b) ''factory'' (factory_image lan wan) XG2010G_FACTORY_SIZE w4 = (0, w')))"
proof -
  obtain r1 w1 where s: "xg2010g_select_ubi b part w = (r1, w1)" by (metis prod.exhaust)
  obtain g w2 where d: "xg2010g_get_dsd_ethaddrs b (dsd_mem si) w1 = (g, w2)" by (metis prod.exhaust)
  have r1: "r1 = 0" using assms(1,2) s by (auto simp: xg2010g_sync_factory_part_def split: if_splits)
  have m: "sync_mem si" using assms(1,2) s r1 by (auto simp: xg2010g_sync_factory_part_def split: if_splits)
  obtain lan wan where g: "g = Inr (lan, wan)"
    using assms(1,2) s r1 m d by (cases g) (auto simp: xg2010g_sync_factory_part_def dsd_ethaddrs_code)
  obtain r dst w3 where v: "ubi_volume_read (sync_read si) (sync_hex si) (tbuf_mem si) ''factory'' XG2010G_FACTORY_SIZE (sync_heap si) w2 = (r, dst, w3)"
    by (rule prod_cases3)
  obtain r4 w4 where e: "xg2010g_ensure_ubi_volume b ''factory'' XG2010G_FACTORY_SIZE w3 = (r4, w4)" by (metis prod.exhaust)
  have "(0, w') = (if r = 0 \<and> factory_image lan wan = dst then (0, w3) else if r4 \<noteq> 0 then (r4, w4)
      else ubi_volume_begin_write (brd_low b) ''factory'' (factory_image lan wan) XG2010G_FACTORY_SIZE w4)"
    unfolding assms(1) [symmetric] xg2010g_sync_factory_part_def s prod.case Let_def r1 d g sum.case v e using assms(2) m by simp
  then show ?thesis using s r1 d g v e by (cases "r = 0 \<and> factory_image lan wan = dst"; cases "r4 = 0") auto
qed


section \<open>An instance\<close>

definition synced_vol :: ubi_volume where
  "synced_vol = zero_volume\<lparr>vol_name := ''factory'', vol_type := UBI_STATIC_VOLUME, usable_leb_size := 0x1f000,
     reserved_pebs := 9, used_bytes := XG2010G_FACTORY_SIZE, checked := True\<rparr>"

definition synced_board :: "(int \<Rightarrow> u8) board" where
  "synced_board = sample_board\<lparr>brd_compat := (\<lambda>s. s = ''gemtek,xg2010g''),
     brd_mtds := [sample_part ''dsd'' 0x200000 0x200000,
       (sample_part ''ubi'' 0x400000 0x1b800000)\<lparr>mtd_writesize := 0x800, mtd_oobsize := 0x80\<rparr>],
     brd_low := idle_low\<lparr>low_write_st := (\<lambda>v l bf e d. (-EIO, d))\<rparr>\<rparr>"

definition synced_world :: "(int \<Rightarrow> u8, unit) world" where
  "synced_world = (initial_world Map.empty (\<lambda>_. 0) sample_dsd_flash ())\<lparr>ubi := Some (sample_ubi\<lparr>volumes := [Some synced_vol]\<rparr>)\<rparr>"

definition sample_macs :: "bytes \<times> bytes" where
  "sample_macs = ([0, 0x11, 0x22, 0x33, 0x44, 0x55], [0, 0x11, 0x22, 0x33, 0x44, 0x56])"

definition synced_in :: "(int \<Rightarrow> u8) sync_in" where
  "synced_in = \<lparr>sync_mem = True, dsd_mem = True, tbuf_mem = True, sync_heap = replicate XG2010G_FACTORY_SIZE 0,
     sync_read = (\<lambda>v l off n d. ((0, take n (drop off (factory_image (fst sample_macs) (snd sample_macs)))), d)), sync_hex = (\<lambda>_. ''6006'')\<rparr>"

lemma synced_select: "xg2010g_select_ubi synced_board (Some ''ubi'') synced_world = (0, synced_world)"
  by (simp add: xg2010g_select_ubi_def synced_world_def xg2010g_find_ubi_layout_def xg2010g_ubi_layouts_def xg2010g_ubi_geometry_def
      sample_ubi_def ubi_mtd_def synced_board_def xg2010g_ubi_mtd_valid_def sample_part_def XG2010G_UBI_SIZE_def
      XG2010G_UBI_ERASE_SIZE_def XG2010G_UBI_WRITE_SIZE_def XG2010G_UBI_OOB_SIZE_def)

lemma synced_macs: "\<exists>w1. xg2010g_get_dsd_ethaddrs synced_board True synced_world = (Inr sample_macs, w1) \<and> ubi w1 = ubi synced_world"
proof -
  have "fst (xg2010g_read_dsd_data synced_board 0 XG2010G_DSD_ENV_SIZE synced_world) =
      (0, view (\<lambda>d. d) sample_dsd_flash 0x200000 XG2010G_DSD_ENV_SIZE)"
    by (simp add: xg2010g_read_dsd_data_def get_mtd_def get_mtd_device_nm_def mtd_device_matches_name_def synced_board_def
        sample_board_def mtd_read_def sample_part_def ram_chip_def part_read_def synced_world_def initial_world_def XG2010G_DSD_ENV_SIZE_def Let_def)
  then obtain w1 where r: "xg2010g_read_dsd_data synced_board 0 XG2010G_DSD_ENV_SIZE synced_world =
      ((0, sample_dsd_text @ replicate (0x1000 - 53) 0xff), w1)"
    unfolding sample_dsd_view by (metis prod.collapse)
  have v: "value_mac (chars (mac_address_string [0, 0x11, 0x22, 0x33, 0x44, 0x55])) = [0, 0x11, 0x22, 0x33, 0x44, 0x55]"
    "value_mac (chars (mac_address_string [0, 0x11, 0x22, 0x33, 0x44, 0x56]) @ [13]) = [0, 0x11, 0x22, 0x33, 0x44, 0x56]"
    using value_mac_text [of "[0, 0x11, 0x22, 0x33, 0x44, 0x55]" "[]"] value_mac_text [of "[0, 0x11, 0x22, 0x33, 0x44, 0x56]" "[13]"] by simp_all
  have "is_valid_ethaddr [0, 0x11, 0x22, 0x33, 0x44, 0x55]" "is_valid_ethaddr [0, 0x11, 0x22, 0x33, 0x44, 0x56]"
    by (simp_all add: is_valid_ethaddr_def is_multicast_ethaddr_def is_zero_ethaddr_def)
  then have "xg2010g_get_dsd_ethaddrs synced_board True synced_world = (Inr sample_macs, w1)"
    using dsd_ethaddrs_found [OF r sample_dsd_values] unfolding v sample_macs_def by simp
  then show ?thesis using read_dsd_keeps [OF r] by blast
qed

lemma synced_read:
  assumes "ubi w = ubi synced_world"
  shows "\<exists>w'. ubi_volume_read (sync_read synced_in) (sync_hex synced_in) True ''factory'' XG2010G_FACTORY_SIZE (sync_heap synced_in) w =
    (0, factory_image (fst sample_macs) (snd sample_macs), w')"
proof -
  let ?img = "factory_image (fst sample_macs) (snd sample_macs)"
  have n: "XG2010G_FACTORY_SIZE = 24582" by (simp add: XG2010G_FACTORY_SIZE_def XG2010G_FACTORY_LAN_MAC_OFFSET_def ARP_HLEN_def)
  have l: "length ?img = 24582" using length_factory_image n by simp
  have o: "overwrite 0 ?img (replicate 24582 0) = ?img" using l by (simp add: overwrite_def)
  have "volume_read_loop (sync_read synced_in) 0 0x1f000 24582 0 0 24582 d = (0, 0, ?img, d)" for d
    by (subst volume_read_loop.simps) (simp add: synced_in_def l)
  then show ?thesis using assms o
    by (simp add: ubi_volume_read_def ubi_find_volume_def synced_world_def desc_vol_def synced_vol_def zero_volume_def n align_up_def
        sample_ubi_def synced_in_def Let_def)
qed


end
