(* ===== verification/Bootargs.thy ===== *)
theory Bootargs
  imports Prelude
begin

text \<open>
  Checking the kernel command line (\<^verbatim>\<open>board/airoha/an7581/an7581_rfb.c\<close>): the search for an argument as a
  whole word, and the decision to replace a command line of another layout. The lemmas relate the
  search, which skips over partial matches, to the words of the line.
\<close>

section \<open>The search\<close>

text \<open>\<^verbatim>\<open>strstr\<close>: the position of the first occurrence.\<close>

fun strstr :: "string \<Rightarrow> string \<Rightarrow> nat option" where
  "strstr [] p = (if p = [] then Some 0 else None)"
| "strstr (c # s) p = (if take (length p) (c # s) = p then Some 0 else map_option Suc (strstr s p))"

definition blank :: "char \<Rightarrow> bool" where
  "blank c \<longleftrightarrow> c = CHR '' '' \<or> c = CHR 0x09"

lemma strstr_Some: "strstr s p = Some k \<Longrightarrow> k + length p \<le> length s \<and> take (length p) (drop k s) = p"
proof (induction s arbitrary: k)
  case Nil
  then show ?case by (auto split: if_splits)
next
  case (Cons c s)
  show ?case
  proof (cases "take (length p) (c # s) = p")
    case True
    then have "length p \<le> length (c # s)" by (metis length_take min.cobounded1)
    then show ?thesis using True Cons.prems by simp
  next
    case False
    then obtain j where "strstr s p = Some j" "k = Suc j" using Cons.prems by auto
    then show ?thesis using Cons.IH by simp
  qed
qed

text \<open>
  The loop, from position \<open>pos\<close> on. With an empty argument it would not end unless the argument is a
  token; the board asks for three constant names.
\<close>

function bootarg_scan :: "string \<Rightarrow> string \<Rightarrow> nat \<Rightarrow> bool" where
  "bootarg_scan bootargs arg pos =
    (case strstr (drop pos bootargs) arg of
       None \<Rightarrow> False
     | Some k \<Rightarrow>
         let p = pos + k; len = length arg;
             starts_token = (p = 0 \<or> blank (bootargs ! (p - 1)));
             ends_token = (p + len = length bootargs \<or> blank (bootargs ! (p + len))) in
         if starts_token \<and> ends_token then True
         else if arg = [] then False
         else bootarg_scan bootargs arg (p + len))"
  by auto
termination
proof (relation "measure (\<lambda>(s, arg, pos). length s - pos)")
  fix s arg :: string and pos k p len :: nat and st en
  assume "strstr (drop pos s) arg = Some k" "arg \<noteq> []" "p = pos + k" "len = length arg"
  then show "((s, arg, p + len), s, arg, pos) \<in> measure (\<lambda>(s, arg, pos). length s - pos)"
    using strstr_Some [of "drop pos s" arg k] by (cases arg) auto
qed simp

declare bootarg_scan.simps [simp del]

definition xg2010g_bootarg_has :: "string \<Rightarrow> string \<Rightarrow> bool" where
  "xg2010g_bootarg_has bootargs arg = bootarg_scan bootargs arg 0"

definition xg2010g_bootargs_need_migration :: "string option \<Rightarrow> bool" where
  "xg2010g_bootargs_need_migration bootargs =
    (case bootargs of
       None \<Rightarrow> True
     | Some s \<Rightarrow>
         if s = [] then True
         else \<not> xg2010g_bootarg_has s ''ubi.mtd=ubi'' \<or> \<not> xg2010g_bootarg_has s ''ubi.block=0,fit'' \<or>
           \<not> xg2010g_bootarg_has s ''root=/dev/fit0'' \<or> strstr s ''ubi.mtd=system'' \<noteq> None \<or>
           strstr s ''ubi.mtd=tclinux'' \<noteq> None \<or> strstr s ''ubi.mtd=tclinux_slave'' \<noteq> None \<or>
           strstr s ''root=/dev/mtdblock'' \<noteq> None)"

section \<open>The words of a command line\<close>

fun words :: "string \<Rightarrow> string list" where
  "words [] = [[]]"
| "words (c # s) = (if blank c then [] # words s else (case words s of [] \<Rightarrow> [[c]] | l # ls \<Rightarrow> (c # l) # ls))"

lemma strstr_None: "strstr s p = None \<longleftrightarrow> (\<nexists>a b. s = a @ p @ b)"
proof (induction s)
  case (Cons c s)
  have "take (length p) (c # s) = p \<longleftrightarrow> (\<exists>b. c # s = p @ b)" by (metis append_eq_conv_conj append_take_drop_id)
  moreover have "(\<exists>a b. c # s = a @ p @ b) \<longleftrightarrow> (\<exists>b. c # s = p @ b) \<or> (\<exists>a b. s = a @ p @ b)"
  proof
    assume "\<exists>a b. c # s = a @ p @ b"
    then obtain a b where "c # s = a @ p @ b" by blast
    then show "(\<exists>b. c # s = p @ b) \<or> (\<exists>a b. s = a @ p @ b)" by (cases a) auto
  next
    assume "(\<exists>b. c # s = p @ b) \<or> (\<exists>a b. s = a @ p @ b)"
    then show "\<exists>a b. c # s = a @ p @ b" by (metis append_Cons append_Nil)
  qed
  ultimately show ?case using Cons by auto
qed auto

lemma strstr_least: "strstr s p = Some k \<Longrightarrow> take (length p) (drop j s) = p \<Longrightarrow> j + length p \<le> length s \<Longrightarrow> k \<le> j"
proof (induction s arbitrary: k j)
  case (Cons c s)
  show ?case
  proof (cases "take (length p) (c # s) = p")
    case False
    then obtain i where "strstr s p = Some i" "k = Suc i" using Cons.prems(1) by auto
    then show ?thesis using Cons.IH [of i "j - 1"] Cons.prems(2,3) False by (cases j) auto
  qed (use Cons.prems(1) in simp)
qed (simp split: if_splits)

text \<open>An occurrence of a word, by position.\<close>

definition word_at :: "string \<Rightarrow> string \<Rightarrow> nat \<Rightarrow> bool" where
  "word_at s arg p \<longleftrightarrow> p + length arg \<le> length s \<and> take (length arg) (drop p s) = arg \<and>
     (p = 0 \<or> blank (s ! (p - 1))) \<and> (p + length arg = length s \<or> blank (s ! (p + length arg)))"

lemma bootarg_scan_word:
  assumes "arg \<noteq> []" "\<forall>c\<in>set arg. \<not> blank c" "pos \<le> length s"
  shows "bootarg_scan s arg pos \<longleftrightarrow> (\<exists>p\<ge>pos. word_at s arg p)"
  using assms
proof (induction s arg pos rule: bootarg_scan.induct)
  case (1 s arg pos)
  have occ: "take (length arg) (drop (p - pos) (drop pos s)) = arg \<and> p - pos + length arg \<le> length (drop pos s)"
    if "word_at s arg p" "pos \<le> p" for p using that by (auto simp: word_at_def)
  show ?case
  proof (cases "strstr (drop pos s) arg")
    case None
    then have "\<not> word_at s arg p" if "pos \<le> p" for p
      using occ that strstr_None [of "drop pos s" arg] by (metis append_take_drop_id)
    then show ?thesis using None by (auto simp: bootarg_scan.simps [of s arg pos])
  next
    case (Some k)
    let ?p = "pos + k"
    note k = strstr_Some [OF Some]
    have oc: "take (length arg) (drop ?p s) = arg" "?p + length arg \<le> length s" using k 1(4) by (auto simp: add.commute)
    have least: "?p \<le> p" if "word_at s arg p" "pos \<le> p" for p
      using strstr_least [OF Some, of "p - pos"] occ [OF that] that(2) by linarith
    show ?thesis
    proof (cases "word_at s arg ?p")
      case True
      then have "bootarg_scan s arg pos" using Some by (subst bootarg_scan.simps) (simp add: word_at_def Let_def)
      then show ?thesis using True by (metis le_add1)
    next
      case False
      then have nb: "\<not> ((?p = 0 \<or> blank (s ! (?p - 1))) \<and> (?p + length arg = length s \<or> blank (s ! (?p + length arg))))"
        using oc by (auto simp: word_at_def)
      then have "bootarg_scan s arg pos = bootarg_scan s arg (?p + length arg)"
        using Some 1(2) by (subst bootarg_scan.simps) (simp only: option.case Let_def if_False)
      moreover have "bootarg_scan s arg (?p + length arg) \<longleftrightarrow> (\<exists>p\<ge>?p + length arg. word_at s arg p)"
        by (rule "1.IH" [OF Some refl refl refl refl nb 1(2) 1(2,3) oc(2)])
      moreover have "?p + length arg \<le> p" if w: "word_at s arg p" "pos \<le> p" for p
      proof (rule ccontr)
        assume "\<not> ?p + length arg \<le> p"
        moreover have "?p < p" using least [OF w] False w(1) by (cases "p = ?p") auto
        ultimately have i: "p - 1 - ?p < length arg" "?p + (p - 1 - ?p) = p - 1" by linarith+
        have "s ! (p - 1) = arg ! (p - 1 - ?p)" using i oc by (metis nth_drop nth_take less_imp_le_nat le_trans add_leD1)
        then have "\<not> blank (s ! (p - 1))" using i 1(3) nth_mem by metis
        then show False using w(1) \<open>?p < p\<close> by (auto simp: word_at_def)
      qed
      ultimately show ?thesis by (metis add_leD1)
    qed
  qed
qed


lemma word_at_split:
  "(\<exists>p. word_at s arg p) \<longleftrightarrow> (\<exists>a b. s = a @ arg @ b \<and> (a = [] \<or> blank (last a)) \<and> (b = [] \<or> blank (hd b)))" (is "?l = ?r")
proof
  assume ?l
  then obtain p where p: "word_at s arg p" by blast
  let ?a = "take p s" and ?b = "drop (p + length arg) s"
  have l: "p + length arg \<le> length s" "take (length arg) (drop p s) = arg" using p by (simp_all add: word_at_def)
  have "s = ?a @ arg @ ?b" using l(2) by (metis add.commute append_take_drop_id drop_drop)
  moreover have "?a = [] \<or> blank (last ?a)"
  proof (cases "p = 0")
    case False
    have la: "length ?a = p" using l(1) by simp
    then have "?a \<noteq> []" using False by auto
    then have "last ?a = s ! (p - 1)" using la False last_conv_nth [of ?a] by simp
    then show ?thesis using p False by (simp add: word_at_def)
  qed simp
  moreover have "?b = [] \<or> blank (hd ?b)"
    using p l(1) by (cases "p + length arg = length s") (auto simp: word_at_def hd_drop_conv_nth)
  ultimately show ?r by blast
next
  assume ?r
  then obtain a b where r: "s = a @ arg @ b" "a = [] \<or> blank (last a)" "b = [] \<or> blank (hd b)" by blast
  have "a = [] \<or> s ! (length a - 1) = last a" using r(1) by (cases a rule: rev_cases) (auto simp: nth_append)
  moreover have "b = [] \<or> s ! (length a + length arg) = hd b"
    using r(1) by (cases b) (auto simp: nth_append_length [of "a @ arg", simplified])
  ultimately have "word_at s arg (length a)" using r by (auto simp: word_at_def)
  then show ?l by blast
qed

lemma words_line:
  "words s = (let l = takeWhile (\<lambda>c. \<not> blank c) s in
     if length l = length s then [l] else l # words (drop (length l + 1) s))"
proof (induction s)
  case (Cons c s)
  have "words s \<noteq> []" by (cases s) (auto split: list.splits)
  then show ?case using Cons by (auto simp: Let_def split: list.splits)
qed simp

lemma word_first:
  assumes "a @ arg @ b = l @ d # r" "\<forall>x\<in>set arg. \<not> blank x" "\<forall>x\<in>set l. \<not> blank x" "blank d"
    and "a = [] \<or> blank (last a)" "b = [] \<or> blank (hd b)"
  shows "arg = l \<or> (\<exists>a'. r = a' @ arg @ b \<and> (a' = [] \<or> blank (last a')))"
proof (cases "length a \<le> length l")
  case True
  then have "a = take (length a) l" using assms(1) by (metis append_eq_append_conv_if append_take_drop_id)
  then have "set a \<subseteq> set l" by (metis set_take_subset)
  then have a: "a = []" using assms(3,5) last_in_set by fastforce
  have "takeWhile (\<lambda>x. \<not> blank x) (arg @ b) = arg" using assms(2,6) by (cases b) (auto simp: takeWhile_append)
  moreover have "takeWhile (\<lambda>x. \<not> blank x) (l @ d # r) = l" using assms(3,4) by (auto simp: takeWhile_append)
  ultimately show ?thesis using assms(1) a by simp
next
  case False
  then obtain a' where a: "a = l @ d # a'" "r = a' @ arg @ b"
    using assms(1) by (auto simp: append_eq_append_conv2 append_eq_Cons_conv Cons_eq_append_conv)
  then show ?thesis using assms(5) by (cases a') auto
qed

lemma words_iff:
  assumes "\<forall>x\<in>set arg. \<not> blank x"
  shows "arg \<in> set (words s) \<longleftrightarrow> (\<exists>a b. s = a @ arg @ b \<and> (a = [] \<or> blank (last a)) \<and> (b = [] \<or> blank (hd b)))"
proof (induction "length s" arbitrary: s rule: less_induct)
  case less
  let ?l = "takeWhile (\<lambda>c. \<not> blank c) s"
  have nl: "\<forall>x\<in>set ?l. \<not> blank x" by (auto dest: set_takeWhileD)
  show ?case
  proof (cases "length ?l = length s")
    case True
    then have l: "?l = s" by (metis takeWhile_eq_take take_all order_refl)
    have "words s = [s]" using words_line [of s] l by (simp add: Let_def)
    moreover have "a = [] \<and> b = []" if t: "s = a @ arg @ b" "a = [] \<or> blank (last a)" "b = [] \<or> blank (hd b)" for a b
    proof -
      have ss: "set s = set a \<union> set arg \<union> set b" using t(1) by auto
      have n: "\<not> blank x" if "x \<in> set a \<union> set b" for x using that nl [unfolded l] ss by blast
      then show ?thesis using t(2,3) last_in_set [of a] hd_in_set [of b] by blast
    qed
    then have "(\<exists>a b. s = a @ arg @ b \<and> (a = [] \<or> blank (last a)) \<and> (b = [] \<or> blank (hd b))) \<longleftrightarrow> s = arg"
      by (metis append_Nil append_Nil2)
    ultimately show ?thesis by auto
  next
    case False
    then have dn: "dropWhile (\<lambda>c. \<not> blank c) s \<noteq> []" by (metis append_Nil2 takeWhile_dropWhile_id)
    then obtain d r where s: "dropWhile (\<lambda>c. \<not> blank c) s = d # r" "blank d" using hd_dropWhile [of "\<lambda>c. \<not> blank c" s] by (cases "dropWhile (\<lambda>c. \<not> blank c) s") auto
    have e: "s = ?l @ d # r" using s(1) by (metis takeWhile_dropWhile_id)
    have "drop (length ?l + 1) s = r" by (subst e) simp
    then have w: "words s = ?l # words r" using words_line [of s] False by (simp add: Let_def)
    have "length r < length s" using arg_cong [OF e, of length] by simp
    note ih = less [OF this]
    show ?thesis
    proof
      assume "arg \<in> set (words s)"
      then consider "arg = ?l" | a b where "r = a @ arg @ b" "a = [] \<or> blank (last a)" "b = [] \<or> blank (hd b)" using w ih by auto
      then show "\<exists>a b. s = a @ arg @ b \<and> (a = [] \<or> blank (last a)) \<and> (b = [] \<or> blank (hd b))"
      proof cases
        case 1
        then show ?thesis using e s(2) by (intro exI [of _ "[]"] exI [of _ "d # r"]) simp
      next
        case 2
        then show ?thesis using e s(2) by (intro exI [of _ "?l @ d # a"] exI [of _ b]) (auto simp: last_append)
      qed
    next
      assume "\<exists>a b. s = a @ arg @ b \<and> (a = [] \<or> blank (last a)) \<and> (b = [] \<or> blank (hd b))"
      then obtain a b where o: "s = a @ arg @ b" "a = [] \<or> blank (last a)" "b = [] \<or> blank (hd b)" by blast
      have "a @ arg @ b = ?l @ d # r" using o(1) e by simp
      from word_first [OF this assms nl s(2) o(2,3)] show "arg \<in> set (words s)" using w ih o(3) by auto
    qed
  qed
qed

text \<open>
  C20: the search for an argument, which goes from one occurrence of the text to the next and skips the
  length of the argument after a partial match, finds it exactly when it is one of the words of the
  command line, separated by blanks and tabs; no word is missed by skipping. The argument is not
  empty and has no blank, as the three names the board asks for.
\<close>

theorem bootarg_has_word:
  assumes "arg \<noteq> []" and "\<forall>c\<in>set arg. \<not> blank c"
  shows "xg2010g_bootarg_has bootargs arg \<longleftrightarrow> arg \<in> set (words bootargs)"
proof -
  have "xg2010g_bootarg_has bootargs arg \<longleftrightarrow> (\<exists>p. word_at bootargs arg p)"
    using bootarg_scan_word [OF assms, of 0 bootargs] by (simp add: xg2010g_bootarg_has_def)
  then show ?thesis by (simp only: word_at_split words_iff [OF assms(2)])
qed

theorem bootarg_has_word_witness:
  "xg2010g_bootarg_has ''xubi.mtd=ubi ubi.mtd=ubi'' ''ubi.mtd=ubi'' \<and> \<not> xg2010g_bootarg_has ''root=/dev/fit0 ubi.mtd=ubi2'' ''ubi.mtd=ubi''"
proof -
  have "\<forall>c\<in>set ''ubi.mtd=ubi''. \<not> blank c" by (simp add: blank_def)
  from bootarg_has_word [OF _ this] show ?thesis by (simp add: blank_def)
qed

end
