(* ===== verification/BoardInit.thy ===== *)
theory BoardInit
  imports BoardUbi Bootargs
begin

text \<open>
  Start-up of the board (\<^verbatim>\<open>board/airoha/an7581/an7581_rfb.c\<close>): the recovery button with its registers,
  the Ethernet addresses for the boot loader and for the kernel's device tree, and
  \<^verbatim>\<open>board_late_init\<close> with the boot recipe and the decision to start the recovery server. The lemmas
  show when the button counts as held, that waiting for it ends, and what late initialisation ensures.
\<close>

section \<open>The recovery button\<close>

definition XG2010G_CHIP_SCU_BASE :: u64 where "XG2010G_CHIP_SCU_BASE = 0x1fa20000"
definition XG2010G_GPIO_SYSCTL_BASE :: u64 where "XG2010G_GPIO_SYSCTL_BASE = 0x1fbf0200"
definition XG2010G_REG_GPIO_CTRL :: u64 where "XG2010G_REG_GPIO_CTRL = 0x0000"
definition XG2010G_REG_GPIO_DATA :: u64 where "XG2010G_REG_GPIO_DATA = 0x0004"
definition XG2010G_REG_GPIO_OE :: u64 where "XG2010G_REG_GPIO_OE = 0x0014"
definition XG2010G_REG_GPIO_CTRL1 :: u64 where "XG2010G_REG_GPIO_CTRL1 = 0x0020"
definition XG2010G_REG_GPIO_FLASH_MODE_CFG :: u64 where "XG2010G_REG_GPIO_FLASH_MODE_CFG = 0x0034"
definition XG2010G_REG_GPIO_CTRL2 :: u64 where "XG2010G_REG_GPIO_CTRL2 = 0x0060"
definition XG2010G_REG_GPIO_CTRL3 :: u64 where "XG2010G_REG_GPIO_CTRL3 = 0x0064"
definition XG2010G_REG_GPIO_DATA1 :: u64 where "XG2010G_REG_GPIO_DATA1 = 0x0070"
definition XG2010G_REG_GPIO_OE1 :: u64 where "XG2010G_REG_GPIO_OE1 = 0x0078"
definition XG2010G_GPIO_MAX :: u32 where "XG2010G_GPIO_MAX = 64"

abbreviation (input) GPIO_ACTIVE_LOW :: u32 where "GPIO_ACTIVE_LOW \<equiv> 1"

definition xg2010g_clrsetbits_le32 :: "u64 \<Rightarrow> u32 \<Rightarrow> u32 \<Rightarrow> regs \<Rightarrow> regs" where
  "xg2010g_clrsetbits_le32 addr clr st r =
    (let val = r addr; val = val AND NOT clr; val = val OR st in r(addr := val))"

definition xg2010g_gpio_data_reg :: "u32 \<Rightarrow> u64" where
  "xg2010g_gpio_data_reg pin =
    XG2010G_GPIO_SYSCTL_BASE + (if pin < 32 then XG2010G_REG_GPIO_DATA else XG2010G_REG_GPIO_DATA1)"

definition xg2010g_gpio_oe_reg :: "u32 \<Rightarrow> u64" where
  "xg2010g_gpio_oe_reg pin =
    XG2010G_GPIO_SYSCTL_BASE + (if pin < 32 then XG2010G_REG_GPIO_OE else XG2010G_REG_GPIO_OE1)"

definition xg2010g_gpio_dir_reg :: "u32 \<Rightarrow> u64" where
  "xg2010g_gpio_dir_reg pin =
    (if pin \<ge> XG2010G_GPIO_MAX then 0
     else XG2010G_GPIO_SYSCTL_BASE +
       [XG2010G_REG_GPIO_CTRL, XG2010G_REG_GPIO_CTRL1, XG2010G_REG_GPIO_CTRL2, XG2010G_REG_GPIO_CTRL3] ! (unat pin div 16))"

definition xg2010g_gpio_direction_input :: "u32 \<Rightarrow> regs \<Rightarrow> regs" where
  "xg2010g_gpio_direction_input pin r =
    (let bank_bit = BIT (unat pin mod 32); dir_bit = BIT (2 * (unat pin mod 16)) in
     if pin \<ge> XG2010G_GPIO_MAX then r
     else
       let dir_reg = xg2010g_gpio_dir_reg pin in
       if dir_reg = 0 then r
       else xg2010g_clrsetbits_le32 dir_reg dir_bit 0
              (xg2010g_clrsetbits_le32 (xg2010g_gpio_oe_reg pin) bank_bit 0 r))"

definition xg2010g_gpio_prepare_input :: "u32 \<Rightarrow> regs \<Rightarrow> regs" where
  "xg2010g_gpio_prepare_input pin r =
    (let r = (if pin < 16
              then xg2010g_clrsetbits_le32 (XG2010G_CHIP_SCU_BASE + XG2010G_REG_GPIO_FLASH_MODE_CFG) (BIT (unat pin)) 0 r
              else r) in
     xg2010g_gpio_direction_input pin r)"

text \<open>
  One look at the button. \<open>gpio_request\<close> is the result of the request by name and \<open>gpio_value\<close> the pin as
  the GPIO driver reads it; \<open>gpio_args\<close> are the cells of \<^verbatim>\<open>recovery-gpios\<close> and \<open>gpio_data\<close> gives the
  contents of the data registers at this moment, which follow the pins.
\<close>

record button_in =
  gpio_request :: int
  gpio_value :: int
  gpio_args :: "int + u32 list"
  gpio_data :: regs

definition xg2010g_recovery_button_pressed_raw :: "button_in \<Rightarrow> regs \<Rightarrow> bool \<times> regs" where
  "xg2010g_recovery_button_pressed_raw bn r =
    (case gpio_args bn of
       Inl _ \<Rightarrow> (False, r)
     | Inr [] \<Rightarrow> (False, r)
     | Inr (pin # rest) \<Rightarrow>
         let gpio_flags = (case rest of [] \<Rightarrow> 0 | fl # _ \<Rightarrow> fl) in
         if pin \<ge> XG2010G_GPIO_MAX then (False, r)
         else
           let r = xg2010g_gpio_prepare_input pin r;
               val = gpio_data bn (xg2010g_gpio_data_reg pin);
               ret = (val AND BIT (unat pin mod 32) \<noteq> 0) in
           (if gpio_flags AND GPIO_ACTIVE_LOW \<noteq> 0 then \<not> ret else ret, r))"

definition xg2010g_recovery_button_pressed :: "'d board \<Rightarrow> button_in \<Rightarrow> regs \<Rightarrow> bool \<times> regs" where
  "xg2010g_recovery_button_pressed b bn r =
    (if \<not> xg2010g_is_compatible b then (False, r)
     else if gpio_request bn \<noteq> 0 then xg2010g_recovery_button_pressed_raw bn r
     else (gpio_value bn > 0, r))"

text \<open>\<^verbatim>\<open>simple_strtoul\<close> with base 10, which wraps; a \<^verbatim>\<open>0x\<close> prefix selects base 16.\<close>

fun dec_digits :: "string \<Rightarrow> u64 \<Rightarrow> u64" where
  "dec_digits [] v = v"
| "dec_digits (c # cs) v = (if decode_digit c < 10 then dec_digits cs (v * 10 + of_nat (decode_digit c)) else v)"

definition dectoul :: "string \<Rightarrow> u64" where
  "dectoul s =
    (case s of
       CHR ''0'' # x # cs \<Rightarrow> if x = CHR ''x'' \<or> x = CHR ''X'' then fst (hex_digits cs 0) else dec_digits s 0
     | _ \<Rightarrow> dec_digits s 0)"

definition env_get_ulong :: "envs \<Rightarrow> string \<Rightarrow> u64 \<Rightarrow> u64" where
  "env_get_ulong e name dflt = (case e name of None \<Rightarrow> dflt | Some s \<Rightarrow> dectoul s)"

text \<open>
  The loop that waits for the button to stay pressed. Each iteration sees the button and the time since
  the start in milliseconds; \<^term>\<open>None\<close> means that it is still waiting after the given iterations.
\<close>

fun button_hold :: "'d board \<Rightarrow> u64 \<Rightarrow> (button_in \<times> u64) list \<Rightarrow> regs \<Rightarrow> bool option \<times> regs" where
  "button_hold b timeout [] r = (None, r)"
| "button_hold b timeout ((bn, elapsed) # samples) r =
    (let (pressed, r) = xg2010g_recovery_button_pressed b bn r in
     if \<not> pressed then (Some False, r)
     else if elapsed \<ge> timeout * 1000 then (Some True, r)
     else button_hold b timeout samples r)"

definition xg2010g_recovery_button_confirmed ::
    "'d board \<Rightarrow> envs \<Rightarrow> button_in \<Rightarrow> (button_in \<times> u64) list \<Rightarrow> regs \<Rightarrow> bool option \<times> regs" where
  "xg2010g_recovery_button_confirmed b e bn samples r =
    (let timeout = env_get_ulong e ''recovery_button_timeout'' 3;
         (pressed, r) = xg2010g_recovery_button_pressed b bn r in
     if \<not> pressed then (Some False, r)
     else if timeout = 0 then (Some True, r)
     else button_hold b (if timeout > 30 then 30 else timeout) samples r)"

section \<open>The addresses\<close>

definition eth_env_set_enetaddr :: "(string \<Rightarrow> int) \<Rightarrow> string \<Rightarrow> bytes \<Rightarrow> envs \<Rightarrow> int \<times> envs" where
  "eth_env_set_enetaddr outcome name mac e =
    (if fst (eth_env_get_enetaddr e name) then (-EEXIST, e)
     else env_set outcome name (Some (mac_address_string mac)) e)"

definition xg2010g_sync_runtime_ethaddrs :: "'d board \<Rightarrow> (string \<Rightarrow> int) \<Rightarrow> bool \<Rightarrow> ('d, 'x) world \<Rightarrow> ('d, 'x) world" where
  "xg2010g_sync_runtime_ethaddrs b outcome mem_ok w =
    (if \<not> xg2010g_is_compatible b then w
     else case xg2010g_get_runtime_ethaddr b mem_ok w of
       (Inl _, w) \<Rightarrow> w
     | (Inr mac, w) \<Rightarrow> w\<lparr>env := snd (eth_env_set_enetaddr outcome ''ethaddr'' mac (env w))\<rparr>)"

text \<open>
  The device tree for the kernel: properties by node; \<open>set_ret\<close> is the result of \<^verbatim>\<open>fdt_setprop\<close>, which
  changes nothing when it fails.
\<close>

type_synonym fdt_blob = "string \<Rightarrow> (string \<Rightarrow> bytes option) option"

abbreviation (input) FDT_ERR_NOTFOUND :: int where "FDT_ERR_NOTFOUND \<equiv> 1"

definition fdt_setprop :: "(string \<Rightarrow> string \<Rightarrow> int) \<Rightarrow> string \<Rightarrow> string \<Rightarrow> bytes \<Rightarrow> fdt_blob \<Rightarrow> int \<times> fdt_blob" where
  "fdt_setprop set_ret path name v blob =
    (if set_ret path name \<noteq> 0 then (set_ret path name, blob)
     else (0, blob(path := map_option (\<lambda>ps. ps(name \<mapsto> v)) (blob path))))"

definition xg2010g_fdt_set_mac :: "(string \<Rightarrow> string \<Rightarrow> int) \<Rightarrow> string \<Rightarrow> bytes \<Rightarrow> fdt_blob \<Rightarrow> int \<times> fdt_blob" where
  "xg2010g_fdt_set_mac set_ret path mac blob =
    (if blob path = None then (- FDT_ERR_NOTFOUND, blob)
     else
       let (ret, blob) = fdt_setprop set_ret path ''mac-address'' mac blob in
       if ret \<noteq> 0 then (ret, blob) else fdt_setprop set_ret path ''local-mac-address'' mac blob)"

definition xg2010g_fdt_recovery_mac_paths :: "string list" where
  "xg2010g_fdt_recovery_mac_paths = [''/soc/ethernet@1fb50000/ethernet@1'']"

definition xg2010g_fixup_fdt_macs ::
    "'d board \<Rightarrow> bool \<Rightarrow> (string \<Rightarrow> string \<Rightarrow> int) \<Rightarrow> fdt_blob \<Rightarrow> ('d, 'x) world \<Rightarrow> fdt_blob \<times> ('d, 'x) world" where
  "xg2010g_fixup_fdt_macs b mem_ok set_ret blob w =
    (if \<not> xg2010g_is_compatible b then (blob, w)
     else case xg2010g_get_runtime_ethaddr b mem_ok w of
       (Inl _, w) \<Rightarrow> (blob, w)
     | (Inr mac, w) \<Rightarrow>
         (fold (\<lambda>path blob. snd (xg2010g_fdt_set_mac set_ret path mac blob)) xg2010g_fdt_recovery_mac_paths blob, w))"

definition ft_board_setup ::
    "'d board \<Rightarrow> bool \<Rightarrow> (string \<Rightarrow> string \<Rightarrow> int) \<Rightarrow> fdt_blob option \<Rightarrow> ('d, 'x) world \<Rightarrow> int \<times> fdt_blob option \<times> ('d, 'x) world" where
  "ft_board_setup b mem_ok set_ret blob w =
    (case blob of
       None \<Rightarrow> (0, None, w)
     | Some bl \<Rightarrow> let (bl, w) = xg2010g_fixup_fdt_macs b mem_ok set_ret bl w in (0, Some bl, w))"

section \<open>Late initialisation\<close>

text \<open>\<^verbatim>\<open>env_set_hex\<close>.\<close>

fun hex_string :: "nat \<Rightarrow> string" where
  "hex_string n = (if n < 16 then [hex_asc ! n] else hex_string (n div 16) @ [hex_asc ! (n mod 16)])"

declare hex_string.simps [simp del]

definition env_set_hex :: "(string \<Rightarrow> int) \<Rightarrow> string \<Rightarrow> u64 \<Rightarrow> envs \<Rightarrow> int \<times> envs" where
  "env_set_hex outcome name v e = env_set outcome name (Some (hex_string (unat v))) e"

text \<open>
  The boot recipe: \<open>part\<close> is the detected partition, \<open>dflt\<close> the built-in command line. A string that is
  printed into \<^verbatim>\<open>boot_ubi\<close> is cut to 63 characters.
\<close>

definition late_boot_env :: "(string \<Rightarrow> int) \<Rightarrow> string \<Rightarrow> string option \<Rightarrow> envs \<Rightarrow> envs" where
  "late_boot_env outcome part dflt e =
    (let boot_ubi = take 63 (''ubi part '' @ part @ '' && run boot_production'');
         st = (\<lambda>name v e. snd (env_set outcome name v e));
         e = (if e ''bootcmd'' \<noteq> Some ''run boot_ubi || http_recovery''
              then st ''bootcmd'' (Some ''run boot_ubi || http_recovery'') e else e);
         e = st ''boot_ubi'' (Some boot_ubi) e;
         e = st ''ubi_read_production'' (Some ''ubi read ${loadaddr} fit'') e;
         e = st ''boot_production'' (Some ''run ubi_read_production && bootm ${loadaddr}#${bootconf}'') e;
         e = st ''bootconf'' (Some ''config-1'') e;
         e = st ''recovery_mtd'' (Some ''fit'') e;
         e = st ''recovery_ubi_part'' (Some ''ubi'') e;
         e = (if xg2010g_bootargs_need_migration (e ''bootargs'')
              then (case dflt of Some d \<Rightarrow> st ''bootargs'' (Some d) e | None \<Rightarrow> e) else e) in
     if e ''fdt_high'' \<noteq> None then st ''fdt_high'' None e else e)"

text \<open>The network and the upload address, before the recovery server starts.\<close>

definition late_recovery_addr :: "'d board \<Rightarrow> u64" where
  "late_recovery_addr b =
    (let recovery_addr = brd_ram_base b + 0x10000000 in
     if recovery_addr < brd_ram_base b \<or> recovery_addr \<ge> brd_ram_base b + brd_ram_size b
     then brd_load_addr b else recovery_addr)"

definition late_recovery_env :: "'d board \<Rightarrow> (string \<Rightarrow> int) \<Rightarrow> envs \<Rightarrow> envs" where
  "late_recovery_env b outcome e =
    (let st = (\<lambda>name v e. snd (env_set outcome name v e));
         e = (if e ''ipaddr'' = None then st ''ipaddr'' (Some ''192.168.0.1'') e else e);
         e = (if e ''netmask'' = None then st ''netmask'' (Some ''255.255.255.0'') e else e);
         e = (if e ''gatewayip'' = None then st ''gatewayip'' (Some ''0.0.0.0'') e else e) in
     snd (env_set_hex outcome ''recovery_addr'' (late_recovery_addr b) e))"

text \<open>
  The answers of the environment: allocation outcomes, the button, the built-in command line, and the
  inputs of the recovery server. \<open>httpd_enabled\<close> is \<^verbatim>\<open>CONFIG_HTTPD_RECOVERY\<close>.
\<close>

record ('d, 'm) late_in =
  uenv_mem :: "nat option"
  mac_mem :: bool
  button0 :: button_in
  button_samples :: "(button_in \<times> u64) list"
  default_bootargs :: "string option"
  httpd_enabled :: bool
  late_sync :: "'d sync_in"
  late_mdio :: "'m \<Rightarrow> int \<Rightarrow> nat \<Rightarrow> int \<times> 'm"
  late_boot :: boot_in
  late_inputs :: "loop_in list"

datatype late_exit = NormalBoot | WaitingForButton | RecoveryDisabled | RecoveryRun run_exit

text \<open>The start of the server; after a return, automatic booting is disabled.\<close>

definition late_recover ::
    "'d board \<Rightarrow> ('d, 'm) late_in \<Rightarrow> ubi_probe \<Rightarrow> ('d, 'm) recovery \<Rightarrow> (late_exit \<times> ('d, 'm) recovery) option" where
  "late_recover b li ps s =
    (let outcome = env_result (late_boot li);
         s = upd_env (late_recovery_env b outcome) s in
     if \<not> httpd_enabled li then Some (RecoveryDisabled, s)
     else
       map_option (\<lambda>(x, s). (RecoveryRun x,
           case x of Returned _ \<Rightarrow> upd_env (\<lambda>e. snd (env_set outcome ''bootdelay'' (Some ''-1'') e)) s | _ \<Rightarrow> s))
         (run_http_recovery (recovery_get_board_ops b) (xg2010g_sync_factory_part b (late_sync li))
            (\<lambda>w. let (ret, _, w) = xg2010g_sync_factory b (late_sync li) ps w in (ret, w))
            (late_mdio li) (late_boot li) (late_inputs li) s))"

text \<open>
  The part that runs on every boot: the flag in \<^verbatim>\<open>uenv\<close>, the Ethernet address, the partition, the boot
  recipe. The first component says whether the flag was set.
\<close>

definition late_setup ::
    "'d board \<Rightarrow> ('d, 'm) late_in \<Rightarrow> ubi_probe \<Rightarrow> ('d, 'm) recovery \<Rightarrow> bool \<times> ubi_probe \<times> ('d, 'm) recovery" where
  "late_setup b li ps s =
    (let outcome = env_result (late_boot li);
         (_, uenv_triggered, w) =
           (if xg2010g_is_compatible b then xg2010g_uenv_consume_recovery_trigger b (uenv_mem li) (rw s) else (0, False, rw s));
         w = xg2010g_sync_runtime_ethaddrs b outcome (mac_mem li) w;
         (part, ps, w) = xg2010g_detect_ubi_part b ps w in
     (uenv_triggered, ps, s\<lparr>rw := w\<lparr>env := late_boot_env outcome part (default_bootargs li) (env w)\<rparr>\<rparr>))"

definition board_late_init ::
    "'d board \<Rightarrow> ('d, 'm) late_in \<Rightarrow> ubi_probe \<Rightarrow> ('d, 'm) recovery \<Rightarrow> (late_exit \<times> ubi_probe \<times> ('d, 'm) recovery) option" where
  "board_late_init b li ps s =
    (let outcome = env_result (late_boot li);
         (uenv_triggered, ps, s) = late_setup b li ps s in
     if uenv_triggered then map_option (\<lambda>(x, s). (x, ps, s)) (late_recover b li ps s)
     else if env (rw s) ''recovery_trigger'' = Some ''1'' then
       map_option (\<lambda>(x, s). (x, ps, s))
         (late_recover b li ps (upd_env (\<lambda>e. snd (env_set outcome ''recovery_trigger'' (Some ''0'') e)) s))
     else
       let (confirmed, r) =
             xg2010g_recovery_button_confirmed b (env (rw s)) (button0 li) (button_samples li) (gpio_regs s);
           s = s\<lparr>gpio_regs := r\<rparr> in
       case confirmed of
         None \<Rightarrow> Some (WaitingForButton, ps, s)
       | Some False \<Rightarrow> Some (NormalBoot, ps, s)
       | Some True \<Rightarrow> map_option (\<lambda>(x, s). (x, ps, s)) (late_recover b li ps s))"

section \<open>The button\<close>

definition looks_pressed :: "'d board \<Rightarrow> button_in \<Rightarrow> bool" where
  "looks_pressed b bn = fst (xg2010g_recovery_button_pressed b bn (\<lambda>_. 0))"

lemma button_pressed_regs: "fst (xg2010g_recovery_button_pressed b bn r) = looks_pressed b bn"
  by (auto simp: looks_pressed_def xg2010g_recovery_button_pressed_def xg2010g_recovery_button_pressed_raw_def Let_def split: sum.splits list.splits)

text \<open>
  The wait as a specification: the button is confirmed at the first look whose time reaches the
  limit if it was pressed at that look and at all before it, and released at the first look
  where it is not pressed.
\<close>

definition held_until :: "'d board \<Rightarrow> u64 \<Rightarrow> (button_in \<times> u64) list \<Rightarrow> bool" where
  "held_until b limit samples =
    (\<exists>k < length samples. limit \<le> snd (samples ! k) \<and> (\<forall>j \<le> k. looks_pressed b (fst (samples ! j))))"

lemma held_until_Cons:
  "held_until b limit ((bn, t) # samples) \<longleftrightarrow> looks_pressed b bn \<and> (limit \<le> t \<or> held_until b limit samples)"
proof
  assume "held_until b limit ((bn, t) # samples)"
  then obtain k where k: "k < length ((bn, t) # samples)" "limit \<le> snd (((bn, t) # samples) ! k)"
    and p: "\<forall>j \<le> k. looks_pressed b (fst (((bn, t) # samples) ! j))" by (auto simp: held_until_def)
  have "looks_pressed b bn" using p [rule_format, of 0] by simp
  moreover have "limit \<le> t \<or> held_until b limit samples"
  proof (cases k)
    case (Suc i)
    have "looks_pressed b (fst (samples ! j))" if "j \<le> i" for j using p [rule_format, of "Suc j"] that Suc by simp
    then show ?thesis using k Suc by (auto simp: held_until_def)
  qed (use k in simp)
  ultimately show "looks_pressed b bn \<and> (limit \<le> t \<or> held_until b limit samples)" by simp
next
  assume a: "looks_pressed b bn \<and> (limit \<le> t \<or> held_until b limit samples)"
  consider "limit \<le> t" | k where "k < length samples" "limit \<le> snd (samples ! k)" "\<forall>j \<le> k. looks_pressed b (fst (samples ! j))"
    using a by (auto simp: held_until_def)
  then show "held_until b limit ((bn, t) # samples)"
  proof cases
    case 1
    then show ?thesis using a by (intro exI [of _ 0] | simp add: held_until_def)+
  next
    case 2
    then have "\<forall>j \<le> Suc k. looks_pressed b (fst (((bn, t) # samples) ! j))" using a by (auto simp: nth_Cons split: nat.split)
    then show ?thesis using 2 unfolding held_until_def by (intro exI [of _ "Suc k"]) auto
  qed
qed

lemma button_hold_confirmed: "fst (button_hold b timeout samples r) = Some True \<longleftrightarrow> held_until b (timeout * 1000) samples"
proof (induction samples arbitrary: r)
  case (Cons a samples)
  obtain bn t where a: "a = (bn, t)" by (metis prod.exhaust)
  show ?case using Cons.IH by (auto simp: a held_until_Cons Let_def button_pressed_regs split: prod.splits)
     (metis button_pressed_regs fst_conv)+
qed (simp add: held_until_def)

text \<open>The wait ends at a look whose time reaches the limit, at the latest.\<close>

lemma button_hold_ends:
  "k < length samples \<Longrightarrow> timeout * 1000 \<le> snd (samples ! k) \<Longrightarrow> fst (button_hold b timeout samples r) \<noteq> None"
proof (induction samples arbitrary: r k)
  case (Cons a samples)
  obtain bn t where a: "a = (bn, t)" by (metis prod.exhaust)
  show ?case using Cons by (cases k) (auto simp: a Let_def split: prod.splits)
qed simp

text \<open>The limit in seconds, and the looks that confirm the button.\<close>

definition hold_limit :: "envs \<Rightarrow> u64" where
  "hold_limit e = min 30 (env_get_ulong e ''recovery_button_timeout'' 3)"

definition button_held :: "'d board \<Rightarrow> envs \<Rightarrow> button_in \<Rightarrow> (button_in \<times> u64) list \<Rightarrow> bool" where
  "button_held b e bn samples \<longleftrightarrow>
     looks_pressed b bn \<and> (hold_limit e = 0 \<or> held_until b (hold_limit e * 1000) samples)"

lemma button_confirmed_held:
  "fst (xg2010g_recovery_button_confirmed b e bn samples r) = Some True \<longleftrightarrow> button_held b e bn samples"
proof -
  obtain p r' where p: "xg2010g_recovery_button_pressed b bn r = (p, r')" by (metis prod.exhaust)
  then have q: "p = looks_pressed b bn" using button_pressed_regs [of b bn r] by simp
  have "(if 30 < t then 30 else t) = min 30 t" for t :: u64 by (auto simp: min_def)
  then show ?thesis
    by (auto simp: xg2010g_recovery_button_confirmed_def p q button_held_def hold_limit_def Let_def button_hold_confirmed min_def)
qed

lemma hold_limit_le: "unat (hold_limit e * 1000) \<le> 30000"
proof -
  have "hold_limit e \<le> 30" by (simp add: hold_limit_def)
  then have h: "unat (hold_limit e) \<le> 30" by (simp add: word_le_nat_alt)
  have "unat (hold_limit e * 1000) \<le> unat (hold_limit e) * unat (1000 :: u64)" by (simp add: unat_word_ariths)
  then show ?thesis using h by simp
qed

text \<open>With a look every 100 ms the button is decided within 301 looks.\<close>

lemma button_confirmed_ends:
  assumes "\<And>k. k < length samples \<Longrightarrow> 100 * k \<le> unat (snd (samples ! k))" "300 < length samples"
  shows "fst (xg2010g_recovery_button_confirmed b e bn samples r) \<noteq> None"
proof -
  obtain p r' where p: "xg2010g_recovery_button_pressed b bn r = (p, r')" by (metis prod.exhaust)
  let ?t = "env_get_ulong e ''recovery_button_timeout'' 3"
  have lim: "(if 30 < ?t then 30 else ?t) = hold_limit e" by (auto simp: min_def hold_limit_def)
  have "hold_limit e * 1000 \<le> snd (samples ! 300)"
    using hold_limit_le [of e] assms(1) [of 300] assms(2) by (simp add: word_le_nat_alt)
  then have "fst (button_hold b (hold_limit e) samples r') \<noteq> None" using assms(2) by (rule button_hold_ends [rotated])
  then show ?thesis by (auto simp: xg2010g_recovery_button_confirmed_def p lim Let_def)
qed

section \<open>The boot recipe\<close>

text \<open>
  What the environment holds after the recipe is forced; \<open>dflt\<close> is the built-in command line.
\<close>

definition boot_recipe :: "string option \<Rightarrow> envs \<Rightarrow> bool" where
  "boot_recipe dflt e \<longleftrightarrow>
     e ''bootcmd'' = Some ''run boot_ubi || http_recovery'' \<and>
     e ''boot_ubi'' = Some ''ubi part ubi && run boot_production'' \<and>
     e ''ubi_read_production'' = Some ''ubi read ${loadaddr} fit'' \<and>
     e ''boot_production'' = Some ''run ubi_read_production && bootm ${loadaddr}#${bootconf}'' \<and>
     e ''bootconf'' = Some ''config-1'' \<and> e ''recovery_mtd'' = Some ''fit'' \<and> e ''recovery_ubi_part'' = Some ''ubi'' \<and>
     e ''fdt_high'' = None \<and>
     (dflt = None \<or> e ''bootargs'' = dflt \<or> \<not> xg2010g_bootargs_need_migration (e ''bootargs''))"

text \<open>The variables the recipe is about.\<close>

definition recipe_vars :: "string set" where
  "recipe_vars = {''bootcmd'', ''boot_ubi'', ''ubi_read_production'', ''boot_production'', ''bootconf'', ''recovery_mtd'',
     ''recovery_ubi_part'', ''fdt_high'', ''bootargs''}"

lemma boot_env_forced:
  assumes "\<And>n. outcome n = 0"
  shows "boot_recipe dflt (late_boot_env outcome ''ubi'' dflt e)" "n \<notin> recipe_vars \<Longrightarrow> late_boot_env outcome ''ubi'' dflt e n = e n"
proof -
  show "boot_recipe dflt (late_boot_env outcome ''ubi'' dflt e)"
    using assms by (simp add: boot_recipe_def late_boot_env_def env_set_def Let_def split: option.split)
  show "n \<notin> recipe_vars \<Longrightarrow> late_boot_env outcome ''ubi'' dflt e n = e n"
    using assms by (simp add: recipe_vars_def late_boot_env_def env_set_def Let_def split: option.split)
qed

lemma hex_digits_string:
  "n < 2 ^ 64 \<Longrightarrow> hex_digits (hex_string n @ t) 0 = hex_digits t (of_nat n)"
proof (induction n arbitrary: t rule: hex_string.induct)
  case (1 n)
  show ?case
  proof (cases "n < 16")
    case True
    then show ?thesis using hex_asc_digit(1) [of n] by (simp add: hex_string.simps [of n])
  next
    case False
    have d: "decode_digit (hex_asc ! (n mod 16)) = n mod 16" by (simp add: hex_asc_digit(1))
    have "(of_nat (n div 16) * 16 + of_nat (n mod 16) :: u64) = of_nat (n div 16 * 16 + n mod 16)" by (simp only: of_nat_add of_nat_mult of_nat_numeral)
    then have e: "(of_nat (n div 16) * 16 + of_nat (n mod 16) :: u64) = of_nat n" by (simp only: div_mult_mod_eq)
    have "hex_digits (hex_string n @ t) 0 = hex_digits (hex_asc ! (n mod 16) # t) (of_nat (n div 16))"
      using False "1.IH" [OF False, of "hex_asc ! (n mod 16) # t"] "1.prems" by (simp add: hex_string.simps [of n])
    also have "\<dots> = hex_digits t (of_nat n)" using d e by simp
    finally show ?thesis .
  qed
qed

lemma hex_string_chars: "set (hex_string n) \<subseteq> (!) hex_asc ` {..<16}"
proof (induction n rule: hex_string.induct)
  case (1 n)
  then show ?case by (subst hex_string.simps) auto
qed

lemma hextoul_plain:
  assumes "CHR ''x'' \<notin> set s" "CHR ''X'' \<notin> set s"
  shows "hextoul s = hex_digits s 0"
proof (cases s)
  case (Cons c t)
  show ?thesis
  proof (cases t)
    case Nil
    then show ?thesis unfolding hextoul_def Cons by (simp split: char.split bool.split)
  next
    case (Cons x cs)
    have "x \<noteq> CHR ''x''" "x \<noteq> CHR ''X''" using assms \<open>s = c # t\<close> Cons by auto
    then show ?thesis unfolding hextoul_def \<open>s = c # t\<close> Cons by (simp split: char.split bool.split)
  qed
qed (simp add: hextoul_def)

lemma hextoul_hex_string: "hextoul (hex_string (unat v)) = (v, [])"
proof -
  have h: "hex_digits (hex_string (unat v)) 0 = (v, [])"
    using hex_digits_string [of "unat v" "[]"] unsigned_less [of v] by simp
  have "CHR ''x'' \<notin> set (hex_string (unat v))" "CHR ''X'' \<notin> set (hex_string (unat v))"
    using hex_string_chars [of "unat v"] hex_asc_digit(2,3) by fastforce+
  then show ?thesis using h hextoul_plain by simp
qed

lemma recovery_env_defined:
  assumes "\<And>n. outcome n = 0"
  shows "late_recovery_env b outcome e ''ipaddr'' \<noteq> None" "late_recovery_env b outcome e ''netmask'' \<noteq> None"
    "late_recovery_env b outcome e ''gatewayip'' \<noteq> None"
    "env_get_hex (late_recovery_env b outcome e) ''recovery_addr'' d = late_recovery_addr b"
    "n \<notin> {''ipaddr'', ''netmask'', ''gatewayip'', ''recovery_addr''} \<Longrightarrow> late_recovery_env b outcome e n = e n"
    "n \<noteq> ''recovery_addr'' \<Longrightarrow> e n \<noteq> None \<Longrightarrow> late_recovery_env b outcome e n = e n"
proof -
  have ne: "hex_string k \<noteq> []" for k by (simp add: hex_string.simps [of k])
  show "env_get_hex (late_recovery_env b outcome e) ''recovery_addr'' d = late_recovery_addr b"
    using assms ne by (simp add: late_recovery_env_def env_set_hex_def env_set_def Let_def env_get_hex_def hextoul_hex_string)
  show "late_recovery_env b outcome e ''ipaddr'' \<noteq> None" "late_recovery_env b outcome e ''netmask'' \<noteq> None"
    "late_recovery_env b outcome e ''gatewayip'' \<noteq> None"
    using assms by (simp_all add: late_recovery_env_def env_set_hex_def env_set_def Let_def)
  have o: "n \<notin> {''ipaddr'', ''netmask'', ''gatewayip'', ''recovery_addr''} \<Longrightarrow> late_recovery_env b outcome e n = e n"
    using assms by (simp add: late_recovery_env_def env_set_hex_def env_set_def Let_def)
  then show "n \<notin> {''ipaddr'', ''netmask'', ''gatewayip'', ''recovery_addr''} \<Longrightarrow> late_recovery_env b outcome e n = e n" .
  have i: "e ''ipaddr'' \<noteq> None \<Longrightarrow> late_recovery_env b outcome e ''ipaddr'' = e ''ipaddr''"
      "e ''netmask'' \<noteq> None \<Longrightarrow> late_recovery_env b outcome e ''netmask'' = e ''netmask''"
      "e ''gatewayip'' \<noteq> None \<Longrightarrow> late_recovery_env b outcome e ''gatewayip'' = e ''gatewayip''"
    using assms by (simp_all add: late_recovery_env_def env_set_hex_def env_set_def Let_def del: not_None_eq)
  show "n \<noteq> ''recovery_addr'' \<Longrightarrow> e n \<noteq> None \<Longrightarrow> late_recovery_env b outcome e n = e n" using o i by blast
qed

section \<open>The addresses of the interfaces\<close>

lemma keeps_env: "keeps w w' \<Longrightarrow> env w' = env w"
  by (auto simp: keeps_def core_def dest: arg_cong [of _ _ env])

lemma runtime_ethaddr_env: "xg2010g_get_runtime_ethaddr b mem_ok w = (r, w') \<Longrightarrow> env w' = env w"
proof -
  assume run: "xg2010g_get_runtime_ethaddr b mem_ok w = (r, w')"
  obtain q w1 where d: "xg2010g_get_dsd_recovery_ethaddr b mem_ok w = (q, w1)" by (metis prod.exhaust)
  have "w' = w1" using run by (auto simp: xg2010g_get_runtime_ethaddr_def d Let_def split: sum.splits if_splits prod.splits)
  then show ?thesis using dsd_recovery_ethaddr_keeps [OF d] keeps_env by blast
qed

text \<open>
  A valid \<^verbatim>\<open>ethaddr\<close> in the environment stays, also when the calibration partition has another
  address: setting it is refused and the result is not looked at.
\<close>

lemma sync_ethaddr_stays:
  assumes "fst (eth_env_get_enetaddr (env w) ''ethaddr'')"
  shows "env (xg2010g_sync_runtime_ethaddrs b outcome mem_ok w) = env w"
proof -
  obtain r w' where d: "xg2010g_get_runtime_ethaddr b mem_ok w = (r, w')" by (metis prod.exhaust)
  then have "env w' = env w" by (rule runtime_ethaddr_env)
  then show ?thesis using assms by (auto simp: xg2010g_sync_runtime_ethaddrs_def d eth_env_set_enetaddr_def split: sum.split)
qed

text \<open>Without one, the address of the calibration partition is set when it has a valid one.\<close>

lemma sync_ethaddr_set:
  assumes "xg2010g_is_compatible b" "\<not> fst (eth_env_get_enetaddr (env w) ''ethaddr'')" "outcome ''ethaddr'' = 0"
    and d: "xg2010g_get_dsd_recovery_ethaddr b mem_ok w = (Inr mac, w')"
  shows "env (xg2010g_sync_runtime_ethaddrs b outcome mem_ok w) = (env w)(''ethaddr'' \<mapsto> mac_address_string mac)"
proof -
  have "env w' = env w" using dsd_recovery_ethaddr_keeps [OF d] keeps_env by blast
  then show ?thesis using assms
    by (simp add: xg2010g_sync_runtime_ethaddrs_def xg2010g_get_runtime_ethaddr_def eth_env_set_enetaddr_def env_set_def)
qed

text \<open>The kernel's device tree gets the address in both properties of the node, if it has the node.\<close>

lemma ft_board_setup_macs:
  assumes "xg2010g_is_compatible b" "xg2010g_get_runtime_ethaddr b mem_ok w = (Inr mac, w')" "\<And>p n. set_ret p n = 0"
    and "blob ''/soc/ethernet@1fb50000/ethernet@1'' = Some props"
  shows "ft_board_setup b mem_ok set_ret (Some blob) w =
    (0, Some (blob(''/soc/ethernet@1fb50000/ethernet@1'' \<mapsto> props(''mac-address'' \<mapsto> mac, ''local-mac-address'' \<mapsto> mac))), w')"
  using assms by (simp add: ft_board_setup_def xg2010g_fixup_fdt_macs_def xg2010g_fdt_recovery_mac_paths_def xg2010g_fdt_set_mac_def
      fdt_setprop_def Let_def)

section \<open>What late initialisation ensures\<close>

lemma recipe_cong: "(\<And>n. n \<in> recipe_vars \<Longrightarrow> e' n = e n) \<Longrightarrow> boot_recipe dflt e' = boot_recipe dflt e"
  by (simp add: boot_recipe_def recipe_vars_def)

lemma detect_part_ubi:
  "lay_part (active_ubi_layout ps) = ''ubi'' \<Longrightarrow> xg2010g_detect_ubi_part b ps w = (p, ps', w') \<Longrightarrow> p = ''ubi'' \<and> lay_part (active_ubi_layout ps') = ''ubi''"
  by (auto simp: xg2010g_detect_ubi_part_def Let_def xg2010g_ubi_layouts_def xg2010g_ubi_geometry_def
      split: if_splits sum.splits prod.splits)

lemma late_setup_recipe:
  assumes "\<And>n. env_result (late_boot li) n = 0" "lay_part (active_ubi_layout ps) = ''ubi''" "late_setup b li ps s = (trig, ps1, s1)"
  shows "boot_recipe (default_bootargs li) (env (rw s1))"
proof -
  obtain r t w where u: "(if xg2010g_is_compatible b then xg2010g_uenv_consume_recovery_trigger b (uenv_mem li) (rw s) else (0, False, rw s)) = (r, t, w)"
    by (metis prod_cases3)
  obtain p ps2 w2 where d: "xg2010g_detect_ubi_part b ps (xg2010g_sync_runtime_ethaddrs b (env_result (late_boot li)) (mac_mem li) w) = (p, ps2, w2)"
    by (metis prod_cases3)
  have "s1 = s\<lparr>rw := w2\<lparr>env := late_boot_env (env_result (late_boot li)) p (default_bootargs li) (env w2)\<rparr>\<rparr>"
    using assms(3) by (simp only: late_setup_def Let_def u d prod.case prod.inject)
  then show ?thesis using detect_part_ubi [OF assms(2) d] boot_env_forced(1) [OF assms(1)] by simp
qed

text \<open>The call of the server, with the inputs of the board.\<close>

abbreviation (input) late_server ::
    "'d board \<Rightarrow> ('d, 'm) late_in \<Rightarrow> ubi_probe \<Rightarrow> ('d, 'm) recovery \<Rightarrow> (run_exit \<times> ('d, 'm) recovery) option" where
  "late_server b li ps \<equiv>
     run_http_recovery (recovery_get_board_ops b) (xg2010g_sync_factory_part b (late_sync li))
       (\<lambda>w. let (ret, _, w) = xg2010g_sync_factory b (late_sync li) ps w in (ret, w))
       (late_mdio li) (late_boot li) (late_inputs li)"

definition recovery_ready :: "'d board \<Rightarrow> string option \<Rightarrow> envs \<Rightarrow> bool" where
  "recovery_ready b dflt e \<longleftrightarrow>
     boot_recipe dflt e \<and> e ''ipaddr'' \<noteq> None \<and> e ''netmask'' \<noteq> None \<and> e ''gatewayip'' \<noteq> None \<and>
     env_get_hex e ''recovery_addr'' 0 = late_recovery_addr b"

lemma recovery_env_ready:
  assumes "\<And>n. outcome n = 0" "boot_recipe dflt e"
  shows "recovery_ready b dflt (late_recovery_env b outcome e)"
proof -
  have "late_recovery_env b outcome e n = e n" if "n \<in> recipe_vars" for n
    using that by (intro recovery_env_defined(5) [OF assms(1)]) (auto simp: recipe_vars_def)
  then have "boot_recipe dflt (late_recovery_env b outcome e)" using assms(2) recipe_cong by metis
  then show ?thesis unfolding recovery_ready_def using recovery_env_defined(1-4) [of outcome, OF assms(1)] by blast
qed

lemma late_recover_cases:
  assumes "late_recover b li ps s = Some (x, s')" "\<And>n. env_result (late_boot li) n = 0" "boot_recipe (default_bootargs li) (env (rw s))"
  shows "\<exists>s2. recovery_ready b (default_bootargs li) (env (rw s2)) \<and> env (rw s2) ''recovery_trigger'' = env (rw s) ''recovery_trigger'' \<and>
    (if httpd_enabled li
     then \<exists>y s3. late_server b li ps s2 = Some (y, s3) \<and> x = RecoveryRun y \<and>
            ((\<exists>rc. y = Returned rc) \<longrightarrow> env (rw s') ''bootdelay'' = Some ''-1'')
     else x = RecoveryDisabled \<and> s' = s2)"
proof -
  let ?o = "env_result (late_boot li)"
  define s2 where "s2 = upd_env (late_recovery_env b ?o) s"
  have r: "recovery_ready b (default_bootargs li) (env (rw s2))" using recovery_env_ready [OF assms(2,3)] by (simp add: s2_def)
  have t: "env (rw s2) ''recovery_trigger'' = env (rw s) ''recovery_trigger''"
    using recovery_env_defined(5) [of ?o "''recovery_trigger''" b] assms(2) by (simp add: s2_def)
  have run: "(if \<not> httpd_enabled li then Some (RecoveryDisabled, s2)
     else map_option (\<lambda>(x, s). (RecoveryRun x, case x of Returned _ \<Rightarrow> upd_env (\<lambda>e. snd (env_set ?o ''bootdelay'' (Some ''-1'') e)) s | _ \<Rightarrow> s))
       (late_server b li ps s2)) = Some (x, s')"
    using assms(1) by (simp only: late_recover_def Let_def s2_def)
  show ?thesis
  proof (cases "httpd_enabled li")
    case True
    obtain y s3 where l: "late_server b li ps s2 = Some (y, s3)" using run True by (cases "late_server b li ps s2") auto
    then have "x = RecoveryRun y" "(\<exists>rc. y = Returned rc) \<longrightarrow> env (rw s') ''bootdelay'' = Some ''-1''"
      using run True assms(2) by (auto simp: env_set_def)
    then show ?thesis using r t l True by auto
  qed (use r t run in auto)
qed

text \<open>
  The decision: the flag in \<^verbatim>\<open>uenv\<close>, the variable, or the button. \<open>e\<close> is the environment after the set-up.
\<close>

definition recovery_asked :: "'d board \<Rightarrow> ('d, 'm) late_in \<Rightarrow> bool \<Rightarrow> envs \<Rightarrow> bool" where
  "recovery_asked b li trig e \<longleftrightarrow>
     trig \<or> e ''recovery_trigger'' = Some ''1'' \<or> button_held b e (button0 li) (button_samples li)"

lemma late_init_steps:
  assumes "board_late_init b li ps s = Some (x, ps', s')" "late_setup b li ps s = (trig, ps1, s1)"
    "\<And>n. env_result (late_boot li) n = 0"
  shows "ps' = ps1"
    and "recovery_asked b li trig (env (rw s1)) \<Longrightarrow>
      \<exists>s2. rw s2 = (if \<not> trig \<and> env (rw s1) ''recovery_trigger'' = Some ''1'' then (rw s1)\<lparr>env := (env (rw s1))(''recovery_trigger'' \<mapsto> ''0'')\<rparr> else rw s1) \<and>
        late_recover b li ps1 s2 = Some (x, s')"
    and "\<not> recovery_asked b li trig (env (rw s1)) \<Longrightarrow> x \<in> {NormalBoot, WaitingForButton} \<and> rw s' = rw s1"
proof -
  let ?e = "env (rw s1)" and ?o = "env_result (late_boot li)"
  obtain c r where c: "xg2010g_recovery_button_confirmed b ?e (button0 li) (button_samples li) (gpio_regs s1) = (c, r)"
    by (metis prod.exhaust)
  then have h: "c = Some True \<longleftrightarrow> button_held b ?e (button0 li) (button_samples li)"
    using button_confirmed_held [of b ?e "button0 li" "button_samples li" "gpio_regs s1"] by simp
  define s2 where "s2 = upd_env (\<lambda>e. snd (env_set ?o ''recovery_trigger'' (Some ''0'') e)) s1"
  have s2: "rw s2 = (rw s1)\<lparr>env := (env (rw s1))(''recovery_trigger'' \<mapsto> ''0'')\<rparr>" using assms(3) by (simp add: s2_def env_set_def)
  define s3 where "s3 = s1\<lparr>gpio_regs := r\<rparr>"
  have s3: "rw s3 = rw s1" by (simp add: s3_def)
  have run: "(if trig then map_option (\<lambda>(x, s). (x, ps1, s)) (late_recover b li ps1 s1)
     else if ?e ''recovery_trigger'' = Some ''1'' then map_option (\<lambda>(x, s). (x, ps1, s)) (late_recover b li ps1 s2)
     else case c of None \<Rightarrow> Some (WaitingForButton, ps1, s3) | Some False \<Rightarrow> Some (NormalBoot, ps1, s3)
       | Some True \<Rightarrow> map_option (\<lambda>(x, s). (x, ps1, s)) (late_recover b li ps1 s3)) = Some (x, ps', s')"
    using assms(1) by (simp only: board_late_init_def assms(2) Let_def c prod.case s2_def s3_def)
  show "ps' = ps1" using run by (auto split: if_splits option.splits bool.splits)
  show "recovery_asked b li trig ?e \<Longrightarrow>
      \<exists>s2. rw s2 = (if \<not> trig \<and> ?e ''recovery_trigger'' = Some ''1'' then (rw s1)\<lparr>env := ?e(''recovery_trigger'' \<mapsto> ''0'')\<rparr> else rw s1) \<and>
        late_recover b li ps1 s2 = Some (x, s')"
    using run s2 s3 h by (auto simp: recovery_asked_def split: if_splits)
  show "\<not> recovery_asked b li trig ?e \<Longrightarrow> x \<in> {NormalBoot, WaitingForButton} \<and> rw s' = rw s1"
    using run s3 h by (auto simp: recovery_asked_def split: if_splits option.splits bool.splits)
qed


definition sample_button :: "int \<Rightarrow> button_in" where
  "sample_button v = \<lparr>gpio_request = 0, gpio_value = v, gpio_args = Inl 0, gpio_data = \<lambda>_. 0\<rparr>"

definition released_in :: "(int \<Rightarrow> u8, unit) late_in" where
  "released_in = \<lparr>uenv_mem = None, mac_mem = True, button0 = sample_button 1, button_samples = [(sample_button 1, 10), (sample_button 0, 110)],
     default_bootargs = Some ''console=ttyS0,115200n8'', httpd_enabled = True, late_sync = synced_in, late_mdio = (\<lambda>m _ _. (0, m)),
     late_boot = sample_boot, late_inputs = []\<rparr>"

definition blank_board :: "(int \<Rightarrow> u8) board" where
  "blank_board = sample_board\<lparr>brd_compat := (\<lambda>s. s = ''gemtek,xg2010g''), brd_mtds := []\<rparr>"

lemma blank_setup:
  "late_setup blank_board released_in initial_probe (sample_recovery (server_start e m d)) =
    (False, initial_probe\<lparr>ubi_layout_probed := True\<rparr>,
     upd_env (late_boot_env (\<lambda>_. 0) ''ubi'' (Some ''console=ttyS0,115200n8'')) (sample_recovery (server_start e m d)))"
  if "e ''ethaddr'' = None" "e ''eth1addr'' = None"
proof -
  have g: "get_mtd blank_board n w = (Inl (-ENODEV), w)" for n and w :: "(int \<Rightarrow> u8) rworld"
    by (simp add: get_mtd_def get_mtd_device_nm_def blank_board_def)
  have c: "xg2010g_is_compatible blank_board" by (simp add: xg2010g_is_compatible_def blank_board_def)
  have z: "\<not> fst (eth_env_get_enetaddr e ''ethaddr'')" "\<not> fst (eth_env_get_enetaddr e ''eth1addr'')"
    using that by (simp_all add: eth_env_get_enetaddr_def string_to_enetaddr_def is_valid_ethaddr_def is_zero_ethaddr_def)
  have s: "xg2010g_sync_runtime_ethaddrs blank_board (\<lambda>_. 0) True (rw (sample_recovery (server_start e m d))) = rw (sample_recovery (server_start e m d))"
    using z by (simp add: xg2010g_sync_runtime_ethaddrs_def c xg2010g_get_runtime_ethaddr_def xg2010g_get_dsd_recovery_ethaddr_def
        xg2010g_read_dsd_data_def g Let_def case_prod_beta sample_recovery_def server_start_def initial_world_def)
  show ?thesis
    by (simp add: late_setup_def c xg2010g_uenv_consume_recovery_trigger_def g xg2010g_detect_ubi_part_def initial_probe_def
        released_in_def sample_boot_def s xg2010g_ubi_layouts_def xg2010g_ubi_geometry_def Let_def)
qed


end
