(* ===== verification/Spec2Isabelle.thy ===== *)
theory Spec2Isabelle
  imports BoardInit
begin

text \<open>
  A verification development for the HTTP recovery system of the XG2010G/XR1710G boot loader: U-Boot
  with an upload server that rewrites the flash of the router. All paths are relative to \<^verbatim>\<open>src/\<close>.

  \<^bold>\<open>The program and its parts.\<close> At power-on \<^verbatim>\<open>board_late_init\<close> (\<^verbatim>\<open>board/airoha/an7581/an7581_rfb.c\<close>) consumes
  the one-shot flag in the partition \<^verbatim>\<open>uenv\<close>, takes the Ethernet address from the calibration partition
  \<^verbatim>\<open>dsd\<close>, probes the UBI partition, forces the boot recipe and decides whether to start the recovery
  server. The server, \<^verbatim>\<open>run_http_recovery\<close> (\<^verbatim>\<open>net/lwip/httpd_recovery.c\<close>), sets up the one network port,
  answers DHCP, serves pages and partition backups, receives an upload into RAM, and in its main
  loop writes an accepted upload to raw MTD or to a UBI volume and resets the board. While it
  writes, it keeps the network alive through \<^verbatim>\<open>recovery_service_runtime\<close>, so that packets arrive in the
  middle of a flash operation. Below it are the HTTP server of lwIP, the glue in \<^verbatim>\<open>net/lwip/net-lwip.c\<close>,
  the MTD core and the UBI volume layer.

  \<^bold>\<open>Theories and sources\<close>, in the order of their imports.
  \<^item> \<open>Prelude\<close>: machine integers, error numbers, bounds-checked reads of a byte buffer (\<^term>\<open>None\<close> for a
    read outside), C string helpers, and the lemmas the components share.
  \<^item> \<open>Fip\<close>: the check of a boot loader package (\<^verbatim>\<open>recovery_validate_mtd0_bootloader_image\<close> and its helpers).
  \<^item> \<open>Dhcp\<close>: the DHCP server (\<^verbatim>\<open>recovery_dhcp_*\<close>).
  \<^item> \<open>Gpio\<close>, \<open>Leds\<close>: the register helpers, the status LEDs with hardware and software PWM, and the
    link LEDs over MDIO.
  \<^item> \<open>Mtd\<close>: the entry points of \<^verbatim>\<open>drivers/mtd/mtdcore.c\<close> and the partitions of \<^verbatim>\<open>drivers/mtd/mtdpart.c\<close>.
  \<^item> \<open>World\<close>: the state, the record \<open>world\<close>: the file-scope variables of the server, RAM, environment,
    flash (\<open>dev\<close>, of a type the driver chooses), the attached UBI device, use counts of the MTD
    devices, and an open-ended part for the network.
  \<^item> \<open>MtdFlash\<close>: erasing and writing a raw region (\<^verbatim>\<open>recovery_mtd_*\<close>).
  \<^item> \<open>Ubi\<close>: volume management (\<^verbatim>\<open>drivers/mtd/ubi/vmt.c\<close>, \<^verbatim>\<open>kapi.c\<close>, \<^verbatim>\<open>upd.c\<close>, \<^verbatim>\<open>misc.c\<close>).
  \<^item> \<open>Target\<close>: where an upload goes and how large it may be; the record \<open>board\<close> describes the board.
  \<^item> \<open>Backup\<close>: the status page and the streamed backups behind \<^verbatim>\<open>fs_open_custom\<close>.
  \<^item> \<open>Http\<close>: the POST callbacks, the POST part of lwIP's \<^verbatim>\<open>apps/http/httpd.c\<close>, the reboot timer and the
    runtime service; \<open>handle_event\<close> is one event on a connection and \<open>server_reachable\<close> the inductive
    set of states that events lead to.
  \<^item> \<open>RecoveryUbi\<close>, \<open>FlashImage\<close>: the UBI target and \<^verbatim>\<open>flash_image\<close> with both back ends.
  \<^item> \<open>NetLwip\<close>: the DHCP frame filter, receive loop, hooks and interfaces, and \<^verbatim>\<open>ip4addr_aton\<close>.
  \<^item> \<open>MainLoop\<close>: network set-up, the main loop and \<^verbatim>\<open>run_http_recovery\<close> to each of its returns, and the
    command of \<^verbatim>\<open>cmd/http_recovery.c\<close>.
  \<^item> \<open>Crc\<close>, \<open>Uenv\<close>, \<open>Dsd\<close>, \<open>Bootargs\<close>, \<open>BoardUbi\<close>, \<open>BoardInit\<close>: \<^verbatim>\<open>lib/crc32.c\<close> and the board file: the
    one-shot flag, the factory addresses (with Ethernet addresses in text), the search in the kernel
    command line, the UBI layout and the factory volume (with \<^verbatim>\<open>ubi_volume_read\<close> and
    \<^verbatim>\<open>ubi_volume_write\<close> of \<^verbatim>\<open>cmd/ubi.c\<close>), the button, and late initialisation.

  \<^bold>\<open>Style of the model.\<close> A C function is one definition of the same name; a part of a long function or a
  loop that is a definition of its own is named after what it does. State is passed explicitly.
  Results are the \<^verbatim>\<open>int\<close> of the source; a sum type holds an error or an object. Integers have their
  width where the code can wrap (sizes, timers, payload fields, addresses); lengths of objects in
  memory are natural numbers.

  \<^bold>\<open>Interfaces.\<close> The locale \<open>flash_store\<close> (\<open>Mtd\<close>) states what erase and write do to the bytes of a
  device; it is interpreted on the MTD entry points as \<open>mtdcore\<close> for every driver that meets
  \<open>driver_ok\<close>. The locale \<open>runtime\<close> (\<open>MtdFlash\<close>) states what the flash loops need of the service they
  call between blocks: it keeps an invariant and changes no flash byte; \<open>flash_runtime\<close> and
  \<open>flash_server\<close> (\<open>RecoveryUbi\<close>, \<open>FlashImage\<close>) extend it. They are interpreted on the real service,
  \<open>recovery_service_runtime\<close> with the server invariant (\<open>rt\<close>, \<open>fs\<close>), and once more with an invariant
  about pending reboots (\<open>fq\<close>), so that the facts about flashing hold with the network running in
  between. \<open>sync_ok\<close> is what flashing needs of the board's two synchronisation methods; \<open>BoardUbi\<close> shows
  it for the methods of this board, and \<open>board_server_sound\<close> below puts both together.

  \<^bold>\<open>What the lemmas show.\<close>
  \<^item> Uploads: in every reachable state the buffer is inside RAM, only complete uploads are flashed, one
    connection owns the body, received bytes are stored in order, where an upload goes cannot be
    redirected, and an upload is never stuck as busy without an owner.
  \<^item> Flashing: the boot loader is only replaced by a valid package, raw writes stay inside their
    region and store the image byte for byte on success, and the firmware ends as a static volume
    with exactly the uploaded bytes; packets served meanwhile change neither flash nor image.
  \<^item> Storage: partitions confine erase and write; the volume operations keep a well-formed device
    and its eraseblock accounts, also when they fail.
  \<^item> Network: the frame filter and the DHCP server never read outside a packet, accept exactly the
    intended frames and requests, and every frame is freed once.
  \<^item> Main loop: the invariant holds over any inputs, a reset happens only after a successful flash or
    a request, it does happen after a successful flash, and every exit gives back the interface and
    the hooks.
  \<^item> Board: the flag is consumed exactly once, checksums and addresses are exact, and the boot recipe
    and the decision for recovery are as intended.

  \<^bold>\<open>Bounds and fuel.\<close> The main loop and the wait for the button are functions of the list of what each
  iteration sees; every statement holds for lists of any length, and the wait is shown to end within
  301 looks at 100 ms. All other loops are total functions: structural recursion, or a measure
  (remaining bytes, remaining entries). The receive loop takes at most 32 frames, as the source does.

  \<^bold>\<open>Parameters.\<close> Flash drivers (\<open>driver_ok\<close>), the UBI layers below the volumes (\<open>ubi_low\<close>, \<open>low_ok\<close>), the
  MDIO bus, the device tree, allocation and send results, the results of \<^verbatim>\<open>env_set\<close>, times and keys are
  arguments; each hypothesis about them has an instance in the development.

  \<^bold>\<open>Not modelled.\<close> UBI attaching, wear levelling and eraseblock association, the NAND, SNFI, Ethernet and
  PHY drivers, the TCP/IP core of lwIP and its GET path: code below the interfaces above, taken as
  parameters. The storage of the environment, the command line and booting an image: not reached by
  the recovery code. Console output, \<^verbatim>\<open>board_init\<close> and the version strings: no logic. The static pages:
  assets. Other boards and architectures of U-Boot: not built for this device.
\<close>

section \<open>The server on its board\<close>

text \<open>
  The main loop with the board operations and the synchronisation methods of the board file keeps
  the server invariant, and resets the board only on a reboot request.
\<close>

lemma board_server_sound:
  fixes b :: "'d board"
  assumes "server_inv content (recovery_get_board_ops b) (rw s)"
    and "recovery_loop (recovery_get_board_ops b) (xg2010g_sync_factory_part b si)
      (\<lambda>w. let (ret, _, w) = xg2010g_sync_factory b si ps w in (ret, w)) rdm use_leds inputs s = (e, s')"
  shows "server_inv content (recovery_get_board_ops b) (rw s') \<and> (e = Some BoardReset \<longrightarrow> reboot_request (rw s'))"
proof -
  have "sync_ok (xg2010g_sync_factory_part b si :: _ \<Rightarrow> 'd rworld \<Rightarrow> _) (\<lambda>w. let (ret, _, w) = xg2010g_sync_factory b si ps w in (ret, w))"
    by (simp add: sync_ok_def case_prod_beta Let_def sync_part_beyond sync_all_beyond)
  from loop_invs [OF assms(1) this assms(2)] show ?thesis by blast
qed

end
